(* ===== verification/Prelude.thy ===== *)
theory Prelude
  imports Main "HOL-Library.Word" "HOL-Library.List_Lexorder" "HOL-Library.Sublist"
    "HOL-Library.Multiset" "HOL-Library.AList"
begin

text \<open>
  What the components share: bytes and byte slices, Go's sum-typed results, the parts of
  Go's standard library the sources call (\<^verbatim>\<open>encoding/binary\<close> little-endian integers and
  unsigned varints, \<^verbatim>\<open>bytes.Compare\<close>, \<^verbatim>\<open>strings.HasPrefix\<close>, \<^verbatim>\<open>copy\<close> into a fixed array),
  and generic lemmas about lists and byte-wise exclusive or.  Go strings
  whose bytes matter are byte lists; \<^verbatim>\<open>nil\<close> and the empty slice are both the empty list.
\<close>

unbundle bit_operations_syntax

named_theorems bytes_simps "sizes and concatenation laws of the byte encoders"
named_theorems xor_simps "byte-wise exclusive or"

section \<open>Types\<close>

type_synonym byte = "8 word"
type_synonym bytes = "byte list"
type_synonym u16 = "16 word"
type_synonym u32 = "32 word"
type_synonym u64 = "64 word"

lemma unat_byte_less: "unat (b::byte) < 256"
proof -
  have "unat b < 2 ^ LENGTH(8)" by (rule unsigned_less)
  then show ?thesis by simp
qed

section \<open>Results\<close>

text \<open>A Go function returning \<open>(T, error)\<close> is a sum: the error on the left.\<close>

primrec bind_res :: "'e + 'a \<Rightarrow> ('a \<Rightarrow> 'e + 'b) \<Rightarrow> 'e + 'b" where
  "bind_res (Inl e) f = Inl e"
| "bind_res (Inr x) f = f x"

lemma bind_res_Inr_iff: "bind_res r f = Inr y \<longleftrightarrow> (\<exists>x. r = Inr x \<and> f x = Inr y)"
  by (cases r) auto

lemma bind_res_Inl_iff:
  "bind_res r f = Inl e \<longleftrightarrow> r = Inl e \<or> (\<exists>x. r = Inr x \<and> f x = Inl e)"
  by (cases r) auto

primrec map_res :: "('a \<Rightarrow> 'e + 'b) \<Rightarrow> 'a list \<Rightarrow> 'e + 'b list" where
  "map_res f [] = Inr []"
| "map_res f (x # xs) = bind_res (f x) (\<lambda>y. bind_res (map_res f xs) (\<lambda>ys. Inr (y # ys)))"

lemma map_res_Inr_iff:
  "map_res f xs = Inr ys \<longleftrightarrow> list_all2 (\<lambda>x y. f x = Inr y) xs ys"
  by (induction xs arbitrary: ys) (auto simp: bind_res_Inr_iff list_all2_Cons1)

lemma map_res_append:
  "map_res f (xs @ ys) =
     bind_res (map_res f xs) (\<lambda>as. bind_res (map_res f ys) (\<lambda>bs. Inr (as @ bs)))"
proof (induction xs)
  case Nil
  show ?case by (cases "map_res f ys") simp_all
next
  case (Cons x xs)
  show ?case
    by (cases "f x"; cases "map_res f xs"; cases "map_res f ys") (simp_all add: Cons)
qed

lemma map_res_cong_Inr:
  "(\<And>x. x \<in> set xs \<Longrightarrow> f x = Inr (g x)) \<Longrightarrow> map_res f xs = Inr (map g xs)"
  by (induction xs) auto

section \<open>Slices, copies and arrays\<close>

text \<open>\<open>copy(dst[:], src)\<close> into a zeroed \<open>[n]byte\<close>.\<close>

definition copy_array :: "nat \<Rightarrow> bytes \<Rightarrow> bytes" where
  "copy_array n src = take n (src @ replicate n 0)"

lemma length_copy_array [simp]: "length (copy_array n src) = n"
  by (simp add: copy_array_def)

lemma copy_array_id [simp]: "length src = n \<Longrightarrow> copy_array n src = src"
  by (simp add: copy_array_def)

text \<open>The \<open>pageSize\<close>-byte buffer of \<open>make([]byte, n)\<close> with \<open>src\<close> copied to its front.\<close>

definition pad_to :: "nat \<Rightarrow> bytes \<Rightarrow> bytes" where
  "pad_to n src = src @ replicate (n - length src) 0"

lemma length_pad_to [simp]: "length src \<le> n \<Longrightarrow> length (pad_to n src) = n"
  by (simp add: pad_to_def)

lemma take_pad_to: "k \<le> length src \<Longrightarrow> take k (pad_to n src) = take k src"
  by (simp add: pad_to_def)

text \<open>\<open>xs[a:b]\<close>; \<open>None\<close> is the run-time panic of an out-of-range slice.\<close>

definition slice :: "nat \<Rightarrow> nat \<Rightarrow> 'a list \<Rightarrow> 'a list option" where
  "slice a b xs = (if a \<le> b \<and> b \<le> length xs then Some (take (b - a) (drop a xs)) else None)"

lemma slice_Some: "a \<le> b \<Longrightarrow> b \<le> length xs \<Longrightarrow> slice a b xs = Some (take (b - a) (drop a xs))"
  by (simp add: slice_def)

lemma slice_concat_uniform:
  assumes "\<forall>p \<in> set ps. length p = n" and "i < length ps"
  shows "take n (drop (i * n) (concat ps)) = ps ! i"
  using assms
proof (induction ps arbitrary: i)
  case Nil
  then show ?case by simp
next
  case (Cons p ps)
  show ?case
  proof (cases i)
    case 0
    with Cons.prems show ?thesis by simp
  next
    case (Suc j)
    with Cons.prems Cons.IH [of j] show ?thesis by simp
  qed
qed

lemma length_concat_uniform: "\<forall>p \<in> set ps. length p = n \<Longrightarrow> length (concat ps) = length ps * n"
  by (induction ps) auto

section \<open>Little-endian integers (encoding/binary)\<close>

primrec le_bytes :: "nat \<Rightarrow> 'a::len word \<Rightarrow> bytes" where
  "le_bytes 0 w = []"
| "le_bytes (Suc n) w = ucast w # le_bytes n (drop_bit 8 w)"

primrec le_word :: "bytes \<Rightarrow> 'a::len word" where
  "le_word [] = 0"
| "le_word (b # bs) = ucast b OR push_bit 8 (le_word bs)"

text \<open>\<open>PutUint16\<close>, \<open>PutUint32\<close>, \<open>PutUint64\<close> and the readers \<open>Uint16\<close>, \<open>Uint32\<close>, \<open>Uint64\<close>.\<close>

definition put_u16 :: "u16 \<Rightarrow> bytes" where "put_u16 w = le_bytes 2 w"
definition put_u32 :: "u32 \<Rightarrow> bytes" where "put_u32 w = le_bytes 4 w"
definition put_u64 :: "u64 \<Rightarrow> bytes" where "put_u64 w = le_bytes 8 w"
definition get_u16 :: "bytes \<Rightarrow> u16" where "get_u16 b = le_word (take 2 b)"
definition get_u32 :: "bytes \<Rightarrow> u32" where "get_u32 b = le_word (take 4 b)"
definition get_u64 :: "bytes \<Rightarrow> u64" where "get_u64 b = le_word (take 8 b)"

lemma length_le_bytes [simp]: "length (le_bytes n w) = n"
  by (induction n arbitrary: w) auto

lemma length_put [simp, bytes_simps]:
  "length (put_u16 a) = 2" "length (put_u32 b) = 4" "length (put_u64 c) = 8"
  by (simp_all add: put_u16_def put_u32_def put_u64_def)

lemma le_word_le_bytes:
  fixes w :: "'a::len word"
  shows "le_word (le_bytes n w) = take_bit (8 * n) w"
proof (induction n arbitrary: w)
  case 0
  show ?case by simp
next
  case (Suc n)
  show ?case
    by (rule bit_word_eqI) (auto simp: Suc bit_simps not_less)
qed

lemma get_put [simp]:
  "get_u16 (put_u16 a @ r) = a" "get_u32 (put_u32 b @ r) = b" "get_u64 (put_u64 c @ r) = c"
  by (simp_all add: get_u16_def put_u16_def get_u32_def put_u32_def get_u64_def put_u64_def
      le_word_le_bytes take_bit_word_eq_self)

lemma get_put_nil [simp]:
  "get_u16 (put_u16 a) = a" "get_u32 (put_u32 b) = b" "get_u64 (put_u64 c) = c"
  using get_put [where r = "[]"] by simp_all

lemma put_u64_inj: "put_u64 a = put_u64 b \<longleftrightarrow> a = b"
  by (metis get_put_nil(3))

section \<open>Unsigned varints (binary.PutUvarint, binary.Uvarint)\<close>

text \<open>
  \<open>PutUvarint\<close> emits seven bits per byte, least significant first, with the top bit set on
  every byte but the last.  \<open>Uvarint\<close> returns the value and the number of bytes read: 0 when
  the buffer ends early, negative on overflow past 64 bits.
\<close>

function put_uvarint :: "u64 \<Rightarrow> bytes" where
  "put_uvarint x =
     (if x \<ge> 0x80 then (ucast x OR 0x80) # put_uvarint (drop_bit 7 x) else [ucast x])"
  by pat_completeness auto
termination
proof (relation "measure unat")
  fix x :: u64
  assume "x \<ge> 0x80"
  then have "128 \<le> unat x" by (simp add: word_le_nat_alt)
  then have "unat x div 128 < unat x" by simp
  then show "(drop_bit 7 x, x) \<in> measure unat" by (simp add: drop_bit_eq_div unat_div)
qed simp

declare put_uvarint.simps [simp del]

fun uvarint_from :: "nat \<Rightarrow> u64 \<Rightarrow> bytes \<Rightarrow> u64 \<times> int" where
  "uvarint_from i x [] = (0, 0)"
| "uvarint_from i x (b # bs) =
     (if i = 10 then (0, - int (i + 1))
      else if b < 0x80 then
        (if i = 9 \<and> b > 1 then (0, - int (i + 1))
         else (x OR push_bit (7 * i) (ucast b), int (i + 1)))
      else uvarint_from (Suc i) (x OR push_bit (7 * i) (ucast (b AND 0x7f))) bs)"

definition uvarint :: "bytes \<Rightarrow> u64 \<times> int" where
  "uvarint buf = uvarint_from 0 0 buf"

lemma put_uvarint_nonempty [simp]: "put_uvarint x \<noteq> []"
  by (subst put_uvarint.simps) simp

lemma take_bit_7_iff:
  "take_bit 7 (w::byte) = w \<longleftrightarrow> w < 0x80" "take_bit 7 (v::u64) = v \<longleftrightarrow> v < 0x80"
  using mask_eq_iff_w2p [of 7 w] mask_eq_iff_w2p [of 7 v]
  by (simp_all add: word_size take_bit_eq_mask)

lemma uvarint_byte_low: "(ucast ((ucast (x::u64) OR 0x80 :: byte) AND 0x7f) :: u64) = x AND 0x7f"
proof -
  have m: "(0x7f::u64) = mask 7" "(0x7f::byte) = mask 7" by (simp_all add: mask_eq_exp_minus_1)
  have h: "(0x80::byte) = push_bit 7 1" by simp
  show ?thesis unfolding m h
    by (rule bit_word_eqI) (auto simp: bit_simps simp del: push_bit_of_1)
qed
lemma uvarint_byte_high: "\<not> (ucast (x::u64) OR 0x80 :: byte) < 0x80"
proof
  assume a: "(ucast (x::u64) OR 0x80 :: byte) < 0x80"
  have h: "(0x80::byte) = push_bit 7 1" by simp
  have b: "bit ((ucast (x::u64) OR 0x80 :: byte)) 7" unfolding h
    by (auto simp: bit_simps simp del: push_bit_of_1)
  from a have "take_bit 7 (ucast (x::u64) OR 0x80 :: byte) = ucast x OR 0x80"
    by (simp only: take_bit_7_iff)
  with b show False by (metis bit_take_bit_iff less_irrefl)
qed

lemma uvarint_split:
  "push_bit s (x AND 0x7f) OR push_bit (s + 7) (drop_bit 7 x) = push_bit s (x::u64)"
proof (rule bit_word_eqI)
  have m: "(0x7f::u64) = mask 7" by (simp add: mask_eq_exp_minus_1)
  fix n
  assume "n < LENGTH(64)"
  show "bit (push_bit s (x AND 0x7f) OR push_bit (s + 7) (drop_bit 7 x)) n = bit (push_bit s x) n"
  proof (cases "s + 7 \<le> n")
    case True
    then have "n - s = 7 + (n - (s + 7))" by simp
    with True show ?thesis unfolding m by (auto simp: bit_simps)
  next
    case False
    then show ?thesis unfolding m by (auto simp: bit_simps)
  qed
qed

lemma uvarint_small:
  assumes "\<not> x \<ge> (0x80::u64)"
  shows "(ucast x :: byte) < 0x80" and "ucast (ucast x :: byte) = x"
proof -
  from assms have "take_bit 7 x = x" by (simp add: take_bit_7_iff)
  then have b: "n < 7" if "bit x n" for n
    using that by (metis bit_take_bit_iff)
  show "ucast (ucast x :: byte) = x"
    by (rule bit_word_eqI) (use b in \<open>fastforce simp: bit_simps\<close>)
  have "take_bit 7 (ucast x :: byte) = ucast x"
    by (rule bit_word_eqI) (use b in \<open>auto simp: bit_simps\<close>)
  then show "(ucast x :: byte) < 0x80" by (simp only: take_bit_7_iff)
qed

lemma uvarint_from_put:
  assumes "i < 10" and "unat x < 2 ^ (64 - 7 * i)"
  shows "uvarint_from i acc (put_uvarint x @ r) =
     (acc OR push_bit (7 * i) x, int (i + length (put_uvarint x)))"
  using assms
proof (induction x arbitrary: i acc rule: put_uvarint.induct)
  case (1 x)
  show ?case
  proof (cases "x \<ge> 0x80")
    case True
    then have "128 \<le> unat x" by (simp add: word_le_nat_alt)
    with 1(3) have "(2::nat) ^ 7 < 2 ^ (64 - 7 * i)" by simp
    then have i: "7 < 64 - 7 * i" by (subst (asm) power_strict_increasing_iff) simp_all
    then have 9: "i < 9" by simp
    have e: "64 - 7 * i = (64 - 7 * Suc i) + 7" using i by simp
    have "unat (drop_bit 7 x) < 2 ^ (64 - 7 * Suc i)"
      using 1(3) unfolding e power_add by (simp add: drop_bit_eq_div unat_div less_mult_imp_div_less)
    with 1(1) True 9 have IH: "uvarint_from (Suc i) (acc OR push_bit (7 * i) (x AND 0x7f)) (put_uvarint (drop_bit 7 x) @ r)
      = ((acc OR push_bit (7 * i) (x AND 0x7f)) OR push_bit (7 * Suc i) (drop_bit 7 x), int (Suc i + length (put_uvarint (drop_bit 7 x))))"
      by simp
    have s: "(acc OR push_bit (7 * i) (x AND 0x7f)) OR push_bit (7 * Suc i) (drop_bit 7 x) = acc OR push_bit (7 * i) x"
      using uvarint_split [of "7 * i" x] by (simp add: or.assoc add.commute)
    show ?thesis
      using True 1(2) IH s uvarint_byte_high [of x]
      by (subst (1 2) put_uvarint.simps) (simp add: uvarint_byte_low)
  next
    case False
    note sm = uvarint_small [OF False]
    have "\<not> (i = 9 \<and> (ucast x :: byte) > 1)"
    proof
      assume a: "i = 9 \<and> (ucast x :: byte) > 1"
      with 1(3) have "unat x < 2" by simp
      then have "x = 0 \<or> x = 1" by (auto simp: less_2_cases_iff word_unat_eq_iff)
      with a show False by auto
    qed
    then show ?thesis
      using False 1(2) sm by (subst (1 2) put_uvarint.simps) auto
  qed
qed

lemma uvarint_put [simp]: "uvarint (put_uvarint x @ r) = (x, int (length (put_uvarint x)))"
  using uvarint_from_put [of 0 x 0 r] unsigned_less[of x] by (simp add: uvarint_def)


lemma length_put_uvarint_pos [simp]: "0 < length (put_uvarint x)"
  by simp

lemma put_uvarint_inj: "put_uvarint a @ r = put_uvarint b @ q \<Longrightarrow> a = b \<and> r = q"
proof -
  assume e: "put_uvarint a @ r = put_uvarint b @ q"
  then have "uvarint (put_uvarint a @ r) = uvarint (put_uvarint b @ q)" by simp
  then have "a = b" by simp
  with e show ?thesis by simp
qed

section \<open>Ordering and prefixes of byte slices\<close>

text \<open>\<open>bytes.Compare\<close>; a proper prefix is smaller.\<close>

fun bytes_compare :: "bytes \<Rightarrow> bytes \<Rightarrow> int" where
  "bytes_compare [] [] = 0"
| "bytes_compare [] (b # bs) = -1"
| "bytes_compare (a # as) [] = 1"
| "bytes_compare (a # as) (b # bs) =
     (if a < b then -1 else if b < a then 1 else bytes_compare as bs)"

text \<open>It decides the library's lexicographic order on lists.\<close>

lemma bytes_compare_iff:
  "bytes_compare a b < 0 \<longleftrightarrow> a < b" "bytes_compare a b > 0 \<longleftrightarrow> b < a"
  "bytes_compare a b = 0 \<longleftrightarrow> a = b"
  by (induction a b rule: bytes_compare.induct) auto

lemma bytes_compare_le: "bytes_compare a b \<le> 0 \<longleftrightarrow> a \<le> b" "bytes_compare a b \<ge> 0 \<longleftrightarrow> b \<le> a"
  using bytes_compare_iff [of a b] by (simp_all flip: not_less)

text \<open>\<open>strings.HasPrefix(s, p)\<close>.\<close>

definition has_prefix :: "'a list \<Rightarrow> 'a list \<Rightarrow> bool" where
  "has_prefix s p \<longleftrightarrow> take (length p) s = p"

lemma has_prefix_iff: "has_prefix s p \<longleftrightarrow> prefix p s"
  by (metis append_eq_conv_conj append_take_drop_id has_prefix_def prefix_def)

lemma prefix_le_list: "prefix p (s :: 'a::linorder list) \<Longrightarrow> p \<le> s"
proof (induction p arbitrary: s)
  case (Cons a p)
  then show ?case by (cases s) auto
qed simp

section \<open>Byte-wise exclusive or\<close>

text \<open>The loops \<open>for i := range dst { dst[i] ^= e[i] }\<close> over arrays of one length.\<close>

definition xor_bytes :: "bytes \<Rightarrow> bytes \<Rightarrow> bytes" where
  "xor_bytes a b = map2 (XOR) a b"

lemma length_xor_bytes [simp]: "length (xor_bytes a b) = min (length a) (length b)"
  by (simp add: xor_bytes_def)

lemma xor_bytes_Cons [simp]: "xor_bytes (x # a) (y # b) = (x XOR y) # xor_bytes a b"
  and xor_bytes_Nil [simp]: "xor_bytes [] b = []" "xor_bytes a [] = []"
  by (simp_all add: xor_bytes_def)

lemma xor_bytes_commute: "xor_bytes a b = xor_bytes b a"
proof (induction a arbitrary: b)
  case (Cons x a)
  then show ?case by (cases b) (simp_all add: xor.commute)
qed simp

lemma xor_bytes_assoc: "xor_bytes (xor_bytes a b) c = xor_bytes a (xor_bytes b c)"
proof (induction a arbitrary: b c)
  case (Cons x a)
  then show ?case by (cases b; cases c) (simp_all add: xor.assoc)
qed simp

lemma xor_bytes_left_commute: "xor_bytes a (xor_bytes b c) = xor_bytes b (xor_bytes a c)"
  by (metis xor_bytes_assoc xor_bytes_commute)

lemmas xor_bytes_ac [xor_simps] = xor_bytes_assoc xor_bytes_commute xor_bytes_left_commute

lemma xor_bytes_self [xor_simps]: "xor_bytes a a = replicate (length a) 0"
  by (induction a) simp_all

lemma xor_bytes_zero [xor_simps]: "length a = n \<Longrightarrow> xor_bytes a (replicate n 0) = a"
  and xor_bytes_zero_left [xor_simps]: "length a = n \<Longrightarrow> xor_bytes (replicate n 0) a = a"
  by (induction a arbitrary: n; force)+

lemma xor_word_eq_zero_iff: "x XOR y = 0 \<longleftrightarrow> x = (y :: 'a::len word)"
proof
  assume "x XOR y = 0"
  then have "(x XOR y) XOR y = y" by simp
  then show "x = y" by (simp only: xor.assoc xor_self_eq xor.right_neutral)
qed simp

lemma xor_bytes_eq_zero:
  assumes "length a = length b"
  shows "xor_bytes a b = replicate (length b) 0 \<longleftrightarrow> a = b"
  using assms by (induction a b rule: list_induct2) (simp_all add: xor_word_eq_zero_iff)

lemma finite_arrays: "finite {e :: bytes. length e = n}"
  using finite_lists_length_eq [of "UNIV :: byte set" n] by simp

section \<open>First appearances\<close>

text \<open>A list without its repetitions, in the order in which its elements first appear.\<close>

fun first_appearance :: "'a set \<Rightarrow> 'a list \<Rightarrow> 'a list" where
  "first_appearance seen [] = []"
| "first_appearance seen (x # xs) =
     (if x \<in> seen then first_appearance seen xs else x # first_appearance (insert x seen) xs)"

lemma first_appearance_set: "set (first_appearance S xs) = set xs - S"
  by (induction S xs rule: first_appearance.induct) auto

lemma first_appearance_snoc:
  "first_appearance S (xs @ [x]) = first_appearance S xs @ (if x \<in> S \<union> set xs then [] else [x])"
  by (induction S xs rule: first_appearance.induct) auto

lemma first_appearance_distinct: "distinct (first_appearance S xs)"
  by (induction S xs rule: first_appearance.induct) (auto simp: first_appearance_set)

lemma update_tabulated:
  assumes "distinct ks" and "\<And>j. j \<in> set ks \<Longrightarrow> j \<noteq> k \<Longrightarrow> f j = g j"
  shows "AList.update k (g k) (map (\<lambda>j. (j, f j)) ks) = map (\<lambda>j. (j, g j)) (if k \<in> set ks then ks else ks @ [k])"
  using assms by (induction ks) auto

end
