(* ===== verification/Signed_Record.thy ===== *)
theory Signed_Record
  imports Prelude
begin

text \<open>
  Signed keyword records (\<^verbatim>\<open>contracts/record/record.go\<close>) and torrent signatures
  (\<^verbatim>\<open>contracts/sign/sign.go\<close>).  The hash functions and ed25519 are parameters, bundled in the
  record \<open>crypto\<close>; a lemma that needs a law of them names it as a hypothesis
  (\<open>signs_for\<close>: a signature by \<open>priv\<close> verifies under \<open>pub\<close>).
\<close>

section \<open>Cryptographic primitives\<close>

record crypto =
  sha256 :: "bytes \<Rightarrow> bytes"
  sha1 :: "bytes \<Rightarrow> bytes"
  ed25519_sign :: "bytes \<Rightarrow> bytes \<Rightarrow> bytes"
  ed25519_verify :: "bytes \<Rightarrow> bytes \<Rightarrow> bytes \<Rightarrow> bool"

definition signs_for :: "crypto \<Rightarrow> bytes \<Rightarrow> bytes \<Rightarrow> bool" where
  "signs_for C priv pub \<longleftrightarrow>
     (\<forall>m. length (ed25519_sign C priv m) = 64 \<and> ed25519_verify C pub m (ed25519_sign C priv m))"

section \<open>Records\<close>

definition MaxKeywordBytes :: nat where "MaxKeywordBytes = 64"
definition maxPoWBits :: int where "maxPoWBits = 40"

record Record =
  Pk :: bytes
  Kw :: bytes
  Ih :: bytes
  T :: "64 word"
  Pow :: u64
  Sig :: bytes

text \<open>The array sizes of the Go struct: \<open>Pk [32]byte\<close>, \<open>Ih [20]byte\<close>, \<open>Sig [64]byte\<close>.\<close>

definition wf_record :: "Record \<Rightarrow> bool" where
  "wf_record r \<longleftrightarrow> length (Pk r) = 32 \<and> length (Ih r) = 20 \<and> length (Sig r) = 64"

datatype record_error = ErrKeyword | ErrPoWTarget | ErrBadSig | ErrInsufficientPoW

definition idPreimage :: "Record \<Rightarrow> bytes" where
  "idPreimage r = Pk r @ Kw r @ Ih r @ put_u64 (T r)"

definition ElementID :: "crypto \<Rightarrow> Record \<Rightarrow> bytes" where
  "ElementID C r = sha256 C (idPreimage r)"

definition SigMessage :: "Record \<Rightarrow> bytes" where
  "SigMessage r = idPreimage r @ put_uvarint (Pow r)"

definition Verify :: "crypto \<Rightarrow> Record \<Rightarrow> record_error option" where
  "Verify C r = (if ed25519_verify C (Pk r) (SigMessage r) (Sig r) then None else Some ErrBadSig)"

text \<open>\<open>bits.LeadingZeros8\<close>.\<close>

definition LeadingZeros8 :: "byte \<Rightarrow> nat" where
  "LeadingZeros8 b = length (takeWhile Not (map (bit b) (rev [0..<8])))"

fun leadingZeroBits :: "bytes \<Rightarrow> nat" where
  "leadingZeroBits [] = 0"
| "leadingZeroBits (b # bs) = (if b = 0 then 8 + leadingZeroBits bs else LeadingZeros8 b)"

definition VerifyPoW :: "crypto \<Rightarrow> Record \<Rightarrow> int \<Rightarrow> record_error option" where
  "VerifyPoW C r minBits =
     (if minBits \<le> 0 then None
      else if int (leadingZeroBits (sha256 C (SigMessage r))) < minBits then Some ErrInsufficientPoW
      else None)"

text \<open>The mining loop \<open>for nonce := 0; ; nonce++\<close>; \<open>None\<close> is a loop that never returns.\<close>

partial_function (option) mine_from :: "crypto \<Rightarrow> Record \<Rightarrow> int \<Rightarrow> u64 \<Rightarrow> Record option" where
  "mine_from C r bits nonce =
     (let r1 = r\<lparr>Pow := nonce\<rparr> in
      if int (leadingZeroBits (sha256 C (SigMessage r1))) \<ge> bits then Some r1
      else mine_from C r1 bits (nonce + 1))"

definition MinePoW :: "crypto \<Rightarrow> Record \<Rightarrow> int \<Rightarrow> (record_error + Record) option" where
  "MinePoW C r bits =
     (if bits \<le> 0 then Some (Inr (r\<lparr>Pow := 0\<rparr>))
      else if bits > maxPoWBits then Some (Inl ErrPoWTarget)
      else map_option Inr (mine_from C r bits 0))"

definition SignAndMine ::
  "crypto \<Rightarrow> bytes \<Rightarrow> bytes \<Rightarrow> bytes \<Rightarrow> bytes \<Rightarrow> 64 word \<Rightarrow> int \<Rightarrow> (record_error + Record) option" where
  "SignAndMine C priv pub kw ih t bits =
     (if length kw < 1 \<or> length kw > MaxKeywordBytes then Some (Inl ErrKeyword)
      else case MinePoW C \<lparr>Pk = pub, Kw = kw, Ih = ih, T = t, Pow = 0, Sig = replicate 64 0\<rparr> bits of
             None \<Rightarrow> None
           | Some (Inl e) \<Rightarrow> Some (Inl e)
           | Some (Inr r) \<Rightarrow>
               Some (Inr (r\<lparr>Sig := copy_array 64 (ed25519_sign C priv (SigMessage r))\<rparr>)))"

section \<open>Lemmas\<close>

lemma idPreimage_upd [simp]:
  "idPreimage (r\<lparr>Pow := p\<rparr>) = idPreimage r" "idPreimage (r\<lparr>Sig := s\<rparr>) = idPreimage r"
  by (simp_all add: idPreimage_def)

lemma SigMessage_Sig [simp]: "SigMessage (r\<lparr>Sig := s\<rparr>) = SigMessage r"
  by (simp add: SigMessage_def)

lemma VerifyPoW_Sig [simp]: "VerifyPoW C (r\<lparr>Sig := s\<rparr>) bits = VerifyPoW C r bits"
  by (simp add: VerifyPoW_def)

lemma idPreimage_inj:
  assumes "wf_record a" and "wf_record b" and "idPreimage a = idPreimage b"
  shows "Pk a = Pk b \<and> Kw a = Kw b \<and> Ih a = Ih b \<and> T a = T b"
proof -
  have "length (idPreimage a) = length (idPreimage b)" using assms(3) by simp
  then have len: "length (Kw a) = length (Kw b)"
    using assms(1,2) by (simp add: idPreimage_def wf_record_def)
  then show ?thesis
    using assms by (auto simp: idPreimage_def wf_record_def put_u64_inj)
qed

lemma mine_from_upd: "mine_from C (r\<lparr>Pow := p\<rparr>) bits nonce = mine_from C r bits nonce"
  by (subst (1 2) mine_from.simps) simp

lemma mine_from_found:
  assumes "int (leadingZeroBits (sha256 C (SigMessage (r\<lparr>Pow := of_nat (k + m)\<rparr>)))) \<ge> bits"
    and "\<And>j. j < m \<Longrightarrow>
      int (leadingZeroBits (sha256 C (SigMessage (r\<lparr>Pow := of_nat (k + j)\<rparr>)))) < bits"
  shows "mine_from C r bits (of_nat k) = Some (r\<lparr>Pow := of_nat (k + m)\<rparr>)"
  using assms
proof (induction m arbitrary: k)
  case 0
  then show ?case by (subst mine_from.simps) (simp add: Let_def)
next
  case (Suc m)
  have "mine_from C r bits (of_nat (Suc k)) = Some (r\<lparr>Pow := of_nat (Suc k + m)\<rparr>)"
    using Suc.prems(1) Suc.prems(2) [of "Suc j" for j]
    by (intro Suc.IH) auto
  moreover have "\<not> int (leadingZeroBits (sha256 C (SigMessage (r\<lparr>Pow := of_nat k\<rparr>)))) \<ge> bits"
    using Suc.prems(2) [of 0] by simp
  ultimately show ?case
    by (subst mine_from.simps) (simp add: Let_def mine_from_upd add.commute)
qed


subsection \<open>Reading a signed message back\<close>

lemma byte_high_iff: "(b::byte) < 0x80 \<longleftrightarrow> \<not> bit b 7"
proof -
  have "take_bit 7 b = b \<longleftrightarrow> \<not> bit b 7"
    by (rule iffI, metis bit_take_bit_iff less_irrefl)
      (rule bit_word_eqI, auto simp: bit_simps less_Suc_eq numeral_eq_Suc)
  then show ?thesis by (simp add: take_bit_7_iff)
qed

lemma put_uvarint_continuation: "Suc i < length (put_uvarint x) \<Longrightarrow> bit (put_uvarint x ! i) 7"
proof (induction x arbitrary: i rule: put_uvarint.induct)
  case (1 x)
  show ?case
  proof (cases "x \<ge> 0x80")
    case True
    then have eq: "put_uvarint x = (ucast x OR 0x80) # put_uvarint (drop_bit 7 x)"
      by (simp add: put_uvarint.simps [of x])
    show ?thesis
    proof (cases i)
      case 0
      then show ?thesis using uvarint_byte_high [of x] by (simp add: eq byte_high_iff)
    next
      case (Suc j)
      with 1 True show ?thesis by (simp add: eq)
    qed
  next
    case False
    with 1(2) show ?thesis by (simp add: put_uvarint.simps [of x])
  qed
qed

lemma last_put_u64: "bit (put_u64 t ! 7) 7 \<longleftrightarrow> sint t < 0"
proof -
  have "put_u64 t ! 7 = ucast (drop_bit 56 t)"
    by (simp add: put_u64_def numeral_eq_Suc drop_bit_drop_bit)
  then show ?thesis
    using bit_last_iff [of t] by (simp add: bit_simps)
qed

text \<open>
  The keyword and the nonce both have variable length.  If two messages agree and one keyword is
  shorter, the last timestamp byte of the other lies on a continuation byte of the first nonce.
\<close>

lemma SigMessage_shorter_keyword:
  assumes wf: "wf_record a" "wf_record b" and eq: "SigMessage a = SigMessage b"
    and less: "length (Kw a) < length (Kw b)"
  shows "sint (T b) < 0"
proof -
  let ?s = "length (Kw b) - length (Kw a)"
  let ?pos = "length (Kw b) + 59"
  have "length (SigMessage a) = length (SigMessage b)" using eq by simp
  then have len: "length (put_uvarint (Pow a)) = length (put_uvarint (Pow b)) + ?s"
    using wf less by (simp add: SigMessage_def idPreimage_def wf_record_def)
  have "SigMessage b ! ?pos = put_u64 (T b) ! 7"
    using wf by (simp add: SigMessage_def idPreimage_def wf_record_def nth_append)
  moreover have "SigMessage a ! ?pos = put_uvarint (Pow a) ! (?s - 1)"
  proof -
    have "?pos = length (idPreimage a) + (?s - 1)"
      using wf less by (simp add: idPreimage_def wf_record_def)
    then show ?thesis by (simp add: SigMessage_def nth_append)
  qed
  moreover have "bit (put_uvarint (Pow a) ! (?s - 1)) 7"
    using len less length_put_uvarint_pos [of "Pow b"] by (intro put_uvarint_continuation) linarith
  ultimately show ?thesis using eq last_put_u64 [of "T b"] by metis
qed

lemma SigMessage_same_keyword_length:
  assumes "wf_record a" "wf_record b" "SigMessage a = SigMessage b" "length (Kw a) = length (Kw b)"
  shows "idPreimage a = idPreimage b \<and> Pow a = Pow b"
proof -
  have "length (idPreimage a) = length (idPreimage b)"
    using assms by (simp add: idPreimage_def wf_record_def)
  with assms(3) have "idPreimage a = idPreimage b" "put_uvarint (Pow a) = put_uvarint (Pow b)"
    by (simp_all add: SigMessage_def)
  then show ?thesis using put_uvarint_inj [of "Pow a" "[]" "Pow b" "[]"] by simp
qed

subsection \<open>Leading zero bits as a bound on the hash value\<close>

primrec be_nat :: "bytes \<Rightarrow> nat" where
  "be_nat [] = 0"
| "be_nat (b # bs) = unat b * 256 ^ length bs + be_nat bs"

lemma be_nat_less: "be_nat h < 256 ^ length h"
proof (induction h)
  case (Cons b h)
  have "unat b * 256 ^ length h + be_nat h < (unat b + 1) * 256 ^ length h"
    using Cons by (simp add: algebra_simps)
  also have "\<dots> \<le> 256 * 256 ^ length h"
    using unat_byte_less [of b] by (intro mult_right_mono) simp_all
  finally show ?case by simp
qed simp

lemma length_takeWhile_ge:
  "n \<le> length xs \<Longrightarrow> n \<le> length (takeWhile P xs) \<longleftrightarrow> (\<forall>i < n. P (xs ! i))"
proof (induction xs arbitrary: n)
  case (Cons x xs)
  then show ?case by (cases n) (auto simp: less_Suc_eq_0_disj)
qed simp

lemma LeadingZeros8_ge:
  assumes "n \<le> 8"
  shows "n \<le> LeadingZeros8 b \<longleftrightarrow> unat b < 2 ^ (8 - n)"
proof -
  have "n \<le> LeadingZeros8 b \<longleftrightarrow> (\<forall>i < n. \<not> bit b (7 - i))"
    unfolding LeadingZeros8_def using assms
    by (subst length_takeWhile_ge) (auto simp: rev_nth)
  also have "\<dots> \<longleftrightarrow> (\<forall>j. 8 - n \<le> j \<longrightarrow> j < 8 \<longrightarrow> \<not> bit b j)"
  proof (intro iffI allI impI)
    fix j assume "\<forall>i < n. \<not> bit b (7 - i)" "8 - n \<le> j" "j < 8"
    then show "\<not> bit b j" using assms by (auto dest!: spec [of _ "7 - j"])
  next
    fix i assume "\<forall>j. 8 - n \<le> j \<longrightarrow> j < 8 \<longrightarrow> \<not> bit b j" "i < n"
    then show "\<not> bit b (7 - i)" using assms by (auto dest!: spec [of _ "7 - i"])
  qed
  also have "\<dots> \<longleftrightarrow> take_bit (8 - n) b = b"
  proof
    assume *: "\<forall>j. 8 - n \<le> j \<longrightarrow> j < 8 \<longrightarrow> \<not> bit b j"
    show "take_bit (8 - n) b = b"
      by (rule bit_word_eqI) (use * not_less in \<open>auto simp: bit_simps\<close>)
  next
    assume "take_bit (8 - n) b = b"
    then show "\<forall>j. 8 - n \<le> j \<longrightarrow> j < 8 \<longrightarrow> \<not> bit b j"
      by (metis bit_take_bit_iff not_less)
  qed
  also have "\<dots> \<longleftrightarrow> unat b < 2 ^ (8 - n)"
    by (metis take_bit_nat_eq_self_iff unsigned_take_bit_eq unsigned_word_eqI)
  finally show ?thesis .
qed


lemma leadingZeroBits_ge:
  assumes "n \<le> 8 * length h"
  shows "n \<le> leadingZeroBits h \<longleftrightarrow> be_nat h < 2 ^ (8 * length h - n)"
  using assms
proof (induction h arbitrary: n)
  case (Cons b h)
  let ?w = "8 * length h"
  have p: "(256::nat) ^ length h = 2 ^ ?w" by (simp add: power_mult)
  have low: "be_nat h < 2 ^ ?w" using be_nat_less [of h] p by simp
  show ?case
  proof (cases "n \<le> 8")
    case True
    have "be_nat (b # h) < 2 ^ (8 * length (b # h) - n) \<longleftrightarrow> unat b * 2 ^ ?w + be_nat h < 2 ^ (8 - n) * 2 ^ ?w"
      using True by (simp add: p flip: power_add)
    also have "\<dots> \<longleftrightarrow> unat b < 2 ^ (8 - n)"
    proof
      assume "unat b * 2 ^ ?w + be_nat h < 2 ^ (8 - n) * 2 ^ ?w"
      then have "unat b * 2 ^ ?w < 2 ^ (8 - n) * 2 ^ ?w" by linarith
      then show "unat b < 2 ^ (8 - n)" by simp
    next
      assume "unat b < 2 ^ (8 - n)"
      then have "(unat b + 1) * 2 ^ ?w \<le> 2 ^ (8 - n) * 2 ^ ?w" by (intro mult_right_mono) simp_all
      with low show "unat b * 2 ^ ?w + be_nat h < 2 ^ (8 - n) * 2 ^ ?w" by (simp add: algebra_simps)
    qed
    also have "\<dots> \<longleftrightarrow> n \<le> LeadingZeros8 b" using True by (simp add: LeadingZeros8_ge)
    finally show ?thesis
      using True LeadingZeros8_ge [of n b] by auto
  next
    case False
    show ?thesis
    proof (cases "b = 0")
      case True
      have e: "8 * length (b # h) - n = ?w - (n - 8)" using False by simp
      have "n - 8 \<le> ?w" using Cons.prems by simp
      note IH = Cons.IH [OF this]
      have l: "leadingZeroBits (b # h) = 8 + leadingZeroBits h" using True by simp
      have v: "be_nat (b # h) = be_nat h" using True by simp
      have "n \<le> 8 + leadingZeroBits h \<longleftrightarrow> n - 8 \<le> leadingZeroBits h" using False by linarith
      then show ?thesis unfolding e l v using IH by blast
    next
      case b: False
      then have "1 \<le> unat b" by (simp add: Suc_le_eq unat_gt_0)
      then have "2 ^ ?w \<le> be_nat (b # h)" by (simp add: p trans_le_add1)
      moreover have "(2::nat) ^ (8 * length (b # h) - n) \<le> 2 ^ ?w"
        using False by (intro power_increasing) simp_all
      moreover have "LeadingZeros8 b < n"
        using False LeadingZeros8_def length_takeWhile_le [of Not "map (bit b) (rev [0..<8])"] by simp
      ultimately have "\<not> be_nat (b # h) < 2 ^ (8 * length (b # h) - n)" "\<not> n \<le> leadingZeroBits (b # h)"
        using b by (meson le_trans not_less, simp)
      then show ?thesis by blast
    qed
  qed
qed simp

lemma MinePoW_returns:
  assumes "0 < bits" and "bits \<le> maxPoWBits" and "VerifyPoW C (r\<lparr>Pow := some\<rparr>) bits = None"
  shows "\<exists>n. MinePoW C r bits = Some (Inr (r\<lparr>Pow := n\<rparr>)) \<and>
    VerifyPoW C (r\<lparr>Pow := n\<rparr>) bits = None \<and> (\<forall>m < n. VerifyPoW C (r\<lparr>Pow := m\<rparr>) bits \<noteq> None)"
proof -
  let ?ok = "\<lambda>k. VerifyPoW C (r\<lparr>Pow := of_nat k\<rparr>) bits = None"
  have ok: "?ok k \<longleftrightarrow> int (leadingZeroBits (sha256 C (SigMessage (r\<lparr>Pow := of_nat k\<rparr>)))) \<ge> bits" for k
    using assms(1) by (auto simp: VerifyPoW_def)
  have "?ok (unat some)" using assms(3) by simp
  define k where "k = (LEAST k. ?ok k)"
  have k: "?ok k" unfolding k_def by (rule LeastI [of ?ok, OF \<open>?ok (unat some)\<close>])
  have below: "\<not> ?ok j" if "j < k" for j using that not_less_Least unfolding k_def by blast
  have "mine_from C r bits 0 = Some (r\<lparr>Pow := of_nat k\<rparr>)"
    using mine_from_found [where bits = bits and C = C and r = r and k = 0 and m = k] k below
    unfolding ok not_le by simp
  moreover have "VerifyPoW C (r\<lparr>Pow := m\<rparr>) bits \<noteq> None" if "m < of_nat k" for m :: u64
  proof -
    have "unat m < unat (of_nat k :: u64)" using that by (simp only: word_less_nat_alt)
    also have "\<dots> \<le> k" by (simp add: unsigned_of_nat take_bit_nat_less_eq_self)
    finally have "unat m < k" .
    then show ?thesis using below [of "unat m"] by simp
  qed
  ultimately show ?thesis
    using k assms(1,2) by (intro exI [of _ "of_nat k"]) (simp add: MinePoW_def)
qed


section \<open>Torrent signatures (contracts/sign)\<close>

definition Domain :: bytes where
  "Domain = map of_char ''SN-TORRENT-V1|''"

record Signature =
  PubKey :: bytes
  SigBytes :: bytes
  InfoHash :: bytes

datatype sign_error = BadPrivLength nat | BadPubLength nat | BadSigLength nat | ErrBadSignature

definition Payload :: "bytes \<Rightarrow> bytes" where
  "Payload infoHash = Domain @ infoHash"

definition Sign :: "crypto \<Rightarrow> bytes \<Rightarrow> bytes \<Rightarrow> sign_error + bytes" where
  "Sign C priv infoHash =
     (if length priv \<noteq> 64 then Inl (BadPrivLength (length priv))
      else Inr (ed25519_sign C priv (Payload infoHash)))"

text \<open>Go returns a \<open>Signature\<close> together with the error; the pair keeps both.\<close>

definition VerifySignature :: "crypto \<Rightarrow> bytes \<Rightarrow> bytes \<Rightarrow> bytes \<Rightarrow> Signature \<times> sign_error option" where
  "VerifySignature C pub sig infoHash =
     (let zero = \<lparr>PubKey = replicate 32 0, SigBytes = replicate 64 0, InfoHash = replicate 20 0\<rparr>;
          out = \<lparr>PubKey = copy_array 32 pub, SigBytes = copy_array 64 sig, InfoHash = infoHash\<rparr>
      in if length pub \<noteq> 32 then (zero, Some (BadPubLength (length pub)))
         else if length sig \<noteq> 64 then (zero, Some (BadSigLength (length sig)))
         else if \<not> ed25519_verify C pub (Payload infoHash) sig then (out, Some ErrBadSignature)
         else (out, None))"

lemma replicate_eq: "replicate (numeral n) x = x # replicate (pred_numeral n) x"
  by (simp add: numeral_eq_Suc)

section \<open>Properties\<close>

text \<open>
  \<open>leadingZeroBits\<close> counts what the proof of work needs: a hash has at least \<open>n\<close> leading zero
  bits exactly when its big-endian value is below \<open>2 ^ (8 * length - n)\<close>.
\<close>

lemma leading_zero_bits_value:
  "n \<le> 8 * length h \<Longrightarrow> n \<le> leadingZeroBits h \<longleftrightarrow> be_nat h < 2 ^ (8 * length h - n)"
  by (rule leadingZeroBits_ge)

theorem leading_zero_bits_value_witness:
  "(9::nat) \<le> 8 * length [0, 0x40 :: byte] \<and>
   (9 \<le> leadingZeroBits [0, 0x40] \<longleftrightarrow> be_nat [0, 0x40] < 2 ^ (8 * length [0, 0x40 :: byte] - 9))"
proof -
  have h: "(9::nat) \<le> 8 * length [0, 0x40 :: byte]" by simp
  show ?thesis using h leading_zero_bits_value [OF h] by blast
qed

text \<open>
  Mining returns, whenever any nonce meets the target, the lowest such nonce, and the mined
  record then passes \<open>VerifyPoW\<close> at that target.
\<close>

lemma mine_pow_lowest:
  assumes "0 < bits" and "bits \<le> maxPoWBits" and "VerifyPoW C (r\<lparr>Pow := some\<rparr>) bits = None"
  shows "\<exists>n. MinePoW C r bits = Some (Inr (r\<lparr>Pow := n\<rparr>)) \<and>
    VerifyPoW C (r\<lparr>Pow := n\<rparr>) bits = None \<and> (\<forall>m < n. VerifyPoW C (r\<lparr>Pow := m\<rparr>) bits \<noteq> None)"
  by (rule MinePoW_returns [OF assms])

text \<open>A concrete instance of the primitives, for the closed examples: a checksum-like hash and
  signatures that repeat the key.\<close>

definition toy_crypto :: crypto where
  "toy_crypto = \<lparr>sha256 = (\<lambda>m. copy_array 32 (rev m)), sha1 = copy_array 20,
     ed25519_sign = (\<lambda>priv m. copy_array 64 priv),
     ed25519_verify = (\<lambda>pub m sig. take 32 sig = pub)\<rparr>"

definition toy_record :: Record where
  "toy_record = \<lparr>Pk = replicate 32 7, Kw = [0x75, 0x62], Ih = replicate 20 1, T = 5, Pow = 0,
                 Sig = replicate 64 0\<rparr>"

lemma toy_signs: "signs_for toy_crypto (replicate 32 7) (replicate 32 7)"
  by (simp add: signs_for_def toy_crypto_def copy_array_def)

theorem mine_pow_lowest_witness:
  "(0::int) < 2 \<and> 2 \<le> maxPoWBits \<and> VerifyPoW toy_crypto (toy_record\<lparr>Pow := 0\<rparr>) 2 = None \<and>
   (\<exists>n. MinePoW toy_crypto toy_record 2 = Some (Inr (toy_record\<lparr>Pow := n\<rparr>)))"
proof -
  have h: "VerifyPoW toy_crypto (toy_record\<lparr>Pow := 0\<rparr>) 2 = None"
    by (simp add: VerifyPoW_def toy_crypto_def toy_record_def SigMessage_def idPreimage_def
        put_uvarint.simps copy_array_def)
  have b: "2 \<le> maxPoWBits" by (simp add: maxPoWBits_def)
  show ?thesis using h b mine_pow_lowest [OF _ b h] by auto
qed

text \<open>
  For every keyword of 1 to 64 bytes whose mining returns (always, when no work is asked for),
  \<open>SignAndMine\<close> yields a record with the given key, keyword, infohash and timestamp that passes
  both \<open>Verify\<close> and \<open>VerifyPoW\<close>; the signature covers the mined nonce.
\<close>

lemma sign_and_mine_verifies:
  assumes "signs_for C priv pub" and "1 \<le> length kw" and "length kw \<le> MaxKeywordBytes"
    and "bits \<le> 0 \<or>
      bits \<le> maxPoWBits \<and>
        VerifyPoW C \<lparr>Pk = pub, Kw = kw, Ih = ih, T = t, Pow = some, Sig = replicate 64 0\<rparr> bits = None"
  shows "\<exists>r. SignAndMine C priv pub kw ih t bits = Some (Inr r) \<and> Verify C r = None \<and>
    VerifyPoW C r bits = None \<and> Pk r = pub \<and> Kw r = kw \<and> Ih r = ih \<and> T r = t"
proof -
  define r0 where "r0 = \<lparr>Pk = pub, Kw = kw, Ih = ih, T = t, Pow = 0, Sig = replicate 64 0\<rparr>"
  have "\<exists>n. MinePoW C r0 bits = Some (Inr (r0\<lparr>Pow := n\<rparr>)) \<and> VerifyPoW C (r0\<lparr>Pow := n\<rparr>) bits = None"
  proof (cases "bits \<le> 0")
    case True
    then show ?thesis by (auto simp: MinePoW_def VerifyPoW_def)
  next
    case False
    with assms(4) have "bits \<le> maxPoWBits" "VerifyPoW C (r0\<lparr>Pow := some\<rparr>) bits = None"
      by (auto simp: r0_def)
    with False MinePoW_returns [where bits = bits and C = C and r = r0 and some = some] show ?thesis by auto
  qed
  then obtain n where n: "MinePoW C r0 bits = Some (Inr (r0\<lparr>Pow := n\<rparr>))"
    "VerifyPoW C (r0\<lparr>Pow := n\<rparr>) bits = None" by blast
  let ?r = "(r0\<lparr>Pow := n\<rparr>)\<lparr>Sig := copy_array 64 (ed25519_sign C priv (SigMessage (r0\<lparr>Pow := n\<rparr>)))\<rparr>"
  have "SignAndMine C priv pub kw ih t bits = Some (Inr ?r)"
    using assms(2,3) n(1) by (auto simp: SignAndMine_def r0_def [symmetric])
  moreover have "Verify C ?r = None"
    using assms(1) by (simp add: Verify_def signs_for_def) (simp add: r0_def)
  moreover have "VerifyPoW C ?r bits = None"
    using n(2) by simp
  ultimately show ?thesis by (intro exI [of _ ?r]) (simp add: r0_def)
qed

theorem sign_and_mine_verifies_witness:
  "\<exists>r. SignAndMine toy_crypto (replicate 32 7) (replicate 32 7) [0x75, 0x62] (replicate 20 1) 5 0 =
     Some (Inr r) \<and> Verify toy_crypto r = None \<and> Kw r = [0x75, 0x62]"
  using sign_and_mine_verifies [OF toy_signs, of "[0x75, 0x62]" 0 "replicate 20 1" 5 0]
  by (auto simp: MaxKeywordBytes_def)

text \<open>
  \<open>ElementID\<close> is the hash of a preimage that determines the publisher, keyword, infohash and
  timestamp and nothing else: two records have the same preimage exactly when these four fields
  agree, whatever their nonces and signatures.
\<close>

lemma element_id_preimage:
  assumes "wf_record a" and "wf_record b"
  shows "(idPreimage a = idPreimage b \<longleftrightarrow> Pk a = Pk b \<and> Kw a = Kw b \<and> Ih a = Ih b \<and> T a = T b) \<and>
    ElementID C (a\<lparr>Pow := p, Sig := s\<rparr>) = ElementID C a"
  using idPreimage_inj [OF assms] by (auto simp: ElementID_def idPreimage_def)

theorem element_id_preimage_witness:
  "wf_record toy_record \<and>
   ElementID toy_crypto (toy_record\<lparr>Pow := 9, Sig := replicate 64 3\<rparr>) = ElementID toy_crypto toy_record"
proof -
  have w: "wf_record toy_record" by (simp add: wf_record_def toy_record_def)
  show ?thesis using w element_id_preimage [OF w w] by blast
qed

text \<open>
  Among well-formed records with non-negative timestamps the signed message determines the
  whole record but its signature, so a signature cannot be moved to another keyword, infohash,
  time or nonce.
\<close>

lemma sig_message_injective:
  assumes "wf_record a" "wf_record b" and "0 \<le> sint (T a)" "0 \<le> sint (T b)"
    and "SigMessage a = SigMessage b"
  shows "Pk a = Pk b \<and> Kw a = Kw b \<and> Ih a = Ih b \<and> T a = T b \<and> Pow a = Pow b"
proof -
  have "length (Kw a) = length (Kw b)"
    using SigMessage_shorter_keyword [of a b] SigMessage_shorter_keyword [of b a] assms
    by (metis linorder_neqE_nat not_le)
  then show ?thesis
    using SigMessage_same_keyword_length [of a b] idPreimage_inj [of a b] assms by blast
qed

theorem sig_message_injective_witness:
  "wf_record toy_record \<and> 0 \<le> sint (T toy_record) \<and>
   SigMessage toy_record = SigMessage (toy_record\<lparr>Sig := replicate 64 9\<rparr>) \<and>
   Pow toy_record = Pow (toy_record\<lparr>Sig := replicate 64 9\<rparr>)"
proof -
  have w: "wf_record toy_record" "wf_record (toy_record\<lparr>Sig := replicate 64 9\<rparr>)"
    and t: "0 \<le> sint (T toy_record)" "0 \<le> sint (T (toy_record\<lparr>Sig := replicate 64 9\<rparr>))"
    by (simp_all add: wf_record_def toy_record_def)
  have m: "SigMessage toy_record = SigMessage (toy_record\<lparr>Sig := replicate 64 9\<rparr>)" by simp
  show ?thesis using w t m sig_message_injective [OF w t m] by blast
qed

text \<open>
  Without that bound the signed message is ambiguous.  Two well-formed records with different
  keywords, infohashes, times and nonces have the same signed message, so one signature
  verifies for both: the boundary between the keyword and the fields after it is not signed.
\<close>

lemma sig_message_ambiguous:
  "\<exists>a b. wf_record a \<and> wf_record b \<and> Kw a = [0x61] \<and> Kw b = [0x61, 0x62] \<and>
     Ih a \<noteq> Ih b \<and> T a \<noteq> T b \<and> Pow a \<noteq> Pow b \<and> Sig a = Sig b \<and>
     SigMessage a = SigMessage b \<and> (\<forall>C. Verify C a = Verify C b)"
proof -
  define a where "a = \<lparr>Pk = replicate 32 1, Kw = [0x61], Ih = 0x62 # replicate 19 0, T = 0,
                        Pow = 300, Sig = replicate 64 0\<rparr>"
  define b where "b = \<lparr>Pk = replicate 32 1, Kw = [0x61, 0x62], Ih = replicate 20 0,
                        T = 0xAC00000000000000, Pow = 2, Sig = replicate 64 0\<rparr>"
  have l8: "le_bytes 8 w = [ucast w, ucast (drop_bit 8 w), ucast (drop_bit 16 w), ucast (drop_bit 24 w),
      ucast (drop_bit 32 w), ucast (drop_bit 40 w), ucast (drop_bit 48 w), ucast (drop_bit 56 w)]" for w :: u64
    by (simp add: numeral_eq_Suc drop_bit_drop_bit)
  have v: "put_uvarint 2 = [2]" by (subst put_uvarint.simps) simp
  then have "put_uvarint 300 = [0xAC, 2]" by (subst put_uvarint.simps) simp
  with v have eq: "SigMessage a = SigMessage b"
    by (simp add: SigMessage_def idPreimage_def a_def b_def put_u64_def l8 replicate_eq)
  moreover have "Pk a = Pk b" "Sig a = Sig b" by (simp_all add: a_def b_def)
  ultimately have "\<forall>C. Verify C a = Verify C b" by (simp add: Verify_def)
  with eq show ?thesis
    by (intro exI [of _ a] exI [of _ b]) (simp add: a_def b_def wf_record_def replicate_eq)
qed



end
