(* ===== verification/Snagg_Format.thy ===== *)
theory Snagg_Format
  imports Signed_Record
begin

text \<open>
  The byte format of the SNAGG index: page headers, the record wire form, the signed trailer
  (\<^verbatim>\<open>contracts/snagg/snagg.go\<close>) and the leaf and interior pages
  (\<^verbatim>\<open>contracts/snagg/pages.go\<close>).  The third-party bencode library is the parameter
  \<open>codec\<close>; \<open>codec_ok\<close> is its documented law, that decoding what it marshalled gives the value
  back.  Every slice whose bounds come from the input goes through \<open>sub_slice\<close>, whose failure is
  the run-time panic of Go, so that the absence of panics is a theorem about the decoders.
\<close>

section \<open>Constants and errors\<close>

definition BTreeMagic :: bytes where "BTreeMagic = [0x53, 0x4E, 0x41, 0x47, 0x47, 0x00]"
definition BTreeVersion :: byte where "BTreeVersion = 0x01"
definition PageKindRoot :: byte where "PageKindRoot = 0x00"
definition PageKindInterior :: byte where "PageKindInterior = 0x01"
definition PageKindLeaf :: byte where "PageKindLeaf = 0x02"
definition PageKindTrailer :: byte where "PageKindTrailer = 0xFF"
definition PageHeaderSize :: nat where "PageHeaderSize = 16"
definition MaxRecordBytes :: nat where "MaxRecordBytes = 256"
definition TrailerPayloadSize :: nat where "TrailerPayloadSize = 162"
definition TrailerVersion :: byte where "TrailerVersion = 0x01"
definition MinPieceSize :: int where "MinPieceSize = 16384"
definition MaxPieceSize :: int where "MaxPieceSize = 4 * 1024 * 1024"
definition trailerSignedPrefix :: nat where "trailerSignedPrefix = TrailerPayloadSize - 64"

lemmas page_kinds = PageKindRoot_def PageKindInterior_def PageKindLeaf_def PageKindTrailer_def

datatype snagg_error =
    Panic
  | ErrShortHeader nat | ErrMagic | ErrPageVersion byte
  | ErrEmptyKeyword | ErrKeywordCap nat | ErrMarshal | ErrRecordCap nat
  | ErrUnmarshal | ErrPkLength nat | ErrIhLength nat | ErrSigLength nat
  | ErrTrailerPage int | ErrTrailerVersion byte | ErrKind byte | ErrTrailerLength u16
  | ErrPayloadLength | ErrTrailerSig
  | ErrNoRecords | ErrTooManyRecords | ErrPayloadUint16 | ErrPageOverflow
  | ErrPayloadShort | ErrVarint | ErrShortBytes
  | ErrEncodeKind byte | ErrNoChildren | ErrTooManyChildren
  | ErrPieceSize int | ErrTooLargeForPage
  | ErrPieceRange nat | ErrFewPages nat | ErrPageCount | ErrRootPiece
  | ErrRevisited nat | ErrChildIndex nat nat | ErrLeafCount nat | ErrLeafTwice nat
  | ErrRecordCount | ErrFingerprint

text \<open>\<open>xs[a:b]\<close>.\<close>

definition sub_slice :: "nat \<Rightarrow> nat \<Rightarrow> 'a list \<Rightarrow> snagg_error + 'a list" where
  "sub_slice a b xs = (case slice a b xs of None \<Rightarrow> Inl Panic | Some ys \<Rightarrow> Inr ys)"

lemma sub_slice_ok:
  "a \<le> b \<Longrightarrow> b \<le> length xs \<Longrightarrow> sub_slice a b xs = Inr (take (b - a) (drop a xs))"
  by (simp add: sub_slice_def slice_def)

lemma sub_slice_rest [simp]: "b = length xs \<Longrightarrow> a \<le> b \<Longrightarrow> sub_slice a b xs = Inr (drop a xs)"
  and sub_slice_front [simp]: "b \<le> length xs \<Longrightarrow> sub_slice 0 b xs = Inr (take b xs)"
  by (simp_all add: sub_slice_ok)

section \<open>Page header\<close>

record pageHeader =
  h_kind :: byte
  h_level :: byte
  h_payload :: u16

text \<open>The 16 bytes \<open>encodeHeader\<close> leaves at the front of a zeroed page.\<close>

definition encodeHeader :: "pageHeader \<Rightarrow> bytes" where
  "encodeHeader h =
     BTreeMagic @ [BTreeVersion, h_kind h, h_level h, 0] @ put_u16 (h_payload h) @ replicate 4 0"

definition decodeHeader :: "bytes \<Rightarrow> snagg_error + pageHeader" where
  "decodeHeader page =
     (if length page < PageHeaderSize then Inl (ErrShortHeader (length page))
      else if take 6 page \<noteq> BTreeMagic then Inl ErrMagic
      else if page ! 6 \<noteq> BTreeVersion then Inl (ErrPageVersion (page ! 6))
      else Inr \<lparr>h_kind = page ! 7, h_level = page ! 8, h_payload = get_u16 (drop 10 page)\<rparr>)"

section \<open>Records on the wire\<close>

record recordWire =
  w_IH :: bytes
  w_Kw :: bytes
  w_Pk :: bytes
  w_Pow :: u64
  w_Sig :: bytes
  w_T :: "64 word"

text \<open>
  The third-party library, at the struct type \<open>recordWire\<close>: \<open>bencode.Marshal\<close>, and
  \<open>Decoder.Decode\<close> under an optional \<open>MaxStrLen\<close>.
\<close>

record codec =
  marshal :: "recordWire \<Rightarrow> bytes option"
  decode :: "nat option \<Rightarrow> bytes \<Rightarrow> recordWire option"

text \<open>
  Decoding is the inverse of marshalling under any string limit that is at least the size of the
  whole value, since no string inside it is longer; a marshalled value is never empty.
\<close>

definition codec_ok :: "codec \<Rightarrow> bool" where
  "codec_ok K \<longleftrightarrow>
     (\<forall>w b. marshal K w = Some b \<longrightarrow> b \<noteq> [] \<and> decode K (Some (length b)) b = Some w)"

definition wire_of :: "Record \<Rightarrow> recordWire" where
  "wire_of r = \<lparr>w_IH = Ih r, w_Kw = Kw r, w_Pk = Pk r, w_Pow = Pow r, w_Sig = Sig r, w_T = T r\<rparr>"

definition EncodeRecord :: "codec \<Rightarrow> Record \<Rightarrow> snagg_error + bytes" where
  "EncodeRecord K r =
     (if length (Kw r) = 0 then Inl ErrEmptyKeyword
      else if length (Kw r) > MaxKeywordBytes then Inl (ErrKeywordCap (length (Kw r)))
      else case marshal K (wire_of r) of
             None \<Rightarrow> Inl ErrMarshal
           | Some out \<Rightarrow>
               if length out > MaxRecordBytes then Inl (ErrRecordCap (length out)) else Inr out)"

definition DecodeRecord :: "codec \<Rightarrow> bytes \<Rightarrow> snagg_error + Record" where
  "DecodeRecord K b =
     (case decode K (if length b > 0 then Some (length b) else None) b of
        None \<Rightarrow> Inl ErrUnmarshal
      | Some w \<Rightarrow>
          if length (w_Pk w) \<noteq> 32 then Inl (ErrPkLength (length (w_Pk w)))
          else if length (w_IH w) \<noteq> 20 then Inl (ErrIhLength (length (w_IH w)))
          else if length (w_Sig w) \<noteq> 64 then Inl (ErrSigLength (length (w_Sig w)))
          else if length (w_Kw w) > MaxKeywordBytes then Inl (ErrKeywordCap (length (w_Kw w)))
          else Inr \<lparr>Pk = copy_array 32 (w_Pk w), Kw = w_Kw w, Ih = copy_array 20 (w_IH w),
                    T = w_T w, Pow = w_Pow w, Sig = copy_array 64 (w_Sig w)\<rparr>)"

definition RecordKey :: "Record \<Rightarrow> bytes" where
  "RecordKey r = Kw r @ [0x00] @ Ih r"

definition compareRecords :: "Record \<Rightarrow> Record \<Rightarrow> int" where
  "compareRecords a b = bytes_compare (RecordKey a) (RecordKey b)"

section \<open>Trailer\<close>

record Trailer =
  t_Version :: byte
  t_PubKey :: bytes
  t_Seq :: u64
  t_CreatedTs :: u64
  t_RootPieceIndex :: u32
  t_NumPages :: u32
  t_NumRecords :: u64
  t_MinPoWBits :: byte
  t_Fingerprint :: bytes
  t_PublisherSig :: bytes

text \<open>The array sizes of the Go struct.\<close>

definition wf_trailer :: "Trailer \<Rightarrow> bool" where
  "wf_trailer t \<longleftrightarrow>
     length (t_PubKey t) = 32 \<and> length (t_Fingerprint t) = 32 \<and> length (t_PublisherSig t) = 64"

definition encodeTrailerFields :: "Trailer \<Rightarrow> bytes" where
  "encodeTrailerFields t =
     [t_Version t] @ t_PubKey t @ put_u64 (t_Seq t) @ put_u64 (t_CreatedTs t) @
     put_u32 (t_RootPieceIndex t) @ put_u32 (t_NumPages t) @ put_u64 (t_NumRecords t) @
     [t_MinPoWBits t] @ t_Fingerprint t"

definition TrailerSigMessage :: "Trailer \<Rightarrow> bytes" where
  "TrailerSigMessage t = encodeTrailerFields t"

definition SignTrailer :: "crypto \<Rightarrow> Trailer \<Rightarrow> bytes \<Rightarrow> Trailer" where
  "SignTrailer C t priv =
     t\<lparr>t_PublisherSig := copy_array 64 (ed25519_sign C priv (TrailerSigMessage t))\<rparr>"

definition VerifyTrailerSig :: "crypto \<Rightarrow> Trailer \<Rightarrow> snagg_error option" where
  "VerifyTrailerSig C t =
     (if \<not> ed25519_verify C (t_PubKey t) (TrailerSigMessage t) (t_PublisherSig t)
      then Some ErrTrailerSig else None)"

definition EncodeTrailer :: "Trailer \<Rightarrow> int \<Rightarrow> snagg_error + bytes" where
  "EncodeTrailer t pageSize =
     (if pageSize < int (PageHeaderSize + TrailerPayloadSize) then Inl (ErrTrailerPage pageSize)
      else if t_Version t \<noteq> TrailerVersion then Inl (ErrTrailerVersion (t_Version t))
      else Inr (pad_to (nat pageSize)
        (encodeHeader \<lparr>h_kind = PageKindTrailer, h_level = 0, h_payload = of_nat TrailerPayloadSize\<rparr> @
         encodeTrailerFields t @ t_PublisherSig t)))"

definition DecodeTrailer :: "bytes \<Rightarrow> snagg_error + Trailer" where
  "DecodeTrailer page = bind_res (decodeHeader page) (\<lambda>h.
     if h_kind h \<noteq> PageKindTrailer then Inl (ErrKind (h_kind h))
     else if unat (h_payload h) \<noteq> TrailerPayloadSize then Inl (ErrTrailerLength (h_payload h))
     else if PageHeaderSize + TrailerPayloadSize > length page then Inl ErrPayloadLength
     else bind_res (sub_slice PageHeaderSize (PageHeaderSize + TrailerPayloadSize) page) (\<lambda>p.
       if p ! 0 \<noteq> TrailerVersion then Inl (ErrTrailerVersion (p ! 0))
       else Inr \<lparr>t_Version = p ! 0, t_PubKey = copy_array 32 (take 32 (drop 1 p)),
                 t_Seq = get_u64 (drop 33 p), t_CreatedTs = get_u64 (drop 41 p),
                 t_RootPieceIndex = get_u32 (drop 49 p), t_NumPages = get_u32 (drop 53 p),
                 t_NumRecords = get_u64 (drop 57 p), t_MinPoWBits = p ! 65,
                 t_Fingerprint = copy_array 32 (take 32 (drop 66 p)),
                 t_PublisherSig = copy_array 64 (take 64 (drop 98 p))\<rparr>))"

definition fingerprintSorted :: "crypto \<Rightarrow> codec \<Rightarrow> Record list \<Rightarrow> snagg_error + bytes" where
  "fingerprintSorted C K recs =
     bind_res (map_res (EncodeRecord K) recs) (\<lambda>encs. Inr (copy_array 32 (sha256 C (concat encs))))"

section \<open>Leaf pages\<close>

definition leaf_entry :: "bytes \<Rightarrow> bytes" where
  "leaf_entry enc = put_uvarint (of_nat (length enc)) @ enc"

definition EncodeLeaf :: "codec \<Rightarrow> int \<Rightarrow> Record list \<Rightarrow> int \<Rightarrow> snagg_error + bytes" where
  "EncodeLeaf K level records pageSize =
     (if records = [] then Inl ErrNoRecords
      else if length records > 0xFFFF then Inl ErrTooManyRecords
      else bind_res (map_res (EncodeRecord K) records) (\<lambda>encs.
        let payload = put_u16 (of_nat (length records)) @ concat (map leaf_entry encs) in
        if length payload > 0xFFFF then Inl ErrPayloadUint16
        else if int (PageHeaderSize + length payload) > pageSize then Inl ErrPageOverflow
        else Inr (pad_to (nat pageSize)
          (encodeHeader \<lparr>h_kind = PageKindLeaf, h_level = of_int level,
                         h_payload = of_nat (length payload)\<rparr> @ payload))))"

text \<open>The loop \<open>for i := 0; i < int(n); i++\<close> over the rest \<open>p\<close> of the payload.\<close>

primrec decode_records :: "codec \<Rightarrow> nat \<Rightarrow> bytes \<Rightarrow> snagg_error + Record list" where
  "decode_records K 0 p = Inr []"
| "decode_records K (Suc n) p =
     (let (rl, adv) = uvarint p in
      if adv \<le> 0 then Inl ErrVarint
      else bind_res (sub_slice (nat adv) (length p) p) (\<lambda>p.
        if (of_nat (length p) :: u64) < rl then Inl ErrShortBytes
        else bind_res (sub_slice 0 (unat rl) p) (\<lambda>b.
          bind_res (DecodeRecord K b) (\<lambda>rec.
            bind_res (sub_slice (unat rl) (length p) p) (\<lambda>p.
              bind_res (decode_records K n p) (\<lambda>rest. Inr (rec # rest)))))))"

text \<open>The payload of a page, after the kind and length checks both page decoders make.\<close>

definition page_payload :: "(byte \<Rightarrow> bool) \<Rightarrow> bytes \<Rightarrow> snagg_error + bytes" where
  "page_payload kind_ok page = bind_res (decodeHeader page) (\<lambda>h.
     if \<not> kind_ok (h_kind h) then Inl (ErrKind (h_kind h))
     else if PageHeaderSize + unat (h_payload h) > length page then Inl ErrPayloadLength
     else bind_res (sub_slice PageHeaderSize (PageHeaderSize + unat (h_payload h)) page) (\<lambda>p.
       if length p < 2 then Inl ErrPayloadShort else Inr p))"

definition DecodeLeaf :: "codec \<Rightarrow> bytes \<Rightarrow> snagg_error + Record list" where
  "DecodeLeaf K page =
     bind_res (page_payload (\<lambda>k. k = PageKindLeaf) page) (\<lambda>p.
       decode_records K (unat (get_u16 p)) (drop 2 p))"

section \<open>Interior pages\<close>

record InteriorChild =
  Separator :: bytes
  ChildIndex :: u32

definition child_entry :: "InteriorChild \<Rightarrow> bytes" where
  "child_entry c =
     put_uvarint (of_nat (length (Separator c))) @ Separator c @ put_u32 (ChildIndex c)"

text \<open>The separator of the first child is forced empty.\<close>

fun force_first :: "InteriorChild list \<Rightarrow> InteriorChild list" where
  "force_first [] = []"
| "force_first (c # cs) = c\<lparr>Separator := []\<rparr> # cs"

definition EncodeInterior :: "byte \<Rightarrow> int \<Rightarrow> InteriorChild list \<Rightarrow> int \<Rightarrow> snagg_error + bytes" where
  "EncodeInterior kind level children pageSize =
     (if kind \<noteq> PageKindInterior \<and> kind \<noteq> PageKindRoot then Inl (ErrEncodeKind kind)
      else if children = [] then Inl ErrNoChildren
      else if length children > 0xFFFF then Inl ErrTooManyChildren
      else
        let payload = put_u16 (of_nat (length children)) @
                      concat (map child_entry (force_first children)) in
        if length payload > 0xFFFF then Inl ErrPayloadUint16
        else if int (PageHeaderSize + length payload) > pageSize then Inl ErrPageOverflow
        else Inr (pad_to (nat pageSize)
          (encodeHeader \<lparr>h_kind = kind, h_level = of_int level,
                         h_payload = of_nat (length payload)\<rparr> @ payload)))"

primrec decode_children :: "nat \<Rightarrow> bytes \<Rightarrow> snagg_error + InteriorChild list" where
  "decode_children 0 p = Inr []"
| "decode_children (Suc n) p =
     (let (sl, adv) = uvarint p in
      if adv \<le> 0 then Inl ErrVarint
      else bind_res (sub_slice (nat adv) (length p) p) (\<lambda>p.
        if sl > (of_nat (length p) :: u64) \<or> (of_nat (length p) :: u64) - sl < 4 then Inl ErrShortBytes
        else bind_res (sub_slice 0 (unat sl) p) (\<lambda>sep.
          bind_res (sub_slice (unat sl) (length p) p) (\<lambda>p.
            bind_res (sub_slice 0 4 p) (\<lambda>idx.
              bind_res (sub_slice 4 (length p) p) (\<lambda>p.
                bind_res (decode_children n p) (\<lambda>rest.
                  Inr (\<lparr>Separator = sep, ChildIndex = get_u32 idx\<rparr> # rest))))))))"

definition DecodeInterior :: "bytes \<Rightarrow> snagg_error + InteriorChild list" where
  "DecodeInterior page =
     bind_res (page_payload (\<lambda>k. k = PageKindInterior \<or> k = PageKindRoot) page) (\<lambda>p.
       decode_children (unat (get_u16 p)) (drop 2 p))"

section \<open>Lemmas\<close>

subsection \<open>Headers and payloads\<close>

lemma length_encodeHeader [simp]: "length (encodeHeader h) = PageHeaderSize"
  by (simp add: encodeHeader_def BTreeMagic_def PageHeaderSize_def)

lemma decodeHeader_encode [simp]: "decodeHeader (encodeHeader h @ rest) = Inr h"
  by (cases h)
    (simp add: decodeHeader_def encodeHeader_def BTreeMagic_def PageHeaderSize_def numeral_eq_Suc)

lemma decodeHeader_pad [simp]: "decodeHeader (pad_to n (encodeHeader h @ rest)) = Inr h"
  by (simp add: pad_to_def)

lemma decodeHeader_no_panic: "decodeHeader page \<noteq> Inl Panic"
  by (simp add: decodeHeader_def)

lemma unat_of_nat_le: "n \<le> 0xFFFF \<Longrightarrow> unat (of_nat n :: u16) = n"
  by (simp add: unsigned_of_nat take_bit_nat_eq_self)

lemma page_payload_encode:
  assumes "kind_ok (h_kind h)" and "unat (h_payload h) = length p" and "2 \<le> length p"
  shows "page_payload kind_ok (pad_to n (encodeHeader h @ p)) = Inr p"
  using assms by (simp add: page_payload_def sub_slice_def slice_def) (simp add: pad_to_def)

lemma page_payload_length:
  assumes "page_payload kind_ok page = Inr p"
  shows "length p \<le> 65535" and "2 \<le> length p"
proof -
  from assms obtain h :: pageHeader where "length p \<le> unat (h_payload h)" "2 \<le> length p"
    by (fastforce simp: page_payload_def bind_res_Inr_iff sub_slice_def slice_def split: if_splits)
  moreover have "unat (h_payload h) \<le> 65535"
    using unsigned_less [of "h_payload h", where 'a = nat] by simp
  ultimately show "length p \<le> 65535" "2 \<le> length p" by (simp_all add: le_trans)
qed

lemma page_payload_no_panic: "page_payload kind_ok page \<noteq> Inl Panic"
  by (auto simp: page_payload_def bind_res_Inl_iff decodeHeader_no_panic sub_slice_def slice_def
      split: if_splits)

lemma uvarint_from_adv: "snd (uvarint_from i x p) \<le> int (i + length p)"
  by (induction i x p rule: uvarint_from.induct) (auto simp: Let_def)

lemma uvarint_adv: "uvarint p = (v, adv) \<Longrightarrow> nat adv \<le> length p"
  using uvarint_from_adv [of 0 0 p] by (simp add: uvarint_def)

lemma unat_length_u64: "length (p::bytes) \<le> 65535 \<Longrightarrow> unat (of_nat (length p) :: u64) = length p"
  by (simp add: unsigned_of_nat take_bit_nat_eq_self)

subsection \<open>Records\<close>

lemma EncodeRecord_size: "EncodeRecord K r = Inr b \<Longrightarrow> length b \<le> 256"
  by (auto simp: EncodeRecord_def MaxRecordBytes_def split: if_splits option.splits)

lemma DecodeRecord_EncodeRecord:
  assumes "codec_ok K" and "wf_record r" and "EncodeRecord K r = Inr b"
  shows "DecodeRecord K b = Inr r"
proof -
  from assms(3) have m: "marshal K (wire_of r) = Some b" and k: "length (Kw r) \<le> MaxKeywordBytes"
    by (auto simp: EncodeRecord_def split: if_splits option.splits)
  with assms(1) have "b \<noteq> []" "decode K (Some (length b)) b = Some (wire_of r)"
    by (auto simp: codec_ok_def)
  with k assms(2) show ?thesis by (cases r) (simp add: DecodeRecord_def wire_of_def wf_record_def)
qed

lemma decode_records_encode:
  assumes "codec_ok K" and "\<forall>r \<in> set rs. wf_record r" and "map_res (EncodeRecord K) rs = Inr encs"
    and "length (concat (map leaf_entry encs) @ rest) \<le> 65535"
  shows "decode_records K (length rs) (concat (map leaf_entry encs) @ rest) = Inr rs"
  using assms(2-4)
proof (induction rs arbitrary: encs)
  case Nil
  then show ?case by simp
next
  case (Cons r rs)
  then obtain e es where e: "encs = e # es" "EncodeRecord K r = Inr e" "map_res (EncodeRecord K) rs = Inr es"
    by (auto simp: bind_res_Inr_iff)
  let ?q = "concat (map leaf_entry es) @ rest"
  have len: "length (e @ ?q) \<le> 65535" using Cons.prems(3) by (simp add: e leaf_entry_def [of e])
  have le: "unat (of_nat (length e) :: u64) = length e"
    using len by (intro unat_length_u64) simp
  have "\<not> (of_nat (length (e @ ?q)) :: u64) < of_nat (length e)"
    using len le unat_length_u64 [OF len] by (simp add: word_less_nat_alt)
  moreover have "decode_records K (length rs) ?q = Inr rs"
    using Cons.IH [OF _ e(3)] Cons.prems len by simp
  moreover have "DecodeRecord K e = Inr r"
    using DecodeRecord_EncodeRecord [OF assms(1) _ e(2)] Cons.prems(1) by simp
  ultimately show ?case
    by (simp add: e(1) leaf_entry_def [of e] sub_slice_ok le)
qed

text \<open>Bytes decode without a panic: every bound that comes from the page is checked first.\<close>

lemma DecodeRecord_no_panic: "DecodeRecord K b \<noteq> Inl Panic"
  by (simp add: DecodeRecord_def split: option.splits)

lemma decode_records_no_panic: "length p \<le> 65535 \<Longrightarrow> decode_records K n p \<noteq> Inl Panic"
proof (induction n arbitrary: p)
  case (Suc n)
  obtain rl adv where u: "uvarint p = (rl, adv)" by fastforce
  define q where "q = drop (nat adv) p"
  have q: "length q \<le> 65535" using Suc.prems by (simp add: q_def)
  have "unat rl \<le> length q" if "\<not> (of_nat (length q) :: u64) < rl"
    using that unat_length_u64 [OF q] by (simp add: word_less_nat_alt)
  moreover have "decode_records K n (drop (unat rl) q) \<noteq> Inl Panic" using q by (intro Suc.IH) simp
  ultimately show ?case
    using uvarint_adv [OF u] DecodeRecord_no_panic
    by (auto simp: u bind_res_Inl_iff simp flip: q_def simp del: drop_drop)
qed simp

subsection \<open>Children\<close>

lemma decode_children_step:
  assumes "length (sep @ put_u32 idx @ q) \<le> 65535"
  shows "decode_children (Suc n) (put_uvarint (of_nat (length sep)) @ sep @ put_u32 idx @ q) =
    bind_res (decode_children n q) (\<lambda>rest. Inr (\<lparr>Separator = sep, ChildIndex = idx\<rparr> # rest))"
proof -
  define tl where "tl = sep @ put_u32 idx @ q"
  have len: "length tl = length sep + (4 + length q)" "length tl \<le> 65535"
    using assms by (simp_all add: tl_def)
  have ls: "unat (of_nat (length sep) :: u64) = length sep"
    using len by (intro unat_length_u64) simp
  note lt = unat_length_u64 [OF len(2)]
  have c1: "\<not> (of_nat (length tl) :: u64) < of_nat (length sep)"
    using ls lt len by (simp add: word_less_nat_alt)
  then have "unat ((of_nat (length tl) :: u64) - of_nat (length sep)) = 4 + length q"
    using ls lt len by (subst unat_sub) (simp_all add: not_less)
  then have c2: "\<not> (of_nat (length tl) :: u64) - of_nat (length sep) < 4"
    by (simp add: word_less_nat_alt)
  have d: "drop (length sep) tl = put_u32 idx @ q" "take (length sep) tl = sep" by (simp_all add: tl_def)
  show ?thesis
    unfolding tl_def [symmetric] using c1 c2 ls len(1) by (simp add: d)
qed

lemma decode_children_encode:
  assumes "length (concat (map child_entry cs) @ rest) \<le> 65535"
  shows "decode_children (length cs) (concat (map child_entry cs) @ rest) = Inr cs"
  using assms
proof (induction cs)
  case (Cons c cs)
  from Cons.prems have "length (Separator c @ put_u32 (ChildIndex c) @ concat (map child_entry cs) @ rest) \<le> 65535"
    by (simp add: child_entry_def [of c])
  note step = decode_children_step [OF this, of "length cs"]
  from Cons show ?case
    by (simp add: child_entry_def [of c] step del: decode_children.simps)
qed simp

lemma decode_children_no_panic: "length p \<le> 65535 \<Longrightarrow> decode_children n p \<noteq> Inl Panic"
proof (induction n arbitrary: p)
  case (Suc n)
  obtain sl adv where u: "uvarint p = (sl, adv)" by fastforce
  define q where "q = drop (nat adv) p"
  have q: "length q \<le> 65535" using Suc.prems by (simp add: q_def)
  have "unat sl + 4 \<le> length q"
    if "\<not> sl > (of_nat (length q) :: u64)" "\<not> (of_nat (length q) :: u64) - sl < 4"
  proof -
    have "unat ((of_nat (length q) :: u64) - sl) = length q - unat sl"
      using that(1) unat_length_u64 [OF q] by (subst unat_sub) (simp_all add: not_less)
    then have "4 \<le> length q - unat sl" using that(2) by (simp add: word_less_nat_alt not_less)
    then show ?thesis by simp
  qed
  moreover have "decode_children n (drop 4 (drop (unat sl) q)) \<noteq> Inl Panic"
    using q by (intro Suc.IH) simp
  ultimately show ?case
    using uvarint_adv [OF u] by (auto simp: u bind_res_Inl_iff simp flip: q_def simp del: drop_drop)
qed simp

subsection \<open>Round trips of whole pages\<close>

lemma EncodeLeaf_Inr:
  assumes "EncodeLeaf K level rs ps = Inr page"
  obtains encs p where "rs \<noteq> []" "length rs \<le> 0xFFFF" "map_res (EncodeRecord K) rs = Inr encs"
    "p = put_u16 (of_nat (length rs)) @ concat (map leaf_entry encs)" "length p \<le> 0xFFFF"
    "int (PageHeaderSize + length p) \<le> ps"
    "page = pad_to (nat ps) (encodeHeader \<lparr>h_kind = PageKindLeaf, h_level = of_int level,
                         h_payload = of_nat (length p)\<rparr> @ p)"
  using assms by (auto simp: EncodeLeaf_def bind_res_Inr_iff Let_def split: if_splits)

lemma leaf_page:
  assumes "codec_ok K" and "\<forall>r \<in> set rs. wf_record r" and "EncodeLeaf K level rs ps = Inr page"
  shows "length page = nat ps" and "DecodeLeaf K page = Inr rs"
    and "\<exists>h. decodeHeader page = Inr h \<and> h_kind h = PageKindLeaf"
proof -
  from assms(3) obtain encs p where e: "length rs \<le> 0xFFFF" "map_res (EncodeRecord K) rs = Inr encs"
    and p: "p = put_u16 (of_nat (length rs)) @ concat (map leaf_entry encs)" "length p \<le> 0xFFFF"
    and ps: "int (PageHeaderSize + length p) \<le> ps"
    and page: "page = pad_to (nat ps) (encodeHeader \<lparr>h_kind = PageKindLeaf, h_level = of_int level,
                         h_payload = of_nat (length p)\<rparr> @ p)"
    by (rule EncodeLeaf_Inr)
  show "length page = nat ps" unfolding page using ps by (intro length_pad_to) simp
  show "\<exists>h. decodeHeader page = Inr h \<and> h_kind h = PageKindLeaf" by (simp add: page)
  have "page_payload (\<lambda>k. k = PageKindLeaf) page = Inr p"
    unfolding page by (rule page_payload_encode) (use p(2) in \<open>simp_all add: unat_of_nat_le\<close>, simp add: p(1))
  moreover have "decode_records K (length rs) (concat (map leaf_entry encs)) = Inr rs"
    using decode_records_encode [OF assms(1,2) e(2), of "[]"] p by simp
  ultimately show "DecodeLeaf K page = Inr rs"
    using e(1) by (simp add: DecodeLeaf_def p unat_of_nat_le)
qed

lemma force_first_eq_Nil [simp]: "force_first cs = [] \<longleftrightarrow> cs = []"
  and length_force_first [simp]: "length (force_first cs) = length cs"
  by (cases cs; simp)+

lemma EncodeInterior_Inr:
  assumes "EncodeInterior kind level cs ps = Inr page"
  obtains p where "kind = PageKindInterior \<or> kind = PageKindRoot" "cs \<noteq> []" "length cs \<le> 0xFFFF"
    "p = put_u16 (of_nat (length cs)) @ concat (map child_entry (force_first cs))" "length p \<le> 0xFFFF"
    "int (PageHeaderSize + length p) \<le> ps"
    "page = pad_to (nat ps) (encodeHeader \<lparr>h_kind = kind, h_level = of_int level,
                         h_payload = of_nat (length p)\<rparr> @ p)"
  using assms by (auto simp: EncodeInterior_def Let_def split: if_splits)

lemma interior_page:
  assumes "EncodeInterior kind level cs ps = Inr page"
  shows "length page = nat ps" and "DecodeInterior page = Inr (force_first cs)"
    and "\<exists>h. decodeHeader page = Inr h \<and> h_kind h = kind"
    and "kind = PageKindInterior \<or> kind = PageKindRoot"
proof -
  from assms obtain p where k: "kind = PageKindInterior \<or> kind = PageKindRoot" and l: "length cs \<le> 0xFFFF"
    and p: "p = put_u16 (of_nat (length cs)) @ concat (map child_entry (force_first cs))" "length p \<le> 0xFFFF"
    and ps: "int (PageHeaderSize + length p) \<le> ps"
    and page: "page = pad_to (nat ps) (encodeHeader \<lparr>h_kind = kind, h_level = of_int level,
                         h_payload = of_nat (length p)\<rparr> @ p)"
    by (rule EncodeInterior_Inr)
  show "kind = PageKindInterior \<or> kind = PageKindRoot" by (rule k)
  show "length page = nat ps" unfolding page using ps by (intro length_pad_to) simp
  show "\<exists>h. decodeHeader page = Inr h \<and> h_kind h = kind" by (simp add: page)
  have "page_payload (\<lambda>k. k = PageKindInterior \<or> k = PageKindRoot) page = Inr p"
    unfolding page by (rule page_payload_encode) (use p(2) k in \<open>simp_all add: unat_of_nat_le\<close>, simp add: p(1))
  moreover have "decode_children (length cs) (concat (map child_entry (force_first cs))) = Inr (force_first cs)"
    using decode_children_encode [of "force_first cs" "[]"] p by simp
  ultimately show "DecodeInterior page = Inr (force_first cs)"
    using l by (simp add: DecodeInterior_def p unat_of_nat_le)
qed

lemma length_encodeTrailerFields: "wf_trailer t \<Longrightarrow> length (encodeTrailerFields t) = 98"
  by (simp add: encodeTrailerFields_def wf_trailer_def)

lemma trailer_page:
  assumes "wf_trailer t" and "EncodeTrailer t ps = Inr page"
  shows "length page = nat ps" and "DecodeTrailer page = Inr t"
proof -
  let ?h = "\<lparr>h_kind = PageKindTrailer, h_level = 0, h_payload = of_nat TrailerPayloadSize :: u16\<rparr>"
  let ?p = "encodeTrailerFields t @ t_PublisherSig t"
  have lp: "length ?p = 162"
    using assms(1) length_encodeTrailerFields [OF assms(1)] by (simp add: wf_trailer_def)
  from assms(2) have ps: "178 \<le> ps" and v: "t_Version t = TrailerVersion"
    and page: "page = pad_to (nat ps) (encodeHeader ?h @ ?p)"
    by (auto simp: EncodeTrailer_def PageHeaderSize_def TrailerPayloadSize_def split: if_splits)
  show len: "length page = nat ps" unfolding page using ps lp
    by (intro length_pad_to) (simp add: PageHeaderSize_def)
  have "sub_slice PageHeaderSize (PageHeaderSize + TrailerPayloadSize) page = Inr ?p"
    using lp by (simp add: page pad_to_def sub_slice_def slice_def TrailerPayloadSize_def)
  moreover have "\<not> PageHeaderSize + TrailerPayloadSize > length page"
    using len ps by (simp add: PageHeaderSize_def TrailerPayloadSize_def)
  moreover have "unat (of_nat TrailerPayloadSize :: u16) = TrailerPayloadSize"
    by (simp add: TrailerPayloadSize_def)
  ultimately show "DecodeTrailer page = Inr t"
    using v assms(1)
    by (cases t) (simp add: DecodeTrailer_def page wf_trailer_def encodeTrailerFields_def nth_append nth_Cons'
        drop_Cons')
qed

lemma trailer_version: "EncodeTrailer t ps = Inr page \<Longrightarrow> t_Version t = TrailerVersion"
  by (simp add: EncodeTrailer_def split: if_splits)

lemma DecodeTrailer_no_panic: "DecodeTrailer page \<noteq> Inl Panic"
  by (auto simp: DecodeTrailer_def bind_res_Inl_iff decodeHeader_no_panic sub_slice_def slice_def
      split: if_splits)

lemma DecodeLeaf_no_panic: "DecodeLeaf K page \<noteq> Inl Panic"
  by (cases "page_payload (\<lambda>k. k = PageKindLeaf) page")
    (use page_payload_no_panic [of "(\<lambda>k. k = PageKindLeaf)" page] in
      \<open>auto simp: DecodeLeaf_def decode_records_no_panic dest: page_payload_length(1)\<close>)

lemma DecodeInterior_no_panic: "DecodeInterior page \<noteq> Inl Panic"
  by (cases "page_payload (\<lambda>k. k = PageKindInterior \<or> k = PageKindRoot) page")
    (use page_payload_no_panic [of "(\<lambda>k. k = PageKindInterior \<or> k = PageKindRoot)" page] in
      \<open>auto simp: DecodeInterior_def decode_children_no_panic dest: page_payload_length(1)\<close>)

section \<open>A concrete codec for the closed examples\<close>

definition toy_codec :: codec where
  "toy_codec =
     \<lparr>marshal = (\<lambda>w. if length (w_IH w) = 20 \<and> length (w_Pk w) = 32 \<and> length (w_Sig w) = 64
                     then Some (w_IH w @ w_Pk w @ w_Sig w @ put_u64 (w_Pow w) @ put_u64 (w_T w) @ w_Kw w)
                     else None),
      decode = (\<lambda>_ b. Some \<lparr>w_IH = take 20 b, w_Kw = drop 132 b, w_Pk = take 32 (drop 20 b),
                            w_Pow = get_u64 (drop 116 b), w_Sig = take 64 (drop 52 b),
                            w_T = get_u64 (drop 124 b)\<rparr>)\<rparr>"

lemma toy_codec_ok: "codec_ok toy_codec"
  by (auto simp: codec_ok_def toy_codec_def)

lemma toy_EncodeRecord:
  assumes "wf_record r" "0 < length (Kw r)" "length (Kw r) \<le> 64"
  shows "\<exists>b. EncodeRecord toy_codec r = Inr b \<and> length b = 132 + length (Kw r)"
  using assms
  by (simp add: EncodeRecord_def toy_codec_def wire_of_def wf_record_def MaxKeywordBytes_def MaxRecordBytes_def)

section \<open>Properties\<close>

text \<open>
  C4: every page survives its round trip.  A leaf, interior or trailer page that encodes at all is
  exactly one piece long and decodes to what was encoded: the records of a leaf in order, the
  children of an interior page with the first separator forced empty, all fields of the trailer.
\<close>

theorem pages_roundtrip:
  assumes "codec_ok K" and "\<forall>r \<in> set rs. wf_record r" and "wf_trailer t"
  shows "(EncodeLeaf K level rs ps = Inr page \<longrightarrow> length page = nat ps \<and> DecodeLeaf K page = Inr rs) \<and>
    (EncodeInterior kind level cs ps = Inr page \<longrightarrow>
       length page = nat ps \<and> DecodeInterior page = Inr (force_first cs)) \<and>
    (EncodeTrailer t ps = Inr page \<longrightarrow> length page = nat ps \<and> DecodeTrailer page = Inr t)"
  by (intro conjI impI leaf_page [OF assms(1,2)] interior_page trailer_page [OF assms(3)]) assumption+

definition toy_trailer :: Trailer where
  "toy_trailer = \<lparr>t_Version = 1, t_PubKey = replicate 32 7, t_Seq = 1, t_CreatedTs = 2,
     t_RootPieceIndex = 0, t_NumPages = 3, t_NumRecords = 1, t_MinPoWBits = 0,
     t_Fingerprint = replicate 32 5, t_PublisherSig = replicate 64 7\<rparr>"

theorem pages_roundtrip_witness:
  "(\<exists>page. EncodeLeaf toy_codec 0 [toy_record] 16384 = Inr page \<and> DecodeLeaf toy_codec page = Inr [toy_record]) \<and>
   (\<exists>page. EncodeTrailer toy_trailer 16384 = Inr page \<and> DecodeTrailer page = Inr toy_trailer)"
proof -
  have r: "wf_record toy_record" "Kw toy_record = [0x75, 0x62]" by (simp_all add: wf_record_def toy_record_def)
  then have rs: "\<forall>r \<in> set [toy_record]. wf_record r" by simp
  have t: "wf_trailer toy_trailer" by (simp add: wf_trailer_def toy_trailer_def)
  obtain b where b: "EncodeRecord toy_codec toy_record = Inr b" "length b = 134"
    using toy_EncodeRecord [OF r(1)] r(2) by auto
  have "put_uvarint 134 = [0x86, 1]" by (subst put_uvarint.simps, simp, subst put_uvarint.simps, simp add: word_le_nat_alt)
  with b have l: "\<exists>page. EncodeLeaf toy_codec 0 [toy_record] 16384 = Inr page"
    by (simp add: EncodeLeaf_def leaf_entry_def Let_def PageHeaderSize_def)
  have e: "\<exists>page. EncodeTrailer toy_trailer 16384 = Inr page"
    by (simp add: EncodeTrailer_def toy_trailer_def TrailerVersion_def PageHeaderSize_def TrailerPayloadSize_def)
  show ?thesis using l e pages_roundtrip [OF toy_codec_ok rs t] by blast
qed


end
