(* ===== verification/Snagg_Read.thy ===== *)
theory Snagg_Read
  imports Snagg_Format
begin

text \<open>
  Reading a SNAGG tree (\<^verbatim>\<open>contracts/snagg/read.go\<close>).  A \<open>PageSource\<close> is the Go interface as a
  record of its two methods; \<open>BytesPageSource\<close> is the implementation over one byte slice.  The
  walk threads its visited set and the leaves found so far; it is a total function, because child
  indices must increase.  The empty slice stands for \<open>nil\<close>, the infinite bound: the decoder copies
  separators with \<open>append([]byte(nil), ...)\<close>, which gives \<open>nil\<close> for an empty one.
\<close>

section \<open>Page sources\<close>

record PageSource =
  Piece :: "nat \<Rightarrow> snagg_error + bytes"
  NumPieces :: nat

definition bytes_num_pieces :: "bytes \<Rightarrow> int \<Rightarrow> nat" where
  "bytes_num_pieces data pieceSize = (if pieceSize \<le> 0 then 0 else length data div nat pieceSize)"

definition bytes_piece :: "bytes \<Rightarrow> int \<Rightarrow> nat \<Rightarrow> snagg_error + bytes" where
  "bytes_piece data pieceSize index =
     (if index \<ge> bytes_num_pieces data pieceSize then Inl (ErrPieceRange index)
      else let off = index * nat pieceSize in sub_slice off (off + nat pieceSize) data)"

definition BytesPageSource :: "bytes \<Rightarrow> int \<Rightarrow> PageSource" where
  "BytesPageSource data pieceSize =
     \<lparr>Piece = bytes_piece data pieceSize, NumPieces = bytes_num_pieces data pieceSize\<rparr>"

section \<open>Opening\<close>

record Tree =
  src :: PageSource
  trailer :: Trailer

definition OpenBTree :: "crypto \<Rightarrow> PageSource \<Rightarrow> snagg_error + Tree" where
  "OpenBTree C s =
     (let n = NumPieces s in
      if n < 3 then Inl (ErrFewPages n)
      else bind_res (Piece s (n - 1)) (\<lambda>lastPage.
        bind_res (DecodeTrailer lastPage) (\<lambda>tr.
          case VerifyTrailerSig C tr of
            Some e \<Rightarrow> Inl e
          | None \<Rightarrow>
              if unat (t_NumPages tr) \<noteq> n then Inl ErrPageCount
              else if t_RootPieceIndex tr \<noteq> 0 then Inl ErrRootPiece
              else Inr \<lparr>src = s, trailer = tr\<rparr>)))"

section \<open>Prefix ranges\<close>

text \<open>The loop strips trailing \<open>0xFF\<close> bytes from the end, so it recurses on the reversed slice.\<close>

fun next_prefix_rev :: "bytes \<Rightarrow> bytes" where
  "next_prefix_rev [] = []"
| "next_prefix_rev (b # bs) = (if b < 0xFF then (b + 1) # bs else next_prefix_rev bs)"

definition nextPrefix :: "bytes \<Rightarrow> bytes" where
  "nextPrefix p = rev (next_prefix_rev (rev p))"

definition rangeOverlapsPrefix :: "bytes \<Rightarrow> bytes \<Rightarrow> bytes \<Rightarrow> bytes \<Rightarrow> bool" where
  "rangeOverlapsPrefix lower upper pLo pHi =
     (if upper \<noteq> [] \<and> bytes_compare upper pLo \<le> 0 then False
      else if pHi \<noteq> [] \<and> lower \<noteq> [] \<and> bytes_compare lower pHi \<ge> 0 then False
      else True)"

section \<open>The walk\<close>

text \<open>
  \<open>walk_children\<close> is the loop over the children of page \<open>pieceIdx\<close>; the next separator, when
  there is one, is the upper bound of the current child.
\<close>

function (sequential)
  walkToLeaves :: "PageSource \<Rightarrow> nat \<Rightarrow> bytes \<Rightarrow> bytes \<Rightarrow> nat set \<Rightarrow> nat list \<Rightarrow>
    snagg_error + nat set \<times> nat list" and
  walk_children :: "PageSource \<Rightarrow> nat \<Rightarrow> InteriorChild list \<Rightarrow> bytes \<Rightarrow> bytes \<Rightarrow> nat set \<Rightarrow> nat list \<Rightarrow>
    snagg_error + nat set \<times> nat list"
where
  "walkToLeaves s pieceIdx pLo pHi visited out =
     (if pieceIdx \<in> visited then Inl (ErrRevisited pieceIdx)
      else let visited = insert pieceIdx visited in
        bind_res (Piece s pieceIdx) (\<lambda>page. bind_res (decodeHeader page) (\<lambda>h.
          if h_kind h = PageKindLeaf then Inr (visited, out @ [pieceIdx])
          else if h_kind h = PageKindRoot \<or> h_kind h = PageKindInterior then
            bind_res (DecodeInterior page) (\<lambda>children.
              walk_children s pieceIdx children pLo pHi visited out)
          else Inl (ErrKind (h_kind h)))))"
| "walk_children s prevIdx [] pLo pHi visited out = Inr (visited, out)"
| "walk_children s prevIdx (c # cs) pLo pHi visited out =
     (let ci = unat (ChildIndex c) in
      if ci \<le> prevIdx \<or> ci + 1 \<ge> NumPieces s then Inl (ErrChildIndex prevIdx ci)
      else
        let upper = (case cs of [] \<Rightarrow> [] | c' # _ \<Rightarrow> Separator c') in
        if rangeOverlapsPrefix (Separator c) upper pLo pHi then
          bind_res (walkToLeaves s ci pLo pHi visited out) (\<lambda>(visited, out).
            walk_children s ci cs pLo pHi visited out)
        else walk_children s ci cs pLo pHi visited out)"
  by pat_completeness auto
termination
  by (relation "inv_image (less_than <*lex*> less_than)
      (\<lambda>x. case x of Inl (s, i, _) \<Rightarrow> (NumPieces s - i, 1)
                   | Inr (s, i, _) \<Rightarrow> (NumPieces s - i, 0))") auto

declare walkToLeaves.simps [simp del]

section \<open>Queries\<close>

definition record_passes :: "crypto \<Rightarrow> Trailer \<Rightarrow> bytes \<Rightarrow> Record \<Rightarrow> bool" where
  "record_passes C tr pfx r \<longleftrightarrow>
     has_prefix (Kw r) pfx \<and> Verify C r = None \<and>
     \<not> (unat (t_MinPoWBits tr) > 0 \<and> VerifyPoW C r (int (unat (t_MinPoWBits tr))) \<noteq> None)"

text \<open>The check that the walk returned no leaf twice.\<close>

fun leaves_once :: "nat set \<Rightarrow> nat list \<Rightarrow> snagg_error option" where
  "leaves_once seen [] = None"
| "leaves_once seen (li # ls) =
     (if li \<in> seen then Some (ErrLeafTwice li) else leaves_once (insert li seen) ls)"

definition read_leaf :: "codec \<Rightarrow> PageSource \<Rightarrow> nat \<Rightarrow> snagg_error + Record list" where
  "read_leaf K s li = bind_res (Piece s li) (DecodeLeaf K)"

definition Find :: "crypto \<Rightarrow> codec \<Rightarrow> Tree \<Rightarrow> bytes \<Rightarrow> snagg_error + Record list" where
  "Find C K t pfx =
     (let pLo = pfx; pHi = nextPrefix pLo in
      bind_res (Piece (src t) 0) (\<lambda>root. bind_res (decodeHeader root) (\<lambda>rh.
        if h_kind rh \<noteq> PageKindRoot then Inl (ErrKind (h_kind rh))
        else bind_res (walkToLeaves (src t) 0 pLo pHi {} []) (\<lambda>(_, leaves).
          if length leaves \<ge> NumPieces (src t) then Inl (ErrLeafCount (length leaves))
          else case leaves_once {} leaves of
            Some e \<Rightarrow> Inl e
          | None \<Rightarrow>
              bind_res (map_res (read_leaf K (src t)) leaves) (\<lambda>recs.
                Inr (filter (record_passes C (trailer t) pfx) (concat recs)))))))"

text \<open>The loop of \<open>VerifyFingerprint\<close> over the data pages, with the bytes hashed so far.\<close>

primrec hash_records :: "codec \<Rightarrow> u64 \<Rightarrow> Record list \<Rightarrow> u64 \<times> bytes \<Rightarrow> snagg_error + u64 \<times> bytes" where
  "hash_records K limit [] acc = Inr acc"
| "hash_records K limit (r # rs) acc =
     (if fst acc \<ge> limit then Inl ErrRecordCount
      else bind_res (EncodeRecord K r) (\<lambda>enc. hash_records K limit rs (fst acc + 1, snd acc @ enc)))"

primrec hash_pages :: "codec \<Rightarrow> Tree \<Rightarrow> nat list \<Rightarrow> u64 \<times> bytes \<Rightarrow> snagg_error + u64 \<times> bytes" where
  "hash_pages K t [] acc = Inr acc"
| "hash_pages K t (i # is) acc =
     bind_res (Piece (src t) i) (\<lambda>page. bind_res (decodeHeader page) (\<lambda>hdr.
       if h_kind hdr \<noteq> PageKindLeaf then hash_pages K t is acc
       else bind_res (DecodeLeaf K page) (\<lambda>recs.
         bind_res (hash_records K (t_NumRecords (trailer t)) recs acc) (hash_pages K t is))))"

definition VerifyFingerprint :: "crypto \<Rightarrow> codec \<Rightarrow> Tree \<Rightarrow> snagg_error option" where
  "VerifyFingerprint C K t =
     (case hash_pages K t [0..<NumPieces (src t) - 1] (0, []) of
        Inl e \<Rightarrow> Some e
      | Inr (cnt, stream) \<Rightarrow>
          if cnt \<noteq> t_NumRecords (trailer t) then Some ErrRecordCount
          else if copy_array 32 (sha256 C stream) \<noteq> t_Fingerprint (trailer t) then Some ErrFingerprint
          else None)"

section \<open>Lemmas\<close>

subsection \<open>Prefix ranges\<close>

lemma byte_FF_max: "\<not> (b::byte) < 0xFF \<longleftrightarrow> b = 0xFF"
  using unat_byte_less [of b] by (auto simp: word_less_nat_alt word_unat_eq_iff)

lemma byte_less_Suc: "(b::byte) < 0xFF \<Longrightarrow> a < b + 1 \<longleftrightarrow> a \<le> b"
  by (simp add: word_less_nat_alt word_le_nat_alt unat_word_ariths less_Suc_eq_le)

lemma next_prefix_cases:
  obtains "nextPrefix p = []" "\<forall>b \<in> set p. b = 0xFF"
  | q b n where "p = q @ [b] @ replicate n 0xFF" "b < 0xFF" "nextPrefix p = q @ [b + 1]"
proof -
  have "(next_prefix_rev q = [] \<and> (\<forall>b \<in> set q. b = 0xFF)) \<or>
    (\<exists>r b n. q = replicate n 0xFF @ [b] @ r \<and> b < 0xFF \<and> next_prefix_rev q = (b + 1) # r)" for q
  proof (induction q)
    case (Cons b q)
    show ?case
    proof (cases "b < 0xFF")
      case True
      then show ?thesis by (intro disjI2 exI [of _ q] exI [of _ b] exI [of _ 0]) simp
    next
      case False
      then have b: "b = 0xFF" by (simp add: byte_FF_max)
      from Cons False show ?thesis
      proof (elim disjE exE conjE)
        fix r c n
        assume "q = replicate n 0xFF @ [c] @ r" "c < 0xFF" "next_prefix_rev q = (c + 1) # r"
        then show ?thesis using b by (intro disjI2 exI [of _ r] exI [of _ c] exI [of _ "Suc n"]) simp
      qed (use b in auto)
    qed
  qed simp
  from this [of "rev p"] show ?thesis
  proof (elim disjE exE conjE)
    fix r b n
    assume "rev p = replicate n 0xFF @ [b] @ r" "b < 0xFF" "next_prefix_rev (rev p) = (b + 1) # r"
    moreover from this(1) have "p = rev r @ [b] @ replicate n 0xFF"
      by (metis append_assoc rev_append rev_replicate rev_rev_ident rev_singleton_conv)
    ultimately show ?thesis using that(2) by (simp add: nextPrefix_def)
  qed (use that(1) in \<open>simp add: nextPrefix_def\<close>)
qed

lemma all_FF_le_prefix: "\<forall>b \<in> set p. b = (0xFF::byte) \<Longrightarrow> p \<le> s \<Longrightarrow> prefix p s"
proof (induction p arbitrary: s)
  case (Cons b p)
  then obtain c s' where s: "s = c # s'" by (cases s) auto
  have "\<not> (0xFF::byte) < c" using unat_byte_less [of c] by (simp add: word_less_nat_alt)
  with Cons show ?case by (auto simp: s)
qed simp

lemma le_append_FF:
  "q @ [b] @ replicate n (0xFF::byte) \<le> s \<and> s < q @ [c] \<longleftrightarrow>
     (\<exists>d s'. s = q @ d # s' \<and> d < c \<and> (b < d \<or> b = d \<and> prefix (replicate n 0xFF) s'))"
proof (induction q arbitrary: s)
  case Nil
  show ?case
  proof (cases s)
    case (Cons d s')
    then show ?thesis
      using all_FF_le_prefix [of "replicate n 0xFF" s'] prefix_le_list [of "replicate n 0xFF" s'] by auto
  qed simp
next
  case (Cons a q)
  then show ?case by (cases s) auto
qed

text \<open>\<open>[p, nextPrefix(p))\<close> is exactly the set of slices that begin with \<open>p\<close>.\<close>

lemma nextPrefix_range:
  "prefix p s \<longleftrightarrow> p \<le> s \<and> (nextPrefix p = [] \<or> s < nextPrefix p)"
proof (cases rule: next_prefix_cases [of p])
  case 1
  then show ?thesis using prefix_le_list all_FF_le_prefix by auto
next
  case (2 q b n)
  have "p \<le> s \<and> s < nextPrefix p \<longleftrightarrow> (\<exists>s'. s = q @ b # s' \<and> prefix (replicate n 0xFF) s')"
  proof -
    have "d < b + 1 \<and> (b < d \<or> b = d \<and> X) \<longleftrightarrow> d = b \<and> X" for d X
      using byte_less_Suc [OF 2(2), of d] by auto
    then show ?thesis unfolding 2(3) unfolding 2(1) le_append_FF by simp
  qed
  also have "\<dots> \<longleftrightarrow> prefix p s" unfolding 2(1) by (auto simp: prefix_def)
  finally show ?thesis using 2(3) by simp
qed

lemma rangeOverlapsPrefix_iff:
  "rangeOverlapsPrefix lower upper pLo pHi \<longleftrightarrow>
     \<not> (upper \<noteq> [] \<and> upper \<le> pLo) \<and> \<not> (pHi \<noteq> [] \<and> lower \<noteq> [] \<and> pHi \<le> lower)"
  by (simp add: rangeOverlapsPrefix_def bytes_compare_le)

subsection \<open>Any walk is bounded\<close>

text \<open>
  Whatever the pages say, a walk that returns has only added pieces between its start and the
  trailer, each at most once; the leaves it adds are among them and distinct.
\<close>

definition walk_adds :: "nat \<Rightarrow> nat set \<Rightarrow> nat list \<Rightarrow> nat \<Rightarrow> nat set \<Rightarrow> nat list \<Rightarrow> bool" where
  "walk_adds n vis out lo vis' out' \<longleftrightarrow>
     vis \<subseteq> vis' \<and> (\<forall>j \<in> vis' - vis. lo \<le> j \<and> (lo < j \<longrightarrow> j + 1 < n)) \<and>
     (\<exists>new. out' = out @ new \<and> distinct new \<and> set new \<subseteq> vis' - vis)"

lemma walk_adds_refl: "walk_adds n vis out lo vis out"
  by (simp add: walk_adds_def)

lemma walk_adds_trans:
  assumes "walk_adds n v o1 lo v1 o2" and "walk_adds n v1 o2 lo v2 o3"
  shows "walk_adds n v o1 lo v2 o3"
proof -
  from assms obtain a b where "o2 = o1 @ a" "distinct a" "set a \<subseteq> v1 - v" "o3 = o2 @ b" "distinct b"
    "set b \<subseteq> v2 - v1" "v \<subseteq> v1" "v1 \<subseteq> v2" unfolding walk_adds_def by blast
  then have "\<exists>new. o3 = o1 @ new \<and> distinct new \<and> set new \<subseteq> v2 - v"
    by (intro exI [of _ "a @ b"]) auto
  with assms show ?thesis unfolding walk_adds_def by blast
qed

lemma walk_adds_mono:
  "walk_adds n v o1 i v1 o2 \<Longrightarrow> lo \<le> i \<Longrightarrow> lo < i \<longrightarrow> i + 1 < n \<Longrightarrow> walk_adds n v o1 lo v1 o2"
  unfolding walk_adds_def by (metis le_antisym le_trans nless_le)

lemma walk_bounded:
  "walkToLeaves s i pLo pHi vis out = Inr (vis', out') \<Longrightarrow> walk_adds (NumPieces s) vis out i vis' out'"
  "walk_children s i cs pLo pHi vis out = Inr (vis', out') \<Longrightarrow> walk_adds (NumPieces s) vis out i vis' out'"
proof (induction s i pLo pHi vis out and s i cs pLo pHi vis out
    arbitrary: vis' out' and vis' out' rule: walkToLeaves_walk_children.induct)
  case (1 s i pLo pHi vis out)
  from 1(2) have i: "i \<notin> vis" by (auto simp: walkToLeaves.simps [of s i] split: if_splits)
  have "walk_adds (NumPieces s) vis out i (insert i vis) (out @ [i])"
    "walk_adds (NumPieces s) vis out i (insert i vis) out"
    using i by (auto simp: walk_adds_def)
  moreover have "(vis' = insert i vis \<and> out' = out @ [i]) \<or>
      walk_adds (NumPieces s) (insert i vis) out i vis' out'"
    using 1(2) i
    by (auto simp: walkToLeaves.simps [of s i] Let_def bind_res_Inr_iff split: if_splits intro: 1(1))
  ultimately show ?case using walk_adds_trans by blast
next
  case (2 s prevIdx pLo pHi vis out)
  then show ?case by (simp add: walk_adds_refl)
next
  case (3 s prevIdx c cs pLo pHi vis out)
  let ?ci = "unat (ChildIndex c)"
  let ?up = "case cs of [] \<Rightarrow> [] | c' # _ \<Rightarrow> Separator c'"
  from 3(4) have ci: "\<not> (?ci \<le> prevIdx \<or> ?ci + 1 \<ge> NumPieces s)" by (auto split: if_splits)
  note up = walk_adds_mono [of "NumPieces s" _ _ ?ci _ _ prevIdx]
  show ?case
  proof (cases "rangeOverlapsPrefix (Separator c) ?up pLo pHi")
    case True
    with 3(4) ci obtain v1 o1 where w: "walkToLeaves s ?ci pLo pHi vis out = Inr (v1, o1)"
      "walk_children s ?ci cs pLo pHi v1 o1 = Inr (vis', out')"
      by (auto simp: Let_def bind_res_Inr_iff)
    from 3(1) [OF refl ci refl True w(1)] 3(2) [OF refl ci refl True w(2)] show ?thesis
      using ci by (meson up walk_adds_trans not_le less_imp_le)
  next
    case False
    with 3(3) [OF refl ci refl False] 3(4) ci show ?thesis by (auto simp: Let_def intro!: up)
  qed
qed

lemma leaves_once_distinct: "leaves_once seen ls = None \<longleftrightarrow> distinct ls \<and> set ls \<inter> seen = {}"
  by (induction ls arbitrary: seen) auto

lemma leaves_once_panic: "leaves_once seen ls \<noteq> Some Panic"
  by (induction ls arbitrary: seen) auto

lemma OpenBTree_Inr:
  assumes "OpenBTree C s = Inr t"
  shows "src t = s" and "3 \<le> NumPieces s" and "VerifyTrailerSig C (trailer t) = None"
    and "unat (t_NumPages (trailer t)) = NumPieces s"
  using assms by (auto simp: OpenBTree_def Let_def bind_res_Inr_iff split: option.splits if_splits)

lemma walk_from_root:
  assumes "walkToLeaves s 0 pLo pHi {} [] = Inr (vis, leaves)" and "3 \<le> NumPieces s"
  shows "distinct leaves" and "set leaves \<subseteq> {0..<NumPieces s - 1}" and "vis \<subseteq> {0..<NumPieces s - 1}"
    and "leaves_once {} leaves = None" and "length leaves < NumPieces s"
proof -
  from walk_bounded(1) [OF assms(1)] have d: "distinct leaves" "set leaves \<subseteq> vis"
    and v: "\<forall>j \<in> vis. 0 < j \<longrightarrow> j + 1 < NumPieces s" by (auto simp: walk_adds_def)
  from v assms(2) show vis: "vis \<subseteq> {0..<NumPieces s - 1}"
  proof (intro subsetI)
    fix j assume "j \<in> vis"
    with v have "0 < j \<longrightarrow> j + 1 < NumPieces s" by blast
    with assms(2) show "j \<in> {0..<NumPieces s - 1}" by (cases "j = 0") auto
  qed
  with d show s: "set leaves \<subseteq> {0..<NumPieces s - 1}" by blast
  show "distinct leaves" by (rule d(1))
  with d show "leaves_once {} leaves = None" by (simp add: leaves_once_distinct)
  have "length leaves = card (set leaves)" using d(1) by (simp add: distinct_card)
  also have "\<dots> \<le> card {0..<NumPieces s - 1}" using s by (intro card_mono) simp_all
  finally show "length leaves < NumPieces s" using assms(2) by simp
qed

section \<open>Page trees\<close>

text \<open>
  The abstract content of a well-formed file: a tree whose nodes carry their piece index.
  \<open>represents\<close> says that the pages of a source decode to the tree.
\<close>

datatype ptree = Lf nat "Record list" | Br nat "ptree list"

fun root_idx :: "ptree \<Rightarrow> nat" where
  "root_idx (Lf p rs) = p"
| "root_idx (Br p ts) = p"

fun pieces :: "ptree \<Rightarrow> nat list" where
  "pieces (Lf p rs) = [p]"
| "pieces (Br p ts) = p # concat (map pieces ts)"

fun recs :: "ptree \<Rightarrow> Record list" where
  "recs (Lf p rs) = rs"
| "recs (Br p ts) = concat (map recs ts)"

fun full :: "ptree \<Rightarrow> bool" where
  "full (Lf p rs) \<longleftrightarrow> rs \<noteq> []"
| "full (Br p ts) \<longleftrightarrow> ts \<noteq> [] \<and> (\<forall>t \<in> set ts. full t)"

fun min_key :: "ptree \<Rightarrow> bytes" where
  "min_key (Lf p rs) = RecordKey (hd rs)"
| "min_key (Br p ts) = (case ts of [] \<Rightarrow> [] | t # _ \<Rightarrow> min_key t)"

definition child_of :: "ptree \<Rightarrow> InteriorChild" where
  "child_of t = \<lparr>Separator = min_key t, ChildIndex = of_nat (root_idx t)\<rparr>"

definition leaf_at :: "codec \<Rightarrow> PageSource \<Rightarrow> nat \<Rightarrow> Record list \<Rightarrow> bool" where
  "leaf_at K s p rs \<longleftrightarrow>
     (\<exists>page h. Piece s p = Inr page \<and> decodeHeader page = Inr h \<and> h_kind h = PageKindLeaf \<and>
        DecodeLeaf K page = Inr rs)"

definition interior_at :: "PageSource \<Rightarrow> nat \<Rightarrow> InteriorChild list \<Rightarrow> bool" where
  "interior_at s p cs \<longleftrightarrow>
     (\<exists>page h. Piece s p = Inr page \<and> decodeHeader page = Inr h \<and>
        (h_kind h = PageKindRoot \<or> h_kind h = PageKindInterior) \<and> DecodeInterior page = Inr cs)"

fun represents :: "codec \<Rightarrow> PageSource \<Rightarrow> ptree \<Rightarrow> bool" where
  "represents K s (Lf p rs) \<longleftrightarrow> leaf_at K s p rs"
| "represents K s (Br p ts) \<longleftrightarrow>
     interior_at s p (force_first (map child_of ts)) \<and> sorted_wrt (<) (p # map root_idx ts) \<and>
     (\<forall>t \<in> set ts. root_idx t < 2 ^ 32 \<and> root_idx t + 1 < NumPieces s \<and> represents K s t)"

text \<open>The leaves a query visits, with the bounds the separators give.\<close>

fun hits :: "bytes \<Rightarrow> bytes \<Rightarrow> ptree \<Rightarrow> (nat \<times> Record list) list"
  and hits_list :: "bytes \<Rightarrow> bytes \<Rightarrow> bytes \<Rightarrow> ptree list \<Rightarrow> (nat \<times> Record list) list" where
  "hits lo hi (Lf p rs) = [(p, rs)]"
| "hits lo hi (Br p ts) = hits_list lo hi [] ts"
| "hits_list lo hi lower [] = []"
| "hits_list lo hi lower (t # ts) =
     (if rangeOverlapsPrefix lower (case ts of [] \<Rightarrow> [] | t' # _ \<Rightarrow> min_key t') lo hi
      then hits lo hi t else []) @
     hits_list lo hi (case ts of [] \<Rightarrow> [] | t' # _ \<Rightarrow> min_key t') ts"

text \<open>Children whose separators are the minimal keys, but for the first, which has \<open>lower\<close>.\<close>

fun child_list :: "bytes \<Rightarrow> ptree list \<Rightarrow> InteriorChild list" where
  "child_list lower [] = []"
| "child_list lower (t # ts) = (child_of t)\<lparr>Separator := lower\<rparr> # map child_of ts"

lemma child_list_force: "force_first (map child_of ts) = child_list [] ts"
  by (cases ts) simp_all

lemma child_list_own: "ts = t # ts' \<Longrightarrow> map child_of ts = child_list (min_key t) ts"
  by (simp add: child_of_def)

lemma child_list_upper:
  "(case map child_of ts of [] \<Rightarrow> [] | c' # _ \<Rightarrow> Separator c') = (case ts of [] \<Rightarrow> [] | t' # _ \<Rightarrow> min_key t')"
  by (cases ts) (simp_all add: child_of_def)

lemma child_list_rest: "map child_of ts = child_list (case ts of [] \<Rightarrow> [] | t' # _ \<Rightarrow> min_key t') ts"
  by (cases ts) (simp_all add: child_of_def)

lemma root_in_pieces: "root_idx t \<in> set (pieces t)"
  by (cases t) simp_all

lemma walk_leaf:
  assumes "leaf_at K s p rs" and "p \<notin> vis"
  shows "walkToLeaves s p lo hi vis out = Inr (insert p vis, out @ [p])"
  using assms by (auto simp: leaf_at_def walkToLeaves.simps [of s p])

lemma walk_interior:
  assumes "interior_at s p cs" and "p \<notin> vis"
  shows "walkToLeaves s p lo hi vis out = walk_children s p cs lo hi (insert p vis) out"
  using assms by (auto simp: interior_at_def walkToLeaves.simps [of s p] page_kinds)

lemma walk_ptree:
  "represents K s t \<Longrightarrow> distinct (pieces t) \<Longrightarrow> set (pieces t) \<inter> vis = {} \<Longrightarrow>
     \<exists>V \<subseteq> set (pieces t). walkToLeaves s (root_idx t) lo hi vis out =
       Inr (vis \<union> V, out @ map fst (hits lo hi t))"
  "\<forall>t \<in> set ts. root_idx t < 2 ^ 32 \<and> root_idx t + 1 < NumPieces s \<and> represents K s t \<Longrightarrow>
   sorted_wrt (<) (p # map root_idx ts) \<Longrightarrow> distinct (concat (map pieces ts)) \<Longrightarrow>
   (\<Union>t \<in> set ts. set (pieces t)) \<inter> vis = {} \<Longrightarrow>
     \<exists>V \<subseteq> (\<Union>t \<in> set ts. set (pieces t)). walk_children s p (child_list lower ts) lo hi vis out =
       Inr (vis \<union> V, out @ map fst (hits_list lo hi lower ts))"
proof (induction lo hi t and lo hi lower ts arbitrary: vis out and vis out p rule: hits_hits_list.induct)
  case (1 lo hi p rs)
  then show ?case by (intro exI [of _ "{p}"]) (simp add: walk_leaf)
next
  case (2 lo hi p ts)
  have "\<exists>V \<subseteq> (\<Union>t \<in> set ts. set (pieces t)). walk_children s p (child_list [] ts) lo hi (insert p vis) out =
       Inr (insert p vis \<union> V, out @ map fst (hits_list lo hi [] ts))"
    using 2 by (intro 2(1)) auto
  then obtain V where "V \<subseteq> (\<Union>t \<in> set ts. set (pieces t))"
    "walk_children s p (child_list [] ts) lo hi (insert p vis) out =
       Inr (insert p vis \<union> V, out @ map fst (hits_list lo hi [] ts))" by blast
  moreover have "walkToLeaves s p lo hi vis out = walk_children s p (child_list [] ts) lo hi (insert p vis) out"
    using 2(2,4) by (intro walk_interior) (auto simp: child_list_force)
  ultimately show ?case by (intro exI [of _ "insert p V"]) auto
next
  case (3 lo hi lower)
  then show ?case by simp
next
  case (4 lo hi lower t ts)
  let ?up = "case ts of [] \<Rightarrow> [] | t' # _ \<Rightarrow> min_key t'"
  have t: "represents K s t" "root_idx t < 2 ^ 32" "root_idx t + 1 < NumPieces s" "p < root_idx t"
    using 4(3,4) by auto
  have ci: "unat (of_nat (root_idx t) :: u32) = root_idx t"
    using t(2) by (simp add: unsigned_of_nat take_bit_nat_eq_self)
  have rest: "\<exists>V \<subseteq> (\<Union>t \<in> set ts. set (pieces t)).
      walk_children s (root_idx t) (child_list ?up ts) lo hi v o1 =
        Inr (v \<union> V, o1 @ map fst (hits_list lo hi ?up ts))"
    if "(\<Union>t \<in> set ts. set (pieces t)) \<inter> v = {}" for v o1
    using 4(3-5) that by (intro 4(2)) auto
  have step: "walk_children s p (child_list lower (t # ts)) lo hi vis out =
      (if rangeOverlapsPrefix lower ?up lo hi
       then bind_res (walkToLeaves s (root_idx t) lo hi vis out)
              (\<lambda>(v, o1). walk_children s (root_idx t) (child_list ?up ts) lo hi v o1)
       else walk_children s (root_idx t) (child_list ?up ts) lo hi vis out)"
    using t(3,4) ci by (simp add: child_list_upper child_list_rest [symmetric] Let_def child_of_def)
  show ?case
  proof (cases "rangeOverlapsPrefix lower ?up lo hi")
    case True
    have "\<exists>V \<subseteq> set (pieces t). walkToLeaves s (root_idx t) lo hi vis out =
       Inr (vis \<union> V, out @ map fst (hits lo hi t))"
      using 4(5,6) t(1) True by (intro 4(1)) auto
    then obtain V where V: "V \<subseteq> set (pieces t)" "walkToLeaves s (root_idx t) lo hi vis out =
       Inr (vis \<union> V, out @ map fst (hits lo hi t))" by blast
    have "(\<Union>t \<in> set ts. set (pieces t)) \<inter> (vis \<union> V) = {}"
      using 4(5,6) V(1) by auto
    from rest [OF this, of "out @ map fst (hits lo hi t)"] obtain W where
      "W \<subseteq> (\<Union>t \<in> set ts. set (pieces t))"
      "walk_children s (root_idx t) (child_list ?up ts) lo hi (vis \<union> V) (out @ map fst (hits lo hi t)) =
        Inr (vis \<union> V \<union> W, (out @ map fst (hits lo hi t)) @ map fst (hits_list lo hi ?up ts))" by blast
    with V True step show ?thesis by (intro exI [of _ "V \<union> W"]) auto
  next
    case False
    have "(\<Union>t \<in> set ts. set (pieces t)) \<inter> vis = {}" using 4(6) by auto
    from rest [OF this, of out] False step show ?thesis by auto
  qed
qed

lemma full_recs: "full t \<Longrightarrow> recs t \<noteq> [] \<and> min_key t = RecordKey (hd (recs t))"
proof (induction t rule: full.induct)
  case (2 p ts)
  then show ?case by (cases ts) auto
qed simp

lemma RecordKey_nonempty [simp]: "RecordKey r \<noteq> []"
  by (simp add: RecordKey_def)

lemma hits_complete:
  "full t \<Longrightarrow> sorted (map RecordKey (recs t)) \<Longrightarrow>
   \<forall>r \<in> set (recs t). P r \<longrightarrow> lo < RecordKey r \<and> (hi = [] \<or> RecordKey r < hi) \<Longrightarrow>
     filter P (concat (map snd (hits lo hi t))) = filter P (recs t)"
  "\<forall>t \<in> set ts. full t \<Longrightarrow> sorted (map RecordKey (concat (map recs ts))) \<Longrightarrow>
   lower = [] \<or> (\<forall>r \<in> set (concat (map recs ts)). lower \<le> RecordKey r) \<Longrightarrow>
   \<forall>r \<in> set (concat (map recs ts)). P r \<longrightarrow> lo < RecordKey r \<and> (hi = [] \<or> RecordKey r < hi) \<Longrightarrow>
     filter P (concat (map snd (hits_list lo hi lower ts))) = filter P (concat (map recs ts))"
proof (induction lo hi t and lo hi lower ts rule: hits_hits_list.induct)
  case (4 lo hi lower t ts)
  let ?up = "case ts of [] \<Rightarrow> [] | t' # _ \<Rightarrow> min_key t'"
  have up: "?up = [] \<or> (\<forall>r \<in> set (concat (map recs ts)). ?up \<le> RecordKey r) \<and>
      (\<forall>r \<in> set (recs t). RecordKey r \<le> ?up)"
  proof (cases ts)
    case (Cons t' ts')
    then have f: "recs t' \<noteq> []" "min_key t' = RecordKey (hd (recs t'))" using 4(3) full_recs by auto
    then obtain r rs where r: "recs t' = r # rs" by (cases "recs t'") auto
    with f Cons 4(4) show ?thesis by (fastforce simp: sorted_append)
  qed simp
  have rest: "filter P (concat (map snd (hits_list lo hi ?up ts))) = filter P (concat (map recs ts))"
    using 4(3-6) up by (intro 4(2)) (auto simp: sorted_append)
  show ?case
  proof (cases "rangeOverlapsPrefix lower ?up lo hi")
    case True
    have "filter P (concat (map snd (hits lo hi t))) = filter P (recs t)"
      using 4(3-6) by (intro 4(1) [OF True]) (auto simp: sorted_append)
    with True rest show ?thesis by simp
  next
    case False
    then have "filter P (recs t) = []"
    proof (subst filter_empty_conv, intro ballI notI)
      fix r assume r: "r \<in> set (recs t)" "P r"
      with 4(6) have b: "lo < RecordKey r" "hi = [] \<or> RecordKey r < hi" by auto
      from False consider "?up \<noteq> []" "?up \<le> lo" | "hi \<noteq> []" "lower \<noteq> []" "hi \<le> lower"
        by (auto simp: rangeOverlapsPrefix_iff)
      then show False
      proof cases
        case 1
        with up r(1) b(1) show False by (meson le_less_trans not_le)
      next
        case 2
        with 4(5) r(1) have "lower \<le> RecordKey r" by auto
        with 2 b(2) show False by (meson le_less_trans not_le)
      qed
    qed
    with False rest show ?thesis by simp
  qed
qed simp_all

lemma hits_leaves:
  "represents K s t \<Longrightarrow> \<forall>(p, rs) \<in> set (hits lo hi t). leaf_at K s p rs"
  "\<forall>t \<in> set ts. represents K s t \<Longrightarrow> \<forall>(p, rs) \<in> set (hits_list lo hi lower ts). leaf_at K s p rs"
  by (induction lo hi t and lo hi lower ts rule: hits_hits_list.induct) (auto split: if_splits)

lemma read_hits:
  "\<forall>(p, rs) \<in> set hs. leaf_at K s p rs \<Longrightarrow> map_res (read_leaf K s) (map fst hs) = Inr (map snd hs)"
  by (induction hs) (auto simp: read_leaf_def leaf_at_def)

lemma record_passes_range:
  assumes "record_passes C tr pfx r"
  shows "pfx < RecordKey r \<and> (nextPrefix pfx = [] \<or> RecordKey r < nextPrefix pfx)"
proof -
  have "prefix pfx (RecordKey r)" and ne: "pfx \<noteq> RecordKey r"
    using assms by (auto simp: record_passes_def has_prefix_iff RecordKey_def prefix_def)
  then show ?thesis using nextPrefix_range [of pfx "RecordKey r"] by auto
qed

text \<open>A query on a well-formed file returns exactly the matching records, in order.\<close>

lemma Find_represented:
  assumes "represents K (src t) tr" and "root_idx tr = 0" and "distinct (pieces tr)" and "full tr"
    and "sorted (map RecordKey (recs tr))" and "3 \<le> NumPieces (src t)"
    and "Piece (src t) 0 = Inr root" and "decodeHeader root = Inr rh" and "h_kind rh = PageKindRoot"
  shows "Find C K t pfx = Inr (filter (record_passes C (trailer t) pfx) (recs tr))"
proof -
  let ?hs = "hits pfx (nextPrefix pfx) tr"
  from walk_ptree(1) [OF assms(1,3), of "{}" pfx "nextPrefix pfx" "[]"] assms(2)
  obtain V where w: "walkToLeaves (src t) 0 pfx (nextPrefix pfx) {} [] = Inr (V, map fst ?hs)" by auto
  note b = walk_from_root [OF w assms(6)]
  have "filter (record_passes C (trailer t) pfx) (concat (map snd ?hs)) =
      filter (record_passes C (trailer t) pfx) (recs tr)"
    using record_passes_range by (intro hits_complete(1) assms(4,5)) auto
  moreover have "map_res (read_leaf K (src t)) (map fst ?hs) = Inr (map snd ?hs)"
    by (rule read_hits [OF hits_leaves(1) [OF assms(1)]])
  ultimately show ?thesis
    using w b(4,5) assms(7-9) by (simp add: Find_def Let_def)
qed

lemma find_result:
  assumes "Find C K t pfx = Inr rs"
  shows "\<exists>vis leaves rss. walkToLeaves (src t) 0 pfx (nextPrefix pfx) {} [] = Inr (vis, leaves) \<and>
    list_all2 (\<lambda>i recs. read_leaf K (src t) i = Inr recs) leaves rss \<and>
    rs = filter (record_passes C (trailer t) pfx) (concat rss)"
  using assms
  by (auto simp: Find_def Let_def bind_res_Inr_iff map_res_Inr_iff split: if_splits option.splits)

section \<open>The contract of a page source\<close>

text \<open>
  What the reader relies on: pieces below \<open>NumPieces\<close> can be fetched, all of one width, and
  the others are refused without a panic.
\<close>

locale page_store =
  fixes source :: "'s \<Rightarrow> PageSource" and width :: "'s \<Rightarrow> nat"
  assumes in_range: "i < NumPieces (source x) \<Longrightarrow> \<exists>b. Piece (source x) i = Inr b \<and> length b = width x"
    and out_of_range: "NumPieces (source x) \<le> i \<Longrightarrow> \<exists>e. Piece (source x) i = Inl e \<and> e \<noteq> Panic"
begin

lemma piece_no_panic: "Piece (source x) i \<noteq> Inl Panic"
  using in_range [of i x] out_of_range [of x i] by (cases "i < NumPieces (source x)") auto

lemma walk_no_panic:
  "s = source x \<Longrightarrow> walkToLeaves s i lo hi vis out \<noteq> Inl Panic"
  "s = source x \<Longrightarrow> walk_children s i cs lo hi vis out \<noteq> Inl Panic"
proof (induction s i lo hi vis out and s i cs lo hi vis out rule: walkToLeaves_walk_children.induct)
  case (1 s i lo hi vis out)
  with piece_no_panic [of x i] decodeHeader_no_panic DecodeInterior_no_panic show ?case
    by (auto simp: walkToLeaves.simps [of "source x" i] Let_def bind_res_Inl_iff)
next
  case (2 s i lo hi vis out)
  show ?case by simp
next
  case (3 s i c cs lo hi vis out)
  then show ?case by (auto simp: Let_def bind_res_Inl_iff)
qed

lemma read_no_panic: "map_res (read_leaf K (source x)) ls \<noteq> Inl Panic"
  by (induction ls) (auto simp: bind_res_Inl_iff read_leaf_def piece_no_panic DecodeLeaf_no_panic)

lemma find_no_panic: "src t = source x \<Longrightarrow> Find C K t pfx \<noteq> Inl Panic"
  using walk_no_panic(1) [of "source x" x] read_no_panic [of K x] piece_no_panic [of x 0] decodeHeader_no_panic
  by (auto simp: Find_def Let_def bind_res_Inl_iff leaves_once_panic split: option.splits)

lemma open_no_panic: "OpenBTree C (source x) \<noteq> Inl Panic"
  using piece_no_panic DecodeTrailer_no_panic
  by (auto simp: OpenBTree_def Let_def bind_res_Inl_iff VerifyTrailerSig_def split: option.splits if_splits)

end

lemma bytes_piece_ok:
  assumes "i < bytes_num_pieces data ps"
  shows "bytes_piece data ps i = Inr (take (nat ps) (drop (i * nat ps) data))"
    and "length (take (nat ps) (drop (i * nat ps) data)) = nat ps"
proof -
  from assms have ps: "0 < ps" and i: "i + 1 \<le> length data div nat ps"
    by (auto simp: bytes_num_pieces_def split: if_splits)
  have "(i + 1) * nat ps \<le> (length data div nat ps) * nat ps" using i by (rule mult_le_mono1)
  also have "\<dots> \<le> length data" by simp
  finally have "i * nat ps + nat ps \<le> length data" by (simp add: add.commute)
  then show "bytes_piece data ps i = Inr (take (nat ps) (drop (i * nat ps) data))"
    "length (take (nat ps) (drop (i * nat ps) data)) = nat ps"
    using assms by (simp_all add: bytes_piece_def sub_slice_ok)
qed

interpretation byte_store: page_store "\<lambda>(data, ps). BytesPageSource data ps" "\<lambda>(data, ps). nat ps"
proof
  fix i and x :: "bytes \<times> int"
  assume "i < NumPieces (case x of (data, ps) \<Rightarrow> BytesPageSource data ps)"
  then show "\<exists>b. Piece (case x of (data, ps) \<Rightarrow> BytesPageSource data ps) i = Inr b \<and>
      length b = (case x of (data, ps) \<Rightarrow> nat ps)"
    using bytes_piece_ok by (cases x) (simp add: BytesPageSource_def)
next
  fix i and x :: "bytes \<times> int"
  assume "NumPieces (case x of (data, ps) \<Rightarrow> BytesPageSource data ps) \<le> i"
  then show "\<exists>e. Piece (case x of (data, ps) \<Rightarrow> BytesPageSource data ps) i = Inl e \<and> e \<noteq> Panic"
    by (cases x) (simp add: BytesPageSource_def bytes_piece_def)
qed


section \<open>Properties\<close>

text \<open>
  C2: a query on any file that opens, hostile ones included, never panics, visits fewer pages
  than the file has (its leaves pass the checks for repeated and for too many leaves), and
  every record it returns has the prefix, a valid signature and the proof of work the signed
  trailer asks for; it comes from distinct leaf pages in the order of the walk.
\<close>

theorem find_authentic:
  assumes "OpenBTree C (BytesPageSource data ps) = Inr t"
  shows "VerifyTrailerSig C (trailer t) = None \<and> Find C K t pfx \<noteq> Inl Panic \<and>
    (\<forall>vis leaves. walkToLeaves (src t) 0 pfx (nextPrefix pfx) {} [] = Inr (vis, leaves) \<longrightarrow>
       leaves_once {} leaves = None \<and> length leaves < bytes_num_pieces data ps \<and>
       card vis < bytes_num_pieces data ps) \<and>
    (\<forall>rs. Find C K t pfx = Inr rs \<longrightarrow>
       (\<forall>r \<in> set rs. prefix pfx (Kw r) \<and> Verify C r = None \<and>
          VerifyPoW C r (int (unat (t_MinPoWBits (trailer t)))) = None) \<and>
       (\<exists>leaves rss. distinct leaves \<and> set leaves \<subseteq> {0..<bytes_num_pieces data ps - 1} \<and>
          list_all2 (\<lambda>i recs. read_leaf K (BytesPageSource data ps) i = Inr recs) leaves rss \<and>
          rs = filter (record_passes C (trailer t) pfx) (concat rss)))"
proof -
  note o = OpenBTree_Inr [OF assms]
  have n: "NumPieces (BytesPageSource data ps) = bytes_num_pieces data ps" by (simp add: BytesPageSource_def)
  have w: "leaves_once {} leaves = None \<and> length leaves < bytes_num_pieces data ps \<and>
       card vis < bytes_num_pieces data ps"
    if a: "walkToLeaves (src t) 0 pfx (nextPrefix pfx) {} [] = Inr (vis, leaves)" for vis leaves
  proof -
    note wr = walk_from_root [OF a [unfolded o(1)] o(2), unfolded n]
    have "card vis \<le> card {0..<bytes_num_pieces data ps - 1}" using wr(3) by (intro card_mono) simp_all
    with wr(4,5) o(2) n show ?thesis by simp
  qed
  have pass: "prefix pfx (Kw r) \<and> Verify C r = None \<and> VerifyPoW C r (int (unat (t_MinPoWBits (trailer t)))) = None"
    if "record_passes C (trailer t) pfx r" for r
  proof -
    have "VerifyPoW C r (int m) = None" if "\<not> (m > 0 \<and> VerifyPoW C r (int m) \<noteq> None)" for m
      using that by (cases "m = 0") (auto simp: VerifyPoW_def)
    from this [of "unat (t_MinPoWBits (trailer t))"] that show ?thesis by (simp add: record_passes_def has_prefix_iff)
  qed
  have "\<exists>leaves rss. distinct leaves \<and> set leaves \<subseteq> {0..<bytes_num_pieces data ps - 1} \<and>
          list_all2 (\<lambda>i recs. read_leaf K (BytesPageSource data ps) i = Inr recs) leaves rss \<and>
          rs = filter (record_passes C (trailer t) pfx) (concat rss)" if "Find C K t pfx = Inr rs" for rs
    using find_result [OF that] walk_from_root(1,2) [OF _ o(2)] o(1) unfolding n by metis
  moreover have "Find C K t pfx \<noteq> Inl Panic"
    using byte_store.find_no_panic [of t "(data, ps)"] o(1) by simp
  moreover have "\<forall>r \<in> set rs. prefix pfx (Kw r) \<and> Verify C r = None \<and>
      VerifyPoW C r (int (unat (t_MinPoWBits (trailer t)))) = None" if "Find C K t pfx = Inr rs" for rs
    using find_result [OF that] pass by auto
  ultimately show ?thesis using o(3) w by blast
qed

end
