(* ===== verification/Snagg_Build.thy ===== *)
theory Snagg_Build
  imports Snagg_Read
begin

text \<open>
  Building a SNAGG file (\<^verbatim>\<open>contracts/snagg/build.go\<close>).  A level of the tree is a list of nodes and
  a child pointer of an interior node is an index into the level below, so that the later
  assignment of piece numbers to nodes is visible through the pointers as it is in Go.  The two
  packing loops share one definition, \<open>pack\<close>, over the page encoder they call.  The loop that adds
  levels until one node is left is a partial function; that it returns is proved.
\<close>

section \<open>Input, output and nodes\<close>

record BuildInput =
  Records :: "Record list"
  b_PubKey :: bytes
  PrivKey :: "bytes option"
  b_Seq :: u64
  CreatedTs :: "64 word"
  MinPoWBits :: byte
  PieceSize :: int

record BuiltTree =
  Bytes :: bytes
  NumPages :: nat
  NumRecords :: nat
  bt_PieceSize :: int
  Fingerprint :: bytes

record node =
  node_records :: "Record list"
  children :: "nat list"
  minKey :: bytes
  piece :: u32

definition isLeaf :: "node \<Rightarrow> bool" where
  "isLeaf n \<longleftrightarrow> children n = []"

definition mkLeaf :: "Record list \<Rightarrow> node" where
  "mkLeaf rs = \<lparr>node_records = rs, children = [], minKey = RecordKey (hd rs), piece = 0\<rparr>"

definition mkInterior :: "node list \<Rightarrow> nat list \<Rightarrow> node" where
  "mkInterior below cs =
     \<lparr>node_records = [], children = cs, minKey = minKey (below ! hd cs), piece = 0\<rparr>"

section \<open>Packing\<close>

text \<open>
  The loop of \<open>packLeaves\<close> and of \<open>packInteriorLevel\<close>: \<open>cur\<close> grows while it still encodes; an
  overflow closes it and starts the next group; any other error, or an item that does not fit a
  page of its own, ends the build.
\<close>

fun pack :: "('a list \<Rightarrow> snagg_error + bytes) \<Rightarrow> 'a list \<Rightarrow> 'a list \<Rightarrow> 'a list list \<Rightarrow>
    snagg_error + 'a list list" where
  "pack enc [] cur groups = Inr (if cur \<noteq> [] then groups @ [cur] else groups)"
| "pack enc (x # xs) cur groups =
     (case enc (cur @ [x]) of
        Inr _ \<Rightarrow> pack enc xs (cur @ [x]) groups
      | Inl e \<Rightarrow>
          if e \<noteq> ErrPageOverflow then Inl e
          else if cur = [] then Inl ErrTooLargeForPage
          else case enc [x] of
                 Inl _ \<Rightarrow> Inl ErrTooLargeForPage
               | Inr _ \<Rightarrow> pack enc xs [x] (groups @ [cur]))"

definition packLeaves :: "codec \<Rightarrow> Record list \<Rightarrow> int \<Rightarrow> snagg_error + node list" where
  "packLeaves K rs pieceSize =
     bind_res (pack (\<lambda>cand. EncodeLeaf K 0 cand pieceSize) rs [] []) (\<lambda>gs. Inr (map mkLeaf gs))"

definition interiorChildrenOfSlice :: "node list \<Rightarrow> nat list \<Rightarrow> InteriorChild list" where
  "interiorChildrenOfSlice below cs =
     map (\<lambda>i. \<lparr>Separator = minKey (below ! i), ChildIndex = 0\<rparr>) cs"

definition packInteriorLevel :: "node list \<Rightarrow> int \<Rightarrow> snagg_error + node list" where
  "packInteriorLevel below pieceSize =
     (if below = [] then Inl ErrNoChildren
      else bind_res (pack (\<lambda>cand. EncodeInterior PageKindInterior 1 (interiorChildrenOfSlice below cand) pieceSize)
             [0..<length below] [] []) (\<lambda>gs. Inr (map (mkInterior below) gs)))"

text \<open>\<open>for len(cur) > 1\<close>; the levels are collected bottom-up.\<close>

partial_function (option) build_levels ::
  "int \<Rightarrow> node list \<Rightarrow> node list list \<Rightarrow> (snagg_error + node list list) option" where
  "build_levels pieceSize cur levels =
     (if length cur \<le> 1 then Some (Inr levels)
      else case packInteriorLevel cur pieceSize of
             Inl e \<Rightarrow> Some (Inl e)
           | Inr parents \<Rightarrow> build_levels pieceSize parents (levels @ [parents]))"

section \<open>Piece numbers and pages\<close>

definition assign_level :: "u32 \<Rightarrow> node list \<Rightarrow> node list" where
  "assign_level start nodes = map2 (\<lambda>nd i. nd\<lparr>piece := start + of_nat i\<rparr>) nodes [0..<length nodes]"

text \<open>Top-down: the last level of the list, the root, gets piece 0.\<close>

fun assign_pieces :: "node list list \<Rightarrow> node list list \<times> u32" where
  "assign_pieces [] = ([], 0)"
| "assign_pieces (l # ls) =
     (let (ls', p) = assign_pieces ls in (assign_level p l # ls', p + of_nat (length l)))"

definition interiorChildrenOf :: "node list \<Rightarrow> node \<Rightarrow> InteriorChild list" where
  "interiorChildrenOf below nd =
     map (\<lambda>i. \<lparr>Separator = minKey (below ! i), ChildIndex = piece (below ! i)\<rparr>) (children nd)"

definition node_page :: "codec \<Rightarrow> int \<Rightarrow> node list list \<Rightarrow> nat \<Rightarrow> node \<Rightarrow> snagg_error + bytes" where
  "node_page K pieceSize levels l nd =
     (if isLeaf nd then EncodeLeaf K (int l) (node_records nd) pieceSize
      else EncodeInterior (if l = length levels - 1 then PageKindRoot else PageKindInterior) (int l)
             (interiorChildrenOf (levels ! (l - 1)) nd) pieceSize)"

text \<open>The inner loop over the nodes of level \<open>l\<close>, writing \<open>pages[nd.piece] = page\<close>.\<close>

fun emit_level :: "codec \<Rightarrow> int \<Rightarrow> node list list \<Rightarrow> nat \<Rightarrow> node list \<Rightarrow> bytes list \<Rightarrow> snagg_error + bytes list" where
  "emit_level K pieceSize levels l [] pages = Inr pages"
| "emit_level K pieceSize levels l (nd # nds) pages =
     bind_res (node_page K pieceSize levels l nd) (\<lambda>page.
       if unat (piece nd) \<ge> length pages then Inl Panic
       else emit_level K pieceSize levels l nds (pages[unat (piece nd) := page]))"

fun emit_levels :: "codec \<Rightarrow> int \<Rightarrow> node list list \<Rightarrow> nat \<Rightarrow> bytes list \<Rightarrow> snagg_error + bytes list" where
  "emit_levels K pieceSize levels 0 pages = Inr pages"
| "emit_levels K pieceSize levels (Suc l) pages =
     bind_res (emit_level K pieceSize levels l (levels ! l) pages) (emit_levels K pieceSize levels l)"

section \<open>The builder\<close>

fun check_keywords :: "Record list \<Rightarrow> snagg_error option" where
  "check_keywords [] = None"
| "check_keywords (r # rs) =
     (if length (Kw r) = 0 then Some ErrEmptyKeyword
      else if length (Kw r) > MaxKeywordBytes then Some (ErrKeywordCap (length (Kw r)))
      else check_keywords rs)"

definition trailer_for :: "crypto \<Rightarrow> u64 \<Rightarrow> BuildInput \<Rightarrow> nat \<Rightarrow> bytes \<Rightarrow> Trailer" where
  "trailer_for C now inp numDataPages fp =
     (let tr = \<lparr>t_Version = TrailerVersion, t_PubKey = b_PubKey inp, t_Seq = b_Seq inp,
                t_CreatedTs = (if CreatedTs inp = 0 then now else CreatedTs inp),
                t_RootPieceIndex = 0, t_NumPages = of_nat (numDataPages + 1),
                t_NumRecords = of_nat (length (Records inp)), t_MinPoWBits = MinPoWBits inp,
                t_Fingerprint = fp, t_PublisherSig = replicate 64 0\<rparr>
      in case PrivKey inp of None \<Rightarrow> tr | Some priv \<Rightarrow> SignTrailer C tr priv)"

text \<open>From the levels on: pieces, fingerprint, pages, trailer and the output file.\<close>

definition finish :: "crypto \<Rightarrow> codec \<Rightarrow> u64 \<Rightarrow> BuildInput \<Rightarrow> Record list \<Rightarrow> node list list \<Rightarrow> snagg_error + BuiltTree" where
  "finish C K now inp srt levels0 =
     (let (levels, total) = assign_pieces levels0; numDataPages = unat total in
      bind_res (fingerprintSorted C K srt) (\<lambda>fp.
      bind_res (emit_levels K (PieceSize inp) levels (length levels) (replicate numDataPages [])) (\<lambda>pages.
      bind_res (EncodeTrailer (trailer_for C now inp numDataPages fp) (PieceSize inp)) (\<lambda>trailerPage.
        Inr \<lparr>Bytes = concat pages @ trailerPage, NumPages = numDataPages + 1,
             NumRecords = length srt, bt_PieceSize = PieceSize inp, Fingerprint = fp\<rparr>))))"

text \<open>\<open>sort.SliceStable\<close> under \<open>compareRecords\<close> is the stable sort on the record key.\<close>

definition BuildBTree :: "crypto \<Rightarrow> codec \<Rightarrow> u64 \<Rightarrow> BuildInput \<Rightarrow> (snagg_error + BuiltTree) option" where
  "BuildBTree C K now inp =
     (if PieceSize inp < MinPieceSize \<or> PieceSize inp > MaxPieceSize then Some (Inl (ErrPieceSize (PieceSize inp)))
      else if Records inp = [] then Some (Inl ErrNoRecords)
      else case check_keywords (Records inp) of
        Some e \<Rightarrow> Some (Inl e)
      | None \<Rightarrow>
          let srt = sort_key RecordKey (Records inp) in
          case packLeaves K srt (PieceSize inp) of
            Inl e \<Rightarrow> Some (Inl e)
          | Inr leaves \<Rightarrow>
              (case build_levels (PieceSize inp) leaves [leaves] of
                 None \<Rightarrow> None
               | Some (Inl e) \<Rightarrow> Some (Inl e)
               | Some (Inr levels) \<Rightarrow>
                   if length levels = 1 then
                     (case packInteriorLevel leaves (PieceSize inp) of
                        Inl e \<Rightarrow> Some (Inl e)
                      | Inr root \<Rightarrow> Some (finish C K now inp srt (levels @ [root])))
                   else Some (finish C K now inp srt levels)))"

end
