(* ===== verification/Snagg_Index.thy ===== *)
theory Snagg_Index
  imports Snagg_Build
begin

text \<open>
  The SNAGG index end to end: the builder returns, its file opens under the publisher's key, its
  fingerprint verifies, and a prefix query on it returns exactly the valid records with the prefix.
  The levels of the builder are related to the page trees of \<open>Snagg_Read\<close>.
\<close>

section \<open>Packing\<close>

lemma pack_groups:
  assumes "pack enc xs cur groups = Inr gs" and "cur = [] \<or> (\<exists>p. enc cur = Inr p)"
  shows "\<exists>new. gs = groups @ new \<and> concat new = cur @ xs \<and> (\<forall>g \<in> set new. g \<noteq> [] \<and> (\<exists>p. enc g = Inr p))"
  using assms
proof (induction enc xs cur groups rule: pack.induct)
  case (1 enc cur groups)
  then show ?case by (cases "cur = []") auto
next
  case (2 enc x xs cur groups)
  show ?case
  proof (cases "enc (cur @ [x])")
    case (Inr p)
    with 2(2) [OF Inr] 2(3) show ?thesis by auto
  next
    case (Inl e)
    with 2(3) have c: "e = ErrPageOverflow" "cur \<noteq> []" by (auto split: if_splits)
    with 2(3) Inl obtain p where p: "enc [x] = Inr p" by (cases "enc [x]") auto
    with 2(3) Inl c have "pack enc xs [x] (groups @ [cur]) = Inr gs" by simp
    with 2(1) [OF Inl _ _ p] c p obtain new where
      "gs = (groups @ [cur]) @ new" "concat new = [x] @ xs" "\<forall>g \<in> set new. g \<noteq> [] \<and> (\<exists>p. enc g = Inr p)"
      by auto
    with c 2(4) show ?thesis by (intro exI [of _ "cur # new"]) auto
  qed
qed

text \<open>When any two items share a page, at most every second item starts a new group.\<close>

lemma pack_halves:
  assumes "pack enc xs cur groups = Inr gs" and "\<forall>a \<in> set cur \<union> set xs. \<forall>b \<in> set cur \<union> set xs. \<exists>p. enc [a, b] = Inr p"
  shows "length gs \<le> length groups + (length cur + length xs + 1) div 2"
  using assms
proof (induction enc xs cur groups rule: pack.induct)
  case (1 enc cur groups)
  then show ?case by (cases cur) auto
next
  case (2 enc x xs cur groups)
  show ?case
  proof (cases "enc (cur @ [x])")
    case (Inr p)
    with 2(2) [OF Inr] 2(3,4) show ?thesis by auto
  next
    case (Inl e)
    with 2(3) have c: "e = ErrPageOverflow" "cur \<noteq> []" by (auto split: if_splits)
    with 2(3) Inl obtain p where p: "enc [x] = Inr p" by (cases "enc [x]") auto
    have two: "2 \<le> length cur"
    proof (rule ccontr)
      assume "\<not> 2 \<le> length cur"
      with c(2) obtain a where "cur = [a]" by (cases cur; cases "tl cur") auto
      with 2(4) have "\<exists>p. enc (cur @ [x]) = Inr p" by auto
      with Inl show False by simp
    qed
    from 2(3) Inl c p have "pack enc xs [x] (groups @ [cur]) = Inr gs" by simp
    with 2(1) [OF Inl _ _ p] c 2(4) have "length gs \<le> length (groups @ [cur]) + (length [x] + length xs + 1) div 2"
      by auto
    with two show ?thesis by simp
  qed
qed

text \<open>When an item more either fits or overflows, packing succeeds.\<close>

lemma pack_succeeds:
  assumes "\<And>g x. g = [] \<or> (\<exists>p. enc g = Inr p) \<Longrightarrow> x \<in> set xs \<Longrightarrow>
      (\<exists>p. enc (g @ [x]) = Inr p) \<or> enc (g @ [x]) = Inl ErrPageOverflow"
    and "\<And>x. x \<in> set xs \<Longrightarrow> \<exists>p. enc [x] = Inr p" and "cur = [] \<or> (\<exists>p. enc cur = Inr p)"
  shows "\<exists>gs. pack enc xs cur groups = Inr gs"
  using assms
proof (induction xs arbitrary: cur groups)
  case (Cons x xs)
  have "(\<exists>p. enc (cur @ [x]) = Inr p) \<or> enc (cur @ [x]) = Inl ErrPageOverflow"
    using Cons.prems(1) [OF Cons.prems(3), of x] by simp
  then show ?case
  proof (elim disjE exE)
    fix p assume "enc (cur @ [x]) = Inr p"
    with Cons.IH [of "cur @ [x]" groups] Cons.prems(1,2) show ?thesis by auto
  next
    assume o: "enc (cur @ [x]) = Inl ErrPageOverflow"
    from Cons.prems(2) [of x] obtain p where p: "enc [x] = Inr p" by auto
    with o have "cur \<noteq> []" by auto
    moreover have "\<exists>gs. pack enc xs [x] (groups @ [cur]) = Inr gs"
      using Cons.prems(1,2) p by (intro Cons.IH) auto
    ultimately show ?thesis using o p by simp
  qed
qed simp

section \<open>Levels\<close>

definition data_pages :: "node list list \<Rightarrow> nat" where
  "data_pages levels = sum_list (map length levels)"

definition leaf_level :: "codec \<Rightarrow> int \<Rightarrow> Record list \<Rightarrow> Record list list \<Rightarrow> bool" where
  "leaf_level K ps srt gs \<longleftrightarrow>
     concat gs = srt \<and> (\<forall>g \<in> set gs. g \<noteq> [] \<and> (\<exists>p. EncodeLeaf K 0 g ps = Inr p))"

definition interior_level :: "int \<Rightarrow> node list \<Rightarrow> nat list list \<Rightarrow> bool" where
  "interior_level ps below gs \<longleftrightarrow>
     concat gs = [0..<length below] \<and>
     (\<forall>g \<in> set gs. g \<noteq> [] \<and>
        (\<exists>p. EncodeInterior PageKindInterior 1 (interiorChildrenOfSlice below g) ps = Inr p))"

definition level_chain :: "codec \<Rightarrow> int \<Rightarrow> Record list \<Rightarrow> node list list \<Rightarrow> bool" where
  "level_chain K ps srt levels \<longleftrightarrow> levels \<noteq> [] \<and>
     (\<exists>gs. levels ! 0 = map mkLeaf gs \<and> leaf_level K ps srt gs) \<and>
     (\<forall>l. Suc l < length levels \<longrightarrow>
        (\<exists>gs. levels ! Suc l = map (mkInterior (levels ! l)) gs \<and> interior_level ps (levels ! l) gs))"

lemma packLeaves_level:
  "packLeaves K srt ps = Inr leaves \<Longrightarrow> \<exists>gs. leaves = map mkLeaf gs \<and> leaf_level K ps srt gs"
  unfolding packLeaves_def leaf_level_def
  by (auto simp: bind_res_Inr_iff dest!: pack_groups)

lemma packInteriorLevel_level:
  "packInteriorLevel below ps = Inr parents \<Longrightarrow>
     \<exists>gs. parents = map (mkInterior below) gs \<and> interior_level ps below gs"
  unfolding packInteriorLevel_def interior_level_def
  by (auto simp: bind_res_Inr_iff split: if_splits dest!: pack_groups)

lemma level_chain_snoc:
  assumes "level_chain K ps srt levels" and "packInteriorLevel (last levels) ps = Inr parents"
  shows "level_chain K ps srt (levels @ [parents])"
proof -
  from assms(1) have ne: "levels \<noteq> []" by (simp add: level_chain_def)
  obtain gs where gs: "parents = map (mkInterior (last levels)) gs" "interior_level ps (last levels) gs"
    using packInteriorLevel_level [OF assms(2)] by blast
  have "\<exists>gs. (levels @ [parents]) ! Suc l = map (mkInterior ((levels @ [parents]) ! l)) gs \<and>
      interior_level ps ((levels @ [parents]) ! l) gs" if "Suc l < length (levels @ [parents])" for l
  proof (cases "Suc l < length levels")
    case True
    with assms(1) show ?thesis by (simp add: level_chain_def nth_append)
  next
    case False
    with that have l: "l = length levels - 1" "l < length levels" by auto
    then have "(levels @ [parents]) ! l = last levels" "(levels @ [parents]) ! Suc l = parents"
      using ne by (simp_all add: nth_append last_conv_nth)
    with gs show ?thesis by auto
  qed
  then show ?thesis using assms(1) ne by (auto simp: level_chain_def nth_append)
qed

subsection \<open>The level loop returns\<close>

lemma length_put_uvarint_small:
  "n < 128 \<Longrightarrow> length (put_uvarint (of_nat n)) = 1" "n < 16384 \<Longrightarrow> length (put_uvarint (of_nat n)) \<le> 2"
proof -
  have u: "unat (of_nat n :: u64) = n" if "n < 16384"
    using that by (simp add: unsigned_of_nat take_bit_nat_eq_self)
  have s: "length (put_uvarint x) = 1" if "unat x < 128" for x :: u64
    using that by (subst put_uvarint.simps) (simp add: word_le_nat_alt)
  show "n < 128 \<Longrightarrow> length (put_uvarint (of_nat n)) = 1" using s u by simp
  assume "n < 16384"
  then have "unat (drop_bit 7 (of_nat n :: u64)) < 128"
    using u by (simp add: drop_bit_eq_div unat_div less_mult_imp_div_less)
  from s [OF this] show "length (put_uvarint (of_nat n)) \<le> 2"
    by (subst put_uvarint.simps) simp
qed

definition short_keys :: "node list \<Rightarrow> bool" where
  "short_keys nds \<longleftrightarrow> (\<forall>nd \<in> set nds. length (minKey nd) \<le> 85)"

lemma length_child_entry: "length (Separator c) \<le> 85 \<Longrightarrow> length (child_entry c) \<le> 90"
  by (simp add: child_entry_def length_put_uvarint_small)

text \<open>The payload of an interior page: each child takes at most 90 bytes.\<close>

lemma length_children_le:
  "\<forall>c \<in> set cs. length (Separator c) \<le> 85 \<Longrightarrow>
     length (concat (map child_entry (force_first cs))) \<le> 90 * length cs"
proof -
  have "\<forall>c \<in> set ds. length (Separator c) \<le> 85 \<Longrightarrow> length (concat (map child_entry ds)) \<le> 90 * length ds"
    for ds
  proof (induction ds)
    case (Cons d ds)
    then show ?case using length_child_entry [of d] by simp
  qed simp
  from this [of "force_first cs"] show
    "\<forall>c \<in> set cs. length (Separator c) \<le> 85 \<Longrightarrow>
      length (concat (map child_entry (force_first cs))) \<le> 90 * length cs"
    by (cases cs) auto
qed

lemma two_children_fit:
  assumes "short_keys below" and "16384 \<le> ps" and "a < length below" "b < length below"
  shows "\<exists>p. EncodeInterior PageKindInterior 1 (interiorChildrenOfSlice below [a, b]) ps = Inr p"
proof -
  let ?cs = "interiorChildrenOfSlice below [a, b]"
  have "length (concat (map child_entry (force_first ?cs))) \<le> 90 * length ?cs"
    using assms by (intro length_children_le) (auto simp: interiorChildrenOfSlice_def short_keys_def)
  then have "length (concat (map child_entry (force_first ?cs))) \<le> 180" by (simp add: interiorChildrenOfSlice_def)
  moreover have "?cs \<noteq> []" "length ?cs = 2" by (simp_all add: interiorChildrenOfSlice_def)
  ultimately show ?thesis
    using assms(2) unfolding EncodeInterior_def by (simp add: Let_def PageHeaderSize_def)
qed

lemma packInteriorLevel_shrinks:
  assumes "packInteriorLevel below ps = Inr parents" and "short_keys below" and "16384 \<le> ps"
  shows "length parents \<le> (length below + 1) div 2" and "short_keys parents" and "parents \<noteq> []"
proof -
  from assms(1) obtain gs where
    p: "pack (\<lambda>cand. EncodeInterior PageKindInterior 1 (interiorChildrenOfSlice below cand) ps)
          [0..<length below] [] [] = Inr gs" and gs: "parents = map (mkInterior below) gs" and ne: "below \<noteq> []"
    by (auto simp: packInteriorLevel_def bind_res_Inr_iff split: if_splits)
  from pack_halves [OF p] two_children_fit [OF assms(2,3)]
  show "length parents \<le> (length below + 1) div 2" by (simp add: gs)
  from pack_groups [OF p] have c: "concat gs = [0..<length below]" "\<forall>g \<in> set gs. g \<noteq> []" by auto
  have "length (concat gs) = length below" using c(1) by simp
  then show "parents \<noteq> []" using ne by (auto simp: gs)
  have "hd g < length below" if "g \<in> set gs" for g
  proof -
    have "hd g \<in> set (concat gs)" using c(2) that by (auto intro!: bexI [of _ g])
    then show ?thesis by (simp add: c(1))
  qed
  then show "short_keys parents" using assms(2) by (auto simp: gs short_keys_def mkInterior_def)
qed

lemma build_levels_returns:
  assumes "short_keys cur" and "16384 \<le> ps" and "cur \<noteq> []"
  shows "\<exists>r. build_levels ps cur levels = Some r \<and>
    (\<forall>res. r = Inr res \<longrightarrow> level_chain K ps srt levels \<longrightarrow> last levels = cur \<longrightarrow>
       level_chain K ps srt res \<and> length (last res) = 1 \<and> prefix levels res \<and>
       data_pages res + 2 \<le> data_pages levels + 2 * length cur)"
  using assms
proof (induction "length cur" arbitrary: cur levels rule: less_induct)
  case less
  show ?case
  proof (cases "length cur \<le> 1")
    case True
    then have "build_levels ps cur levels = Some (Inr levels)" by (subst build_levels.simps) simp
    moreover have "length cur = 1" using True less.prems(3) by (cases cur) auto
    ultimately show ?thesis by simp
  next
    case False
    show ?thesis
    proof (cases "packInteriorLevel cur ps")
      case (Inl e)
      then show ?thesis using False by (subst build_levels.simps) simp
    next
      case (Inr parents)
      note sh = packInteriorLevel_shrinks [OF Inr less.prems(1,2)]
      have b: "build_levels ps cur levels = build_levels ps parents (levels @ [parents])"
        using False Inr by (subst build_levels.simps) simp
      have "length parents < length cur" using sh(1) False by simp
      from less.hyps [OF this sh(2) less.prems(2) sh(3), of "levels @ [parents]"]
      obtain r where r: "build_levels ps parents (levels @ [parents]) = Some r"
        "\<forall>res. r = Inr res \<longrightarrow> level_chain K ps srt (levels @ [parents]) \<longrightarrow>
           level_chain K ps srt res \<and> length (last res) = 1 \<and> prefix (levels @ [parents]) res \<and>
           data_pages res + 2 \<le> data_pages (levels @ [parents]) + 2 * length parents" by auto
      have "3 * length parents \<le> 2 * length cur"
        using sh(1) False by (cases "length cur = 2") auto
      then have "data_pages (levels @ [parents]) + 2 * length parents \<le> data_pages levels + 2 * length cur"
        by (simp add: data_pages_def)
      with r show ?thesis unfolding b using level_chain_snoc [of K ps srt levels parents] Inr
        by (fastforce dest: append_prefixD)
    qed
  qed
qed

section \<open>Piece numbers\<close>

text \<open>The first piece of level \<open>l\<close>: all higher levels come before it.\<close>

definition base :: "node list list \<Rightarrow> nat \<Rightarrow> nat" where
  "base levels l = sum_list (map length (drop (Suc l) levels))"

lemma base_Suc: "Suc l < length levels \<Longrightarrow> base levels l = base levels (Suc l) + length (levels ! Suc l)"
  by (simp add: base_def Cons_nth_drop_Suc [symmetric])

lemma base_0: "levels \<noteq> [] \<Longrightarrow> data_pages levels = base levels 0 + length (levels ! 0)"
  by (cases levels) (simp_all add: base_def data_pages_def)

lemma base_last [simp]: "base levels (length levels - 1) = 0"
  by (simp add: base_def)

lemma base_le: "l < length levels \<Longrightarrow> base levels l + length (levels ! l) \<le> data_pages levels"
proof (induction l)
  case 0
  then show ?case by (subst base_0) auto
next
  case (Suc l)
  then show ?case using base_Suc [of l levels] by simp
qed

lemma assign_level_nth:
  "i < length nds \<Longrightarrow> assign_level start nds ! i = (nds ! i)\<lparr>piece := start + of_nat i\<rparr>"
  and length_assign_level [simp]: "length (assign_level start nds) = length nds"
  by (simp_all add: assign_level_def)

lemma map_upt_from_0: "map f [0..<Suc n] = f 0 # map (\<lambda>k. f (Suc k)) [0..<n]"
  by (simp add: upt_conv_Cons map_Suc_upt [symmetric] del: upt_Suc)

lemma assign_pieces_eq:
  "assign_pieces levels =
     (map (\<lambda>l. assign_level (of_nat (base levels l)) (levels ! l)) [0..<length levels], of_nat (data_pages levels))"
proof (induction levels)
  case (Cons l ls)
  have "base (l # ls) (Suc k) = base ls k" for k by (simp add: base_def)
  moreover have "base (l # ls) 0 = data_pages ls" by (simp add: base_def data_pages_def)
  ultimately show ?case using Cons
    by (simp add: data_pages_def add.commute map_upt_from_0 del: upt_Suc)
qed (simp add: data_pages_def)

section \<open>The page tree of a chain of levels\<close>

fun tree_of :: "node list list \<Rightarrow> nat \<Rightarrow> nat \<Rightarrow> ptree" where
  "tree_of levels 0 i = Lf (base levels 0 + i) (node_records (levels ! 0 ! i))"
| "tree_of levels (Suc l) i =
     Br (base levels (Suc l) + i) (map (tree_of levels l) (children (levels ! Suc l ! i)))"

lemma root_idx_tree_of [simp]: "root_idx (tree_of levels l i) = base levels l + i"
  by (cases l) simp_all

lemma level_chainD:
  assumes "level_chain K ps srt levels"
  shows "levels \<noteq> []" and "\<exists>gs. levels ! 0 = map mkLeaf gs \<and> leaf_level K ps srt gs"
    and "Suc l < length levels \<Longrightarrow>
      \<exists>gs. levels ! Suc l = map (mkInterior (levels ! l)) gs \<and> interior_level ps (levels ! l) gs"
  using assms by (auto simp: level_chain_def)

lemma interior_group:
  assumes "interior_level ps below gs" and "i < length gs"
  shows "gs ! i \<noteq> []" and "\<forall>j \<in> set (gs ! i). j < length below" and "sorted_wrt (<) (gs ! i)"
proof -
  from assms have i: "gs ! i \<in> set gs" and c: "concat gs = [0..<length below]"
    by (auto simp: interior_level_def)
  then show "gs ! i \<noteq> []" using assms(1) by (auto simp: interior_level_def)
  have "set (gs ! i) \<subseteq> set (concat gs)" using i by auto
  then show "\<forall>j \<in> set (gs ! i). j < length below" unfolding c by auto
  have "sorted_wrt (<) (concat gs)" unfolding c by simp
  then show "sorted_wrt (<) (gs ! i)" using i
    by (metis concat_append concat.simps(2) in_set_conv_decomp sorted_wrt_append)
qed

lemma mset_concat_Cons:
  "mset (concat (map (\<lambda>i. f i # k i) is)) = mset (map f is) + mset (concat (map k is))"
  by (induction "is") auto

lemma concat_map_groups:
  "concat (map (\<lambda>i. concat (map h (gs ! i))) [0..<length gs]) = concat (map h (concat gs))"
proof -
  have "map (\<lambda>i. concat (map h (gs ! i))) [0..<length gs] =
      map (\<lambda>g. concat (map h g)) (map ((!) gs) [0..<length gs])" by simp
  then have "map (\<lambda>i. concat (map h (gs ! i))) [0..<length gs] = map (\<lambda>g. concat (map h g)) gs"
    by (simp only: map_nth)
  moreover have "concat (map (\<lambda>g. concat (map h g)) gs) = concat (map h (concat gs))"
    by (induction gs) auto
  ultimately show ?thesis by simp
qed

text \<open>Every level holds all records in order, and its subtrees use each later piece once.\<close>

lemma level_content:
  assumes "level_chain K ps srt levels" and "l < length levels"
  shows "concat (map (\<lambda>i. recs (tree_of levels l i)) [0..<length (levels ! l)]) = srt \<and>
    mset (concat (map (\<lambda>i. pieces (tree_of levels l i)) [0..<length (levels ! l)])) =
      mset [base levels l..<data_pages levels]"
  using assms(2)
proof (induction l)
  case 0
  obtain gs where gs: "levels ! 0 = map mkLeaf gs" "leaf_level K ps srt gs"
    using level_chainD(2) [OF assms(1)] by blast
  have "map (\<lambda>i. node_records (levels ! 0 ! i)) [0..<length (levels ! 0)] = gs"
    by (rule nth_equalityI) (simp_all add: gs(1) mkLeaf_def)
  moreover have "data_pages levels = base levels 0 + length (levels ! 0)"
    using 0 by (intro base_0) auto
  moreover have "concat (map (\<lambda>i. [base levels 0 + i]) [0..<n]) = [base levels 0..<base levels 0 + n]" for n
    by (induction n) simp_all
  ultimately show ?case using gs(2) by (simp add: leaf_level_def)
next
  case (Suc l)
  obtain gs where gs: "levels ! Suc l = map (mkInterior (levels ! l)) gs" "interior_level ps (levels ! l) gs"
    using level_chainD(3) [OF assms(1) Suc.prems] by blast
  have c: "concat gs = [0..<length (levels ! l)]" using gs(2) by (simp add: interior_level_def)
  have r: "map (\<lambda>i. recs (tree_of levels (Suc l) i)) [0..<length (levels ! Suc l)] =
      map (\<lambda>i. concat (map (\<lambda>j. recs (tree_of levels l j)) (gs ! i))) [0..<length gs]"
    by (rule map_cong) (simp_all add: gs(1) mkInterior_def comp_def)
  have p: "map (\<lambda>i. pieces (tree_of levels (Suc l) i)) [0..<length (levels ! Suc l)] =
      map (\<lambda>i. (base levels (Suc l) + i) # concat (map (\<lambda>j. pieces (tree_of levels l j)) (gs ! i))) [0..<length gs]"
    by (rule map_cong) (simp_all add: gs(1) mkInterior_def comp_def)
  have b: "base levels l = base levels (Suc l) + length gs"
    using base_Suc [OF Suc.prems] by (simp add: gs(1))
  have m: "map (\<lambda>i. base levels (Suc l) + i) [0..<n] = [base levels (Suc l)..<base levels (Suc l) + n]" for n
    by (induction n) simp_all
  have u: "[base levels (Suc l)..<data_pages levels] =
      [base levels (Suc l)..<base levels l] @ [base levels l..<data_pages levels]"
    using base_le [of l levels] Suc.prems b
    by (metis Suc_lessD add_leD1 le_add1 le_iff_add upt_add_eq_append)
  show ?case
    using Suc.IH Suc.prems
    unfolding r p mset_concat_Cons concat_map_groups c m u b [symmetric] by simp
qed

lemma tree_full:
  assumes "level_chain K ps srt levels" and "l < length levels" and "i < length (levels ! l)"
  shows "full (tree_of levels l i) \<and> min_key (tree_of levels l i) = minKey (levels ! l ! i)"
  using assms(2,3)
proof (induction l arbitrary: i)
  case 0
  obtain gs where gs: "levels ! 0 = map mkLeaf gs" "leaf_level K ps srt gs"
    using level_chainD(2) [OF assms(1)] by blast
  with 0 have "gs ! i \<noteq> []" by (auto simp: leaf_level_def)
  with 0 gs(1) show ?case by (simp add: mkLeaf_def)
next
  case (Suc l)
  obtain gs where gs: "levels ! Suc l = map (mkInterior (levels ! l)) gs" "interior_level ps (levels ! l) gs"
    using level_chainD(3) [OF assms(1) Suc.prems(1)] by blast
  with Suc.prems have i: "i < length gs" by simp
  note g = interior_group [OF gs(2) i]
  then obtain j js where j: "gs ! i = j # js" by (cases "gs ! i") auto
  with Suc g i gs(1) show ?case by (simp add: mkInterior_def)
qed

section \<open>Emitted pages\<close>

lemma emit_level_result:
  assumes "emit_level K ps lv l nds pages = Inr pages'" and "distinct (map piece nds)"
  shows "length pages' = length pages \<and>
    (\<forall>nd \<in> set nds. unat (piece nd) < length pages \<and> node_page K ps lv l nd = Inr (pages' ! unat (piece nd))) \<and>
    (\<forall>j. j \<notin> (\<lambda>nd. unat (piece nd)) ` set nds \<longrightarrow> pages' ! j = pages ! j)"
  using assms
proof (induction nds arbitrary: pages)
  case (Cons nd nds)
  then obtain page where p: "node_page K ps lv l nd = Inr page" "unat (piece nd) < length pages"
    "emit_level K ps lv l nds (pages[unat (piece nd) := page]) = Inr pages'"
    by (auto simp: bind_res_Inr_iff split: if_splits)
  from Cons.IH [OF p(3)] Cons.prems(2) have IH: "length pages' = length pages"
    "\<forall>nd \<in> set nds. unat (piece nd) < length pages \<and> node_page K ps lv l nd = Inr (pages' ! unat (piece nd))"
    "\<forall>j. j \<notin> (\<lambda>nd. unat (piece nd)) ` set nds \<longrightarrow> pages' ! j = pages[unat (piece nd) := page] ! j" by auto
  have "unat (piece nd) \<notin> (\<lambda>nd. unat (piece nd)) ` set nds"
    using Cons.prems(2) by (auto dest!: unsigned_word_eqI)
  with IH p show ?case by auto
qed simp

definition level_pieces :: "node list list \<Rightarrow> nat \<Rightarrow> nat set" where
  "level_pieces lv l = (\<lambda>nd. unat (piece nd)) ` set (lv ! l)"

lemma emit_levels_result:
  assumes "emit_levels K ps lv n pages = Inr pages'" and "\<forall>l < n. distinct (map piece (lv ! l))"
    and "\<forall>l < n. \<forall>m < l. level_pieces lv l \<inter> level_pieces lv m = {}"
  shows "length pages' = length pages \<and>
    (\<forall>l < n. \<forall>nd \<in> set (lv ! l). node_page K ps lv l nd = Inr (pages' ! unat (piece nd))) \<and>
    (\<forall>j. (\<forall>l < n. j \<notin> level_pieces lv l) \<longrightarrow> pages' ! j = pages ! j)"
  using assms
proof (induction n arbitrary: pages)
  case (Suc n)
  then obtain mid where mid: "emit_level K ps lv n (lv ! n) pages = Inr mid"
    "emit_levels K ps lv n mid = Inr pages'" by (auto simp: bind_res_Inr_iff)
  note e = emit_level_result [OF mid(1)]
  from Suc.IH [OF mid(2)] Suc.prems(2,3) have IH: "length pages' = length mid"
    "\<forall>l < n. \<forall>nd \<in> set (lv ! l). node_page K ps lv l nd = Inr (pages' ! unat (piece nd))"
    "\<forall>j. (\<forall>l < n. j \<notin> level_pieces lv l) \<longrightarrow> pages' ! j = mid ! j" by auto
  have keep: "pages' ! unat (piece nd) = mid ! unat (piece nd)" if "nd \<in> set (lv ! n)" for nd
  proof -
    have "unat (piece nd) \<in> level_pieces lv n" using that by (auto simp: level_pieces_def)
    then have "\<forall>l < n. unat (piece nd) \<notin> level_pieces lv l" using Suc.prems(3) by blast
    then show ?thesis using IH(3) by blast
  qed
  have "pages' ! j = pages ! j" if "\<forall>l < Suc n. j \<notin> level_pieces lv l" for j
    using that IH(3) e Suc.prems(2) by (auto simp: level_pieces_def)
  then show ?case using IH e keep Suc.prems(2) by (auto simp: less_Suc_eq)
qed simp

definition numbered :: "node list list \<Rightarrow> node list list" where
  "numbered levels = map (\<lambda>l. assign_level (of_nat (base levels l)) (levels ! l)) [0..<length levels]"

lemma numbered_nth:
  assumes "l < length levels"
  shows "length (numbered levels ! l) = length (levels ! l)"
    and "i < length (levels ! l) \<Longrightarrow>
      numbered levels ! l ! i = (levels ! l ! i)\<lparr>piece := of_nat (base levels l + i)\<rparr>"
  using assms by (simp_all add: numbered_def assign_level_nth)

lemma length_numbered [simp]: "length (numbered levels) = length levels"
  by (simp add: numbered_def)

lemma numbered_piece:
  assumes "l < length levels" and "i < length (levels ! l)" and "data_pages levels < 2 ^ 32"
  shows "unat (piece (numbered levels ! l ! i)) = base levels l + i"
proof -
  have "base levels l + i < 2 ^ 32" using base_le [OF assms(1)] assms(2,3) by simp
  then show ?thesis using numbered_nth(2) [OF assms(1,2)]
    by (simp add: unsigned_of_nat take_bit_nat_eq_self flip: of_nat_add)
qed

lemma level_pieces_numbered:
  assumes "l < length levels" and "data_pages levels < 2 ^ 32"
  shows "level_pieces (numbered levels) l = {base levels l..<base levels l + length (levels ! l)}"
    and "distinct (map piece (numbered levels ! l))"
proof -
  have n: "map (\<lambda>nd. unat (piece nd)) (numbered levels ! l) = map (\<lambda>i. base levels l + i) [0..<length (levels ! l)]"
    by (rule nth_equalityI) (use assms in \<open>simp_all add: numbered_nth(1) numbered_piece\<close>)
  then have "level_pieces (numbered levels) l = (\<lambda>i. base levels l + i) ` {0..<length (levels ! l)}"
    unfolding level_pieces_def by (metis list.set_map set_upt)
  then show "level_pieces (numbered levels) l = {base levels l..<base levels l + length (levels ! l)}"
    by (simp add: image_add_atLeastLessThan add.commute)
  have "distinct (map (\<lambda>nd. unat (piece nd)) (numbered levels ! l))"
    unfolding n by (simp add: distinct_map inj_on_def)
  then show "distinct (map piece (numbered levels ! l))"
    by (auto simp: distinct_map inj_on_def)
qed

lemma base_antimono: "m < l \<Longrightarrow> l < length levels \<Longrightarrow> base levels l + length (levels ! l) \<le> base levels m"
proof (induction l)
  case (Suc l)
  show ?case
  proof (cases "m = l")
    case True
    with base_Suc [OF Suc.prems(2)] show ?thesis by simp
  next
    case False
    with Suc base_Suc [OF Suc.prems(2)] show ?thesis by simp
  qed
qed simp

lemma piece_of_level:
  assumes "l < length levels" and "base levels l \<le> j" and "j < data_pages levels"
  shows "\<exists>k \<le> l. \<exists>i < length (levels ! k). j = base levels k + i"
  using assms
proof (induction l)
  case 0
  then have "j - base levels 0 < length (levels ! 0)" using base_0 [of levels] by fastforce
  with 0 show ?case by (intro exI [of _ 0]) (auto intro!: exI [of _ "j - base levels 0"])
next
  case (Suc l)
  show ?case
  proof (cases "base levels l \<le> j")
    case True
    with Suc show ?thesis by (meson Suc_lessD le_SucI)
  next
    case False
    with Suc.prems base_Suc [OF Suc.prems(1)] show ?thesis
      by (intro exI [of _ "Suc l"]) (auto intro!: exI [of _ "j - base levels (Suc l)"])
  qed
qed

text \<open>The pages of a built file, each at the piece of its node.\<close>

lemma emitted_pages:
  assumes "emit_levels K ps (numbered levels) (length levels) (replicate (data_pages levels) []) = Inr pages"
    and "data_pages levels < 2 ^ 32"
  shows "length pages = data_pages levels"
    and "\<And>l i. l < length levels \<Longrightarrow> i < length (levels ! l) \<Longrightarrow>
      node_page K ps (numbered levels) l (numbered levels ! l ! i) = Inr (pages ! (base levels l + i))"
proof -
  have d: "\<forall>l < length levels. distinct (map piece (numbered levels ! l))"
    using level_pieces_numbered(2) assms(2) by blast
  have x: "\<forall>l < length levels. \<forall>m < l. level_pieces (numbered levels) l \<inter> level_pieces (numbered levels) m = {}"
  proof (intro allI impI)
    fix l m assume "l < length levels" "m < l"
    with base_antimono [of m l levels] assms(2) show "level_pieces (numbered levels) l \<inter> level_pieces (numbered levels) m = {}"
      by (simp add: level_pieces_numbered)
  qed
  note e = emit_levels_result [OF assms(1) d x]
  then show "length pages = data_pages levels" by simp
  fix l i assume "l < length levels" "i < length (levels ! l)"
  moreover from this have "numbered levels ! l ! i \<in> set (numbered levels ! l)"
    using numbered_nth(1) [of l levels] by (metis nth_mem)
  ultimately show "node_page K ps (numbered levels) l (numbered levels ! l ! i) = Inr (pages ! (base levels l + i))"
    using e numbered_piece [of l levels i] assms(2) by metis
qed

section \<open>A built file read back\<close>

lemma file_pieces:
  assumes "\<forall>p \<in> set pages. length p = nat ps" and "length tp = nat ps" and "0 < ps"
  shows "NumPieces (BytesPageSource (concat pages @ tp) ps) = length pages + 1"
    and "j < length pages \<Longrightarrow> Piece (BytesPageSource (concat pages @ tp) ps) j = Inr (pages ! j)"
    and "Piece (BytesPageSource (concat pages @ tp) ps) (length pages) = Inr tp"
proof -
  have u: "\<forall>p \<in> set (pages @ [tp]). length p = nat ps" using assms(1,2) by auto
  have c: "concat pages @ tp = concat (pages @ [tp])" by simp
  have len: "length (concat (pages @ [tp])) = (length pages + 1) * nat ps"
    using length_concat_uniform [OF u] by simp
  show n: "NumPieces (BytesPageSource (concat pages @ tp) ps) = length pages + 1"
    using assms(3) len unfolding c by (simp add: BytesPageSource_def bytes_num_pieces_def)
  have p: "Piece (BytesPageSource (concat pages @ tp) ps) j = Inr ((pages @ [tp]) ! j)"
    if "j < length pages + 1" for j
    using slice_concat_uniform [OF u, of j] bytes_piece_ok(1) [of j "concat pages @ tp" ps] n that
    unfolding c by (simp add: BytesPageSource_def)
  show "j < length pages \<Longrightarrow> Piece (BytesPageSource (concat pages @ tp) ps) j = Inr (pages ! j)"
    using p [of j] by (simp add: nth_append)
  show "Piece (BytesPageSource (concat pages @ tp) ps) (length pages) = Inr tp"
    using p [of "length pages"] by (simp add: nth_append)
qed

text \<open>What the pages of the nodes decode to.\<close>

definition file_of :: "codec \<Rightarrow> int \<Rightarrow> Record list \<Rightarrow> node list list \<Rightarrow> bytes list \<Rightarrow> bool" where
  "file_of K ps srt levels pages \<longleftrightarrow>
     level_chain K ps srt levels \<and> data_pages levels < 2 ^ 32 \<and> codec_ok K \<and>
     (\<forall>r \<in> set srt. wf_record r) \<and> length pages = data_pages levels \<and>
     (\<forall>l i. l < length levels \<longrightarrow> i < length (levels ! l) \<longrightarrow>
       node_page K ps (numbered levels) l (numbered levels ! l ! i) = Inr (pages ! (base levels l + i)))"

lemma file_leaf:
  assumes "file_of K ps srt levels pages" and "i < length (levels ! 0)"
  shows "\<exists>lvl. EncodeLeaf K lvl (node_records (levels ! 0 ! i)) ps = Inr (pages ! (base levels 0 + i))"
    and "\<forall>r \<in> set (node_records (levels ! 0 ! i)). wf_record r"
proof -
  from assms(1) have ch: "level_chain K ps srt levels" and wf: "\<forall>r \<in> set srt. wf_record r"
    by (simp_all add: file_of_def)
  obtain gs where gs: "levels ! 0 = map mkLeaf gs" "leaf_level K ps srt gs"
    using level_chainD(2) [OF ch] by blast
  have 0: "0 < length levels" using level_chainD(1) [OF ch] by simp
  have "node_page K ps (numbered levels) 0 (numbered levels ! 0 ! i) = Inr (pages ! (base levels 0 + i))"
    using assms 0 by (simp add: file_of_def)
  with numbered_nth(2) [OF 0 assms(2)] gs(1) assms(2)
  show "\<exists>lvl. EncodeLeaf K lvl (node_records (levels ! 0 ! i)) ps = Inr (pages ! (base levels 0 + i))"
    by (auto simp: node_page_def isLeaf_def mkLeaf_def)
  have "gs ! i \<in> set gs" using assms(2) gs(1) by simp
  then have "set (gs ! i) \<subseteq> set (concat gs)" by auto
  then show "\<forall>r \<in> set (node_records (levels ! 0 ! i)). wf_record r"
    using gs assms(2) wf by (auto simp: leaf_level_def mkLeaf_def)
qed

lemma file_interior:
  assumes "file_of K ps srt levels pages" and l: "Suc l < length levels" and i: "i < length (levels ! Suc l)"
  shows "EncodeInterior (if Suc l = length levels - 1 then PageKindRoot else PageKindInterior) (int (Suc l))
      (map child_of (map (tree_of levels l) (children (levels ! Suc l ! i)))) ps =
    Inr (pages ! (base levels (Suc l) + i))"
proof -
  from assms(1) have ch: "level_chain K ps srt levels" and b: "data_pages levels < 2 ^ 32"
    by (simp_all add: file_of_def)
  obtain gs where gs: "levels ! Suc l = map (mkInterior (levels ! l)) gs" "interior_level ps (levels ! l) gs"
    using level_chainD(3) [OF ch l] by blast
  have ig: "i < length gs" using i gs(1) by simp
  note g = interior_group [OF gs(2) ig]
  have c: "children (numbered levels ! Suc l ! i) = gs ! i"
    using numbered_nth(2) [OF l i] ig by (simp add: gs(1) mkInterior_def)
  have ck: "\<lparr>Separator = minKey (numbered levels ! l ! j), ChildIndex = piece (numbered levels ! l ! j)\<rparr> =
      child_of (tree_of levels l j)" if "j \<in> set (gs ! i)" for j
  proof -
    have "j < length (levels ! l)" using that g(2) by blast
    then show ?thesis
      using tree_full [OF ch _ \<open>j < length (levels ! l)\<close>] numbered_nth(2) [of l levels j] l
      by (simp add: child_of_def)
  qed
  have "interiorChildrenOf (numbered levels ! l) (numbered levels ! Suc l ! i) =
      map child_of (map (tree_of levels l) (children (levels ! Suc l ! i)))"
    unfolding interiorChildrenOf_def c using ck ig by (simp add: gs(1) mkInterior_def)
  moreover have "\<not> isLeaf (numbered levels ! Suc l ! i)" using c g(1) by (simp add: isLeaf_def)
  moreover have "node_page K ps (numbered levels) (Suc l) (numbered levels ! Suc l ! i) =
      Inr (pages ! (base levels (Suc l) + i))" using assms by (simp add: file_of_def)
  ultimately show ?thesis by (simp add: node_page_def)
qed

lemma file_page_length:
  assumes "file_of K ps srt levels pages"
  shows "\<forall>p \<in> set pages. length p = nat ps"
proof (intro ballI)
  fix p assume "p \<in> set pages"
  then obtain j where j: "j < length pages" "p = pages ! j" by (auto simp: in_set_conv_nth)
  from assms have ch: "level_chain K ps srt levels" and n: "length pages = data_pages levels" and K: "codec_ok K"
    by (simp_all add: file_of_def)
  have ne: "length levels - 1 < length levels" using level_chainD(1) [OF ch] by simp
  from piece_of_level [OF ne, of j] j n obtain k i where
    k: "k < length levels" "i < length (levels ! k)" "j = base levels k + i"
    using ne by (metis base_last le0 le_less_trans)
  show "length p = nat ps"
  proof (cases k)
    case 0
    with k file_leaf [OF assms] leaf_page(1) [OF K] j(2) show ?thesis by metis
  next
    case (Suc l)
    with k file_interior [OF assms, of l i] interior_page(1) j(2) show ?thesis by metis
  qed
qed

lemma file_represents:
  assumes f: "file_of K ps srt levels pages" and "length tp = nat ps" and "0 < ps"
    and "l < length levels" and "i < length (levels ! l)"
  shows "represents K (BytesPageSource (concat pages @ tp) ps) (tree_of levels l i)"
  using assms(4,5)
proof (induction l arbitrary: i)
  let ?s = "BytesPageSource (concat pages @ tp) ps"
  from f have K: "codec_ok K" and n: "length pages = data_pages levels" by (simp_all add: file_of_def)
  note fp = file_pieces [OF file_page_length [OF f] assms(2,3)]
  {
    case 0
    obtain lvl where e: "EncodeLeaf K lvl (node_records (levels ! 0 ! i)) ps = Inr (pages ! (base levels 0 + i))"
      using file_leaf(1) [OF f 0(2)] by blast
    have "base levels 0 + i < length pages" using 0 n base_le [of 0 levels] by simp
    with leaf_page [OF K file_leaf(2) [OF f 0(2)] e] fp(2) show ?case
      by (auto simp: leaf_at_def)
  next
    case (Suc l)
    from f have ch: "level_chain K ps srt levels" and b: "data_pages levels < 2 ^ 32"
      by (simp_all add: file_of_def)
    obtain gs where gs: "levels ! Suc l = map (mkInterior (levels ! l)) gs" "interior_level ps (levels ! l) gs"
      using level_chainD(3) [OF ch Suc.prems(1)] by blast
    have ig: "i < length gs" using Suc.prems(2) gs(1) by simp
    note g = interior_group [OF gs(2) ig]
    have c: "children (levels ! Suc l ! i) = gs ! i" using ig by (simp add: gs(1) mkInterior_def)
    have j: "base levels l + j < data_pages levels" if "j \<in> set (gs ! i)" for j
    proof -
      have "j < length (levels ! l)" using that g(2) by blast
      then show ?thesis using base_le [of l levels] Suc.prems(1) by simp
    qed
    have "base levels (Suc l) + i < length pages" using Suc.prems n base_le [of "Suc l" levels] by simp
    with interior_page [OF file_interior [OF f Suc.prems]] fp(2)
    have "interior_at ?s (base levels (Suc l) + i) (force_first (map child_of (map (tree_of levels l) (gs ! i))))"
      unfolding c interior_at_def by metis
    moreover have "base levels (Suc l) + i < base levels l + j" for j
      using base_Suc [OF Suc.prems(1)] Suc.prems(2) by simp
    moreover have "base levels l + j < 2 ^ 32" if "j \<in> set (gs ! i)" for j using j [OF that] b by simp
    ultimately show ?case
      using Suc.IH g(2,3) Suc.prems(1) j fp(1) n
      by (auto simp: c sorted_wrt_map comp_def)
  }
qed

text \<open>Pages before the leaf level are skipped when the fingerprint is recomputed.\<close>

lemma hash_records_encode:
  assumes "map_res (EncodeRecord K) rs = Inr encs" and "unat c + length rs \<le> unat limit"
  shows "hash_records K limit rs (c, b) = Inr (c + of_nat (length rs), b @ concat encs)"
  using assms
proof (induction rs arbitrary: c b encs)
  case (Cons r rs)
  then obtain e es where e: "encs = e # es" "EncodeRecord K r = Inr e" "map_res (EncodeRecord K) rs = Inr es"
    by (auto simp: bind_res_Inr_iff)
  have lim: "unat limit < 2 ^ 64" using unsigned_less [of limit, where 'a = nat] by simp
  have s: "unat (c + 1) = unat c + 1"
    using Cons.prems(2) lim by (simp add: unat_word_ariths)
  have "\<not> limit \<le> c" using Cons.prems(2) by (simp add: word_le_nat_alt)
  with Cons.IH [OF e(3), of "c + 1" "b @ e"] Cons.prems(2) s e show ?case
    by (simp add: algebra_simps)
qed simp

lemma hash_pages_skip:
  assumes "\<forall>i \<in> set is. \<exists>page h. Piece (src t) i = Inr page \<and> decodeHeader page = Inr h \<and> h_kind h \<noteq> PageKindLeaf"
  shows "hash_pages K t (is @ js) acc = hash_pages K t js acc"
  using assms by (induction "is") auto

lemma hash_pages_leaves:
  assumes "list_all2 (\<lambda>i rs. leaf_at K (src t) i rs) is rss" and "map_res (EncodeRecord K) (concat rss) = Inr encs"
    and "unat c + length (concat rss) \<le> unat (t_NumRecords (trailer t))"
  shows "hash_pages K t is (c, b) = Inr (c + of_nat (length (concat rss)), b @ concat encs)"
  using assms
proof (induction "is" rss arbitrary: c b encs rule: list_all2_induct)
  case (Cons i "is" rs rss)
  from Cons.prems(1) obtain e1 e2 where e: "map_res (EncodeRecord K) rs = Inr e1"
    "map_res (EncodeRecord K) (concat rss) = Inr e2" "encs = e1 @ e2"
    by (auto simp: map_res_append bind_res_Inr_iff)
  have lim: "unat (t_NumRecords (trailer t)) < 2 ^ 64"
    using unsigned_less [of "t_NumRecords (trailer t)", where 'a = nat] by simp
  have "unat (c + of_nat (length rs)) = unat c + length rs"
    using Cons.prems(2) lim by (simp add: unat_word_ariths unsigned_of_nat take_bit_nat_eq_self)
  moreover have "hash_records K (t_NumRecords (trailer t)) rs (c, b) = Inr (c + of_nat (length rs), b @ concat e1)"
    using Cons.prems(2) by (intro hash_records_encode e(1)) simp
  ultimately show ?case
    using Cons.IH [OF e(2), of "c + of_nat (length rs)" "b @ concat e1"] Cons.hyps(1) Cons.prems(2)
    by (auto simp: leaf_at_def e(3) algebra_simps)
qed simp

section \<open>The builder returns\<close>

lemma leaves_short:
  assumes "packLeaves K srt ps = Inr leaves" and "check_keywords srt = None" and "\<forall>r \<in> set srt. wf_record r"
  shows "short_keys leaves" and "length leaves \<le> length srt" and "srt \<noteq> [] \<Longrightarrow> leaves \<noteq> []"
    and "level_chain K ps srt [leaves]"
proof -
  obtain gs where gs: "leaves = map mkLeaf gs" "leaf_level K ps srt gs"
    using packLeaves_level [OF assms(1)] by blast
  then have c: "concat gs = srt" and ne: "\<forall>g \<in> set gs. g \<noteq> []" by (auto simp: leaf_level_def)
  have kw: "\<forall>r \<in> set srt. length (Kw r) \<le> 64" using assms(2)
    by (induction srt rule: check_keywords.induct) (auto simp: MaxKeywordBytes_def split: if_splits)
  have "length (RecordKey (hd g)) \<le> 85" if "g \<in> set gs" for g
  proof -
    have "hd g \<in> set srt" using that ne c by (metis UN_I hd_in_set set_concat)
    with kw assms(3) show ?thesis by (auto simp: RecordKey_def wf_record_def)
  qed
  then show "short_keys leaves" by (auto simp: short_keys_def gs(1) mkLeaf_def)
  have "length gs \<le> length (concat gs)" using ne
  proof (induction gs)
    case (Cons g gs)
    then show ?case by (cases g) auto
  qed simp
  then show "length leaves \<le> length srt" by (simp add: gs(1) c)
  show "srt \<noteq> [] \<Longrightarrow> leaves \<noteq> []" using c gs(1) by auto
  show "level_chain K ps srt [leaves]" using gs by (auto simp: level_chain_def)
qed

lemma check_keywords_mset: "check_keywords xs = None \<longleftrightarrow> (\<forall>r \<in> set xs. 0 < length (Kw r) \<and> length (Kw r) \<le> MaxKeywordBytes)"
  by (induction xs rule: check_keywords.induct) auto

text \<open>What a build does once the records are accepted and the leaves are packed.\<close>

lemma BuildBTree_levels:
  assumes "16384 \<le> PieceSize inp" "PieceSize inp \<le> MaxPieceSize" "Records inp \<noteq> []"
    and "check_keywords (Records inp) = None" and "\<forall>r \<in> set (Records inp). wf_record r"
    and "packLeaves K (sort_key RecordKey (Records inp)) (PieceSize inp) = Inr leaves"
  shows "(\<exists>e. BuildBTree C K now inp = Some (Inl e) \<and>
       (build_levels (PieceSize inp) leaves [leaves] = Some (Inl e) \<or> packInteriorLevel leaves (PieceSize inp) = Inl e)) \<or>
    (\<exists>levels. BuildBTree C K now inp = Some (finish C K now inp (sort_key RecordKey (Records inp)) levels) \<and>
       level_chain K (PieceSize inp) (sort_key RecordKey (Records inp)) levels \<and> 2 \<le> length levels \<and>
       length (last levels) = 1 \<and> data_pages levels \<le> 3 * length (Records inp))"
proof -
  let ?ps = "PieceSize inp" and ?srt = "sort_key RecordKey (Records inp)"
  have k: "check_keywords ?srt = None" and w: "\<forall>r \<in> set ?srt. wf_record r" and ne: "?srt \<noteq> []"
    using assms(3-5) by (auto simp: check_keywords_mset) (metis length_0_conv length_sort)
  note L = leaves_short [OF assms(6) k w] and Lne = leaves_short(3) [OF assms(6) k w ne]
  obtain r where r: "build_levels ?ps leaves [leaves] = Some r"
    and res: "\<forall>res. r = Inr res \<longrightarrow> level_chain K ?ps ?srt res \<and> length (last res) = 1 \<and> prefix [leaves] res \<and>
       data_pages res + 2 \<le> data_pages [leaves] + 2 * length leaves"
    using build_levels_returns [OF L(1) assms(1) Lne, of "[leaves]" K ?srt] L(4) by auto
  have b: "BuildBTree C K now inp =
      (case r of Inl e \<Rightarrow> Some (Inl e)
       | Inr levels \<Rightarrow>
           if length levels = 1 then
             (case packInteriorLevel leaves ?ps of
                Inl e \<Rightarrow> Some (Inl e)
              | Inr root \<Rightarrow> Some (finish C K now inp ?srt (levels @ [root])))
           else Some (finish C K now inp ?srt levels))"
    using assms(1-4,6) r by (simp add: BuildBTree_def MinPieceSize_def Let_def)
  show ?thesis
  proof (cases r)
    case (Inl e)
    with b r show ?thesis by simp
  next
    case (Inr levels)
    with res have lv: "level_chain K ?ps ?srt levels" "length (last levels) = 1" "prefix [leaves] levels"
      "data_pages levels + 2 \<le> 3 * length leaves" by (auto simp: data_pages_def)
    have bound: "3 * length leaves \<le> 3 * length (Records inp)" using L(2) by simp
    show ?thesis
    proof (cases "length levels = 1")
      case True
      with lv(3) have one: "levels = [leaves]" by (cases levels) auto
      with lv(2) have l1: "length leaves = 1" by simp
      show ?thesis
      proof (cases "packInteriorLevel leaves ?ps")
        case (Inl e)
        with b Inr True show ?thesis by simp
      next
        case root: (Inr root)
        note sh = packInteriorLevel_shrinks [OF root L(1) assms(1)]
        have "length root = 1" using sh(1,3) l1 by (cases root) auto
        moreover have "level_chain K ?ps ?srt (levels @ [root])"
          using level_chain_snoc [OF lv(1), of root] root one by simp
        moreover have "data_pages (levels @ [root]) \<le> 3 * length (Records inp)"
          using calculation(1) l1 bound by (simp add: data_pages_def one)
        ultimately show ?thesis
          using b Inr True root by (intro disjI2 exI [of _ "levels @ [root]"]) (simp add: one)
      qed
    next
      case False
      have "levels \<noteq> []" using lv(1) by (simp add: level_chain_def)
      with False have "2 \<le> length levels" by (cases levels; cases "tl levels") auto
      with lv bound b Inr False show ?thesis by (intro disjI2 exI [of _ levels]) auto
    qed
  qed
qed

lemma BuildBTree_early:
  assumes "\<not> (16384 \<le> PieceSize inp \<and> PieceSize inp \<le> MaxPieceSize \<and> Records inp \<noteq> [] \<and>
    check_keywords (Records inp) = None \<and>
    (\<exists>leaves. packLeaves K (sort_key RecordKey (Records inp)) (PieceSize inp) = Inr leaves))"
  shows "\<exists>e. BuildBTree C K now inp = Some (Inl e)"
  using assms
  by (cases "packLeaves K (sort_key RecordKey (Records inp)) (PieceSize inp)")
    (auto simp: BuildBTree_def MinPieceSize_def Let_def split: option.splits)

section \<open>Reading a built file\<close>

lemma finish_file:
  assumes "finish C K now inp srt levels = Inr bt" and "level_chain K (PieceSize inp) srt levels"
    and "data_pages levels < 2 ^ 32" and "codec_ok K" and "\<forall>r \<in> set srt. wf_record r"
  obtains pages tp fp where "file_of K (PieceSize inp) srt levels pages" "Bytes bt = concat pages @ tp"
    "bt_PieceSize bt = PieceSize inp" "fingerprintSorted C K srt = Inr fp"
    "EncodeTrailer (trailer_for C now inp (data_pages levels) fp) (PieceSize inp) = Inr tp"
proof -
  have t: "unat (of_nat (data_pages levels) :: u32) = data_pages levels"
    using assms(3) by (simp add: unsigned_of_nat take_bit_nat_eq_self)
  from assms(1) obtain fp pages tp where
    f: "fingerprintSorted C K srt = Inr fp"
      "emit_levels K (PieceSize inp) (numbered levels) (length levels) (replicate (data_pages levels) []) = Inr pages"
      "EncodeTrailer (trailer_for C now inp (data_pages levels) fp) (PieceSize inp) = Inr tp"
      "Bytes bt = concat pages @ tp" "bt_PieceSize bt = PieceSize inp"
    by (auto simp: finish_def assign_pieces_eq numbered_def [symmetric] t bind_res_Inr_iff Let_def)
  have "file_of K (PieceSize inp) srt levels pages"
    using emitted_pages [OF f(2) assms(3)] assms by (simp add: file_of_def)
  then show thesis using that f by blast
qed

lemma trailer_for_fields:
  assumes "PrivKey inp = Some priv" and "signs_for C priv (b_PubKey inp)" and "length (b_PubKey inp) = 32" and "length fp = 32"
  shows "wf_trailer (trailer_for C now inp n fp)" and "VerifyTrailerSig C (trailer_for C now inp n fp) = None"
    and "t_NumPages (trailer_for C now inp n fp) = of_nat (n + 1)"
    and "t_RootPieceIndex (trailer_for C now inp n fp) = 0" and "t_Fingerprint (trailer_for C now inp n fp) = fp"
    and "t_NumRecords (trailer_for C now inp n fp) = of_nat (length (Records inp))"
    and "t_MinPoWBits (trailer_for C now inp n fp) = MinPoWBits inp"
    and "t_Seq (trailer_for C now inp n fp) = b_Seq inp" and "t_PubKey (trailer_for C now inp n fp) = b_PubKey inp"
  using assms
  by (simp_all add: trailer_for_def SignTrailer_def Let_def wf_trailer_def VerifyTrailerSig_def
      TrailerSigMessage_def encodeTrailerFields_def signs_for_def)

lemma built_fingerprint:
  assumes "file_of K ps srt levels pages" and "src t = BytesPageSource (concat pages @ tp) ps"
    and "length tp = nat ps" and "0 < ps"
    and "fingerprintSorted C K srt = Inr (t_Fingerprint (trailer t))"
    and "t_NumRecords (trailer t) = of_nat (length srt)" and "length srt < 2 ^ 64"
  shows "VerifyFingerprint C K t = None"
proof -
  from assms(1) have ch: "level_chain K ps srt levels" and n: "length pages = data_pages levels"
    by (simp_all add: file_of_def)
  have ne: "levels \<noteq> []" by (rule level_chainD(1) [OF ch])
  note fp = file_pieces [OF file_page_length [OF assms(1)] assms(3,4)]
  have rep: "represents K (src t) (tree_of levels l i)" if "l < length levels" "i < length (levels ! l)" for l i
    using file_represents [OF assms(1,3,4) that] assms(2) by simp
  have skip: "\<exists>page h. Piece (src t) i = Inr page \<and> decodeHeader page = Inr h \<and> h_kind h \<noteq> PageKindLeaf"
    if i: "i \<in> set [0..<base levels 0]" for i
  proof -
    have "i < data_pages levels" using i base_0 [OF ne] by simp
    then obtain k j where k: "k < length levels" "j < length (levels ! k)" "i = base levels k + j"
      using piece_of_level [of "length levels - 1" levels i] ne
      by (metis base_last le0 diff_less length_greater_0_conv le_less_trans zero_less_one)
    with i have "k \<noteq> 0" by (cases k) auto
    then obtain l where "k = Suc l" by (cases k) auto
    with rep [OF k(1,2)] k(3) show ?thesis by (auto simp: interior_at_def page_kinds)
  qed
  let ?rss = "map (\<lambda>i. node_records (levels ! 0 ! i)) [0..<length (levels ! 0)]"
  have c: "concat ?rss = srt"
    using level_content [OF ch, of 0] ne by simp
  have sh: "map ((+) m) [0..<n] = [m..<m + n]" for m n by (induction n) simp_all
  have up: "[0..<data_pages levels] = [0..<base levels 0] @ map ((+) (base levels 0)) [0..<length (levels ! 0)]"
    unfolding base_0 [OF ne] sh by (rule upt_add_eq_append) simp
  have "list_all2 (\<lambda>i rs. leaf_at K (src t) i rs) (map ((+) (base levels 0)) [0..<length (levels ! 0)]) ?rss"
    using rep [of 0] ne by (simp add: list_all2_conv_all_nth)
  moreover obtain encs where e: "map_res (EncodeRecord K) srt = Inr encs"
    "t_Fingerprint (trailer t) = copy_array 32 (sha256 C (concat encs))"
    using assms(5) by (auto simp: fingerprintSorted_def bind_res_Inr_iff)
  moreover have "unat (of_nat (length srt) :: u64) = length srt"
    using assms(7) by (simp add: unsigned_of_nat take_bit_nat_eq_self)
  ultimately have "hash_pages K t (map ((+) (base levels 0)) [0..<length (levels ! 0)]) (0, []) =
      Inr (0 + of_nat (length (concat ?rss)), [] @ concat encs)"
    using assms(6) c by (intro hash_pages_leaves) simp_all
  moreover have "[0..<NumPieces (src t) - 1] =
      [0..<base levels 0] @ map ((+) (base levels 0)) [0..<length (levels ! 0)]"
    using fp(1) n assms(2) up by simp
  moreover have "hash_pages K t ([0..<base levels 0] @ js) acc = hash_pages K t js acc" for js acc
    by (rule hash_pages_skip) (use skip in blast)
  ultimately have "hash_pages K t [0..<NumPieces (src t) - 1] (0, []) = Inr (of_nat (length srt), concat encs)"
    unfolding c by simp
  with e(2) assms(6) show ?thesis by (simp add: VerifyFingerprint_def)
qed

lemma top_level: "2 \<le> length levels \<Longrightarrow> levels ! (length levels - 1) = last levels"
  by (subst last_conv_nth) auto

lemma built_leaf_nonempty:
  assumes ch: "level_chain K ps srt levels" and "2 \<le> length levels" and "length (last levels) = 1"
  shows "2 \<le> data_pages levels"
proof -
  let ?l = "length levels - 1"
  have top: "?l < length levels" "0 < ?l" using assms(2) by auto
  have len: "length (levels ! ?l) = 1" using assms(3) top_level [OF assms(2)] by simp
  have "1 \<le> length (levels ! 0)"
  proof (rule ccontr)
    assume "\<not> 1 \<le> length (levels ! 0)"
    then have "levels ! 0 = []" by (cases "levels ! 0") auto
    moreover have "levels \<noteq> []" using assms(2) by auto
    ultimately have "srt = []" using level_content [OF ch, of 0] by simp
    moreover have "recs (tree_of levels ?l 0) = srt" using level_content [OF ch top(1)] len by simp
    moreover have "full (tree_of levels ?l 0)" using tree_full [OF ch top(1)] len by simp
    ultimately show False using full_recs by blast
  qed
  moreover have "1 \<le> base levels 0" using base_antimono [OF top(2,1)] len by simp
  ultimately show ?thesis using base_0 [of levels] assms(2) by force
qed

lemma Find_built:
  assumes "file_of K ps srt levels pages" and "src t = BytesPageSource (concat pages @ tp) ps"
    and "length tp = nat ps" and "0 < ps" and "2 \<le> length levels" and "length (last levels) = 1"
    and "sorted (map RecordKey srt)"
  shows "Find C K t pfx = Inr (filter (record_passes C (trailer t) pfx) srt)"
proof -
  from assms(1) have ch: "level_chain K ps srt levels" and n: "length pages = data_pages levels"
    by (simp_all add: file_of_def)
  note fp = file_pieces [OF file_page_length [OF assms(1)] assms(3,4)]
  let ?l = "length levels - 1"
  obtain l where l: "?l = Suc l" using assms(5) by (cases ?l) auto
  have top: "?l < length levels" "levels ! ?l = last levels" using assms(5) top_level [of levels] by auto
  then have len: "length (levels ! ?l) = 1" using assms(6) by simp
  have b0: "base levels ?l = 0" by (rule base_last)
  have lc: "recs (tree_of levels ?l 0) = srt" "mset (pieces (tree_of levels ?l 0)) = mset [0..<data_pages levels]"
    using level_content [OF ch top(1)] len b0 by simp_all
  have d: "distinct (pieces (tree_of levels ?l 0))"
    using mset_eq_imp_distinct_iff [OF lc(2)] by simp
  have e: "EncodeInterior PageKindRoot (int (Suc l))
      (map child_of (map (tree_of levels l) (children (levels ! Suc l ! 0)))) ps = Inr (pages ! 0)"
  proof -
    have "Suc l < length levels" "levels ! Suc l \<noteq> []" using top(1) len unfolding l by auto
    then show ?thesis using file_interior [OF assms(1), of l 0] b0 l by simp
  qed
  have "0 < data_pages levels" using base_le [OF top(1)] len by simp
  moreover have "2 \<le> data_pages levels" by (rule built_leaf_nonempty [OF ch assms(5,6)])
  ultimately have "Piece (src t) 0 = Inr (pages ! 0)" "3 \<le> NumPieces (src t)"
    using fp n assms(2) by simp_all
  moreover obtain h where "decodeHeader (pages ! 0) = Inr h" "h_kind h = PageKindRoot"
    using interior_page(3) [OF e] by blast
  moreover have "represents K (src t) (tree_of levels ?l 0)"
    using file_represents [OF assms(1,3,4) top(1)] len assms(2) by simp
  moreover have "full (tree_of levels ?l 0)" using tree_full [OF ch top(1)] len by simp
  ultimately show ?thesis
    using Find_represented [of K t "tree_of levels ?l 0"] d lc(1) assms(7) b0 by simp
qed

section \<open>The builder succeeds\<close>

definition entry_size :: "codec \<Rightarrow> Record \<Rightarrow> nat" where
  "entry_size K r = (case EncodeRecord K r of Inr b \<Rightarrow> length (leaf_entry b) | Inl _ \<Rightarrow> 0)"

definition leaf_size :: "codec \<Rightarrow> Record list \<Rightarrow> nat" where
  "leaf_size K rs = 2 + sum_list (map (entry_size K) rs)"

definition encodable :: "codec \<Rightarrow> Record list \<Rightarrow> bool" where
  "encodable K rs \<longleftrightarrow> (\<forall>r \<in> set rs. \<exists>b. EncodeRecord K r = Inr b)"

lemma entry_size_bounds:
  assumes "EncodeRecord K r = Inr b"
  shows "1 \<le> entry_size K r" and "entry_size K r \<le> 258"
proof -
  have "length (put_uvarint (of_nat (length b))) \<le> 2"
    using EncodeRecord_size [OF assms] by (intro length_put_uvarint_small(2)) simp
  moreover have "0 < length (put_uvarint (of_nat (length b)))" by (rule length_put_uvarint_pos)
  ultimately show "1 \<le> entry_size K r" "entry_size K r \<le> 258"
    using EncodeRecord_size [OF assms] assms by (simp_all add: entry_size_def leaf_entry_def Suc_le_eq)
qed

lemma encodable_map_res:
  assumes "encodable K rs"
  shows "\<exists>encs. map_res (EncodeRecord K) rs = Inr encs \<and>
    length (concat (map leaf_entry encs)) = sum_list (map (entry_size K) rs)"
  using assms
proof (induction rs)
  case (Cons r rs)
  then obtain b encs where "EncodeRecord K r = Inr b" "map_res (EncodeRecord K) rs = Inr encs"
    "length (concat (map leaf_entry encs)) = sum_list (map (entry_size K) rs)"
    by (auto simp: encodable_def)
  then show ?case by (simp add: entry_size_def [of K r])
qed simp

lemma EncodeLeaf_cases:
  assumes "encodable K rs" and "rs \<noteq> []" and "length rs \<le> 0xFFFF"
  shows "0xFFFF < leaf_size K rs \<Longrightarrow> EncodeLeaf K l rs ps = Inl ErrPayloadUint16"
    and "leaf_size K rs \<le> 0xFFFF \<Longrightarrow> ps < int (16 + leaf_size K rs) \<Longrightarrow> EncodeLeaf K l rs ps = Inl ErrPageOverflow"
    and "leaf_size K rs \<le> 0xFFFF \<Longrightarrow> int (16 + leaf_size K rs) \<le> ps \<Longrightarrow> \<exists>p. EncodeLeaf K l rs ps = Inr p"
  using encodable_map_res [OF assms(1)] assms(2,3)
  by (auto simp: EncodeLeaf_def Let_def leaf_size_def PageHeaderSize_def)

lemma leaf_count_le: "encodable K rs \<Longrightarrow> length rs + 2 \<le> leaf_size K rs"
proof (induction rs)
  case (Cons r rs)
  then have "1 \<le> entry_size K r" using entry_size_bounds(1) by (auto simp: encodable_def)
  with Cons show ?case by (simp add: encodable_def leaf_size_def)
qed (simp add: leaf_size_def)

lemma EncodeLeaf_fits:
  assumes "EncodeLeaf K l rs ps = Inr p"
  shows "encodable K rs \<and> rs \<noteq> [] \<and> leaf_size K rs \<le> 0xFFFF \<and> int (16 + leaf_size K rs) \<le> ps"
proof -
  obtain encs where "map_res (EncodeRecord K) rs = Inr encs" "rs \<noteq> []" "length rs \<le> 0xFFFF"
    using EncodeLeaf_Inr [OF assms] by metis
  then have e: "encodable K rs" "rs \<noteq> []" "length rs \<le> 0xFFFF"
    by (auto simp: encodable_def map_res_Inr_iff list_all2_conv_all_nth in_set_conv_nth)
  note c = EncodeLeaf_cases [OF e, where l = l and ps = ps]
  have sz: "leaf_size K rs \<le> 0xFFFF" using c(1) assms by (cases "leaf_size K rs \<le> 0xFFFF") auto
  with c(2) assms have "int (16 + leaf_size K rs) \<le> ps" by (cases "ps < int (16 + leaf_size K rs)") auto
  with e sz show ?thesis by blast
qed

lemma packLeaves_succeeds:
  assumes "encodable K srt" and "16384 \<le> ps" and "ps \<le> 65293"
  shows "\<exists>leaves. packLeaves K srt ps = Inr leaves"
proof -
  let ?enc = "\<lambda>cand. EncodeLeaf K 0 cand ps"
  have r: "encodable K [x]" "entry_size K x \<le> 258" if "x \<in> set srt" for x
    using that assms(1) entry_size_bounds(2) by (auto simp: encodable_def)
  have "\<exists>gs. pack ?enc srt [] [] = Inr gs"
  proof (rule pack_succeeds)
    fix g x assume g: "g = [] \<or> (\<exists>p. ?enc g = Inr p)" and x: "x \<in> set srt"
    have e: "encodable K (g @ [x])" and sz: "leaf_size K (g @ [x]) \<le> 0xFFFF"
      using g EncodeLeaf_fits [of K 0 g ps] r [OF x] assms(3) by (auto simp: encodable_def leaf_size_def)
    have "length (g @ [x]) \<le> 0xFFFF" using leaf_count_le [OF e] sz by simp
    from EncodeLeaf_cases(2,3) [OF e _ this] sz
    show "(\<exists>p. ?enc (g @ [x]) = Inr p) \<or> ?enc (g @ [x]) = Inl ErrPageOverflow"
      by (cases "ps < int (16 + leaf_size K (g @ [x]))") auto
  next
    fix x assume "x \<in> set srt"
    from r [OF this] assms(2) show "\<exists>p. ?enc [x] = Inr p"
      by (intro EncodeLeaf_cases(3)) (auto simp: leaf_size_def)
  qed simp
  then show ?thesis by (auto simp: packLeaves_def)
qed

definition children_size :: "InteriorChild list \<Rightarrow> nat" where
  "children_size cs = 2 + length (concat (map child_entry (force_first cs)))"

lemma EncodeInterior_cases:
  assumes "kind = PageKindInterior \<or> kind = PageKindRoot" and "cs \<noteq> []" and "length cs \<le> 0xFFFF" and "children_size cs \<le> 0xFFFF"
  shows "ps < int (16 + children_size cs) \<Longrightarrow> EncodeInterior kind l cs ps = Inl ErrPageOverflow"
    and "int (16 + children_size cs) \<le> ps \<Longrightarrow> \<exists>p. EncodeInterior kind l cs ps = Inr p"
  using assms by (auto simp: EncodeInterior_def Let_def children_size_def PageHeaderSize_def)

lemma EncodeInterior_fits:
  assumes "EncodeInterior kind l cs ps = Inr p"
  shows "cs \<noteq> [] \<and> length cs \<le> 0xFFFF \<and> children_size cs \<le> 0xFFFF \<and> int (16 + children_size cs) \<le> ps"
  using EncodeInterior_Inr [OF assms] by (metis (mono_tags, lifting) PageHeaderSize_def children_size_def length_append length_put(1))

lemma child_count_le: "length cs + 2 \<le> children_size cs"
proof -
  have "length ds \<le> length (concat (map child_entry ds))" for ds
    by (induction ds) (auto simp: child_entry_def)
  from this [of "force_first cs"] show ?thesis by (simp add: children_size_def)
qed

lemma children_size_cong:
  "map (\<lambda>c. length (Separator c)) cs = map (\<lambda>c. length (Separator c)) ds \<Longrightarrow> children_size cs = children_size ds"
proof -
  have len: "length (child_entry c) = length (put_uvarint (of_nat (length (Separator c)))) + length (Separator c) + 4" for c
    by (simp add: child_entry_def)
  have "map (\<lambda>c. length (Separator c)) cs = map (\<lambda>c. length (Separator c)) ds \<Longrightarrow>
      length (concat (map child_entry cs)) = length (concat (map child_entry ds))" for cs ds
  proof (induction cs arbitrary: ds)
    case (Cons c cs)
    then obtain d es where "ds = d # es" "length (Separator c) = length (Separator d)"
      "map (\<lambda>c. length (Separator c)) cs = map (\<lambda>c. length (Separator c)) es" by auto
    with Cons.IH show ?case by (simp add: len)
  qed simp
  from this [of "force_first cs" "force_first ds"] show
    "map (\<lambda>c. length (Separator c)) cs = map (\<lambda>c. length (Separator c)) ds \<Longrightarrow> children_size cs = children_size ds"
    by (cases cs; cases ds) (auto simp: children_size_def)
qed

lemma packInteriorLevel_succeeds:
  assumes "short_keys below" and "below \<noteq> []" and "16384 \<le> ps" and "ps \<le> 65293"
  shows "\<exists>parents. packInteriorLevel below ps = Inr parents"
proof -
  let ?cs = "interiorChildrenOfSlice below"
  let ?enc = "\<lambda>cand. EncodeInterior PageKindInterior 1 (?cs cand) ps"
  have "\<exists>gs. pack ?enc [0..<length below] [] [] = Inr gs"
  proof (rule pack_succeeds)
    fix g x assume g: "g = [] \<or> (\<exists>p. ?enc g = Inr p)" and x: "x \<in> set [0..<length below]"
    have s: "length (child_entry \<lparr>Separator = minKey (below ! x), ChildIndex = 0\<rparr>) \<le> 90"
      using x assms(1) by (intro length_child_entry) (simp add: short_keys_def)
    have one: "children_size (?cs [x]) \<le> 92"
      by (simp add: interiorChildrenOfSlice_def children_size_def child_entry_def put_uvarint.simps [of 0])
    have "children_size (?cs (g @ [x])) \<le> children_size (?cs g) + 90" if "g \<noteq> []"
      using that s by (cases g) (simp_all add: interiorChildrenOfSlice_def children_size_def)
    then have sz: "children_size (?cs (g @ [x])) \<le> 0xFFFF"
      using g one EncodeInterior_fits [of PageKindInterior 1 "?cs g" ps] assms(4) by (cases "g = []") auto
    have "length (?cs (g @ [x])) \<le> 0xFFFF" using child_count_le [of "?cs (g @ [x])"] sz by simp
    from EncodeInterior_cases [OF _ _ this sz, of PageKindInterior ps 1]
    show "(\<exists>p. ?enc (g @ [x]) = Inr p) \<or> ?enc (g @ [x]) = Inl ErrPageOverflow"
      by (cases "ps < int (16 + children_size (?cs (g @ [x])))") (auto simp: interiorChildrenOfSlice_def)
  next
    fix x assume "x \<in> set [0..<length below]"
    then show "\<exists>p. ?enc [x] = Inr p" using assms(3)
      by (intro EncodeInterior_cases(2))
        (simp_all add: interiorChildrenOfSlice_def children_size_def child_entry_def put_uvarint.simps [of 0])
  qed simp
  then show ?thesis using assms(2) by (auto simp: packInteriorLevel_def)
qed

lemma build_levels_succeeds:
  assumes "short_keys cur" and "cur \<noteq> []" and "16384 \<le> ps" and "ps \<le> 65293"
  shows "\<exists>res. build_levels ps cur levels = Some (Inr res)"
  using assms(1,2)
proof (induction "length cur" arbitrary: cur levels rule: less_induct)
  case less
  obtain parents where p: "packInteriorLevel cur ps = Inr parents"
    using packInteriorLevel_succeeds [OF less.prems assms(3,4)] by blast
  note sh = packInteriorLevel_shrinks [OF p less.prems(1) assms(3)]
  show ?case
  proof (cases "length cur \<le> 1")
    case True
    then show ?thesis by (subst build_levels.simps) simp
  next
    case False
    then have "length parents < length cur" using sh(1) by simp
    from less.hyps [OF this sh(2,3), of "levels @ [parents]"] False p show ?thesis
      by (subst build_levels.simps) simp
  qed
qed

lemma node_page_ok:
  assumes "level_chain K ps srt levels" and "l < length levels" and "i < length (levels ! l)"
  shows "\<exists>p. node_page K ps (numbered levels) l (numbered levels ! l ! i) = Inr p"
proof (cases l)
  case 0
  obtain gs where gs: "levels ! 0 = map mkLeaf gs" "leaf_level K ps srt gs"
    using level_chainD(2) [OF assms(1)] by blast
  with assms(3) 0 have "\<exists>p. EncodeLeaf K 0 (gs ! i) ps = Inr p" by (auto simp: leaf_level_def)
  with assms gs(1) 0 show ?thesis
    by (simp add: node_page_def numbered_nth(2) isLeaf_def mkLeaf_def)
next
  case (Suc k)
  obtain gs where gs: "levels ! Suc k = map (mkInterior (levels ! k)) gs" "interior_level ps (levels ! k) gs"
    using level_chainD(3) [OF assms(1)] assms(2) Suc by blast
  have i: "i < length gs" using assms(3) gs(1) Suc by simp
  note g = interior_group [OF gs(2) i]
  let ?nd = "numbered levels ! l ! i"
  have c: "children ?nd = gs ! i" using assms i gs(1) Suc by (simp add: numbered_nth(2) mkInterior_def)
  let ?cs = "interiorChildrenOf (numbered levels ! k) ?nd" and ?ds = "interiorChildrenOfSlice (levels ! k) (gs ! i)"
  have "\<exists>p. EncodeInterior PageKindInterior 1 ?ds ps = Inr p" using gs(2) i by (auto simp: interior_level_def)
  then have fit: "?ds \<noteq> [] \<and> length ?ds \<le> 0xFFFF \<and> children_size ?ds \<le> 0xFFFF \<and> int (16 + children_size ?ds) \<le> ps"
    using EncodeInterior_fits by blast
  have "map (\<lambda>c. length (Separator c)) ?cs = map (\<lambda>c. length (Separator c)) ?ds"
    unfolding interiorChildrenOf_def interiorChildrenOfSlice_def c
    using g(2) assms(2) Suc by (auto simp: numbered_nth(2))
  then have "children_size ?cs = children_size ?ds" by (rule children_size_cong)
  moreover have "length ?cs = length ?ds"
    by (simp add: interiorChildrenOf_def interiorChildrenOfSlice_def c)
  ultimately have "\<exists>p. EncodeInterior kind lv ?cs ps = Inr p" if "kind = PageKindInterior \<or> kind = PageKindRoot" for kind lv
    using fit that by (intro EncodeInterior_cases(2)) auto
  then show ?thesis using c g(1) Suc by (simp add: node_page_def isLeaf_def)
qed

lemma emit_level_ok:
  assumes "\<forall>nd \<in> set nds. (\<exists>p. node_page K ps lv l nd = Inr p) \<and> unat (piece nd) < length pages"
  shows "\<exists>pages'. emit_level K ps lv l nds pages = Inr pages' \<and> length pages' = length pages"
  using assms
proof (induction nds arbitrary: pages)
  case (Cons nd nds)
  then obtain p where p: "node_page K ps lv l nd = Inr p" "unat (piece nd) < length pages" by auto
  from Cons.IH [of "pages[unat (piece nd) := p]"] Cons.prems p show ?case by auto
qed simp

lemma emit_levels_ok:
  assumes "\<forall>l < n. \<forall>nd \<in> set (lv ! l). (\<exists>p. node_page K ps lv l nd = Inr p) \<and> unat (piece nd) < length pages"
  shows "\<exists>pages'. emit_levels K ps lv n pages = Inr pages'"
  using assms
proof (induction n arbitrary: pages)
  case (Suc n)
  obtain mid where "emit_level K ps lv n (lv ! n) pages = Inr mid" "length mid = length pages"
    using emit_level_ok [of "lv ! n" K ps lv n pages] Suc.prems by auto
  moreover from this Suc.prems have "\<exists>pages'. emit_levels K ps lv n mid = Inr pages'"
    by (intro Suc.IH) (metis less_SucI)
  ultimately show ?case by auto
qed simp

lemma finish_succeeds:
  assumes "level_chain K (PieceSize inp) srt levels" and "data_pages levels < 2 ^ 32"
    and "encodable K srt" and "16384 \<le> PieceSize inp"
  shows "\<exists>bt. finish C K now inp srt levels = Inr bt"
proof -
  have t: "unat (of_nat (data_pages levels) :: u32) = data_pages levels"
    using assms(2) by (simp add: unsigned_of_nat take_bit_nat_eq_self)
  have "(\<exists>p. node_page K (PieceSize inp) (numbered levels) l nd = Inr p) \<and> unat (piece nd) < data_pages levels"
    if "l < length levels" "nd \<in> set (numbered levels ! l)" for l nd
  proof -
    from that obtain i where "i < length (levels ! l)" "nd = numbered levels ! l ! i"
      by (auto simp: in_set_conv_nth numbered_nth(1))
    with that(1) node_page_ok [OF assms(1) that(1)] numbered_piece [OF that(1) _ assms(2)] base_le [OF that(1)]
    show ?thesis by fastforce
  qed
  then obtain pages where pg:
    "emit_levels K (PieceSize inp) (numbered levels) (length levels) (replicate (data_pages levels) []) = Inr pages"
    using emit_levels_ok [of "length levels" "numbered levels" K "PieceSize inp" "replicate (data_pages levels) []"]
    by auto
  obtain fp where f: "fingerprintSorted C K srt = Inr fp"
    using encodable_map_res [OF assms(3)] by (auto simp: fingerprintSorted_def)
  have "t_Version (trailer_for C now inp (data_pages levels) fp) = TrailerVersion"
    by (simp add: trailer_for_def SignTrailer_def Let_def split: option.splits)
  then obtain tp where tp: "EncodeTrailer (trailer_for C now inp (data_pages levels) fp) (PieceSize inp) = Inr tp"
    using assms(4) by (auto simp: EncodeTrailer_def PageHeaderSize_def TrailerPayloadSize_def)
  show ?thesis
    by (simp add: finish_def assign_pieces_eq numbered_def [symmetric] t Let_def pg f tp)
qed

lemma BuildBTree_succeeds:
  assumes "Records inp \<noteq> []" and "encodable K (Records inp)" and "\<forall>r \<in> set (Records inp). wf_record r"
    and "16384 \<le> PieceSize inp" and "PieceSize inp \<le> 65293" and "length (Records inp) < 2 ^ 30"
  shows "\<exists>bt. BuildBTree C K now inp = Some (Inr bt)"
proof -
  let ?ps = "PieceSize inp" and ?srt = "sort_key RecordKey (Records inp)"
  have e: "encodable K ?srt" using assms(2) by (simp add: encodable_def)
  have k: "check_keywords (Records inp) = None" and ks: "check_keywords ?srt = None"
    using assms(2) by (auto simp: check_keywords_mset encodable_def EncodeRecord_def split: if_splits)
  have ps: "?ps \<le> MaxPieceSize" using assms(5) by (simp add: MaxPieceSize_def)
  obtain leaves where pl: "packLeaves K ?srt ?ps = Inr leaves"
    using packLeaves_succeeds [OF e assms(4,5)] by blast
  have w: "\<forall>r \<in> set ?srt. wf_record r" and ne: "?srt \<noteq> []" using assms(1,3)
    by (simp, metis length_0_conv length_sort)
  note L = leaves_short [OF pl ks w] and Lne = leaves_short(3) [OF pl ks w ne]
  obtain res where "build_levels ?ps leaves [leaves] = Some (Inr res)"
    using build_levels_succeeds [OF L(1) Lne assms(4,5)] by blast
  moreover obtain root where "packInteriorLevel leaves ?ps = Inr root"
    using packInteriorLevel_succeeds [OF L(1) Lne assms(4,5)] by blast
  ultimately obtain levels where
    "BuildBTree C K now inp = Some (finish C K now inp ?srt levels)" "level_chain K ?ps ?srt levels"
    "data_pages levels \<le> 3 * length (Records inp)"
    using BuildBTree_levels [OF assms(4) ps assms(1) k assms(3) pl, of C now] by auto
  then show ?thesis using finish_succeeds [OF _ _ e assms(4), of levels C now] assms(6) by simp
qed

lemma finish_fingerprint: "finish C K now inp srt levels = Inr bt \<Longrightarrow> fingerprintSorted C K srt = Inr (Fingerprint bt)"
  by (auto simp: finish_def bind_res_Inr_iff Let_def split: prod.splits)

lemma trailer_for_fingerprint: "t_Fingerprint (trailer_for C now inp n fp) = fp"
  by (simp add: trailer_for_def SignTrailer_def Let_def split: option.split)

lemma BuildBTree_correct:
  assumes "BuildBTree C K now inp = Some (Inr bt)" and "codec_ok K"
    and "PrivKey inp = Some priv" and "signs_for C priv (b_PubKey inp)" and "length (b_PubKey inp) = 32"
    and "\<forall>r \<in> set (Records inp). wf_record r" and "length (Records inp) < 2 ^ 30"
  shows "\<exists>t. OpenBTree C (BytesPageSource (Bytes bt) (bt_PieceSize bt)) = Inr t \<and>
    t_PubKey (trailer t) = b_PubKey inp \<and> t_MinPoWBits (trailer t) = MinPoWBits inp \<and>
    t_Fingerprint (trailer t) = Fingerprint bt \<and> length (Fingerprint bt) = 32 \<and> bt_PieceSize bt = PieceSize inp \<and>
    VerifyFingerprint C K t = None \<and>
    (\<forall>pfx. Find C K t pfx =
       Inr (filter (record_passes C (trailer t) pfx) (sort_key RecordKey (Records inp))))"
proof -
  let ?ps = "PieceSize inp" and ?srt = "sort_key RecordKey (Records inp)"
  have ok: "16384 \<le> ?ps" "?ps \<le> MaxPieceSize" "Records inp \<noteq> []" "check_keywords (Records inp) = None"
    and "\<exists>leaves. packLeaves K ?srt ?ps = Inr leaves"
    using BuildBTree_early [of inp K C now] assms(1) by fastforce+
  then obtain leaves where "packLeaves K ?srt ?ps = Inr leaves" by blast
  from BuildBTree_levels [OF ok assms(6) this, of C now] assms(1) obtain levels where
    fin: "finish C K now inp ?srt levels = Inr bt" and ch: "level_chain K ?ps ?srt levels"
    and l2: "2 \<le> length levels" and l1: "length (last levels) = 1" and dp: "data_pages levels \<le> 3 * length (Records inp)"
    by auto
  have dp32: "data_pages levels + 1 < 2 ^ 32" using dp assms(7) by simp
  have wf: "\<forall>r \<in> set ?srt. wf_record r" using assms(6) by simp
  obtain pages tp fp where f: "file_of K ?ps ?srt levels pages" "Bytes bt = concat pages @ tp"
    "bt_PieceSize bt = ?ps" "fingerprintSorted C K ?srt = Inr fp"
    "EncodeTrailer (trailer_for C now inp (data_pages levels) fp) ?ps = Inr tp"
    using finish_file [OF fin ch _ assms(2) wf] dp32 by auto
  let ?tr = "trailer_for C now inp (data_pages levels) fp"
  let ?s = "BytesPageSource (concat pages @ tp) ?ps"
  define t where "t = \<lparr>src = ?s, trailer = ?tr\<rparr>"
  have fl: "length fp = 32" using f(4) by (auto simp: fingerprintSorted_def bind_res_Inr_iff)
  have fb: "Fingerprint bt = fp" using finish_fingerprint [OF fin] f(4) by simp
  note tf = trailer_for_fields [OF assms(3,4,5) fl]
  note tp = trailer_page [OF tf(1) f(5)]
  have ps: "0 < ?ps" using ok(1) by simp
  note fp = file_pieces [OF file_page_length [OF f(1)] tp(1) ps]
  have F: "Find C K t pfx = Inr (filter (record_passes C (trailer t) pfx) ?srt)" for pfx
    by (rule Find_built [OF f(1) _ tp(1) ps l2 l1]) (simp_all add: t_def)
  have n: "length pages = data_pages levels" using f(1) by (simp add: file_of_def)
  have "3 \<le> NumPieces ?s"
    using fp(1) n built_leaf_nonempty [OF ch l2 l1] by simp
  moreover have "unat (of_nat (data_pages levels + 1) :: u32) = data_pages levels + 1"
    using dp32 by (simp only: unsigned_of_nat) (simp add: take_bit_nat_eq_self)
  ultimately have "OpenBTree C ?s = Inr t"
    using fp n tp(2) tf by (simp add: OpenBTree_def Let_def t_def)
  moreover have "VerifyFingerprint C K t = None"
    using assms(7) tf f(4)
    by (intro built_fingerprint [OF f(1) _ tp(1) ps]) (simp_all add: t_def)
  ultimately show ?thesis using F tf(7,9) f(2,3) by (intro exI [of _ t]) (simp add: t_def fb fl trailer_for_fingerprint)
qed

section \<open>Properties\<close>

text \<open>
  C1: the SNAGG index works end to end.  A file the builder returns for at most \<open>2 ^ 30\<close> records,
  signed with the publisher's key, opens; its fingerprint over the stored records verifies; and a
  query for any prefix returns exactly the records with that prefix, a valid signature and
  sufficient proof of work, in key order.
\<close>

theorem build_open_find:
  assumes "BuildBTree C K now inp = Some (Inr bt)" and "codec_ok K"
    and "PrivKey inp = Some priv" and "signs_for C priv (b_PubKey inp)" and "length (b_PubKey inp) = 32"
    and "\<forall>r \<in> set (Records inp). wf_record r" and "length (Records inp) < 2 ^ 30"
  shows "\<exists>t. OpenBTree C (BytesPageSource (Bytes bt) (bt_PieceSize bt)) = Inr t \<and>
    t_PubKey (trailer t) = b_PubKey inp \<and> t_MinPoWBits (trailer t) = MinPoWBits inp \<and>
    VerifyFingerprint C K t = None \<and>
    (\<forall>pfx. Find C K t pfx =
       Inr (filter (record_passes C (trailer t) pfx) (sort_key RecordKey (Records inp))))"
  using BuildBTree_correct [OF assms] by blast

text \<open>A one-record input for the closed examples.\<close>

definition toy_input :: BuildInput where
  "toy_input = \<lparr>Records = [toy_record], b_PubKey = replicate 32 7, PrivKey = Some (replicate 32 7),
     b_Seq = 1, CreatedTs = 5, MinPoWBits = 0, PieceSize = 16384\<rparr>"

lemma toy_input_ok:
  "Records toy_input \<noteq> []" "encodable toy_codec (Records toy_input)" "\<forall>r \<in> set (Records toy_input). wf_record r"
  "16384 \<le> PieceSize toy_input" "PieceSize toy_input \<le> 65293" "length (Records toy_input) < 2 ^ 30"
  using toy_EncodeRecord [of toy_record]
  by (auto simp: toy_input_def encodable_def wf_record_def toy_record_def)

theorem build_open_find_witness:
  "\<exists>bt t. BuildBTree toy_crypto toy_codec 0 toy_input = Some (Inr bt) \<and>
     OpenBTree toy_crypto (BytesPageSource (Bytes bt) (bt_PieceSize bt)) = Inr t \<and>
     Find toy_crypto toy_codec t [0x75] =
       Inr (filter (record_passes toy_crypto (trailer t) [0x75]) (sort_key RecordKey (Records toy_input)))"
proof -
  obtain bt where b: "BuildBTree toy_crypto toy_codec 0 toy_input = Some (Inr bt)"
    using BuildBTree_succeeds [OF toy_input_ok] by blast
  have k: "PrivKey toy_input = Some (replicate 32 7)" "length (b_PubKey toy_input) = 32"
    "signs_for toy_crypto (replicate 32 7) (b_PubKey toy_input)"
    using toy_signs by (simp_all add: toy_input_def)
  show ?thesis
    using b build_open_find [OF b toy_codec_ok k(1,3,2) toy_input_ok(3,6)] by blast
qed

text \<open>
  The builder always returns.  For every input whose records have the fixed field widths the
  loop that adds levels ends, because every two separators share a page and so each level has at
  most half as many nodes as the one below, rounded up.
\<close>

lemma build_returns:
  assumes "\<forall>r \<in> set (Records inp). wf_record r"
  shows "\<exists>res. BuildBTree C K now inp = Some res"
  using BuildBTree_early [of inp K C now] BuildBTree_levels [of inp K _ C now] assms by blast

theorem build_returns_witness:
  "\<exists>res. BuildBTree toy_crypto toy_codec 0 toy_input = Some res"
  using build_returns [OF toy_input_ok(3)] by blast

text \<open>
  C5: for piece sizes up to 65293 bytes the builder succeeds on every non-empty list of at most
  \<open>2 ^ 30\<close> encodable records, whatever their number and sizes.
\<close>

theorem build_succeeds:
  assumes "Records inp \<noteq> []" and "\<forall>r \<in> set (Records inp). wf_record r \<and> (\<exists>b. EncodeRecord K r = Inr b)"
    and "MinPieceSize \<le> PieceSize inp" and "PieceSize inp \<le> 65293" and "length (Records inp) < 2 ^ 30"
  shows "\<exists>bt. BuildBTree C K now inp = Some (Inr bt)"
  using assms by (intro BuildBTree_succeeds) (auto simp: encodable_def MinPieceSize_def)

theorem build_succeeds_witness:
  "\<exists>bt. BuildBTree toy_crypto toy_codec 0 toy_input = Some (Inr bt)"
proof (rule build_succeeds)
  show "\<forall>r \<in> set (Records toy_input). wf_record r \<and> (\<exists>b. EncodeRecord toy_codec r = Inr b)"
    using toy_input_ok(2,3) by (simp add: encodable_def)
qed (use toy_input_ok in \<open>simp_all add: MinPieceSize_def\<close>)

text \<open>
  Above that the builder can fail where it should split.  With a piece size of at least 65551
  bytes, which \<open>MaxPieceSize\<close> admits, any encodable records whose leaf entries total more than
  65533 bytes make the build end with the payload error: the 16-bit payload limit is tested
  before the page size, and only a page overflow makes the packer start a new leaf.
\<close>

lemma large_pieces_never_split:
  assumes "Records inp \<noteq> []" and "\<forall>r \<in> set (Records inp). \<exists>b. EncodeRecord K r = Inr b"
    and "65551 \<le> PieceSize inp" and "PieceSize inp \<le> MaxPieceSize"
    and "0xFFFF < leaf_size K (Records inp)"
  shows "BuildBTree C K now inp = Some (Inl ErrPayloadUint16)"
proof -
  let ?enc = "\<lambda>cand. EncodeLeaf K 0 cand (PieceSize inp)" and ?srt = "sort_key RecordKey (Records inp)"
  have "pack ?enc xs cur groups = Inl ErrPayloadUint16"
    if "encodable K (cur @ xs)" "leaf_size K cur \<le> 0xFFFF" "0xFFFF < leaf_size K (cur @ xs)" for xs cur groups
    using that
  proof (induction xs arbitrary: cur)
    case (Cons x xs)
    have e: "encodable K (cur @ [x])" "encodable K cur" using Cons.prems(1) by (auto simp: encodable_def)
    have len: "length (cur @ [x]) \<le> 0xFFFF" using leaf_count_le [OF e(2)] Cons.prems(2) by simp
    show ?case
    proof (cases "leaf_size K (cur @ [x]) \<le> 0xFFFF")
      case True
      then obtain p where "?enc (cur @ [x]) = Inr p"
        using EncodeLeaf_cases(3) [OF e(1) _ len, of "PieceSize inp" 0] assms(3) by auto
      with Cons.IH [of "cur @ [x]"] Cons.prems True show ?thesis by simp
    next
      case False
      with EncodeLeaf_cases(1) [OF e(1) _ len] show ?thesis by simp
    qed
  qed simp
  moreover have "encodable K ?srt" using assms(2) by (simp add: encodable_def)
  moreover have "leaf_size K ?srt = leaf_size K (Records inp)"
    unfolding leaf_size_def by (metis mset_map mset_sort sum_mset_sum_list)
  ultimately have "packLeaves K ?srt (PieceSize inp) = Inl ErrPayloadUint16"
    using assms(5) by (simp add: packLeaves_def leaf_size_def)
  moreover have "check_keywords (Records inp) = None"
    using assms(2) by (auto simp: check_keywords_mset EncodeRecord_def split: if_splits)
  ultimately show ?thesis using assms(1,3,4) by (simp add: BuildBTree_def MinPieceSize_def Let_def)
qed

theorem large_pieces_never_split_witness:
  "BuildBTree toy_crypto toy_codec 0 (toy_input\<lparr>Records := replicate 500 toy_record, PieceSize := 1048576\<rparr>) =
     Some (Inl ErrPayloadUint16)"
proof (rule large_pieces_never_split)
  have w: "wf_record toy_record" "Kw toy_record = [0x75, 0x62]" by (simp_all add: wf_record_def toy_record_def)
  then obtain b where b: "EncodeRecord toy_codec toy_record = Inr b" "length b = 134"
    using toy_EncodeRecord [of toy_record] by auto
  then have "134 \<le> entry_size toy_codec toy_record" by (simp add: entry_size_def leaf_entry_def)
  then show "0xFFFF < leaf_size toy_codec (Records (toy_input\<lparr>Records := replicate 500 toy_record, PieceSize := 1048576\<rparr>))"
    by (simp add: leaf_size_def map_replicate_const sum_list_replicate)
  show "\<forall>r \<in> set (Records (toy_input\<lparr>Records := replicate 500 toy_record, PieceSize := 1048576\<rparr>)).
      \<exists>b. EncodeRecord toy_codec r = Inr b" using b by simp
qed (simp_all add: MaxPieceSize_def)

text \<open>The file of the example, for the reader's properties.\<close>

lemma toy_opens: "\<exists>data ps t. OpenBTree toy_crypto (BytesPageSource data ps) = Inr t"
proof -
  obtain bt where b: "BuildBTree toy_crypto toy_codec 0 toy_input = Some (Inr bt)"
    using BuildBTree_succeeds [OF toy_input_ok] by blast
  have k: "PrivKey toy_input = Some (replicate 32 7)" "length (b_PubKey toy_input) = 32"
    "signs_for toy_crypto (replicate 32 7) (b_PubKey toy_input)"
    using toy_signs by (simp_all add: toy_input_def)
  show ?thesis using BuildBTree_correct [OF b toy_codec_ok k(1,3,2) toy_input_ok(3,6)] by blast
qed

theorem find_authentic_witness:
  "\<exists>data ps t. OpenBTree toy_crypto (BytesPageSource data ps) = Inr t \<and>
     VerifyTrailerSig toy_crypto (trailer t) = None \<and> Find toy_crypto toy_codec t [0x75] \<noteq> Inl Panic"
  using toy_opens find_authentic by blast

end
