(* ===== verification/Swarm_Limits.thy ===== *)
theory Swarm_Limits
  imports Prelude Complex_Main
begin

text \<open>
  What protects a node from a peer: the misbehaviour score and its bans
  (\<^verbatim>\<open>internal/swarmsearch/misbehavior.go\<close>) and the token bucket for inbound queries
  (\<^verbatim>\<open>internal/swarmsearch/ratelimit.go\<close>).  Times are nanoseconds, the injected clock an argument;
  the zero \<open>time.Time\<close> is \<open>None\<close>.  The token counts, \<open>float64\<close> in the code, are exact rationals.
\<close>

type_synonym addr = string

section \<open>Misbehaviour\<close>

definition ScoreBadBencode :: int where "ScoreBadBencode = 20"
definition ScoreBadRecordSig :: int where "ScoreBadRecordSig = 20"
definition ScoreMalformedResult :: int where "ScoreMalformedResult = 10"
definition ScoreStaleTxID :: int where "ScoreStaleTxID = 10"
definition ScoreUnexpectedMessage :: int where "ScoreUnexpectedMessage = 10"
definition ScoreRateLimited :: int where "ScoreRateLimited = 5"
definition ScoreQueryTooBroad :: int where "ScoreQueryTooBroad = 5"
definition BanThreshold :: int where "BanThreshold = 100"
definition BanDuration :: int where "BanDuration = 24 * 3600 * 10 ^ 9"

record banEntry =
  score :: int
  bannedUntil :: "int option"

type_synonym banman = "addr \<Rightarrow> banEntry option"

definition newBanman :: banman where "newBanman = (\<lambda>_. None)"

definition ban_entry :: "banman \<Rightarrow> addr \<Rightarrow> banEntry" where
  "ban_entry b a = (case b a of None \<Rightarrow> \<lparr>score = 0, bannedUntil = None\<rparr> | Some e \<Rightarrow> e)"

definition ban_Add :: "int \<Rightarrow> banman \<Rightarrow> addr \<Rightarrow> int \<Rightarrow> bool \<times> banman" where
  "ban_Add now b a pts =
     (if pts \<le> 0 then (False, b)
      else let e = ban_entry b a; e = e\<lparr>score := score e + pts\<rparr> in
        if score e \<ge> BanThreshold \<and> bannedUntil e = None
        then (True, b(a \<mapsto> e\<lparr>bannedUntil := Some (now + BanDuration)\<rparr>))
        else (False, b(a \<mapsto> e)))"

definition IsBanned :: "int \<Rightarrow> banman \<Rightarrow> addr \<Rightarrow> bool \<times> banman" where
  "IsBanned now b a =
     (case b a of
        None \<Rightarrow> (False, b)
      | Some e \<Rightarrow>
          (case bannedUntil e of
             None \<Rightarrow> (False, b)
           | Some t \<Rightarrow> if now < t then (True, b)
                       else (False, b(a \<mapsto> e\<lparr>score := 0, bannedUntil := None\<rparr>))))"

definition Score :: "banman \<Rightarrow> addr \<Rightarrow> int" where
  "Score b a = (case b a of None \<Rightarrow> 0 | Some e \<Rightarrow> score e)"

definition Forget :: "banman \<Rightarrow> addr \<Rightarrow> banman" where
  "Forget b a =
     (case b a of
        Some e \<Rightarrow> if bannedUntil e = None then b(a := None) else b
      | None \<Rightarrow> b)"

section \<open>Rate limit\<close>

record RateLimit =
  QueriesPerSecond :: rat
  Burst :: int

definition DefaultRateLimit :: RateLimit where
  "DefaultRateLimit = \<lparr>QueriesPerSecond = 5, Burst = 10\<rparr>"

record bucket =
  tokens :: rat
  last_ns :: int

record rateLimiter =
  cfg :: RateLimit
  buckets :: "addr \<Rightarrow> bucket option"

definition newRateLimiter :: "RateLimit \<Rightarrow> rateLimiter" where
  "newRateLimiter c = \<lparr>cfg = c, buckets = (\<lambda>_. None)\<rparr>"

definition seconds :: "int \<Rightarrow> rat" where "seconds ns = of_int ns / 10 ^ 9"

definition refill :: "RateLimit \<Rightarrow> int \<Rightarrow> bucket \<Rightarrow> bucket" where
  "refill c now b =
     (let elapsed = seconds (now - last_ns b) in
      if elapsed > 0
      then let t = tokens b + elapsed * QueriesPerSecond c in
        \<lparr>tokens = (if t > of_int (Burst c) then of_int (Burst c) else t), last_ns = now\<rparr>
      else b)"

definition Allow :: "int \<Rightarrow> rateLimiter \<Rightarrow> addr \<Rightarrow> bool \<times> rateLimiter" where
  "Allow now r a =
     (if QueriesPerSecond (cfg r) \<le> 0 \<or> Burst (cfg r) \<le> 0 then (True, r)
      else
        let b = (case buckets r a of
                   None \<Rightarrow> \<lparr>tokens = of_int (Burst (cfg r)), last_ns = now\<rparr>
                 | Some b \<Rightarrow> refill (cfg r) now b)
        in if tokens b \<ge> 1
           then (True, r\<lparr>buckets := (buckets r)(a \<mapsto> b\<lparr>tokens := tokens b - 1\<rparr>)\<rparr>)
           else (False, r\<lparr>buckets := (buckets r)(a \<mapsto> b)\<rparr>))"

definition setConfig :: "rateLimiter \<Rightarrow> RateLimit \<Rightarrow> rateLimiter" where
  "setConfig r c = r\<lparr>cfg := c\<rparr>"

definition limiter_forget :: "rateLimiter \<Rightarrow> addr \<Rightarrow> rateLimiter" where
  "limiter_forget r a = r\<lparr>buckets := (buckets r)(a := None)\<rparr>"

section \<open>Sequences of calls\<close>

text \<open>Charges at given times, and the number of queries a sequence of calls admits.\<close>

primrec charges :: "addr \<Rightarrow> (int \<times> int) list \<Rightarrow> banman \<Rightarrow> banman" where
  "charges a [] b = b"
| "charges a (c # cs) b = charges a cs (snd (ban_Add (fst c) b a (snd c)))"

primrec allow_calls :: "addr \<Rightarrow> int list \<Rightarrow> rateLimiter \<Rightarrow> bool list \<times> rateLimiter" where
  "allow_calls a [] r = ([], r)"
| "allow_calls a (t # ts) r =
     (let (ok, r1) = Allow t r a; (oks, r2) = allow_calls a ts r1 in (ok # oks, r2))"

definition admitted :: "bool list \<Rightarrow> nat" where "admitted oks = length (filter (\<lambda>ok. ok) oks)"

section \<open>Lemmas\<close>

definition points :: "(int \<times> int) list \<Rightarrow> int" where
  "points cs = sum_list (map (\<lambda>c. max 0 (snd c)) cs)"

lemma points_nonneg: "0 \<le> points cs"
  by (induction cs) (simp_all add: points_def)

lemma ban_Add_entry:
  assumes "bannedUntil (ban_entry b a) = None \<longrightarrow> score (ban_entry b a) < BanThreshold"
  shows "score (ban_entry (snd (ban_Add now b a p)) a) = score (ban_entry b a) + max 0 p"
    and "bannedUntil (ban_entry (snd (ban_Add now b a p)) a) =
      (if bannedUntil (ban_entry b a) = None \<and> score (ban_entry b a) + max 0 p \<ge> BanThreshold
       then Some (now + BanDuration) else bannedUntil (ban_entry b a))"
    and "a' \<noteq> a \<Longrightarrow> snd (ban_Add now b a p) a' = b a'"
  using assms by (auto simp: ban_Add_def ban_entry_def Let_def split: option.splits)

text \<open>The score is the total charged; the ban is set by the charge that reaches the threshold.\<close>

lemma charges_entry:
  assumes "bannedUntil (ban_entry b a) = None \<longrightarrow> score (ban_entry b a) < BanThreshold"
  shows "score (ban_entry (charges a cs b) a) = score (ban_entry b a) + points cs \<and>
    (bannedUntil (ban_entry (charges a cs b) a) = None \<longleftrightarrow>
       bannedUntil (ban_entry b a) = None \<and> score (ban_entry b a) + points cs < BanThreshold) \<and>
    (\<forall>a'. a' \<noteq> a \<longrightarrow> charges a cs b a' = b a') \<and>
    (\<forall>u. bannedUntil (ban_entry (charges a cs b) a) = Some u \<longrightarrow>
       bannedUntil (ban_entry b a) = Some u \<or> (\<exists>(t, p) \<in> set cs. u = t + BanDuration))"
  using assms
proof (induction cs arbitrary: b)
  case Nil
  then show ?case by (auto simp: points_def)
next
  case (Cons c cs)
  let ?b = "snd (ban_Add (fst c) b a (snd c))"
  note e = ban_Add_entry [OF Cons.prems, where now = "fst c" and p = "snd c"]
  have inv: "bannedUntil (ban_entry ?b a) = None \<longrightarrow> score (ban_entry ?b a) < BanThreshold"
    using e(1,2) by auto
  have p: "points (c # cs) = max 0 (snd c) + points cs" by (simp add: points_def)
  show ?case
    using Cons.IH [OF inv] e points_nonneg [of cs] unfolding p by (cases c) (fastforce split: if_splits)
qed

lemma refill_tokens:
  assumes "0 < QueriesPerSecond c" and "tokens b \<le> of_int (Burst c)"
  shows "tokens (refill c now b) \<le> of_int (Burst c)" and "tokens b \<le> tokens (refill c now b)"
    and "last_ns (refill c now b) = max now (last_ns b)"
    and "tokens (refill c now b) \<le> tokens b + seconds (last_ns (refill c now b) - last_ns b) * QueriesPerSecond c"
  using assms by (auto simp: refill_def Let_def seconds_def zero_less_divide_iff)

definition bucket_ok :: "RateLimit \<Rightarrow> bucket \<Rightarrow> bool" where
  "bucket_ok c b \<longleftrightarrow> 0 \<le> tokens b \<and> tokens b \<le> of_int (Burst c)"

text \<open>One call from a bucket: what it admits is paid for by the tokens and the time that passed.\<close>

lemma Allow_step:
  assumes "0 < QueriesPerSecond (cfg r)" "0 < Burst (cfg r)" and "buckets r a = Some b" and "bucket_ok (cfg r) b"
  shows "\<exists>b'. buckets (snd (Allow t r a)) a = Some b' \<and> bucket_ok (cfg r) b' \<and> cfg (snd (Allow t r a)) = cfg r \<and>
    last_ns b' = max t (last_ns b) \<and> (1 \<le> tokens b \<longrightarrow> fst (Allow t r a)) \<and> tokens b - of_bool (fst (Allow t r a)) \<le> tokens b' \<and>
    of_bool (fst (Allow t r a)) + tokens b' \<le> tokens b + seconds (last_ns b' - last_ns b) * QueriesPerSecond (cfg r)"
proof -
  let ?b = "refill (cfg r) t b"
  note f = refill_tokens [OF assms(1), of b t]
  have "tokens b \<le> of_int (Burst (cfg r))" "0 \<le> tokens b" using assms(4) by (auto simp: bucket_ok_def)
  with f assms show ?thesis
    by (cases "1 \<le> tokens ?b") (auto simp: Allow_def Let_def bucket_ok_def)
qed

lemma seconds_add: "seconds x + seconds y = seconds (x + y)"
  by (simp add: seconds_def add_divide_distrib)

lemma allow_calls_bound:
  assumes "0 < QueriesPerSecond (cfg r)" "0 < Burst (cfg r)" and "buckets r a = Some b" and "bucket_ok (cfg r) b"
    and "\<forall>t \<in> set ts. t \<le> T" and "last_ns b \<le> T"
  shows "of_nat (admitted (fst (allow_calls a ts r))) \<le> tokens b + seconds (T - last_ns b) * QueriesPerSecond (cfg r)"
  using assms
proof (induction ts arbitrary: r b)
  case Nil
  then show ?case by (simp add: admitted_def bucket_ok_def seconds_def)
next
  case (Cons t ts)
  obtain b' where b': "buckets (snd (Allow t r a)) a = Some b'" "bucket_ok (cfg r) b'" "cfg (snd (Allow t r a)) = cfg r"
    "last_ns b' = max t (last_ns b)"
    "of_bool (fst (Allow t r a)) + tokens b' \<le> tokens b + seconds (last_ns b' - last_ns b) * QueriesPerSecond (cfg r)"
    using Allow_step [OF Cons.prems(1-4), of t] by blast
  have "of_nat (admitted (fst (allow_calls a ts (snd (Allow t r a))))) \<le>
      tokens b' + seconds (T - last_ns b') * QueriesPerSecond (cfg r)"
    using Cons.IH [of "snd (Allow t r a)" b'] b' Cons.prems by simp
  moreover have "seconds (last_ns b' - last_ns b) * QueriesPerSecond (cfg r) + seconds (T - last_ns b') * QueriesPerSecond (cfg r)
      = seconds (T - last_ns b) * QueriesPerSecond (cfg r)"
    by (simp add: seconds_add flip: distrib_right)
  moreover have "admitted (fst (allow_calls a (t # ts) r)) =
      of_bool (fst (Allow t r a)) + admitted (fst (allow_calls a ts (snd (Allow t r a))))"
    by (simp add: admitted_def case_prod_unfold Let_def)
  ultimately show ?case using b'(5) by simp
qed

lemma allow_calls_burst:
  assumes "0 < QueriesPerSecond (cfg r)" "0 < Burst (cfg r)" and "buckets r a = Some b" and "bucket_ok (cfg r) b"
    and "of_nat (length ts) \<le> tokens b"
  shows "list_all (\<lambda>ok. ok) (fst (allow_calls a ts r))"
  using assms
proof (induction ts arbitrary: r b)
  case (Cons t ts)
  obtain b' where b': "buckets (snd (Allow t r a)) a = Some b'" "bucket_ok (cfg r) b'" "cfg (snd (Allow t r a)) = cfg r"
    "1 \<le> tokens b \<longrightarrow> fst (Allow t r a)" "tokens b - of_bool (fst (Allow t r a)) \<le> tokens b'"
    using Allow_step [OF Cons.prems(1-4), of t] by blast
  have "fst (Allow t r a)" using b'(4) Cons.prems(5) by simp
  moreover have "list_all (\<lambda>ok. ok) (fst (allow_calls a ts (snd (Allow t r a))))"
    using Cons.prems b' \<open>fst (Allow t r a)\<close> by (intro Cons.IH [of _ b']) auto
  ultimately show ?case by (simp add: case_prod_unfold Let_def)
qed simp

lemma fresh_bucket:
  assumes "0 < QueriesPerSecond c" "0 < Burst c"
  shows "Allow t (newRateLimiter c) a =
    (True, (newRateLimiter c)\<lparr>buckets := [a \<mapsto> \<lparr>tokens = of_int (Burst c) - 1, last_ns = t\<rparr>]\<rparr>)"
  using assms by (simp add: Allow_def newRateLimiter_def Let_def)

section \<open>Properties\<close>

text \<open>
  Bans follow the score exactly.  From a clean slate, any list of charges bans the peer if and
  only if the positive ones sum to 100 or more, for 24 hours from one of the charges, and touches
  no other peer; while the ban holds it survives a disconnect, and once it has run out the next
  look clears the score.
\<close>

lemma ban_lifecycle:
  assumes "b a = None" and "b' = charges a cs b"
  shows "Score b' a = points cs \<and> (\<forall>a'. a' \<noteq> a \<longrightarrow> b' a' = b a') \<and>
    (points cs < BanThreshold \<longrightarrow> \<not> fst (IsBanned now b' a) \<and> Forget b' a a = None) \<and>
    (points cs \<ge> BanThreshold \<longrightarrow>
       (\<exists>(t, p) \<in> set cs.
          (fst (IsBanned now b' a) \<longleftrightarrow> now < t + BanDuration) \<and> Forget b' a = b' \<and>
          (now \<ge> t + BanDuration \<longrightarrow> Score (snd (IsBanned now b' a)) a = 0)))"
proof -
  have e0: "ban_entry b a = \<lparr>score = 0, bannedUntil = None\<rparr>" using assms(1) by (simp add: ban_entry_def)
  then have c: "bannedUntil (ban_entry b a) = None \<longrightarrow> score (ban_entry b a) < BanThreshold"
    by (simp add: BanThreshold_def)
  note ch = charges_entry [OF c, of cs, folded assms(2)]
  have s: "Score b' a = score (ban_entry b' a)" by (simp add: Score_def ban_entry_def split: option.splits)
  show ?thesis
  proof (intro conjI impI allI)
    show "Score b' a = points cs" using ch e0 s by simp
    show "b' a' = b a'" if "a' \<noteq> a" for a' using ch that by blast
    show "\<not> fst (IsBanned now b' a)" "Forget b' a a = None" if "points cs < BanThreshold"
    proof -
      have "bannedUntil (ban_entry b' a) = None" using ch e0 that by simp
      then show "\<not> fst (IsBanned now b' a)" "Forget b' a a = None"
        by (auto simp: IsBanned_def Forget_def ban_entry_def split: option.splits)
    qed
    assume "points cs \<ge> BanThreshold"
    then have "bannedUntil (ban_entry b' a) \<noteq> None" using ch e0 by simp
    then obtain u where u: "bannedUntil (ban_entry b' a) = Some u" by blast
    then obtain t p where t: "(t, p) \<in> set cs" "u = t + BanDuration" using ch e0 by auto
    obtain en where "b' a = Some en" "bannedUntil en = Some u"
      using u by (auto simp: ban_entry_def split: option.splits)
    with t show "\<exists>(t, p) \<in> set cs. (fst (IsBanned now b' a) \<longleftrightarrow> now < t + BanDuration) \<and> Forget b' a = b' \<and>
        (now \<ge> t + BanDuration \<longrightarrow> Score (snd (IsBanned now b' a)) a = 0)"
      by (intro bexI [of _ "(t, p)"]) (auto simp: IsBanned_def Forget_def Score_def)
  qed
qed

theorem ban_lifecycle_witness:
  "newBanman ''p'' = None \<and> points [(0, 60), (5, 40)] = 100 \<and>
   Score (charges ''p'' [(0, 60), (5, 40)] newBanman) ''p'' = 100 \<and>
   fst (IsBanned 7 (charges ''p'' [(0, 60), (5, 40)] newBanman) ''p'')"
proof -
  have n: "newBanman ''p'' = None" by (simp add: newBanman_def)
  have p: "points [(0, 60), (5, 40)] = 100" by (simp add: points_def)
  show ?thesis using n p ban_lifecycle [where b = newBanman and a = "''p''" and cs = "[(0, 60), (5, 40)]" and now = 7]
    by (auto simp: BanThreshold_def BanDuration_def)
qed

text \<open>
  The token bucket.  From a fresh bucket the first \<open>Burst\<close> queries are admitted whenever they
  come, and any sequence of queries between \<open>t\<close> and \<open>T\<close> has at most \<open>Burst\<close> plus rate times elapsed
  seconds of them admitted.
\<close>

lemma rate_limit_bound:
  assumes "0 < QueriesPerSecond c" and "0 < Burst c" and "\<forall>x \<in> set ts. t \<le> x \<and> x \<le> T" and "t \<le> T"
  shows "of_nat (admitted (fst (allow_calls a (t # ts) (newRateLimiter c)))) \<le>
      of_int (Burst c) + seconds (T - t) * QueriesPerSecond c \<and>
    (int (length (t # ts)) \<le> Burst c \<longrightarrow> list_all (\<lambda>ok. ok) (fst (allow_calls a (t # ts) (newRateLimiter c))))"
proof -
  let ?r = "(newRateLimiter c)\<lparr>buckets := [a \<mapsto> \<lparr>tokens = of_int (Burst c) - 1, last_ns = t\<rparr>]\<rparr>"
  let ?b = "\<lparr>tokens = of_int (Burst c) - 1 :: rat, last_ns = t\<rparr>"
  have r: "cfg ?r = c" "buckets ?r a = Some ?b" by (simp_all add: newRateLimiter_def)
  have ok: "bucket_ok c ?b" using assms(2) by (simp add: bucket_ok_def)
  have "of_nat (admitted (fst (allow_calls a ts ?r))) \<le> tokens ?b + seconds (T - last_ns ?b) * QueriesPerSecond (cfg ?r)"
    using assms r ok by (intro allow_calls_bound) auto
  moreover have "list_all (\<lambda>ok. ok) (fst (allow_calls a ts ?r))" if "int (length (t # ts)) \<le> Burst c"
  proof -
    have "of_int (int (length ts) + 1) \<le> (of_int (Burst c) :: rat)" using that by (subst of_int_le_iff) simp
    then show ?thesis using assms r ok by (intro allow_calls_burst [of _ a ?b]) auto
  qed
  moreover have "fst (allow_calls a (t # ts) (newRateLimiter c)) = True # fst (allow_calls a ts ?r)"
    by (simp add: fresh_bucket [OF assms(1,2)] case_prod_unfold Let_def)
  ultimately show ?thesis by (simp add: admitted_def r(1))
qed

theorem rate_limit_bound_witness:
  "of_nat (admitted (fst (allow_calls ''p'' [0, 10, 20] (newRateLimiter DefaultRateLimit)))) \<le>
     of_int 10 + seconds (20 - 0) * (5 :: rat) \<and>
   list_all (\<lambda>ok. ok) (fst (allow_calls ''p'' [0, 10, 20] (newRateLimiter DefaultRateLimit)))"
  using rate_limit_bound [of DefaultRateLimit "[10, 20]" 0 20 "''p''"] by (simp add: DefaultRateLimit_def)

end
