(* ===== verification/Riblt.thy ===== *)
theory Riblt
  imports Prelude
begin

text \<open>
  The rateless IBLT set reconciliation of \<^verbatim>\<open>contracts/riblt/riblt.go\<close>: element keys, the
  membership cycle, the encoder's coded symbols and the decoder's peeling loop.  Counts are
  32-bit words (Go's \<open>int32\<close> wraps), keys 64-bit words, element IDs 32-byte arrays.
  The decoder's map \<open>decoded\<close> is an association list in insertion order; Go iterates it in an
  unspecified order, so the lemmas about \<open>Added\<close> and \<open>Removed\<close> speak of sets.
\<close>

section \<open>Elements and coded symbols\<close>

type_synonym RIBLTElement = bytes

record Symbol =
  Count :: "32 word"
  KeyXOR :: u64
  DataXOR :: bytes

definition zero32 :: bytes where
  "zero32 = replicate 32 0"

definition zeroSymbol :: Symbol where
  "zeroSymbol = \<lparr>Count = 0, KeyXOR = 0, DataXOR = zero32\<rparr>"

definition Key :: "RIBLTElement \<Rightarrow> u64" where
  "Key e = fold (\<lambda>b h. (h XOR ucast b) * 0x100000001B3) e 0xCBF29CE484222325"

definition contributes :: "u64 \<Rightarrow> u64 \<Rightarrow> bool" where
  "contributes key symbolIdx =
     (let z = key + symbolIdx * 0x9E3779B97F4A7C15;
          z = (z XOR drop_bit 30 z) * 0xBF58476D1CE4E5B9;
          z = (z XOR drop_bit 27 z) * 0x94D049BB133111EB;
          z = z XOR drop_bit 31 z;
          level = 1 + symbolIdx mod 12
      in z mod push_bit (unat level) 1 = 0)"

text \<open>The body of \<open>NextSymbol\<close> and of \<open>effectiveLocalSymbol\<close>'s closure \<open>add\<close>: fold one
  element into a symbol with the given sign.\<close>

definition add_elem :: "u64 \<Rightarrow> 32 word \<Rightarrow> RIBLTElement \<Rightarrow> Symbol \<Rightarrow> Symbol" where
  "add_elem idx sign el s =
     (if contributes (Key el) idx
      then \<lparr>Count = Count s + sign, KeyXOR = KeyXOR s XOR Key el,
             DataXOR = xor_bytes (DataXOR s) el\<rparr>
      else s)"

section \<open>Encoder\<close>

record Encoder =
  elems :: "RIBLTElement list"
  nextIdx :: u64

definition newEncoder :: Encoder where
  "newEncoder = \<lparr>elems = [], nextIdx = 0\<rparr>"

definition AddElement :: "Encoder \<Rightarrow> RIBLTElement \<Rightarrow> Encoder" where
  "AddElement e el = e\<lparr>elems := elems e @ [el]\<rparr>"

definition Len :: "Encoder \<Rightarrow> nat" where
  "Len e = length (elems e)"

definition NextSymbol :: "Encoder \<Rightarrow> Symbol \<times> Encoder" where
  "NextSymbol e =
     (fold (add_elem (nextIdx e) 1) (elems e) zeroSymbol, e\<lparr>nextIdx := nextIdx e + 1\<rparr>)"

text \<open>\<open>n\<close> calls of \<open>NextSymbol\<close>, as \<open>ProduceSymbols\<close> makes them.\<close>

primrec NextSymbols :: "nat \<Rightarrow> Encoder \<Rightarrow> Symbol list \<times> Encoder" where
  "NextSymbols 0 e = ([], e)"
| "NextSymbols (Suc n) e =
     (let (s, e1) = NextSymbol e; (ss, e2) = NextSymbols n e1 in (s # ss, e2))"

section \<open>Decoder\<close>

record Decoder =
  local :: "RIBLTElement list"
  diffSymbols :: "Symbol list"
  decoded :: "(RIBLTElement \<times> int) list"
  syntheticAdded :: "RIBLTElement list"
  syntheticRemoved :: "RIBLTElement list"

definition NewDecoder :: Decoder where
  "NewDecoder = \<lparr>local = [], diffSymbols = [], decoded = [],
                 syntheticAdded = [], syntheticRemoved = []\<rparr>"

definition AddLocalElement :: "Decoder \<Rightarrow> RIBLTElement \<Rightarrow> Decoder" where
  "AddLocalElement d el = d\<lparr>local := local d @ [el]\<rparr>"

definition SymbolsIn :: "Decoder \<Rightarrow> nat" where
  "SymbolsIn d = length (diffSymbols d)"

definition effectiveLocalSymbol :: "Decoder \<Rightarrow> u64 \<Rightarrow> Symbol" where
  "effectiveLocalSymbol d idx =
     fold (add_elem idx (- 1)) (syntheticRemoved d)
       (fold (add_elem idx 1) (syntheticAdded d)
         (fold (add_elem idx 1) (local d) zeroSymbol))"

definition sub_symbol :: "Symbol \<Rightarrow> Symbol \<Rightarrow> Symbol" where
  "sub_symbol s ls = \<lparr>Count = Count s - Count ls, KeyXOR = KeyXOR s XOR KeyXOR ls,
                      DataXOR = xor_bytes (DataXOR s) (DataXOR ls)\<rparr>"

text \<open>
  One scan of \<open>peel\<close>: the first symbol that looks pure, passes the key gate and holds an
  element not yet decoded.  The direction is the symbol's count, \<open>1\<close> or \<open>-1\<close>.
\<close>

fun find_pure :: "(RIBLTElement \<times> int) list \<Rightarrow> Symbol list \<Rightarrow> (RIBLTElement \<times> int) option" where
  "find_pure dec [] = None"
| "find_pure dec (s # ss) =
     (if Count s \<noteq> 1 \<and> Count s \<noteq> - 1 then find_pure dec ss
      else let e = copy_array 32 (DataXOR s) in
        if Key e \<noteq> KeyXOR s then find_pure dec ss
        else if e \<in> fst ` set dec then find_pure dec ss
        else Some (e, sint (Count s)))"

text \<open>\<open>d.diffSymbols[k]\<close> with \<open>e\<close> subtracted wherever \<open>e\<close> contributes.\<close>

definition subtract_at :: "RIBLTElement \<Rightarrow> int \<Rightarrow> nat \<Rightarrow> Symbol \<Rightarrow> Symbol" where
  "subtract_at e direction k s = add_elem (of_nat k) (- of_int direction) e s"

definition peel_step :: "Decoder \<Rightarrow> RIBLTElement \<Rightarrow> int \<Rightarrow> Decoder" where
  "peel_step d e direction =
     (let d1 = d\<lparr>decoded := decoded d @ [(e, direction)]\<rparr>;
          d2 = (if direction > 0 then d1\<lparr>syntheticAdded := syntheticAdded d1 @ [e]\<rparr>
                else d1\<lparr>syntheticRemoved := syntheticRemoved d1 @ [e]\<rparr>)
      in d2\<lparr>diffSymbols := map (\<lambda>(k, s). subtract_at e direction k s)
                             (enumerate 0 (diffSymbols d2))\<rparr>)"

lemma find_pure_Some:
  assumes "find_pure dec ss = Some (e, dir)"
  shows "length e = 32" "e \<notin> fst ` set dec" "dir = 1 \<or> dir = - 1"
    "\<exists>s \<in> set ss. Count s = of_int dir \<and> KeyXOR s = Key e \<and> e = copy_array 32 (DataXOR s)"
  using assms by (induction ss) (auto simp: Let_def split: if_splits)

text \<open>Each step decodes a fresh 32-byte array, of which there are finitely many.\<close>

definition undecoded :: "Decoder \<Rightarrow> RIBLTElement set" where
  "undecoded d = {e. length e = 32} - fst ` set (decoded d)"

lemma decoded_peel_step [simp]: "decoded (peel_step d e dir) = decoded d @ [(e, dir)]"
  by (simp add: peel_step_def Let_def)

function peel :: "Decoder \<Rightarrow> Decoder" where
  "peel d = (case find_pure (decoded d) (diffSymbols d) of
               None \<Rightarrow> d
             | Some (e, direction) \<Rightarrow> peel (peel_step d e direction))"
  by pat_completeness auto
termination
proof (relation "measure (\<lambda>d. card (undecoded d))")
  fix d :: Decoder and x e dir
  assume "find_pure (decoded d) (diffSymbols d) = Some x" and x: "(e, dir) = x"
  then have "e \<in> undecoded d" and "undecoded (peel_step d e dir) = undecoded d - {e}"
    by (auto simp: undecoded_def dest: find_pure_Some)
  moreover have "finite (undecoded d)"
    by (simp add: undecoded_def finite_arrays)
  ultimately show "(peel_step d e dir, d) \<in> measure (\<lambda>d. card (undecoded d))"
    by (metis card_Diff1_less in_measure)
qed simp

declare peel.simps [simp del]

definition AddRemoteSymbol :: "Decoder \<Rightarrow> Symbol \<Rightarrow> Decoder" where
  "AddRemoteSymbol d s =
     (let idx = of_nat (length (diffSymbols d));
          diff = sub_symbol s (effectiveLocalSymbol d idx)
      in peel (d\<lparr>diffSymbols := diffSymbols d @ [diff]\<rparr>))"

definition Converged :: "Decoder \<Rightarrow> bool" where
  "Converged d =
     list_all (\<lambda>s. \<not> (Count s \<noteq> 0 \<or> KeyXOR s \<noteq> 0 \<or> DataXOR s \<noteq> zero32)) (diffSymbols d)"

definition Added :: "Decoder \<Rightarrow> RIBLTElement list" where
  "Added d = map fst (filter (\<lambda>(e, dir). dir > 0) (decoded d))"

definition Removed :: "Decoder \<Rightarrow> RIBLTElement list" where
  "Removed d = map fst (filter (\<lambda>(e, dir). dir < 0) (decoded d))"

section \<open>Signed sums of elements\<close>

text \<open>
  Every symbol the encoder or decoder holds is the zero symbol with a list of signed elements
  folded in.  Folding commutes, so only the multiset of signed elements matters, and an
  element folded in with both signs cancels.
\<close>

definition fold_signed :: "u64 \<Rightarrow> (32 word \<times> RIBLTElement) list \<Rightarrow> Symbol \<Rightarrow> Symbol" where
  "fold_signed idx ops s = fold (\<lambda>(c, e). add_elem idx c e) ops s"

definition with_sign :: "32 word \<Rightarrow> RIBLTElement list \<Rightarrow> (32 word \<times> RIBLTElement) list" where
  "with_sign c es = map (Pair c) es"

definition wf_symbol :: "Symbol \<Rightarrow> bool" where
  "wf_symbol s \<longleftrightarrow> length (DataXOR s) = 32"

definition wf_elems :: "RIBLTElement list \<Rightarrow> bool" where
  "wf_elems es \<longleftrightarrow> (\<forall>e \<in> set es. length e = 32)"

lemma add_elem_commute:
  "add_elem i c a (add_elem i c' b s) = add_elem i c' b (add_elem i c a s)"
  by (simp add: add_elem_def xor_bytes_ac xor.commute xor.left_commute add.commute add.left_commute)

lemma fold_signed_append: "fold_signed i (xs @ ys) s = fold_signed i ys (fold_signed i xs s)"
  by (simp add: fold_signed_def)

lemma fold_signed_perm: "mset xs = mset ys \<Longrightarrow> fold_signed i xs s = fold_signed i ys s"
  unfolding fold_signed_def
  by (rule fun_cong [OF fold_multiset_equiv]) (auto simp: fun_eq_iff add_elem_commute)

lemma fold_add_elem: "fold (add_elem i c) es s = fold_signed i (with_sign c es) s"
  by (simp add: fold_signed_def with_sign_def fold_map comp_def)

lemma add_elem_cancel:
  "wf_symbol s \<Longrightarrow> length e = 32 \<Longrightarrow> add_elem i (- c) e (add_elem i c e s) = s"
  by (simp add: add_elem_def wf_symbol_def xor_bytes_assoc xor_bytes_self xor_bytes_zero xor.assoc)

lemma wf_add_elem: "wf_symbol s \<Longrightarrow> length e = 32 \<Longrightarrow> wf_symbol (add_elem i c e s)"
  by (simp add: add_elem_def wf_symbol_def)

lemma wf_zeroSymbol [simp]: "wf_symbol zeroSymbol"
  by (simp add: wf_symbol_def zeroSymbol_def zero32_def)

lemma wf_fold_signed:
  "wf_symbol s \<Longrightarrow> \<forall>(c, e) \<in> set ops. length e = 32 \<Longrightarrow> wf_symbol (fold_signed i ops s)"
  by (induction ops arbitrary: s) (auto simp: fold_signed_def wf_add_elem)

lemma fold_signed_cancel:
  assumes "wf_symbol s" and "wf_elems es"
  shows "fold_signed i (with_sign c es @ with_sign (- c) es) s = s"
  using assms
proof (induction es arbitrary: s)
  case Nil
  then show ?case by (simp add: fold_signed_def with_sign_def)
next
  case (Cons e es)
  have "fold_signed i (with_sign c (e # es) @ with_sign (- c) (e # es)) s =
        fold_signed i ((with_sign c es @ with_sign (- c) es) @ [(c, e), (- c, e)]) s"
    by (rule fold_signed_perm) (simp add: with_sign_def)
  also have "\<dots> = add_elem i (- c) e (add_elem i c e s)"
    using Cons by (simp add: fold_signed_append wf_elems_def) (simp add: fold_signed_def)
  also have "\<dots> = s"
    using Cons.prems by (simp add: add_elem_cancel wf_elems_def)
  finally show ?case .
qed

lemma sub_symbol_zero: "wf_symbol s \<Longrightarrow> sub_symbol s zeroSymbol = s"
  by (simp add: sub_symbol_def zeroSymbol_def zero32_def wf_symbol_def xor_bytes_zero)

lemma sub_symbol_add_elem: "sub_symbol s (add_elem i c e ls) = add_elem i (- c) e (sub_symbol s ls)"
  by (simp add: sub_symbol_def add_elem_def xor_bytes_assoc xor.assoc)

lemma sub_symbol_fold_signed:
  "sub_symbol s (fold_signed i ops ls) =
     fold_signed i (map (\<lambda>(c, e). (- c, e)) ops) (sub_symbol s ls)"
  by (induction ops arbitrary: ls)
    (auto simp: fold_signed_def sub_symbol_add_elem split: prod.splits)

lemma sub_symbol_eq_zero:
  assumes "wf_symbol s" and "wf_symbol t"
  shows "sub_symbol s t = zeroSymbol \<longleftrightarrow> s = t"
proof -
  have "xor_bytes (DataXOR s) (DataXOR t) = replicate 32 0 \<longleftrightarrow> DataXOR s = DataXOR t"
    using assms xor_bytes_eq_zero [of "DataXOR s" "DataXOR t"] by (simp add: wf_symbol_def)
  then show ?thesis
    by (cases s, cases t) (auto simp: sub_symbol_def zeroSymbol_def zero32_def xor_word_eq_zero_iff)
qed

section \<open>What the decoder's state means\<close>

lemma effectiveLocalSymbol_signed:
  "effectiveLocalSymbol d i =
     fold_signed i (with_sign 1 (local d @ syntheticAdded d) @ with_sign (- 1) (syntheticRemoved d))
       zeroSymbol"
  by (simp add: effectiveLocalSymbol_def fold_add_elem fold_signed_append with_sign_def)

lemma effectiveLocalSymbol_peel_step:
  assumes "dir = 1 \<or> dir = - 1"
  shows "effectiveLocalSymbol (peel_step d e dir) i =
     add_elem i (of_int dir) e (effectiveLocalSymbol d i)"
proof -
  have "fold_signed i (with_sign 1 (local d @ syntheticAdded d @ [e]) @
            with_sign (- 1) (syntheticRemoved d)) zeroSymbol =
        fold_signed i ((with_sign 1 (local d @ syntheticAdded d) @
            with_sign (- 1) (syntheticRemoved d)) @ [(1, e)]) zeroSymbol"
    by (rule fold_signed_perm) (simp add: with_sign_def)
  with assms show ?thesis
    by (auto simp: effectiveLocalSymbol_signed peel_step_def Let_def fold_signed_append with_sign_def
        fold_signed_def)
qed

text \<open>\<open>tracks d S\<close>: after the symbols \<open>S\<close>, every residual is the received symbol minus the
  local symbol recomputed over what has been decoded.\<close>

definition tracks :: "Decoder \<Rightarrow> Symbol list \<Rightarrow> bool" where
  "tracks d S \<longleftrightarrow> length (diffSymbols d) = length S \<and>
     (\<forall>k < length S. diffSymbols d ! k = sub_symbol (S ! k) (effectiveLocalSymbol d (of_nat k)))"

definition decoded_ok :: "Decoder \<Rightarrow> bool" where
  "decoded_ok d \<longleftrightarrow> distinct (map fst (decoded d)) \<and>
     (\<forall>(e, dir) \<in> set (decoded d). length e = 32 \<and> (dir = 1 \<or> dir = - 1)) \<and>
     syntheticAdded d = Added d \<and> syntheticRemoved d = Removed d"

lemma diffSymbols_peel_step:
  "length (diffSymbols (peel_step d e dir)) = length (diffSymbols d)"
  "k < length (diffSymbols d) \<Longrightarrow>
     diffSymbols (peel_step d e dir) ! k = subtract_at e dir k (diffSymbols d ! k)"
  by (simp_all add: peel_step_def Let_def nth_enumerate_eq)

lemma tracks_peel_step:
  assumes "tracks d S" and "dir = 1 \<or> dir = - 1"
  shows "tracks (peel_step d e dir) S"
  using assms
  by (auto simp: tracks_def effectiveLocalSymbol_peel_step sub_symbol_add_elem subtract_at_def
      diffSymbols_peel_step)

lemma decoded_ok_peel_step:
  assumes "decoded_ok d" and "find_pure (decoded d) (diffSymbols d) = Some (e, dir)"
  shows "decoded_ok (peel_step d e dir)"
  using assms(1) find_pure_Some [OF assms(2)]
  by (auto simp: decoded_ok_def peel_step_def Let_def Added_def Removed_def)

lemma local_peel_step [simp]: "local (peel_step d e dir) = local d"
  by (simp add: peel_step_def Let_def)

text \<open>Whatever every peeling step keeps, the whole loop keeps.\<close>

lemma peel_invariant:
  assumes "Q d"
    and "\<And>d e dir. Q d \<Longrightarrow> find_pure (decoded d) (diffSymbols d) = Some (e, dir) \<Longrightarrow>
           Q (peel_step d e dir)"
  shows "Q (peel d)"
  using assms(1)
proof (induction d rule: peel.induct)
  case (1 d)
  show ?case
  proof (cases "find_pure (decoded d) (diffSymbols d)")
    case None
    with 1 show ?thesis by (simp add: peel.simps)
  next
    case (Some p)
    obtain e dir where p: "p = (e, dir)" by (cases p)
    from assms(2) [OF 1(2)] Some p have "Q (peel_step d e dir)" by simp
    with 1(1) Some p have "Q (peel (peel_step d e dir))" by blast
    with Some p show ?thesis by (simp add: peel.simps [of d])
  qed
qed

lemma peel_stops: "find_pure (decoded (peel d)) (diffSymbols (peel d)) = None"
proof (induction d rule: peel.induct)
  case (1 d)
  then show ?case
    by (subst (1 2) peel.simps) (auto split: option.splits)
qed

definition dec_inv :: "RIBLTElement list \<Rightarrow> Symbol list \<Rightarrow> Decoder \<Rightarrow> bool" where
  "dec_inv L S d \<longleftrightarrow> local d = L \<and> tracks d S \<and> decoded_ok d"

lemma dec_inv_peel: "dec_inv L S d \<Longrightarrow> dec_inv L S (peel d)"
  by (rule peel_invariant)
    (auto simp: dec_inv_def tracks_peel_step decoded_ok_peel_step dest: find_pure_Some)

text \<open>\<open>AddRemoteSymbol\<close> before it peels: the new residual appended.\<close>

definition extend :: "Decoder \<Rightarrow> Symbol \<Rightarrow> Decoder" where
  "extend d s = d\<lparr>diffSymbols := diffSymbols d @
     [sub_symbol s (effectiveLocalSymbol d (of_nat (length (diffSymbols d))))]\<rparr>"

lemma AddRemoteSymbol_extend: "AddRemoteSymbol d s = peel (extend d s)"
  by (simp add: AddRemoteSymbol_def extend_def Let_def)

lemma dec_inv_extend: "dec_inv L S d \<Longrightarrow> dec_inv L (S @ [s]) (extend d s)"
proof -
  have "effectiveLocalSymbol (extend d s) i = effectiveLocalSymbol d i" for i
    by (simp add: effectiveLocalSymbol_def extend_def)
  then show "dec_inv L S d \<Longrightarrow> dec_inv L (S @ [s]) (extend d s)"
    by (auto simp: extend_def dec_inv_def tracks_def decoded_ok_def Added_def Removed_def
        nth_append less_Suc_eq)
qed

lemma dec_inv_AddRemoteSymbol: "dec_inv L S d \<Longrightarrow> dec_inv L (S @ [s]) (AddRemoteSymbol d s)"
  by (simp add: AddRemoteSymbol_extend dec_inv_extend dec_inv_peel)

text \<open>A whole run: seed the decoder with the local elements, then apply the symbols in order.\<close>

definition runDecoder :: "RIBLTElement list \<Rightarrow> Symbol list \<Rightarrow> Decoder" where
  "runDecoder L S = fold (\<lambda>s d. AddRemoteSymbol d s) S (foldl AddLocalElement NewDecoder L)"

lemma AddLocalElements: "foldl AddLocalElement d L = d\<lparr>local := local d @ L\<rparr>"
  by (induction L arbitrary: d) (simp_all add: AddLocalElement_def)

lemma runDecoder_Nil: "runDecoder L [] = NewDecoder\<lparr>local := L\<rparr>"
  by (simp add: runDecoder_def AddLocalElements NewDecoder_def)

lemma runDecoder_snoc: "runDecoder L (S @ [s]) = AddRemoteSymbol (runDecoder L S) s"
  by (simp add: runDecoder_def)

lemma dec_inv_runDecoder: "dec_inv L S (runDecoder L S)"
proof (induction S rule: rev_induct)
  case Nil
  show ?case
    by (simp add: runDecoder_Nil dec_inv_def tracks_def decoded_ok_def NewDecoder_def
        Added_def Removed_def)
next
  case (snoc s S)
  then show ?case by (simp add: runDecoder_snoc dec_inv_AddRemoteSymbol)
qed

lemma runDecoder_stops:
  "find_pure (decoded (runDecoder L S)) (diffSymbols (runDecoder L S)) = None"
proof (cases S rule: rev_cases)
  case Nil
  then show ?thesis by (simp add: runDecoder_Nil NewDecoder_def)
next
  case (snoc S' s)
  then show ?thesis by (simp add: runDecoder_snoc AddRemoteSymbol_extend peel_stops)
qed

text \<open>The coded symbol number \<open>idx\<close> of the elements \<open>pos\<close> with sign plus and \<open>neg\<close> with minus.\<close>

definition signed_symbol :: "RIBLTElement list \<Rightarrow> RIBLTElement list \<Rightarrow> u64 \<Rightarrow> Symbol" where
  "signed_symbol pos neg idx = fold_signed idx (with_sign 1 pos @ with_sign (- 1) neg) zeroSymbol"

lemma wf_signed_symbol: "wf_elems pos \<Longrightarrow> wf_elems neg \<Longrightarrow> wf_symbol (signed_symbol pos neg i)"
  unfolding signed_symbol_def by (rule wf_fold_signed) (auto simp: with_sign_def wf_elems_def)

lemma decoded_ok_wf:
  assumes "decoded_ok d"
  shows "wf_elems (Added d)" "wf_elems (Removed d)" "distinct (Added d)" "distinct (Removed d)"
    "set (Added d) \<inter> set (Removed d) = {}"
    "fst ` set (decoded d) = set (Added d) \<union> set (Removed d)"
proof -
  have w: "\<forall>(e, dir) \<in> set (decoded d). length e = 32 \<and> (dir = 1 \<or> dir = - 1)"
    and dist: "distinct (map fst (decoded d))"
    using assms by (auto simp: decoded_ok_def)
  show "wf_elems (Added d)" "wf_elems (Removed d)"
    using w by (auto simp: wf_elems_def Added_def Removed_def)
  show "distinct (Added d)" "distinct (Removed d)"
    using dist by (auto simp: Added_def Removed_def distinct_map inj_on_def)
  show "set (Added d) \<inter> set (Removed d) = {}"
    using dist by (fastforce simp: Added_def Removed_def dest: eq_key_imp_eq_value)
  show "fst ` set (decoded d) = set (Added d) \<union> set (Removed d)"
    using w by (force simp: Added_def Removed_def)
qed

lemma decoder_effective:
  "dec_inv L S d \<Longrightarrow> effectiveLocalSymbol d i = signed_symbol (L @ Added d) (Removed d) i"
  by (simp add: dec_inv_def decoded_ok_def effectiveLocalSymbol_signed signed_symbol_def)

lemma Converged_iff: "Converged d \<longleftrightarrow> (\<forall>s \<in> set (diffSymbols d). s = zeroSymbol)"
proof -
  have "\<not> (Count s \<noteq> 0 \<or> KeyXOR s \<noteq> 0 \<or> DataXOR s \<noteq> zero32) \<longleftrightarrow> s = zeroSymbol" for s :: Symbol
    by (cases s) (auto simp: zeroSymbol_def)
  then show ?thesis by (simp add: Converged_def list_all_iff)
qed

section \<open>Reconciling with an honest encoder\<close>

text \<open>The first \<open>n\<close> symbols of an encoder over the elements \<open>R\<close>.\<close>

definition encoderStream :: "RIBLTElement list \<Rightarrow> nat \<Rightarrow> Symbol list" where
  "encoderStream R n = fst (NextSymbols n (foldl AddElement newEncoder R))"

lemma AddElements: "foldl AddElement e R = e\<lparr>elems := elems e @ R\<rparr>"
  by (induction R arbitrary: e) (simp_all add: AddElement_def)

lemma NextSymbols_eq:
  "NextSymbols n e =
     (map (\<lambda>k. signed_symbol (elems e) [] (nextIdx e + of_nat k)) [0..<n],
      e\<lparr>nextIdx := nextIdx e + of_nat n\<rparr>)"
proof (induction n arbitrary: e)
  case 0
  show ?case by simp
next
  case (Suc n)
  have "map (\<lambda>k. signed_symbol (elems e) [] (nextIdx e + of_nat k)) [0..<Suc n] =
        signed_symbol (elems e) [] (nextIdx e) #
        map (\<lambda>k. signed_symbol (elems e) [] (nextIdx e + 1 + of_nat k)) [0..<n]"
    by (simp add: upt_conv_Cons map_Suc_upt [symmetric] del: upt_Suc) (simp add: algebra_simps)
  then show ?case
    by (simp add: Suc NextSymbol_def Let_def fold_add_elem signed_symbol_def with_sign_def
        algebra_simps del: upt_Suc)
qed

lemma encoderStream_eq: "encoderStream R n = map (\<lambda>k. signed_symbol R [] (of_nat k)) [0..<n]"
  by (simp add: encoderStream_def AddElements NextSymbols_eq newEncoder_def)

text \<open>The differences a decoder still has to find.\<close>

definition remaining :: "RIBLTElement list \<Rightarrow> RIBLTElement list \<Rightarrow> RIBLTElement list \<Rightarrow> RIBLTElement list"
  where "remaining R L found = filter (\<lambda>x. x \<notin> set L \<and> x \<notin> set found) R"

lemma mset_remaining:
  assumes "distinct R" and "distinct found" and "set found \<subseteq> set R - set L"
  shows "mset R = mset (filter (\<lambda>x. x \<in> set L) R) + mset (remaining R L found) + mset found"
proof -
  have "distinct (filter (\<lambda>x. x \<in> set L) R @ remaining R L found @ found)"
    and "set R = set (filter (\<lambda>x. x \<in> set L) R @ remaining R L found @ found)"
    using assms by (auto simp: remaining_def)
  with assms(1) have "mset R = mset (filter (\<lambda>x. x \<in> set L) R @ remaining R L found @ found)"
    by (simp only: set_eq_iff_mset_eq_distinct)
  then show ?thesis by (simp del: mset_filter)
qed

definition sound :: "RIBLTElement list \<Rightarrow> RIBLTElement list \<Rightarrow> Decoder \<Rightarrow> bool" where
  "sound R L d \<longleftrightarrow> set (Added d) \<subseteq> set R - set L \<and> set (Removed d) \<subseteq> set L - set R"

lemma residual_symbol:
  assumes inv: "dec_inv L (encoderStream R n) d" and snd: "sound R L d"
    and "distinct R" "distinct L" "wf_elems R" "wf_elems L" and "k < n"
  shows "diffSymbols d ! k =
    signed_symbol (remaining R L (Added d)) (remaining L R (Removed d)) (of_nat k)"
proof -
  let ?i = "of_nat k :: u64"
  define C where "C = filter (\<lambda>x. x \<in> set L) R"
  let ?X = "C @ Added d @ Removed d"
  let ?rest = "with_sign 1 (remaining R L (Added d)) @ with_sign (- 1) (remaining L R (Removed d))"
  from inv have ok: "decoded_ok d" by (simp add: dec_inv_def)
  note dec = decoded_ok_wf [OF ok]
  have mR: "mset R = mset C + mset (remaining R L (Added d)) + mset (Added d)"
    unfolding C_def using assms dec by (intro mset_remaining) (auto simp: sound_def)
  have "mset L = mset (filter (\<lambda>x. x \<in> set R) L) + mset (remaining L R (Removed d)) + mset (Removed d)"
    using assms dec by (intro mset_remaining) (auto simp: sound_def)
  moreover have "mset (filter (\<lambda>x. x \<in> set R) L) = mset C"
    unfolding C_def using assms by (intro set_eq_iff_mset_eq_distinct [THEN iffD1]) auto
  ultimately have mL: "mset L = mset C + mset (remaining L R (Removed d)) + mset (Removed d)"
    by simp
  have "diffSymbols d ! k =
      sub_symbol (signed_symbol R [] ?i) (signed_symbol (L @ Added d) (Removed d) ?i)"
    using inv \<open>k < n\<close>
    by (auto simp: dec_inv_def tracks_def encoderStream_eq decoder_effective [OF inv])
  also have "\<dots> = fold_signed ?i (with_sign 1 R @ with_sign (- 1) (L @ Added d) @ with_sign 1 (Removed d)) zeroSymbol"
    by (subst (2) signed_symbol_def)
      (simp add: sub_symbol_fold_signed sub_symbol_zero wf_signed_symbol assms(5) wf_elems_def [of "[]"]
        with_sign_def comp_def, simp add: signed_symbol_def fold_signed_append with_sign_def)
  also have "\<dots> = fold_signed ?i (?rest @ with_sign 1 ?X @ with_sign (- 1) ?X) zeroSymbol"
  proof (rule fold_signed_perm)
    have "mset (with_sign c xs) = image_mset (Pair c) (mset xs)" for c xs
      by (simp add: with_sign_def)
    then show "mset (with_sign 1 R @ with_sign (- 1) (L @ Added d) @ with_sign 1 (Removed d)) =
        mset (?rest @ with_sign 1 ?X @ with_sign (- 1) ?X)"
      by (simp add: mR mL ac_simps)
  qed
  also have "\<dots> = signed_symbol (remaining R L (Added d)) (remaining L R (Removed d)) ?i"
  proof -
    have "wf_elems (remaining R L (Added d))" "wf_elems (remaining L R (Removed d))" "wf_elems ?X"
      using assms(5,6) dec(1,2) by (auto simp: wf_elems_def remaining_def C_def)
    then show ?thesis
      by (subst fold_signed_append) (simp only: fold_signed_cancel signed_symbol_def [symmetric] wf_signed_symbol)
  qed
  finally show ?thesis .
qed

text \<open>
  The hash behaviour the protocol relies on: among the elements that differ, no accidental
  cancellation and no false pure symbol in the first \<open>n\<close> positions.  It is a statement about
  the FNV keys of those elements only.
\<close>

definition contributors :: "RIBLTElement list \<Rightarrow> nat \<Rightarrow> RIBLTElement list" where
  "contributors es k = filter (\<lambda>x. contributes (Key x) (of_nat k)) es"

definition pure_looking :: "Symbol \<Rightarrow> bool" where
  "pure_looking s \<longleftrightarrow> (Count s = 1 \<or> Count s = - 1) \<and> Key (DataXOR s) = KeyXOR s"

definition hash_separates :: "RIBLTElement list \<Rightarrow> RIBLTElement list \<Rightarrow> nat \<Rightarrow> bool" where
  "hash_separates R L n \<longleftrightarrow>
     (\<forall>A B k. distinct A \<longrightarrow> distinct B \<longrightarrow> set A \<subseteq> set R - set L \<longrightarrow> set B \<subseteq> set L - set R \<longrightarrow> k < n \<longrightarrow>
        (signed_symbol A B (of_nat k) = zeroSymbol \<longrightarrow> contributors (A @ B) k = []) \<and>
        (pure_looking (signed_symbol A B (of_nat k)) \<longrightarrow> length (contributors (A @ B) k) = 1))"

lemma set_contributors: "set (contributors es k) = {x \<in> set es. contributes (Key x) (of_nat k)}"
  by (auto simp: contributors_def)

lemma fold_signed_noncontrib:
  "\<forall>(c, e) \<in> set ops. \<not> contributes (Key e) i \<Longrightarrow> fold_signed i ops s = s"
  by (induction ops) (auto simp: fold_signed_def add_elem_def)

lemma fold_signed_filter:
  "fold_signed i (filter (\<lambda>(c, e). contributes (Key e) i) ops) s = fold_signed i ops s"
  by (induction ops arbitrary: s) (auto simp: fold_signed_def add_elem_def split: prod.splits)

lemma signed_symbol_contributors:
  "signed_symbol A B (of_nat k) = signed_symbol (contributors A k) (contributors B k) (of_nat k)"
proof -
  have "filter (\<lambda>(c, e). contributes (Key e) (of_nat k)) (with_sign s xs) =
      with_sign s (contributors xs k)" for s xs
    by (induction xs) (auto simp: with_sign_def contributors_def)
  then have "filter (\<lambda>(c, e). contributes (Key e) (of_nat k)) (with_sign 1 A @ with_sign (- 1) B) =
      with_sign 1 (contributors A k) @ with_sign (- 1) (contributors B k)" by simp
  then show ?thesis
    unfolding signed_symbol_def by (metis fold_signed_filter)
qed

text \<open>A symbol with a single contributor is that element, with its sign.\<close>

lemma single_contributor:
  assumes "contributors (A @ B) k = [x]" and "length x = 32"
  shows "signed_symbol A B (of_nat k) =
    \<lparr>Count = (if x \<in> set A then 1 else - 1), KeyXOR = Key x, DataXOR = x\<rparr>"
proof -
  have x: "contributes (Key x) (of_nat k)"
    using assms(1) set_contributors [of "A @ B" k] by auto
  have app: "contributors A k @ contributors B k = [x]"
    using assms(1) by (simp add: contributors_def)
  then consider (pos) "contributors A k = [x]" "contributors B k = []"
    | (neg) "contributors A k = []" "contributors B k = [x]"
    by (auto simp: append_eq_Cons_conv)
  then show ?thesis
  proof cases
    case pos
    then have "x \<in> set A" using set_contributors [of A k] by auto
    with pos x assms(2) show ?thesis
      by (subst signed_symbol_contributors)
        (simp add: signed_symbol_def with_sign_def fold_signed_def add_elem_def zeroSymbol_def
          zero32_def xor_bytes_zero_left)
  next
    case neg
    then have "x \<notin> set A" using x by (auto simp: contributors_def filter_empty_conv)
    with neg x assms(2) show ?thesis
      by (subst signed_symbol_contributors)
        (simp add: signed_symbol_def with_sign_def fold_signed_def add_elem_def zeroSymbol_def
          zero32_def xor_bytes_zero_left)
  qed
qed

lemma distinct_remaining: "distinct R \<Longrightarrow> distinct (remaining R L f)"
  and set_remaining: "set (remaining R L f) = set R - set L - set f"
  by (auto simp: remaining_def)

lemma find_pure_None:
  assumes "find_pure dec ss = None" and "s \<in> set ss" and "Count s = 1 \<or> Count s = - 1"
    and "Key (copy_array 32 (DataXOR s)) = KeyXOR s"
  shows "copy_array 32 (DataXOR s) \<in> fst ` set dec"
  using assms by (induction ss) (auto simp: Let_def split: if_splits)

text \<open>The setting of an honest exchange, as one predicate.\<close>

definition exchange :: "RIBLTElement list \<Rightarrow> RIBLTElement list \<Rightarrow> nat \<Rightarrow> bool" where
  "exchange R L n \<longleftrightarrow> distinct R \<and> distinct L \<and> wf_elems R \<and> wf_elems L \<and> hash_separates R L n"

lemma exchange_residual:
  assumes "exchange R L n" and "dec_inv L (encoderStream R m) d" and "sound R L d" and "m \<le> n" and "k < m"
  defines "A \<equiv> remaining R L (Added d)" and "B \<equiv> remaining L R (Removed d)"
  shows "diffSymbols d ! k = signed_symbol A B (of_nat k)"
    and "signed_symbol A B (of_nat k) = zeroSymbol \<Longrightarrow> contributors (A @ B) k = []"
    and "pure_looking (signed_symbol A B (of_nat k)) \<Longrightarrow> length (contributors (A @ B) k) = 1"
    and "wf_elems (A @ B)"
proof -
  have *: "distinct A" "distinct B" "set A \<subseteq> set R - set L" "set B \<subseteq> set L - set R" "k < n"
    using assms by (auto simp: exchange_def remaining_def)
  then show "signed_symbol A B (of_nat k) = zeroSymbol \<Longrightarrow> contributors (A @ B) k = []"
    "pure_looking (signed_symbol A B (of_nat k)) \<Longrightarrow> length (contributors (A @ B) k) = 1"
    using assms(1) unfolding exchange_def hash_separates_def by blast+
  show "diffSymbols d ! k = signed_symbol A B (of_nat k)"
    unfolding A_def B_def using assms by (intro residual_symbol) (auto simp: exchange_def)
  show "wf_elems (A @ B)"
    using assms(1) by (auto simp: A_def B_def exchange_def remaining_def wf_elems_def)
qed

lemma sound_peel_step:
  assumes ex: "exchange R L n" and inv: "dec_inv L (encoderStream R m) d" and snd: "sound R L d"
    and "m \<le> n" and pure: "find_pure (decoded d) (diffSymbols d) = Some (e, dir)"
  shows "sound R L (peel_step d e dir)"
proof -
  let ?A = "remaining R L (Added d)" and ?B = "remaining L R (Removed d)"
  from find_pure_Some [OF pure] obtain s where s: "s \<in> set (diffSymbols d)" "Count s = of_int dir"
    "KeyXOR s = Key e" "e = copy_array 32 (DataXOR s)" and dir: "dir = 1 \<or> dir = - 1" by blast
  from inv have "length (diffSymbols d) = m"
    by (simp add: dec_inv_def tracks_def encoderStream_eq)
  with s(1) obtain k where k: "k < m" and sk: "s = diffSymbols d ! k" by (metis in_set_conv_nth)
  note res = exchange_residual [OF ex inv snd \<open>m \<le> n\<close> k]
  from res(1) sk have sig: "s = signed_symbol ?A ?B (of_nat k)" by simp
  have "wf_symbol s" unfolding sig using res(4) by (intro wf_signed_symbol) (auto simp: wf_elems_def)
  then have "e = DataXOR s" using s(4) by (simp add: wf_symbol_def)
  with s dir have "pure_looking s" by (auto simp: pure_looking_def)
  with res(3) sig obtain x where x: "contributors (?A @ ?B) k = [x]"
    by (auto simp: length_Suc_conv)
  then have xin: "x \<in> set (?A @ ?B)" using set_contributors [of "?A @ ?B" k] by auto
  then have "length x = 32" using res(4) by (simp add: wf_elems_def)
  with x have "s = \<lparr>Count = (if x \<in> set ?A then 1 else - 1), KeyXOR = Key x, DataXOR = x\<rparr>"
    unfolding sig by (rule single_contributor)
  with s(2) \<open>e = DataXOR s\<close> dir have "e = x" and "dir = (if x \<in> set ?A then 1 else - 1)"
    by (auto split: if_splits)
  with xin snd show ?thesis
    by (auto simp: sound_def Added_def Removed_def set_remaining split: if_splits)
qed

lemma sound_runDecoder:
  assumes "exchange R L n" and "m \<le> n"
  shows "sound R L (runDecoder L (encoderStream R m))"
  using assms(2)
proof (induction m)
  case 0
  show ?case by (simp add: encoderStream_eq runDecoder_Nil NewDecoder_def sound_def Added_def Removed_def)
next
  case (Suc m)
  let ?d = "runDecoder L (encoderStream R m)" and ?s = "signed_symbol R [] (of_nat m)"
  have st: "encoderStream R (Suc m) = encoderStream R m @ [?s]"
    by (simp add: encoderStream_eq)
  have "dec_inv L (encoderStream R (Suc m)) (extend ?d ?s) \<and> sound R L (extend ?d ?s)"
    using Suc dec_inv_extend [OF dec_inv_runDecoder]
    by (simp add: st) (simp add: extend_def sound_def Added_def Removed_def)
  then have "dec_inv L (encoderStream R (Suc m)) (peel (extend ?d ?s)) \<and> sound R L (peel (extend ?d ?s))"
  proof (rule peel_invariant)
    fix d e dir
    assume "dec_inv L (encoderStream R (Suc m)) d \<and> sound R L d"
      and f: "find_pure (decoded d) (diffSymbols d) = Some (e, dir)"
    then show "dec_inv L (encoderStream R (Suc m)) (peel_step d e dir) \<and> sound R L (peel_step d e dir)"
      using sound_peel_step [OF assms(1) _ _ Suc.prems f] find_pure_Some [OF f]
      by (auto simp: dec_inv_def tracks_peel_step decoded_ok_peel_step)
  qed
  then show ?case
    by (simp add: st runDecoder_snoc AddRemoteSymbol_extend)
qed

lemma peeling_stuck:
  assumes ex: "exchange R L n" and k: "k < n"
  defines "d \<equiv> runDecoder L (encoderStream R n)"
  shows "length (contributors (remaining R L (Added d) @ remaining L R (Removed d)) k) \<noteq> 1"
proof
  let ?A = "remaining R L (Added d)" and ?B = "remaining L R (Removed d)"
  have snd: "sound R L d" unfolding d_def by (rule sound_runDecoder [OF ex order_refl])
  have inv: "dec_inv L (encoderStream R n) d" unfolding d_def by (rule dec_inv_runDecoder)
  then have len: "length (diffSymbols d) = n" by (simp add: dec_inv_def tracks_def encoderStream_eq)
  note res = exchange_residual [OF ex inv snd order_refl k]
  assume "length (contributors (?A @ ?B) k) = 1"
  then obtain x where x: "contributors (?A @ ?B) k = [x]" by (auto simp: length_Suc_conv)
  then have xin: "x \<in> set (?A @ ?B)" using set_contributors [of "?A @ ?B" k] by auto
  then have "length x = 32" using res(4) by (auto simp: wf_elems_def)
  with single_contributor [OF x] res(1)
  have "diffSymbols d ! k = \<lparr>Count = (if x \<in> set ?A then 1 else - 1), KeyXOR = Key x, DataXOR = x\<rparr>"
    by simp
  moreover have "diffSymbols d ! k \<in> set (diffSymbols d)" using k len by simp
  ultimately have "x \<in> fst ` set (decoded d)"
    using find_pure_None [OF runDecoder_stops [of L "encoderStream R n", folded d_def],
        of "diffSymbols d ! k"] \<open>length x = 32\<close>
    by (simp split: if_splits)
  with inv xin snd show False
    by (auto simp: dec_inv_def decoded_ok_wf(6) sound_def set_remaining)
qed

lemma peeling_converged:
  assumes ex: "exchange R L n"
  defines "d \<equiv> runDecoder L (encoderStream R n)"
  shows "Converged d \<longleftrightarrow>
    (\<forall>k < n. contributors (remaining R L (Added d) @ remaining L R (Removed d)) k = [])"
proof -
  let ?A = "remaining R L (Added d)" and ?B = "remaining L R (Removed d)"
  have snd: "sound R L d" unfolding d_def by (rule sound_runDecoder [OF ex order_refl])
  have inv: "dec_inv L (encoderStream R n) d" unfolding d_def by (rule dec_inv_runDecoder)
  then have len: "length (diffSymbols d) = n" by (simp add: dec_inv_def tracks_def encoderStream_eq)
  have "diffSymbols d ! k = zeroSymbol \<longleftrightarrow> contributors (?A @ ?B) k = []" if k: "k < n" for k
  proof
    assume "contributors (?A @ ?B) k = []"
    then show "diffSymbols d ! k = zeroSymbol"
      unfolding exchange_residual(1) [OF ex inv snd order_refl k]
      by (subst signed_symbol_contributors)
        (simp add: contributors_def signed_symbol_def with_sign_def fold_signed_def)
  qed (use exchange_residual(1,2) [OF ex inv snd order_refl k] in simp)
  then show ?thesis
    using len by (auto simp: Converged_iff all_set_conv_all_nth)
qed

lemma hash_separates_single:
  assumes "set R - set L \<subseteq> {x}" and "set L \<subseteq> set R" and "length x = 32"
  shows "hash_separates R L n"
  unfolding hash_separates_def
proof (intro allI impI)
  fix A B k
  assume "distinct A" and AB: "set A \<subseteq> set R - set L" "set B \<subseteq> set L - set R"
  have "set L - set R = {}" using assms(2) by (simp add: Diff_eq_empty_iff)
  with AB(2) have B: "B = []" by simp
  from AB assms have "set A \<subseteq> {x}" by blast
  with \<open>distinct A\<close> have A: "A = [] \<or> A = [x]"
    by (cases A; cases "tl A") auto
  show "(signed_symbol A B (of_nat k) = zeroSymbol \<longrightarrow> contributors (A @ B) k = []) \<and>
      (pure_looking (signed_symbol A B (of_nat k)) \<longrightarrow> length (contributors (A @ B) k) = 1)"
  proof (cases "contributors (A @ B) k")
    case Nil
    then have "signed_symbol A B (of_nat k) = zeroSymbol"
      by (subst signed_symbol_contributors)
        (simp add: contributors_def signed_symbol_def with_sign_def fold_signed_def)
    with Nil show ?thesis by (simp add: pure_looking_def zeroSymbol_def)
  next
    case (Cons y ys)
    with A B have "contributors (A @ B) k = [x]" by (auto simp: contributors_def split: if_splits)
    with single_contributor [OF this assms(3)] show ?thesis
      by (simp add: zeroSymbol_def split: if_splits)
  qed
qed

section \<open>Properties\<close>

text \<open>
  Convergence, for any stream of 32-byte symbols, hostile ones included.  The decoder reports
  convergence exactly when every received symbol equals the coded symbol of the local set with
  the added elements put in and the removed ones taken out; nothing about the hash is assumed.
\<close>

lemma converged_iff_streams_agree:
  assumes "wf_elems L" and "\<forall>s \<in> set S. wf_symbol s"
  shows "Converged (runDecoder L S) \<longleftrightarrow>
    (\<forall>k < length S. S ! k =
       signed_symbol (L @ Added (runDecoder L S)) (Removed (runDecoder L S)) (of_nat k))"
proof -
  let ?d = "runDecoder L S"
  have inv: "dec_inv L S ?d" by (rule dec_inv_runDecoder)
  then have t: "tracks ?d S" and ok: "decoded_ok ?d" by (simp_all add: dec_inv_def)
  have wf: "wf_symbol (signed_symbol (L @ Added ?d) (Removed ?d) i)" for i
    using decoded_ok_wf [OF ok] assms(1) by (intro wf_signed_symbol) (auto simp: wf_elems_def)
  have "diffSymbols ?d ! k = zeroSymbol \<longleftrightarrow>
      S ! k = signed_symbol (L @ Added ?d) (Removed ?d) (of_nat k)" if "k < length S" for k
    using t that assms(2) wf
    by (simp add: tracks_def decoder_effective [OF inv] sub_symbol_eq_zero)
  with t show ?thesis
    by (auto simp: Converged_iff tracks_def all_set_conv_all_nth)
qed

theorem converged_iff_streams_agree_witness:
  "wf_elems [replicate 32 1] \<and> list_all wf_symbol [zeroSymbol] \<and>
   (Converged (runDecoder [replicate 32 1] [zeroSymbol]) \<longleftrightarrow>
    (\<forall>k < length [zeroSymbol]. [zeroSymbol] ! k =
       signed_symbol ([replicate 32 1] @ Added (runDecoder [replicate 32 1] [zeroSymbol]))
         (Removed (runDecoder [replicate 32 1] [zeroSymbol])) (of_nat k)))"
  using converged_iff_streams_agree [of "[replicate 32 1]" "[zeroSymbol]"] by (simp add: wf_elems_def)

text \<open>
  Two encoders over the same elements, added in any order, emit the same stream of symbols.
\<close>

lemma encoder_order_independent:
  "mset R = mset R' \<Longrightarrow> encoderStream R n = encoderStream R' n"
  unfolding encoderStream_eq signed_symbol_def
  by (intro map_cong refl fold_signed_perm) (simp add: with_sign_def)

theorem encoder_order_independent_witness:
  "mset [replicate 32 1, replicate 32 2] = mset [replicate 32 2, replicate 32 (1::byte)] \<and>
   encoderStream [replicate 32 1, replicate 32 2] 5 = encoderStream [replicate 32 2, replicate 32 1] 5"
proof -
  have h: "mset [replicate 32 1, replicate 32 2] = mset [replicate 32 2, replicate 32 (1::byte)]"
    by simp
  show ?thesis using h encoder_order_independent [OF h] by blast
qed



text \<open>
  When the remote set is the local set and one more element, the decoder returns exactly that
  element and reports convergence as soon as one symbol the element contributes to has arrived,
  whatever the hash values are.
\<close>

lemma single_difference_found:
  assumes "distinct R" "distinct L" "wf_elems R" "wf_elems L"
    and "set R = insert x (set L)" "x \<notin> set L"
    and "k < n" "contributes (Key x) (of_nat k)"
  shows "Added (runDecoder L (encoderStream R n)) = [x] \<and>
    Removed (runDecoder L (encoderStream R n)) = [] \<and>
    Converged (runDecoder L (encoderStream R n))"
proof -
  let ?d = "runDecoder L (encoderStream R n)"
  have "hash_separates R L n"
    using assms by (intro hash_separates_single [where x = x]) (auto simp: wf_elems_def)
  with assms have ex: "exchange R L n" by (simp add: exchange_def)
  have snd: "sound R L ?d" by (rule sound_runDecoder [OF ex order_refl])
  have "set L - set R = {}" using assms(5) by (simp add: Diff_eq_empty_iff subset_insertI)
  with snd have rem: "Removed ?d = []" by (simp add: sound_def)
  from snd assms(5) have sub: "set (Added ?d) \<subseteq> {x}" by (auto simp: sound_def)
  have R0: "remaining L R (Removed ?d) = []" using assms(5) by (auto simp: remaining_def)
  have "x \<in> set (Added ?d)"
  proof (rule ccontr)
    assume "x \<notin> set (Added ?d)"
    with assms have "set (remaining R L (Added ?d)) = {x}" and "distinct (remaining R L (Added ?d))"
      by (auto simp: remaining_def)
    then have "remaining R L (Added ?d) = [x]"
      by (metis distinct_card card_1_singleton_iff insert_not_empty length_0_conv length_Suc_conv list.set(1) list.simps(15) singleton_insert_inj_eq One_nat_def)
    with R0 peeling_stuck [OF ex \<open>k < n\<close>] assms(8) show False
      by (simp add: contributors_def)
  qed
  with sub have sA: "set (Added ?d) = {x}" by auto
  have "distinct (Added ?d)"
    using dec_inv_runDecoder [of L "encoderStream R n"] by (auto simp: dec_inv_def decoded_ok_wf)
  with sA have A: "Added ?d = [x]"
    by (metis distinct_card card_1_singleton_iff insert_not_empty length_0_conv length_Suc_conv list.set(1) list.simps(15) singleton_insert_inj_eq One_nat_def)
  moreover have "remaining R L (Added ?d) = []"
    using assms(5) by (auto simp: A remaining_def)
  ultimately show ?thesis
    using rem R0 peeling_converged [OF ex] by (simp add: contributors_def)
qed

theorem single_difference_found_witness:
  "Added (runDecoder [replicate 32 1] (encoderStream [replicate 32 1, replicate 32 2] 1)) =
     [replicate 32 2] \<and>
   Removed (runDecoder [replicate 32 1] (encoderStream [replicate 32 1, replicate 32 2] 1)) = [] \<and>
   Converged (runDecoder [replicate 32 1] (encoderStream [replicate 32 1, replicate 32 2] 1))"
proof (rule single_difference_found)
  show "contributes (Key (replicate 32 2)) (of_nat 0)"
    by (simp add: contributes_def Key_def numeral_eq_Suc) code_simp
qed (auto simp: wf_elems_def numeral_eq_Suc)

end
