(* ===== verification/Hex.thy ===== *)
theory Hex
  imports Prelude
begin

text \<open>
  Go's \<^verbatim>\<open>encoding/hex\<close>: public keys and infohashes are keys of maps and files in this form.  Decoding
  accepts both cases, encoding emits lower case; decoding inverts encoding.  Lower-casing
  (\<^verbatim>\<open>strings.ToLower\<close>) acts on ASCII letters here, which are the only letters of such strings.
\<close>

definition hex_digit :: "nat \<Rightarrow> char" where
  "hex_digit n = ''0123456789abcdef'' ! n"

definition hex_value :: "char \<Rightarrow> nat option" where
  "hex_value c =
     (let n = of_char c :: nat in
      if 48 \<le> n \<and> n \<le> 57 then Some (n - 48)
      else if 97 \<le> n \<and> n \<le> 102 then Some (n - 87)
      else if 65 \<le> n \<and> n \<le> 70 then Some (n - 55)
      else None)"

fun hex_DecodeString :: "string \<Rightarrow> bytes option" where
  "hex_DecodeString [] = Some []"
| "hex_DecodeString [c] = None"
| "hex_DecodeString (a # b # cs) =
     (case hex_value a of
        None \<Rightarrow> None
      | Some x \<Rightarrow>
          (case hex_value b of
             None \<Rightarrow> None
           | Some y \<Rightarrow> map_option (\<lambda>r. of_nat (16 * x + y) # r) (hex_DecodeString cs)))"

definition hex_EncodeToString :: "bytes \<Rightarrow> string" where
  "hex_EncodeToString bs = concat (map (\<lambda>b. [hex_digit (unat b div 16), hex_digit (unat b mod 16)]) bs)"

definition lower_char :: "char \<Rightarrow> char" where
  "lower_char c = (let n = of_char c :: nat in if 65 \<le> n \<and> n \<le> 90 then char_of (n + 32) else c)"

definition ToLower :: "string \<Rightarrow> string" where "ToLower s = map lower_char s"

lemma of_lower_char: "(of_char (lower_char c) :: nat) = (if 65 \<le> (of_char c :: nat) \<and> (of_char c :: nat) \<le> 90 then of_char c + 32 else of_char c)"
  by (simp add: lower_char_def Let_def)

lemma lower_char_idem [simp]: "lower_char (lower_char c) = lower_char c"
proof -
  have "\<not> (65 \<le> (of_char (lower_char c) :: nat) \<and> (of_char (lower_char c) :: nat) \<le> 90)" by (simp add: of_lower_char)
  then show ?thesis by (simp only: lower_char_def [of "lower_char c"] Let_def if_False)
qed

lemma hex_value_lower [simp]: "hex_value (lower_char c) = hex_value c"
  by (auto simp: hex_value_def of_lower_char Let_def)

lemma ToLower_idem [simp]: "ToLower (ToLower s) = ToLower s"
  by (simp add: ToLower_def)

lemma length_ToLower [simp]: "length (ToLower s) = length s"
  by (simp add: ToLower_def)

lemma ToLower_Nil_iff [simp]: "ToLower s = [] \<longleftrightarrow> s = []"
  by (simp add: ToLower_def)

lemma hex_Decode_lower [simp]: "hex_DecodeString (ToLower s) = hex_DecodeString s"
  by (induction s rule: hex_DecodeString.induct) (simp_all add: ToLower_def split: option.split)

lemma hex_digit_lower: "n < 16 \<Longrightarrow> lower_char (hex_digit n) = hex_digit n"
proof -
  have "\<forall>n \<in> set [0..<16]. lower_char (hex_digit n) = hex_digit n" by code_simp
  then show "n < 16 \<Longrightarrow> lower_char (hex_digit n) = hex_digit n" by simp
qed

lemma ToLower_hex [simp]: "ToLower (hex_EncodeToString bs) = hex_EncodeToString bs"
proof (induction bs)
  case (Cons b bs)
  have "unat b div 16 < 16" using unat_byte_less [of b] by simp
  then show ?case using Cons by (simp add: hex_EncodeToString_def ToLower_def hex_digit_lower)
qed (simp add: hex_EncodeToString_def ToLower_def)

lemma hex_value_digit: "n < 16 \<Longrightarrow> hex_value (hex_digit n) = Some n"
proof -
  have "\<forall>n \<in> set [0..<16]. hex_value (hex_digit n) = Some n" by code_simp
  then show "n < 16 \<Longrightarrow> hex_value (hex_digit n) = Some n" by simp
qed

lemma hex_roundtrip [simp]: "hex_DecodeString (hex_EncodeToString bs) = Some bs"
proof (induction bs)
  case (Cons b bs)
  have "unat b div 16 < 16" using unat_byte_less [of b] by simp
  moreover have "(of_nat (unat b div 16 * 16 + unat b mod 16) :: byte) = b" by simp
  ultimately show ?case using Cons by (simp add: hex_EncodeToString_def hex_value_digit mult.commute)
qed (simp add: hex_EncodeToString_def)

lemma hex_inj [simp]: "hex_EncodeToString a = hex_EncodeToString b \<longleftrightarrow> a = b"
  using hex_roundtrip option.inject by metis

lemma length_hex [simp]: "length (hex_EncodeToString bs) = 2 * length bs"
  by (induction bs) (simp_all add: hex_EncodeToString_def)

end
