(* ===== verification/Utf8.thy ===== *)
theory Utf8
  imports Prelude
begin

text \<open>
  Go's reading and writing of UTF-8 (\<^verbatim>\<open>unicode/utf8\<close>, ranging over a string, \<^verbatim>\<open>strings.Builder\<close>): an
  invalid byte is read as the replacement character and takes one byte.
\<close>

section \<open>Runes\<close>

text \<open>
  The size \<open>utf8.DecodeRuneInString\<close> reports: that of a well-formed rune at the front, else 1.
\<close>

definition cont :: "byte \<Rightarrow> byte \<Rightarrow> byte \<Rightarrow> bool" where
  "cont lo hi b \<longleftrightarrow> lo \<le> b \<and> b \<le> hi"

fun rune_size :: "bytes \<Rightarrow> nat" where
  "rune_size [] = 0"
| "rune_size (p # ps) =
     (if p < 0xC2 then 1
      else if p \<le> 0xDF then
        (case ps of b1 # _ \<Rightarrow> if cont 0x80 0xBF b1 then 2 else 1 | _ \<Rightarrow> 1)
      else if p \<le> 0xEF then
        (case ps of b1 # b2 # _ \<Rightarrow>
           if cont (if p = 0xE0 then 0xA0 else 0x80) (if p = 0xED then 0x9F else 0xBF) b1 \<and>
              cont 0x80 0xBF b2 then 3 else 1 | _ \<Rightarrow> 1)
      else if p \<le> 0xF4 then
        (case ps of b1 # b2 # b3 # _ \<Rightarrow>
           if cont (if p = 0xF0 then 0x90 else 0x80) (if p = 0xF4 then 0x8F else 0xBF) b1 \<and>
              cont 0x80 0xBF b2 \<and> cont 0x80 0xBF b3 then 4 else 1 | _ \<Rightarrow> 1)
      else 1)"

lemma rune_size_bounds: "s \<noteq> [] \<Longrightarrow> 1 \<le> rune_size s \<and> rune_size s \<le> length s"
  by (cases s) (auto split: list.split if_split)

definition RuneError :: nat where "RuneError = 0xFFFD"

definition tail_bits :: "byte \<Rightarrow> nat" where "tail_bits b = unat b mod 64"

definition rune_value :: "bytes \<Rightarrow> nat" where
  "rune_value s =
     (let n = rune_size s; p = unat (s ! 0) in
      if n = 1 then (if p < 0x80 then p else RuneError)
      else if n = 2 then (p mod 32) * 64 + tail_bits (s ! 1)
      else if n = 3 then (p mod 16) * 4096 + tail_bits (s ! 1) * 64 + tail_bits (s ! 2)
      else (p mod 8) * 262144 + tail_bits (s ! 1) * 4096 + tail_bits (s ! 2) * 64 + tail_bits (s ! 3))"

text \<open>The runes a \<open>for _, r := range s\<close> loop sees.\<close>

function rune_values :: "bytes \<Rightarrow> nat list" where
  "rune_values s = (if s = [] then [] else rune_value s # rune_values (drop (rune_size s) s))"
  by pat_completeness auto
termination
proof (relation "measure length")
  fix s :: bytes
  assume "s \<noteq> []"
  then show "(drop (rune_size s) s, s) \<in> measure length" using rune_size_bounds [of s] by simp
qed simp

declare rune_values.simps [simp del]

lemma rune_values_code [code]:
  "rune_values [] = []"
  "rune_values (b # bs) = rune_value (b # bs) # rune_values (drop (rune_size (b # bs)) (b # bs))"
  by (simp_all add: rune_values.simps)

definition is_scalar :: "nat \<Rightarrow> bool" where
  "is_scalar c \<longleftrightarrow> c < 0xD800 \<or> 0xE000 \<le> c \<and> c \<le> 0x10FFFF"

definition byte_of :: "nat \<Rightarrow> byte" where "byte_of n = of_nat n"

definition encode_rune :: "nat \<Rightarrow> bytes" where
  "encode_rune c =
     (let c = (if is_scalar c then c else RuneError) in
      if c \<le> 0x7F then [byte_of c]
      else if c \<le> 0x7FF then [byte_of (0xC0 + c div 64), byte_of (0x80 + c mod 64)]
      else if c \<le> 0xFFFF then [byte_of (0xE0 + c div 4096), byte_of (0x80 + c div 64 mod 64), byte_of (0x80 + c mod 64)]
      else [byte_of (0xF0 + c div 262144), byte_of (0x80 + c div 4096 mod 64), byte_of (0x80 + c div 64 mod 64), byte_of (0x80 + c mod 64)])"

section \<open>Round trip\<close>

lemma unat_byte: "n < 256 \<Longrightarrow> unat (byte_of n) = n"
  by (simp add: byte_of_def unat_of_nat take_bit_nat_eq_self)

lemma byte_le: "n < 256 \<Longrightarrow> byte_of n \<le> w \<longleftrightarrow> n \<le> unat w"
  by (simp add: word_le_nat_alt unat_byte)

lemma byte_ge: "n < 256 \<Longrightarrow> w \<le> byte_of n \<longleftrightarrow> unat w \<le> n"
  by (simp add: word_le_nat_alt unat_byte)

lemma byte_less: "n < 256 \<Longrightarrow> byte_of n < w \<longleftrightarrow> n < unat w"
  by (simp add: word_less_nat_alt unat_byte)

lemma byte_eq: "n < 256 \<Longrightarrow> byte_of n = w \<longleftrightarrow> n = unat w"
  using unat_byte [of n] unsigned_word_eqI [of "byte_of n" w] by auto

lemmas byte_simps = byte_le byte_ge byte_less byte_eq unat_byte cont_def tail_bits_def

lemma lead_bits:
  "a < 32 \<Longrightarrow> (192 + a) mod 32 = (a::nat)" "a < 16 \<Longrightarrow> (224 + a) mod 16 = (a::nat)" "a < 8 \<Longrightarrow> (240 + a) mod 8 = (a::nat)"
  "b < 64 \<Longrightarrow> (128 + b) mod 64 = (b::nat)"
proof -
  have k: "(k * m + x) mod m = x" if "x < m" for k m x :: nat using that by simp
  show "a < 32 \<Longrightarrow> (192 + a) mod 32 = (a::nat)" using k [of a 32 6] by simp
  show "a < 16 \<Longrightarrow> (224 + a) mod 16 = (a::nat)" using k [of a 16 14] by simp
  show "a < 8 \<Longrightarrow> (240 + a) mod 8 = (a::nat)" using k [of a 8 30] by simp
  show "b < 64 \<Longrightarrow> (128 + b) mod 64 = (b::nat)" using k [of b 64 2] by simp
qed

lemma split64: "(c::nat) div 64 * 64 + c mod 64 = c" "c div 4096 * 64 + c div 64 mod 64 = c div 64"
  "c div 262144 * 64 + c div 4096 mod 64 = c div 4096"
proof -
  have "c div 4096 = c div 64 div 64" "c div 262144 = c div 4096 div 64" by (simp_all add: div_mult2_eq [symmetric])
  then show "(c::nat) div 64 * 64 + c mod 64 = c" "c div 4096 * 64 + c div 64 mod 64 = c div 64" "c div 262144 * 64 + c div 4096 mod 64 = c div 4096"
    by (simp_all only: div_mult_mod_eq)
qed

lemma decode_encode:
  assumes "is_scalar c"
  shows "rune_size (encode_rune c @ r) = length (encode_rune c) \<and> rune_value (encode_rune c @ r) = c \<and> encode_rune c \<noteq> []"
proof -
  consider "c \<le> 0x7F" | "0x7F < c" "c \<le> 0x7FF" | "0x7FF < c" "c \<le> 0xFFFF" | "0xFFFF < c" "c \<le> 0x10FFFF"
    using assms unfolding is_scalar_def by linarith
  then show ?thesis
  proof cases
    case 1
    then show ?thesis using assms by (simp add: encode_rune_def rune_value_def byte_simps)
  next
    case 2
    define a b where "a = c div 64" and "b = c mod 64"
    have c: "c = a * 64 + b" "a < 32" "2 \<le> a" "b < 64" unfolding a_def b_def using 2 by auto
    have e: "encode_rune c = [byte_of (192 + a), byte_of (128 + b)]" using 2 assms by (simp add: encode_rune_def a_def b_def)
    show ?thesis using c unfolding e rune_value_def by (simp add: byte_simps lead_bits Let_def)
  next
    case 3
    define a b d where "a = c div 4096" and "b = c div 64 mod 64" and "d = c mod 64"
    have "a * 64 + b = c div 64" "c div 64 * 64 + d = c" unfolding a_def b_def d_def by (rule split64)+
    then have c: "c = a * 4096 + b * 64 + d" by linarith
    have d: "b < 64" "d < 64" "a < 16" unfolding a_def b_def d_def using 3 by auto
    have e: "encode_rune c = [byte_of (224 + a), byte_of (128 + b), byte_of (128 + d)]" using 3 assms by (simp add: encode_rune_def a_def b_def d_def)
    have lo: "a = 0 \<Longrightarrow> 32 \<le> b" using c d 3 by linarith
    have hi: "a = 13 \<Longrightarrow> b \<le> 31" using assms c d unfolding is_scalar_def by linarith
    show ?thesis using d lo hi unfolding e rune_value_def by (auto simp: byte_simps lead_bits Let_def c)
  next
    case 4
    define a b d f where "a = c div 262144" and "b = c div 4096 mod 64" and "d = c div 64 mod 64" and "f = c mod 64"
    have "a * 64 + b = c div 4096" "c div 4096 * 64 + d = c div 64" "c div 64 * 64 + f = c" unfolding a_def b_def d_def f_def by (rule split64)+
    then have c: "c = a * 262144 + b * 4096 + d * 64 + f" by linarith
    have d: "b < 64" "d < 64" "f < 64" "a < 5" unfolding a_def b_def d_def f_def using 4 by auto
    have e: "encode_rune c = [byte_of (240 + a), byte_of (128 + b), byte_of (128 + d), byte_of (128 + f)]"
      using 4 assms by (simp add: encode_rune_def a_def b_def d_def f_def)
    have lo: "a = 0 \<Longrightarrow> 16 \<le> b" using c d 4 by linarith
    have hi: "a = 4 \<Longrightarrow> b \<le> 15" using 4 c d by linarith
    show ?thesis using d lo hi unfolding e rune_value_def by (auto simp: byte_simps lead_bits Let_def c)
  qed
qed

lemma rune_values_encode: "list_all is_scalar cs \<Longrightarrow> rune_values (concat (map encode_rune cs)) = cs"
proof (induction cs)
  case (Cons c cs)
  then have "is_scalar c" by simp
  from decode_encode [OF this, of "concat (map encode_rune cs)"] Cons show ?case
    by (subst rune_values.simps) simp
qed (simp add: rune_values.simps)

end
