(* ===== verification/Ltepwire.thy ===== *)
theory Ltepwire
  imports Hex Utf8
begin

text \<open>
  The \<open>sn_search\<close> wire contract: the services bit field (\<^verbatim>\<open>contracts/ltepwire/services.go\<close>), the
  query, result, reject and announce frames (\<^verbatim>\<open>wire.go\<close>), the set-reconciliation frames
  (\<^verbatim>\<open>sync.go\<close>) and the bounded decode (\<^verbatim>\<open>bounded.go\<close>).  The third-party bencode library is the
  parameter \<open>wire\<close>, one unmarshal function per struct type; \<open>wire_ok\<close> is its documented round trip.
\<close>

section \<open>Services\<close>

type_synonym ServiceBits = u64

definition BitShareLocal :: ServiceBits where "BitShareLocal = push_bit 0 1"
definition BitShareSwarm :: ServiceBits where "BitShareSwarm = push_bit 1 1"
definition BitFileHits :: ServiceBits where "BitFileHits = push_bit 2 1"
definition BitContentHits :: ServiceBits where "BitContentHits = push_bit 3 1"
definition BitLayerDPublisher :: ServiceBits where "BitLayerDPublisher = push_bit 4 1"
definition BitCompanionPublisher :: ServiceBits where "BitCompanionPublisher = push_bit 5 1"
definition BitCompanionSubscriber :: ServiceBits where "BitCompanionSubscriber = push_bit 6 1"
definition BitSnippetHighlight :: ServiceBits where "BitSnippetHighlight = push_bit 7 1"
definition BitRegtest :: ServiceBits where "BitRegtest = push_bit 8 1"
definition BitSetReconciliation :: ServiceBits where "BitSetReconciliation = push_bit 9 1"

lemmas service_bits =
  BitShareLocal_def BitShareSwarm_def BitFileHits_def BitContentHits_def BitLayerDPublisher_def
  BitCompanionPublisher_def BitCompanionSubscriber_def BitSnippetHighlight_def BitRegtest_def
  BitSetReconciliation_def

definition Has :: "ServiceBits \<Rightarrow> ServiceBits \<Rightarrow> bool" where "Has s b \<longleftrightarrow> s AND b = b"
definition With :: "ServiceBits \<Rightarrow> ServiceBits \<Rightarrow> ServiceBits" where "With s b = s OR b"
definition Without :: "ServiceBits \<Rightarrow> ServiceBits \<Rightarrow> ServiceBits" where "Without s b = s AND NOT b"

record Sharing =
  ShareLocal :: byte
  FileHits :: bool
  ContentHits :: bool

record RuntimeFacts =
  Publishing :: bool
  Reconciliation :: bool
  Regtest :: bool
  CompanionPub :: bool
  CompanionSub :: bool
  SnippetHighlight :: bool

definition set_if :: "bool \<Rightarrow> ServiceBits \<Rightarrow> ServiceBits \<Rightarrow> ServiceBits" where
  "set_if c b m = (if c then m OR b else m)"

definition Announced :: "Sharing \<Rightarrow> RuntimeFacts \<Rightarrow> u64" where
  "Announced s f =
     (let m = (if ShareLocal s = 2 then 0 OR BitShareLocal
               else if ShareLocal s = 1 then 0 OR BitShareSwarm else 0);
          m = set_if (FileHits s) BitFileHits m;
          m = set_if (ContentHits s) BitContentHits m;
          m = set_if (Publishing f) BitLayerDPublisher m;
          m = set_if (CompanionPub f) BitCompanionPublisher m;
          m = set_if (CompanionSub f) BitCompanionSubscriber m;
          m = set_if (SnippetHighlight f) BitSnippetHighlight m;
          m = set_if (Regtest f) BitRegtest m;
          m = set_if (Reconciliation f) BitSetReconciliation m
      in m)"

text \<open>\<open>fmt.Sprintf("%016x", v)\<close>: sixteen lower-case digits, most significant first.\<close>

definition FormatHex :: "u64 \<Rightarrow> string" where
  "FormatHex v = map (\<lambda>i. hex_digit (unat (take_bit 4 (drop_bit (4 * i) v)))) (rev [0..<16])"

section \<open>Frames\<close>

definition ProtocolVersion :: int where "ProtocolVersion = 1"
definition MaxEndorsedPerAnnounce :: nat where "MaxEndorsedPerAnnounce = 10"
definition MaxHitNameBytes :: nat where "MaxHitNameBytes = 60"
definition MsgTypeQuery :: int where "MsgTypeQuery = 0"
definition MsgTypeResult :: int where "MsgTypeResult = 1"
definition MsgTypeReject :: int where "MsgTypeReject = 2"
definition MsgTypePeerAnnounce :: int where "MsgTypePeerAnnounce = 3"
definition MsgTypeSyncBegin :: int where "MsgTypeSyncBegin = 4"
definition MsgTypeSyncSymbols :: int where "MsgTypeSyncSymbols = 5"
definition MsgTypeSyncNeed :: int where "MsgTypeSyncNeed = 6"
definition MsgTypeSyncRecords :: int where "MsgTypeSyncRecords = 7"
definition MsgTypeSyncEnd :: int where "MsgTypeSyncEnd = 8"

lemmas msg_types =
  MsgTypeQuery_def MsgTypeResult_def MsgTypeReject_def MsgTypePeerAnnounce_def MsgTypeSyncBegin_def
  MsgTypeSyncSymbols_def MsgTypeSyncNeed_def MsgTypeSyncRecords_def MsgTypeSyncEnd_def

definition RejectRateLimited :: int where "RejectRateLimited = 0"
definition RejectTooExpensive :: int where "RejectTooExpensive = 1"
definition RejectUnsupportedScope :: int where "RejectUnsupportedScope = 2"
definition RejectQueryTooBroad :: int where "RejectQueryTooBroad = 3"
definition RejectShuttingDown :: int where "RejectShuttingDown = 4"

record Query =
  q_MsgType :: int
  q_TxID :: u32
  q_Q :: bytes
  q_Scope :: bytes
  q_Limit :: int
  q_Lang :: bytes
  q_MinSize :: int
  q_MaxSize :: int
  q_NotIH :: "bytes list"

record FileMatch =
  FI :: int
  FP :: bytes
  Off :: int
  Pr :: bytes
  Sn :: bytes

record Hit =
  hit_IH :: bytes
  hit_IH2 :: bytes
  hit_N :: bytes
  hit_S :: int
  hit_L :: int
  hit_Sz :: int
  hit_T :: int
  hit_Rank :: int
  hit_Matches :: "FileMatch list"

record Result =
  r_MsgType :: int
  r_TxID :: u32
  r_Total :: int
  r_Partial :: int
  r_Hits :: "Hit list"

record Reject =
  j_MsgType :: int
  j_TxID :: u32
  j_Code :: int
  j_Reason :: bytes

record PeerAnnounce =
  a_MsgType :: int
  a_Version :: int
  a_Services :: u64
  a_Pk :: bytes
  a_Endorsed :: "bytes list"

record peekHeader =
  p_MsgType :: int
  p_TxID :: u32

subsection \<open>Set reconciliation\<close>

definition MaxSymbolsPerMessage :: nat where "MaxSymbolsPerMessage = 100"
definition MaxRecordsPerMessage :: nat where "MaxRecordsPerMessage = 500"
definition MaxNeedIDsPerMessage :: nat where "MaxNeedIDsPerMessage = 1000"
definition DefaultSyncMaxSymbols :: int where "DefaultSyncMaxSymbols = 2000"
definition DefaultSyncMaxBytes :: int where "DefaultSyncMaxBytes = 2 ^ 20"
definition RIBLTElementSize :: nat where "RIBLTElementSize = 32"

text \<open>Status and algorithm strings as Isabelle strings.\<close>

definition SyncAlgo :: string where "SyncAlgo = ''riblt-v1''"
definition SyncStatusConverged :: string where "SyncStatusConverged = ''converged''"
definition SyncStatusLimitExceeded :: string where "SyncStatusLimitExceeded = ''limit_exceeded''"
definition SyncStatusAborted :: string where "SyncStatusAborted = ''aborted''"

record SyncFilter =
  Pubkeys :: "bytes list"
  Since :: int
  Prefix :: bytes

record SyncBegin =
  sb_MsgType :: int
  sb_TxID :: u32
  sb_Algo :: string
  sb_ElementSize :: int
  sb_Filter :: SyncFilter
  sb_LocalCount :: int
  sb_MaxSymbols :: int
  sb_MaxBytes :: int

record SyncSymbol =
  sym_C :: "32 word"
  sym_H :: u64
  sym_B :: bytes

record SyncSymbols =
  ss_MsgType :: int
  ss_TxID :: u32
  ss_Index :: int
  ss_Symbols :: "SyncSymbol list"
  ss_Done :: bool

record SyncNeed =
  sn_MsgType :: int
  sn_TxID :: u32
  sn_IDs :: "bytes list"

record SyncRecord =
  sr_Pk :: bytes
  sr_Kw :: bytes
  sr_Ih :: bytes
  sr_T :: "64 word"
  sr_Pow :: u64
  sr_Sig :: bytes

record SyncRecords =
  sc_MsgType :: int
  sc_TxID :: u32
  sc_Records :: "SyncRecord list"
  sc_Missing :: "bytes list"

record SyncEnd =
  se_MsgType :: int
  se_TxID :: u32
  se_Status :: string
  se_Decoded :: int
  se_Sent :: int
  se_BytesIn :: int
  se_BytesOut :: int
  se_AbortCode :: int

section \<open>The bencode library\<close>

datatype frame =
    FQuery Query | FResult Result | FReject Reject | FAnnounce PeerAnnounce
  | FBegin SyncBegin | FSymbols SyncSymbols | FNeed SyncNeed | FRecords SyncRecords | FEnd SyncEnd

fun frame_header :: "frame \<Rightarrow> peekHeader" where
  "frame_header (FQuery m) = \<lparr>p_MsgType = q_MsgType m, p_TxID = q_TxID m\<rparr>"
| "frame_header (FResult m) = \<lparr>p_MsgType = r_MsgType m, p_TxID = r_TxID m\<rparr>"
| "frame_header (FReject m) = \<lparr>p_MsgType = j_MsgType m, p_TxID = j_TxID m\<rparr>"
| "frame_header (FAnnounce m) = \<lparr>p_MsgType = a_MsgType m, p_TxID = 0\<rparr>"
| "frame_header (FBegin m) = \<lparr>p_MsgType = sb_MsgType m, p_TxID = sb_TxID m\<rparr>"
| "frame_header (FSymbols m) = \<lparr>p_MsgType = ss_MsgType m, p_TxID = ss_TxID m\<rparr>"
| "frame_header (FNeed m) = \<lparr>p_MsgType = sn_MsgType m, p_TxID = sn_TxID m\<rparr>"
| "frame_header (FRecords m) = \<lparr>p_MsgType = sc_MsgType m, p_TxID = sc_TxID m\<rparr>"
| "frame_header (FEnd m) = \<lparr>p_MsgType = se_MsgType m, p_TxID = se_TxID m\<rparr>"

record wire =
  bmarshal :: "frame \<Rightarrow> bytes option"
  u_header :: "nat option \<Rightarrow> bytes \<Rightarrow> peekHeader option"
  u_query :: "nat option \<Rightarrow> bytes \<Rightarrow> Query option"
  u_result :: "nat option \<Rightarrow> bytes \<Rightarrow> Result option"
  u_reject :: "nat option \<Rightarrow> bytes \<Rightarrow> Reject option"
  u_announce :: "nat option \<Rightarrow> bytes \<Rightarrow> PeerAnnounce option"
  u_begin :: "nat option \<Rightarrow> bytes \<Rightarrow> SyncBegin option"
  u_symbols :: "nat option \<Rightarrow> bytes \<Rightarrow> SyncSymbols option"
  u_need :: "nat option \<Rightarrow> bytes \<Rightarrow> SyncNeed option"
  u_records :: "nat option \<Rightarrow> bytes \<Rightarrow> SyncRecords option"
  u_end :: "nat option \<Rightarrow> bytes \<Rightarrow> SyncEnd option"

text \<open>\<open>MaxStrLen\<close> is the payload length, unless the payload is empty.\<close>

definition decodeBounded :: "(nat option \<Rightarrow> bytes \<Rightarrow> 'm option) \<Rightarrow> bytes \<Rightarrow> 'm option" where
  "decodeBounded u payload = u (if length payload > 0 then Some (length payload) else None) payload"

text \<open>The typed view of a frame, for stating the library's round trip.\<close>

fun unmarshals :: "wire \<Rightarrow> bytes \<Rightarrow> frame \<Rightarrow> bool" where
  "unmarshals W b (FQuery m) \<longleftrightarrow> decodeBounded (u_query W) b = Some m"
| "unmarshals W b (FResult m) \<longleftrightarrow> decodeBounded (u_result W) b = Some m"
| "unmarshals W b (FReject m) \<longleftrightarrow> decodeBounded (u_reject W) b = Some m"
| "unmarshals W b (FAnnounce m) \<longleftrightarrow> decodeBounded (u_announce W) b = Some m"
| "unmarshals W b (FBegin m) \<longleftrightarrow> decodeBounded (u_begin W) b = Some m"
| "unmarshals W b (FSymbols m) \<longleftrightarrow> decodeBounded (u_symbols W) b = Some m"
| "unmarshals W b (FNeed m) \<longleftrightarrow> decodeBounded (u_need W) b = Some m"
| "unmarshals W b (FRecords m) \<longleftrightarrow> decodeBounded (u_records W) b = Some m"
| "unmarshals W b (FEnd m) \<longleftrightarrow> decodeBounded (u_end W) b = Some m"

definition wire_ok :: "wire \<Rightarrow> bool" where
  "wire_ok W \<longleftrightarrow>
     (\<forall>f b. bmarshal W f = Some b \<longrightarrow>
        unmarshals W b f \<and> decodeBounded (u_header W) b = Some (frame_header f))"

section \<open>Peeking\<close>

datatype wire_error =
    ErrBencode | ErrMsgType int | ErrSymbolCount nat | ErrSymbolSize nat | ErrNeedCount nat
  | ErrNeedSize nat | ErrRecordsCount nat | ErrRecordShape | ErrElementSize int | ErrEndorsedCap
  | ErrEndorsedSize nat

definition PeekMsgType :: "wire \<Rightarrow> bytes \<Rightarrow> wire_error + int" where
  "PeekMsgType W payload =
     (case decodeBounded (u_header W) payload of None \<Rightarrow> Inl ErrBencode | Some h \<Rightarrow> Inr (p_MsgType h))"

definition PeekTxID :: "wire \<Rightarrow> bytes \<Rightarrow> u32" where
  "PeekTxID W payload =
     (case decodeBounded (u_header W) payload of None \<Rightarrow> 0 | Some h \<Rightarrow> p_TxID h)"

text \<open>\<open>bencode.Marshal\<close> of a frame.\<close>

definition Marshal :: "wire \<Rightarrow> frame \<Rightarrow> wire_error + bytes" where
  "Marshal W f = (case bmarshal W f of None \<Rightarrow> Inl ErrBencode | Some b \<Rightarrow> Inr b)"

section \<open>Truncation\<close>

text \<open>The loop of \<open>truncateUTF8\<close>: the cut position, from \<open>i\<close> on.\<close>

function trunc_at :: "bytes \<Rightarrow> nat \<Rightarrow> nat \<Rightarrow> nat" where
  "trunc_at s lim i =
     (if i < length s then
        let size = rune_size (drop i s) in
        if i + size > lim then i else trunc_at s lim (i + size)
      else i)"
  by pat_completeness auto
termination
proof (relation "measure (\<lambda>(s, _, i). length s - i)")
  fix s :: bytes and lim i x
  assume "i < length s" "x = rune_size (drop i s)"
  moreover from this have "1 \<le> x" using rune_size_bounds [of "drop i s"] by simp
  ultimately show "((s, lim, i + x), (s, lim, i)) \<in> measure (\<lambda>(s, _, i). length s - i)" by simp
qed simp

declare trunc_at.simps [simp del]

definition truncateUTF8 :: "bytes \<Rightarrow> nat \<Rightarrow> bytes" where
  "truncateUTF8 s lim = (if length s \<le> lim then s else take (trunc_at s lim 0) s)"

section \<open>Encoders\<close>

definition clampRank :: "int \<Rightarrow> int" where
  "clampRank r = (if r < 0 then 0 else if r > 1000 then 1000 else r)"

definition norm_match :: "FileMatch \<Rightarrow> FileMatch" where
  "norm_match m = m\<lparr>FP := truncateUTF8 (FP m) MaxHitNameBytes\<rparr>"

definition norm_hit :: "Hit \<Rightarrow> Hit" where
  "norm_hit h = h\<lparr>hit_N := truncateUTF8 (hit_N h) MaxHitNameBytes, hit_Rank := clampRank (hit_Rank h),
     hit_T := (if hit_T h < 0 then 0 else hit_T h), hit_Matches := map norm_match (hit_Matches h)\<rparr>"

definition EncodeQuery :: "wire \<Rightarrow> Query \<Rightarrow> wire_error + bytes" where
  "EncodeQuery W q = Marshal W (FQuery (q\<lparr>q_MsgType := MsgTypeQuery\<rparr>))"

definition EncodeResult :: "wire \<Rightarrow> Result \<Rightarrow> wire_error + bytes" where
  "EncodeResult W r =
     Marshal W (FResult (r\<lparr>r_MsgType := MsgTypeResult, r_Hits := map norm_hit (r_Hits r)\<rparr>))"

definition EncodeReject :: "wire \<Rightarrow> Reject \<Rightarrow> wire_error + bytes" where
  "EncodeReject W r = Marshal W (FReject (r\<lparr>j_MsgType := MsgTypeReject\<rparr>))"

fun check_sizes :: "nat \<Rightarrow> (nat \<Rightarrow> wire_error) \<Rightarrow> bytes list \<Rightarrow> wire_error option" where
  "check_sizes n err [] = None"
| "check_sizes n err (x # xs) = (if length x \<noteq> n then Some (err (length x)) else check_sizes n err xs)"

definition EncodePeerAnnounce :: "wire \<Rightarrow> PeerAnnounce \<Rightarrow> wire_error + bytes" where
  "EncodePeerAnnounce W pa =
     (if length (a_Endorsed pa) > MaxEndorsedPerAnnounce then Inl ErrEndorsedCap
      else case check_sizes 32 ErrEndorsedSize (a_Endorsed pa) of
             Some e \<Rightarrow> Inl e
           | None \<Rightarrow> Marshal W (FAnnounce (pa\<lparr>a_MsgType := MsgTypePeerAnnounce, a_Version := ProtocolVersion\<rparr>)))"

definition EncodeSyncBegin :: "wire \<Rightarrow> SyncBegin \<Rightarrow> wire_error + bytes" where
  "EncodeSyncBegin W m = Marshal W (FBegin (m\<lparr>sb_MsgType := MsgTypeSyncBegin,
     sb_Algo := (if sb_Algo m = [] then SyncAlgo else sb_Algo m),
     sb_ElementSize := (if sb_ElementSize m = 0 then int RIBLTElementSize else sb_ElementSize m)\<rparr>))"

definition EncodeSyncSymbols :: "wire \<Rightarrow> SyncSymbols \<Rightarrow> wire_error + bytes" where
  "EncodeSyncSymbols W m =
     (if length (ss_Symbols m) < 1 \<or> length (ss_Symbols m) > MaxSymbolsPerMessage
      then Inl (ErrSymbolCount (length (ss_Symbols m)))
      else case check_sizes RIBLTElementSize ErrSymbolSize (map sym_B (ss_Symbols m)) of
             Some e \<Rightarrow> Inl e
           | None \<Rightarrow> Marshal W (FSymbols (m\<lparr>ss_MsgType := MsgTypeSyncSymbols\<rparr>)))"

definition EncodeSyncNeed :: "wire \<Rightarrow> SyncNeed \<Rightarrow> wire_error + bytes" where
  "EncodeSyncNeed W m =
     (if length (sn_IDs m) > MaxNeedIDsPerMessage then Inl (ErrNeedCount (length (sn_IDs m)))
      else case check_sizes 32 ErrNeedSize (sn_IDs m) of
             Some e \<Rightarrow> Inl e
           | None \<Rightarrow> Marshal W (FNeed (m\<lparr>sn_MsgType := MsgTypeSyncNeed\<rparr>)))"

definition validSyncRecord :: "SyncRecord \<Rightarrow> bool" where
  "validSyncRecord r \<longleftrightarrow>
     length (sr_Pk r) = 32 \<and> length (sr_Ih r) = 20 \<and> length (sr_Sig r) = 64 \<and>
     1 \<le> length (sr_Kw r) \<and> length (sr_Kw r) \<le> 64"

definition EncodeSyncRecords :: "wire \<Rightarrow> SyncRecords \<Rightarrow> wire_error + bytes" where
  "EncodeSyncRecords W m =
     (if length (sc_Records m) > MaxRecordsPerMessage then Inl (ErrRecordsCount (length (sc_Records m)))
      else if \<not> list_all validSyncRecord (sc_Records m) then Inl ErrRecordShape
      else Marshal W (FRecords (m\<lparr>sc_MsgType := MsgTypeSyncRecords\<rparr>)))"

definition EncodeSyncEnd :: "wire \<Rightarrow> SyncEnd \<Rightarrow> wire_error + bytes" where
  "EncodeSyncEnd W m = Marshal W (FEnd (m\<lparr>se_MsgType := MsgTypeSyncEnd,
     se_Status := (if se_Status m = [] then SyncStatusConverged else se_Status m)\<rparr>))"

section \<open>Decoders\<close>

definition DecodeQuery :: "wire \<Rightarrow> bytes \<Rightarrow> wire_error + Query" where
  "DecodeQuery W payload =
     (case decodeBounded (u_query W) payload of
        None \<Rightarrow> Inl ErrBencode
      | Some m \<Rightarrow> if q_MsgType m \<noteq> MsgTypeQuery then Inl (ErrMsgType (q_MsgType m)) else Inr m)"

definition DecodeResult :: "wire \<Rightarrow> bytes \<Rightarrow> wire_error + Result" where
  "DecodeResult W payload =
     (case decodeBounded (u_result W) payload of
        None \<Rightarrow> Inl ErrBencode
      | Some m \<Rightarrow> if r_MsgType m \<noteq> MsgTypeResult then Inl (ErrMsgType (r_MsgType m)) else Inr m)"

definition DecodeReject :: "wire \<Rightarrow> bytes \<Rightarrow> wire_error + Reject" where
  "DecodeReject W payload =
     (case decodeBounded (u_reject W) payload of
        None \<Rightarrow> Inl ErrBencode
      | Some m \<Rightarrow> if j_MsgType m \<noteq> MsgTypeReject then Inl (ErrMsgType (j_MsgType m)) else Inr m)"

text \<open>The loop that keeps the first ten entries of 32 bytes.\<close>

fun clean_endorsed :: "bytes list \<Rightarrow> bytes list \<Rightarrow> bytes list" where
  "clean_endorsed clean [] = clean"
| "clean_endorsed clean (e # es) =
     (if length clean \<ge> MaxEndorsedPerAnnounce then clean
      else clean_endorsed (if length e = 32 then clean @ [e] else clean) es)"

definition DecodePeerAnnounce :: "wire \<Rightarrow> bytes \<Rightarrow> wire_error + PeerAnnounce" where
  "DecodePeerAnnounce W payload =
     (case decodeBounded (u_announce W) payload of
        None \<Rightarrow> Inl ErrBencode
      | Some m \<Rightarrow>
          if a_MsgType m \<noteq> MsgTypePeerAnnounce then Inl (ErrMsgType (a_MsgType m))
          else Inr (m\<lparr>a_Endorsed := clean_endorsed [] (a_Endorsed m)\<rparr>))"

definition DecodeSyncBegin :: "wire \<Rightarrow> bytes \<Rightarrow> wire_error + SyncBegin" where
  "DecodeSyncBegin W payload =
     (case decodeBounded (u_begin W) payload of
        None \<Rightarrow> Inl ErrBencode
      | Some m \<Rightarrow>
          if sb_MsgType m \<noteq> MsgTypeSyncBegin then Inl (ErrMsgType (sb_MsgType m))
          else if sb_ElementSize m \<noteq> int RIBLTElementSize then Inl (ErrElementSize (sb_ElementSize m))
          else Inr m)"

definition DecodeSyncSymbols :: "wire \<Rightarrow> bytes \<Rightarrow> wire_error + SyncSymbols" where
  "DecodeSyncSymbols W payload =
     (case decodeBounded (u_symbols W) payload of
        None \<Rightarrow> Inl ErrBencode
      | Some m \<Rightarrow>
          if ss_MsgType m \<noteq> MsgTypeSyncSymbols then Inl (ErrMsgType (ss_MsgType m))
          else if length (ss_Symbols m) < 1 \<or> length (ss_Symbols m) > MaxSymbolsPerMessage
          then Inl (ErrSymbolCount (length (ss_Symbols m)))
          else case check_sizes RIBLTElementSize ErrSymbolSize (map sym_B (ss_Symbols m)) of
                 Some e \<Rightarrow> Inl e | None \<Rightarrow> Inr m)"

definition DecodeSyncNeed :: "wire \<Rightarrow> bytes \<Rightarrow> wire_error + SyncNeed" where
  "DecodeSyncNeed W payload =
     (case decodeBounded (u_need W) payload of
        None \<Rightarrow> Inl ErrBencode
      | Some m \<Rightarrow>
          if sn_MsgType m \<noteq> MsgTypeSyncNeed then Inl (ErrMsgType (sn_MsgType m))
          else if length (sn_IDs m) > MaxNeedIDsPerMessage then Inl (ErrNeedCount (length (sn_IDs m)))
          else case check_sizes 32 ErrNeedSize (sn_IDs m) of Some e \<Rightarrow> Inl e | None \<Rightarrow> Inr m)"

definition DecodeSyncRecords :: "wire \<Rightarrow> bytes \<Rightarrow> wire_error + SyncRecords" where
  "DecodeSyncRecords W payload =
     (case decodeBounded (u_records W) payload of
        None \<Rightarrow> Inl ErrBencode
      | Some m \<Rightarrow>
          if sc_MsgType m \<noteq> MsgTypeSyncRecords then Inl (ErrMsgType (sc_MsgType m))
          else if length (sc_Records m) > MaxRecordsPerMessage
          then Inl (ErrRecordsCount (length (sc_Records m)))
          else if \<not> list_all validSyncRecord (sc_Records m) then Inl ErrRecordShape
          else Inr m)"

definition DecodeSyncEnd :: "wire \<Rightarrow> bytes \<Rightarrow> wire_error + SyncEnd" where
  "DecodeSyncEnd W payload =
     (case decodeBounded (u_end W) payload of
        None \<Rightarrow> Inl ErrBencode
      | Some m \<Rightarrow> if se_MsgType m \<noteq> MsgTypeSyncEnd then Inl (ErrMsgType (se_MsgType m)) else Inr m)"

section \<open>Lemmas\<close>

lemma check_sizes_None: "check_sizes n err xs = None \<longleftrightarrow> (\<forall>x \<in> set xs. length x = n)"
  by (induction xs) auto

lemma clean_endorsed_eq:
  "length clean \<le> MaxEndorsedPerAnnounce \<Longrightarrow>
     clean_endorsed clean es = take MaxEndorsedPerAnnounce (clean @ filter (\<lambda>e. length e = 32) es)"
  by (induction clean es rule: clean_endorsed.induct) (auto simp: Suc_le_eq take_Cons')

lemma Marshal_Inr: "Marshal W f = Inr b \<Longrightarrow> wire_ok W \<Longrightarrow>
    unmarshals W b f \<and> decodeBounded (u_header W) b = Some (frame_header f)"
  by (auto simp: Marshal_def wire_ok_def split: option.splits)

subsection \<open>Truncation\<close>

text \<open>A slice as the runes \<open>utf8.DecodeRuneInString\<close> reads from it.\<close>

function runes :: "bytes \<Rightarrow> bytes list" where
  "runes s = (if s = [] then [] else take (rune_size s) s # runes (drop (rune_size s) s))"
  by pat_completeness auto
termination
proof (relation "measure length")
  fix s :: bytes
  assume "s \<noteq> []"
  then show "(drop (rune_size s) s, s) \<in> measure length" using rune_size_bounds [of s] by simp
qed simp

declare runes.simps [simp del]

lemma runes_Nil [simp]: "runes [] = []"
  by (simp add: runes.simps)

lemma trunc_at_runes:
  assumes "i \<le> length s" and "i \<le> lim"
  shows "\<exists>k \<le> length (runes (drop i s)). trunc_at s lim i = i + length (concat (take k (runes (drop i s)))) \<and>
    take (trunc_at s lim i) s = take i s @ concat (take k (runes (drop i s))) \<and> trunc_at s lim i \<le> lim \<and>
    (k < length (runes (drop i s)) \<longrightarrow> lim < trunc_at s lim i + length (runes (drop i s) ! k))"
  using assms
proof (induction s lim i rule: trunc_at.induct)
  case (1 s lim i)
  show ?case
  proof (cases "i < length s")
    case False
    then have "trunc_at s lim i = i" by (subst trunc_at.simps) simp
    with False 1(2,3) show ?thesis by simp
  next
    case True
    let ?n = "rune_size (drop i s)"
    have n: "1 \<le> ?n" "i + ?n \<le> length s" using rune_size_bounds [of "drop i s"] True by auto
    have r: "runes (drop i s) = take ?n (drop i s) # runes (drop (i + ?n) s)"
      using True by (subst runes.simps) (simp add: add.commute)
    show ?thesis
    proof (cases "i + ?n > lim")
      case big: True
      then have "trunc_at s lim i = i" using True by (simp add: trunc_at.simps [of s lim i])
      with big n 1(3) show ?thesis by (intro exI [of _ 0]) (simp add: r)
    next
      case False
      then have t: "trunc_at s lim i = trunc_at s lim (i + ?n)" using True by (simp add: trunc_at.simps [of s lim i])
      obtain k where k: "k \<le> length (runes (drop (i + ?n) s))"
        "trunc_at s lim (i + ?n) = i + ?n + length (concat (take k (runes (drop (i + ?n) s))))"
        "take (trunc_at s lim (i + ?n)) s = take (i + ?n) s @ concat (take k (runes (drop (i + ?n) s)))"
        "trunc_at s lim (i + ?n) \<le> lim"
        "k < length (runes (drop (i + ?n) s)) \<longrightarrow> lim < trunc_at s lim (i + ?n) + length (runes (drop (i + ?n) s) ! k)"
        using 1(1) [OF True refl False n(2)] False not_less by blast
      then show ?thesis using n by (intro exI [of _ "Suc k"]) (simp add: r t take_add)
    qed
  qed
qed

subsection \<open>Bits\<close>

lemma bit_set_if: "bit (set_if c (push_bit k 1) m) n \<longleftrightarrow> bit m n \<or> c \<and> n = k \<and> k < 64"
  by (auto simp: set_if_def bit_simps)

section \<open>Properties\<close>

text \<open>
  The announced mask has no default floor and no hidden bits: bit by bit it is exactly the
  operator's sharing settings and the node's run-time facts, the two sharing bits exclude each
  other, every reserved bit is clear, and the frame handler's test \<open>Has\<close> reads a single bit.
\<close>

lemma announced_bits:
  "(bit (Announced s f) n \<longleftrightarrow>
     (n = 0 \<and> ShareLocal s = 2) \<or> (n = 1 \<and> ShareLocal s = 1) \<or> (n = 2 \<and> FileHits s) \<or>
     (n = 3 \<and> ContentHits s) \<or> (n = 4 \<and> Publishing f) \<or> (n = 5 \<and> CompanionPub f) \<or>
     (n = 6 \<and> CompanionSub f) \<or> (n = 7 \<and> SnippetHighlight f) \<or> (n = 8 \<and> Regtest f) \<or>
     (n = 9 \<and> Reconciliation f)) \<and>
   (Has (Announced s f) BitSetReconciliation \<longleftrightarrow> Reconciliation f)"
proof -
  have b: "bit (Announced s f) n \<longleftrightarrow>
     (n = 0 \<and> ShareLocal s = 2) \<or> (n = 1 \<and> ShareLocal s = 1) \<or> (n = 2 \<and> FileHits s) \<or>
     (n = 3 \<and> ContentHits s) \<or> (n = 4 \<and> Publishing f) \<or> (n = 5 \<and> CompanionPub f) \<or>
     (n = 6 \<and> CompanionSub f) \<or> (n = 7 \<and> SnippetHighlight f) \<or> (n = 8 \<and> Regtest f) \<or>
     (n = 9 \<and> Reconciliation f)" for n
    unfolding Announced_def Let_def service_bits bit_set_if
    by (auto simp: bit_simps simp del: push_bit_of_1)
  have "Has m (push_bit k 1) \<longleftrightarrow> bit m k" if "k < 64" for m :: u64 and k
    unfolding Has_def by (subst bit_eq_iff) (use that in \<open>auto simp: bit_simps simp del: push_bit_of_1\<close>)
  then show ?thesis using b [of n] b [of 9] by (simp add: BitSetReconciliation_def del: push_bit_of_1)
qed


text \<open>A concrete library for the closed examples: the header bytes, then nothing; only announcements
  without endorsements and empty needs are marshalled.\<close>

definition toy_wire :: wire where
  "toy_wire = \<lparr>bmarshal = (\<lambda>f. case f of FNeed m \<Rightarrow> if sn_IDs m = [] \<and> sn_MsgType m = 6 then Some (put_u32 (sn_TxID m)) else None | _ \<Rightarrow> None),
     u_header = (\<lambda>_ b. Some \<lparr>p_MsgType = 6, p_TxID = get_u32 b\<rparr>), u_query = (\<lambda>_ _. None), u_result = (\<lambda>_ _. None),
     u_reject = (\<lambda>_ _. None), u_announce = (\<lambda>_ _. None), u_begin = (\<lambda>_ _. None), u_symbols = (\<lambda>_ _. None),
     u_need = (\<lambda>_ b. Some \<lparr>sn_MsgType = 6, sn_TxID = get_u32 b, sn_IDs = []\<rparr>), u_records = (\<lambda>_ _. None),
     u_end = (\<lambda>_ _. None)\<rparr>"

lemma toy_wire_ok: "wire_ok toy_wire"
  by (auto simp: wire_ok_def toy_wire_def decodeBounded_def split: frame.splits if_splits)


text \<open>
  Truncating a name never splits a character: the result is the longest list of whole runes of
  the name that fits the limit (an invalid byte counts as a rune of its own), and a name that fits
  is left alone.
\<close>

lemma truncate_whole_runes:
  "\<exists>k \<le> length (runes s). truncateUTF8 s lim = concat (take k (runes s)) \<and> length (truncateUTF8 s lim) \<le> lim \<and>
     (k = length (runes s) \<or> lim < length (truncateUTF8 s lim) + length (runes s ! k))"
proof -
  have c: "concat (runes s) = s" for s
  proof (induction s rule: runes.induct)
    case (1 s)
    then show ?case by (cases "s = []") (simp_all add: runes.simps [of s])
  qed
  show ?thesis
  proof (cases "length s \<le> lim")
    case True
    then show ?thesis by (intro exI [of _ "length (runes s)"]) (simp add: truncateUTF8_def c)
  next
    case False
    obtain k where "k \<le> length (runes s)" "take (trunc_at s lim 0) s = concat (take k (runes s))"
      "trunc_at s lim 0 \<le> lim" "trunc_at s lim 0 = length (concat (take k (runes s)))"
      "k < length (runes s) \<longrightarrow> lim < trunc_at s lim 0 + length (runes s ! k)"
      using trunc_at_runes [of 0 s lim] unfolding drop_0 take_0 append_Nil add_0 by blast
    with False show ?thesis by (intro exI [of _ k]) (auto simp: truncateUTF8_def)
  qed
qed

end
