(* ===== verification/Record_Cache.thy ===== *)
theory Record_Cache
  imports Signed_Record Ltepwire "HOL-Library.AList"
begin

text \<open>
  The store of synced records (\<^verbatim>\<open>internal/swarmsearch/records.go\<close>): a map keyed by \<open>ElementID\<close> with a
  FIFO order and a cap.  The Go map is an association list with distinct keys; the order in which
  it lists its entries stands for one of the unspecified iteration orders of Go, and the lemmas
  state sets.  The interfaces \<open>RecordSource\<close> and \<open>RecordSink\<close> are the locale \<open>record_sink\<close>.
\<close>

record RecordCache =
  c_m :: "(bytes \<times> Record) list"
  c_order :: "bytes list"
  c_max :: int

definition NewRecordCache :: RecordCache where
  "NewRecordCache = \<lparr>c_m = [], c_order = [], c_max = 0\<rparr>"

definition SetMaxRecords :: "RecordCache \<Rightarrow> int \<Rightarrow> RecordCache" where
  "SetMaxRecords c n = c\<lparr>c_max := n\<rparr>"

definition MaxRecords :: "RecordCache \<Rightarrow> int" where
  "MaxRecords c = c_max c"

definition cache_Len :: "RecordCache \<Rightarrow> nat" where
  "cache_Len c = length (c_m c)"

text \<open>The eviction loop: drop order entries up to and including the first live one.\<close>

fun evict :: "(bytes \<times> Record) list \<Rightarrow> bytes list \<Rightarrow> (bytes \<times> Record) list \<times> bytes list" where
  "evict m [] = (m, [])"
| "evict m (head # order) =
     (case map_of m head of Some _ \<Rightarrow> (AList.delete head m, order) | None \<Rightarrow> evict m order)"

definition cache_Add :: "crypto \<Rightarrow> RecordCache \<Rightarrow> Record \<Rightarrow> RecordCache" where
  "cache_Add C c r =
     (let eid = ElementID C r in
      case map_of (c_m c) eid of
        Some _ \<Rightarrow> c\<lparr>c_m := AList.update eid r (c_m c)\<rparr>
      | None \<Rightarrow>
        let (m, order) =
              (if c_max c > 0 \<and> int (length (c_m c)) \<ge> c_max c then evict (c_m c) (c_order c)
               else (c_m c, c_order c))
        in c\<lparr>c_m := AList.update eid r m, c_order := order @ [eid]\<rparr>)"

definition cache_Get :: "RecordCache \<Rightarrow> bytes \<Rightarrow> Record option" where
  "cache_Get c eid = map_of (c_m c) eid"

definition cache_Remove :: "RecordCache \<Rightarrow> bytes \<Rightarrow> RecordCache" where
  "cache_Remove c eid = c\<lparr>c_m := AList.delete eid (c_m c)\<rparr>"

definition PruneOlderThan :: "RecordCache \<Rightarrow> 64 word \<Rightarrow> nat \<times> RecordCache" where
  "PruneOlderThan c cutoff =
     (let old = (\<lambda>e. sint (T (snd e)) < sint cutoff);
          n = length (filter old (c_m c));
          m = filter (\<lambda>e. \<not> old e) (c_m c)
      in if n > 0
         then (n, c\<lparr>c_m := m, c_order := filter (\<lambda>eid. map_of m eid \<noteq> None) (c_order c)\<rparr>)
         else (n, c\<lparr>c_m := m\<rparr>))"

definition Snapshot :: "RecordCache \<Rightarrow> Record list" where
  "Snapshot c = map snd (c_m c)"

definition matchFilter :: "Record \<Rightarrow> SyncFilter \<Rightarrow> bool" where
  "matchFilter r f \<longleftrightarrow>
     \<not> (length (Pubkeys f) > 0 \<and> \<not> list_ex (\<lambda>pk. length pk = 32 \<and> copy_array 32 pk = Pk r) (Pubkeys f)) \<and>
     \<not> (Since f > 0 \<and> sint (T r) < Since f) \<and>
     \<not> (Prefix f \<noteq> [] \<and> \<not> has_prefix (Kw r) (Prefix f))"

definition LocalRecords :: "RecordCache \<Rightarrow> SyncFilter \<Rightarrow> Record list" where
  "LocalRecords c f = filter (\<lambda>r. matchFilter r f) (map snd (c_m c))"

definition syncRecordWireSize :: "Record \<Rightarrow> int" where
  "syncRecordWireSize r = 32 + int (length (Kw r)) + 20 + 8 + 8 + 64"

section \<open>The contract of a record sink\<close>

text \<open>
  What the reconciliation code relies on: a stored record can be read back under its element
  identifier, and storing invents nothing.
\<close>

locale record_sink =
  fixes put :: "'s \<Rightarrow> Record \<Rightarrow> 's" and get :: "'s \<Rightarrow> bytes \<Rightarrow> Record option" and key :: "Record \<Rightarrow> bytes"
  assumes get_put: "get (put s r) (key r) = Some r"
    and put_only: "get (put s r) eid = Some x \<Longrightarrow> eid \<noteq> key r \<Longrightarrow> get s eid = Some x"
begin

definition absorb :: "(Record \<Rightarrow> bool) \<Rightarrow> Record list \<Rightarrow> 's \<Rightarrow> 's" where
  "absorb ok rs s = fold (\<lambda>r s. put s r) (filter ok rs) s"

lemma fold_put_only:
  assumes "get (fold (\<lambda>r s. put s r) rs s) eid = Some x"
  shows "get s eid = Some x \<or> (x \<in> set rs \<and> key x = eid)"
  using assms
proof (induction rs arbitrary: s)
  case (Cons r rs)
  then have "get (put s r) eid = Some x \<or> (x \<in> set rs \<and> key x = eid)" by simp
  then show ?case using get_put [of s r] put_only [of s r eid x] by (cases "eid = key r") auto
qed simp

text \<open>A sink only ever holds what it held before or an accepted record, and it holds the last one.\<close>

lemma absorb_only:
  "get (absorb ok rs s) eid = Some x \<Longrightarrow> get s eid = Some x \<or> (x \<in> set rs \<and> ok x \<and> key x = eid)"
  using fold_put_only [of "filter ok rs" s eid x] by (auto simp: absorb_def)

lemma absorb_last: "ok r \<Longrightarrow> get (absorb ok (rs @ [r]) s) (key r) = Some r"
  by (simp add: absorb_def get_put)

end

section \<open>Lemmas\<close>

lemma AList_delete_length:
  "distinct (map fst m) \<Longrightarrow> map_of m k = Some v \<Longrightarrow> Suc (length (AList.delete k m)) = length m"
proof (induction m)
  case (Cons e m)
  obtain a b where e: "e = (a, b)" by force
  show ?case
  proof (cases "a = k")
    case True
    have "map_of m k = None" using Cons.prems(1) True e by (simp add: map_of_eq_None_iff)
    then have "AList.delete k m = m" using e by (simp add: AList.delete_idem map_of_eq_None_iff)
    with e True show ?thesis by simp
  next
    case False
    with Cons e show ?thesis by simp
  qed
qed simp

lemma AList_update_new: "map_of m k = None \<Longrightarrow> AList.update k v m = m @ [(k, v)]"
  by (induction m) (auto split: if_splits)

lemma AList_update_length: "map_of m k = Some w \<Longrightarrow> length (AList.update k v m) = length m"
  by (induction m) auto

lemma map_of_evict: "fst (evict m order) = m \<or>
    (\<exists>head \<in> set order. fst (evict m order) = AList.delete head m)"
  by (induction m order rule: evict.induct) (auto split: option.splits)

lemma get_delete: "map_of (AList.delete k m) eid = (if eid = k then None else map_of m eid)"
  by (simp add: AList.delete_conv')

lemma get_update: "map_of (AList.update k v m) eid = (if eid = k then Some v else map_of m eid)"
  by (simp add: AList.update_conv')

lemma cache_Get_Add: "cache_Get (cache_Add C c r) (ElementID C r) = Some r"
  by (simp add: cache_Get_def cache_Add_def Let_def get_update case_prod_unfold split: option.split)

lemma cache_Get_Add_only:
  assumes "cache_Get (cache_Add C c r) eid = Some x" and "eid \<noteq> ElementID C r"
  shows "cache_Get c eid = Some x"
  using assms map_of_evict [of "c_m c" "c_order c"]
  by (auto simp: cache_Get_def cache_Add_def Let_def get_update get_delete case_prod_unfold
      split: if_splits option.splits)

interpretation cache_sink: record_sink "cache_Add C" cache_Get "ElementID C"
  by unfold_locales (rule cache_Get_Add, erule (1) cache_Get_Add_only)

subsection \<open>Reachable caches\<close>

text \<open>Every operation but a change of the cap, from a cache with a fixed cap.\<close>

inductive cache_reach :: "crypto \<Rightarrow> int \<Rightarrow> RecordCache \<Rightarrow> bool" for C n where
  new: "cache_reach C n (SetMaxRecords NewRecordCache n)"
| add: "cache_reach C n c \<Longrightarrow> cache_reach C n (cache_Add C c r)"
| remove: "cache_reach C n c \<Longrightarrow> cache_reach C n (cache_Remove c eid)"
| prune: "cache_reach C n c \<Longrightarrow> cache_reach C n (snd (PruneOlderThan c t))"

definition cache_inv :: "crypto \<Rightarrow> int \<Rightarrow> RecordCache \<Rightarrow> bool" where
  "cache_inv C n c \<longleftrightarrow>
     c_max c = n \<and> distinct (map fst (c_m c)) \<and> (\<forall>(eid, r) \<in> set (c_m c). eid = ElementID C r) \<and>
     set (map fst (c_m c)) \<subseteq> set (c_order c) \<and> (n > 0 \<longrightarrow> int (cache_Len c) \<le> n)"

lemma delete_keys: "set (map fst (AList.delete k m)) = set (map fst m) - {k}"
  by (induction m) auto

lemma set_AList_delete: "set (AList.delete k m) \<subseteq> set m"
  by (auto simp: AList.delete_eq)

lemma evict_shrinks:
  assumes "distinct (map fst m)" and "set (map fst m) \<subseteq> set order" and "m \<noteq> []"
  shows "Suc (length (fst (evict m order))) = length m"
    and "set (map fst (fst (evict m order))) \<subseteq> set (snd (evict m order))"
    and "\<exists>k. fst (evict m order) = AList.delete k m \<and> k \<in> set order"
proof -
  have "Suc (length (fst (evict m order))) = length m \<and>
      set (map fst (fst (evict m order))) \<subseteq> set (snd (evict m order)) \<and>
      (\<exists>k. fst (evict m order) = AList.delete k m \<and> k \<in> set order)"
    using assms
  proof (induction m order rule: evict.induct)
    case (2 m head order)
    show ?case
    proof (cases "map_of m head")
      case (Some v)
      then show ?thesis
        using 2(2,3) AList_delete_length [OF 2(2) Some] delete_keys [of head m] by auto
    next
      case None
      then have "head \<notin> set (map fst m)" by (simp add: map_of_eq_None_iff)
      then have "set (map fst m) \<subseteq> set order" using 2(3) by auto
      with 2(1) [OF None 2(2) _ 2(4)] None show ?thesis by auto
    qed
  qed auto
  then show "Suc (length (fst (evict m order))) = length m"
    "set (map fst (fst (evict m order))) \<subseteq> set (snd (evict m order))"
    "\<exists>k. fst (evict m order) = AList.delete k m \<and> k \<in> set order" by auto
qed

lemma set_update: "set (AList.update k v m) \<subseteq> insert (k, v) (set m)"
  by (induction m) auto

lemma keys_update: "map_of m k = Some w \<Longrightarrow> map fst (AList.update k v m) = map fst m"
  by (induction m) auto

lemma cache_inv_Add:
  assumes "cache_inv C n c"
  shows "cache_inv C n (cache_Add C c r)"
proof (cases "map_of (c_m c) (ElementID C r)")
  case (Some w)
  then show ?thesis
    using assms set_update [of "ElementID C r" r "c_m c"]
    by (auto simp: cache_inv_def cache_Add_def Let_def cache_Len_def AList_update_length keys_update)
next
  case None
  let ?full = "c_max c > 0 \<and> int (length (c_m c)) \<ge> c_max c"
  define e where "e = (if ?full then evict (c_m c) (c_order c) else (c_m c, c_order c))"
  have inv: "distinct (map fst (c_m c))" "set (map fst (c_m c)) \<subseteq> set (c_order c)"
    "\<forall>(eid, r) \<in> set (c_m c). eid = ElementID C r" "c_max c = n" "n > 0 \<longrightarrow> int (length (c_m c)) \<le> n"
    using assms by (auto simp: cache_inv_def cache_Len_def)
  have "distinct (map fst (fst e)) \<and> set (map fst (fst e)) \<subseteq> set (snd e) \<and> set (fst e) \<subseteq> set (c_m c) \<and>
      (n > 0 \<longrightarrow> int (length (fst e)) < n) \<and> map_of (fst e) (ElementID C r) = None"
  proof (cases ?full)
    case True
    then have ne: "c_m c \<noteq> []" by auto
    note ev = evict_shrinks [OF inv(1,2) ne]
    from ev(3) obtain k where k: "fst (evict (c_m c) (c_order c)) = AList.delete k (c_m c)" by blast
    show ?thesis
      using True ev(1,2) inv k None AList.distinct_delete [OF inv(1), of k] set_AList_delete [of k "c_m c"]
      by (auto simp: e_def get_delete)
  next
    case False
    then show ?thesis using inv None by (auto simp: e_def)
  qed
  then have e: "distinct (map fst (fst e))" "set (map fst (fst e)) \<subseteq> set (snd e)" "set (fst e) \<subseteq> set (c_m c)"
    "n > 0 \<longrightarrow> int (length (fst e)) < n" "map_of (fst e) (ElementID C r) = None" by blast+
  have "cache_Add C c r = c\<lparr>c_m := fst e @ [(ElementID C r, r)], c_order := snd e @ [ElementID C r]\<rparr>"
    using None e(5) by (simp add: cache_Add_def Let_def e_def case_prod_unfold AList_update_new)
  then show ?thesis
    using inv e by (auto simp: cache_inv_def cache_Len_def map_of_eq_None_iff)
qed

lemma cache_inv_Remove: "cache_inv C n c \<Longrightarrow> cache_inv C n (cache_Remove c eid)"
proof -
  assume a: "cache_inv C n c"
  have "length (AList.delete eid (c_m c)) \<le> length (c_m c)" by (simp add: AList.delete_eq)
  with a show ?thesis
    using set_AList_delete [of eid "c_m c"] AList.distinct_delete [of "c_m c" eid] delete_keys [of eid "c_m c"]
    by (auto simp: cache_inv_def cache_Remove_def cache_Len_def)
qed

lemma cache_inv_Prune: "cache_inv C n c \<Longrightarrow> cache_inv C n (snd (PruneOlderThan c t))"
proof -
  assume a: "cache_inv C n c"
  define m where "m = filter (\<lambda>e. \<not> sint (T (snd e)) < sint t) (c_m c)"
  have sub: "set m \<subseteq> set (c_m c)" and len: "length m \<le> length (c_m c)" by (auto simp: m_def)
  have d: "distinct (map fst m)" using a by (simp add: cache_inv_def m_def distinct_map_filter)
  have k: "\<forall>(eid, r) \<in> set m. eid = ElementID C r" using a sub by (auto simp: cache_inv_def)
  have "set (map fst m) \<subseteq> set (map fst (c_m c))" unfolding set_map by (rule image_mono [OF sub])
  then have o1: "set (map fst m) \<subseteq> set (c_order c)" using a unfolding cache_inv_def by blast
  then have o2: "set (map fst m) \<subseteq> set (filter (\<lambda>eid. map_of m eid \<noteq> None) (c_order c))"
    by (auto simp: map_of_eq_None_iff simp del: not_None_eq)
  have l: "0 < n \<longrightarrow> int (length m) \<le> n" using a len by (auto simp: cache_inv_def cache_Len_def)
  have x: "c_max c = n" using a by (simp add: cache_inv_def)
  show ?thesis
    using d k o1 o2 l x
    by (simp add: cache_inv_def PruneOlderThan_def cache_Len_def Let_def m_def [symmetric] del: not_None_eq set_filter)
qed

lemma cache_reach_inv: "cache_reach C n c \<Longrightarrow> cache_inv C n c"
proof (induction rule: cache_reach.induct)
  case new
  show ?case by (auto simp: cache_inv_def SetMaxRecords_def NewRecordCache_def cache_Len_def)
qed (auto intro: cache_inv_Add cache_inv_Remove cache_inv_Prune)

text \<open>When nothing is removed by hand, the order is exactly the live identifiers, oldest first.\<close>

inductive fifo_reach :: "crypto \<Rightarrow> int \<Rightarrow> RecordCache \<Rightarrow> bool" for C n where
  new: "fifo_reach C n (SetMaxRecords NewRecordCache n)"
| add: "fifo_reach C n c \<Longrightarrow> fifo_reach C n (cache_Add C c r)"
| prune: "fifo_reach C n c \<Longrightarrow> fifo_reach C n (snd (PruneOlderThan c t))"

lemma fifo_cache: "fifo_reach C n c \<Longrightarrow> cache_reach C n c"
  by (induction rule: fifo_reach.induct) (auto intro: cache_reach.intros)

definition fifo_inv :: "RecordCache \<Rightarrow> bool" where
  "fifo_inv c \<longleftrightarrow> c_order c = map fst (c_m c)"

lemma fifo_evict:
  assumes "distinct (map fst m)" and "m \<noteq> []"
  shows "evict m (map fst m) = (tl m, map fst (tl m))"
proof -
  obtain a b m' where m: "m = (a, b) # m'" using assms(2) by (cases m) auto
  then have "a \<notin> set (map fst m')" using assms(1) by auto
  then have "AList.delete a m' = m'" by (simp add: AList.delete_idem)
  with m show ?thesis by simp
qed

lemma fifo_reach_inv: "fifo_reach C n c \<Longrightarrow> fifo_inv c"
proof (induction rule: fifo_reach.induct)
  case new
  show ?case by (simp add: fifo_inv_def SetMaxRecords_def NewRecordCache_def)
next
  case (add c r)
  have inv: "distinct (map fst (c_m c))" using cache_reach_inv [OF fifo_cache [OF add(1)]] by (simp add: cache_inv_def)
  have ord: "c_order c = map fst (c_m c)" using add(2) by (simp add: fifo_inv_def)
  show ?case
  proof (cases "map_of (c_m c) (ElementID C r)")
    case (Some w)
    then show ?thesis using ord by (simp add: fifo_inv_def cache_Add_def Let_def keys_update)
  next
    case None
    have tl: "map_of (tl (c_m c)) (ElementID C r) = None"
      using None by (cases "c_m c") (auto split: if_splits)
    show ?thesis
    proof (cases "c_max c > 0 \<and> int (length (c_m c)) \<ge> c_max c")
      case True
      then have "c_m c \<noteq> []" by auto
      with fifo_evict [OF inv] True None tl ord show ?thesis
        by (simp add: fifo_inv_def cache_Add_def Let_def AList_update_new)
    next
      case nf: False
      with None ord show ?thesis by (auto simp: fifo_inv_def cache_Add_def Let_def AList_update_new)
    qed
  qed
next
  case (prune c t)
  let ?p = "\<lambda>e. \<not> sint (T (snd e)) < sint t"
  have inv: "distinct (map fst (c_m c))"
    using cache_reach_inv [OF fifo_cache [OF prune(1)]] by (simp add: cache_inv_def)
  have f: "filter (\<lambda>eid. map_of (filter p m) eid \<noteq> None) (map fst m) = map fst (filter p m)"
    if "distinct (map fst m)" for p :: "bytes \<times> Record \<Rightarrow> bool" and m
  proof -
    have "filter (\<lambda>eid. map_of (filter p m) eid \<noteq> None) (map fst m) =
        filter (\<lambda>eid. eid \<in> fst ` set (filter p m)) (map fst m)"
      by (simp only: map_of_eq_None_iff not_not)
    also have "\<dots> = map fst (filter (\<lambda>e. fst e \<in> fst ` set (filter p m)) m)"
      by (simp only: filter_map comp_def)
    also have "filter (\<lambda>e. fst e \<in> fst ` set (filter p m)) m = filter p m"
      using that by (intro filter_cong refl) (auto simp: distinct_map inj_on_def)
    finally show ?thesis .
  qed
  have "filter ?p (c_m c) = c_m c" if "length (filter (\<lambda>e. sint (T (snd e)) < sint t) (c_m c)) = 0"
    using that by (auto simp: filter_empty_conv filter_id_conv)
  then show ?case
    using prune(2) f [OF inv, of ?p]
    unfolding fifo_inv_def PruneOlderThan_def Let_def by (auto simp del: not_None_eq)
qed

section \<open>Properties\<close>

text \<open>
  C11: the cache respects its cap and its keys.  Whatever sequence of additions, removals and age
  pruning a cache with cap \<open>n > 0\<close> has seen, it holds at most \<open>n\<close> records, each under its own
  element identifier; and a query returns exactly the stored records its filter matches.
\<close>

theorem cache_bounded:
  assumes "cache_reach C n c" and "0 < n"
  shows "int (cache_Len c) \<le> n \<and>
    (\<forall>eid r. cache_Get c eid = Some r \<longrightarrow> ElementID C r = eid) \<and>
    set (LocalRecords c f) = {r. cache_Get c (ElementID C r) = Some r \<and> matchFilter r f}"
proof -
  have inv: "cache_inv C n c" by (rule cache_reach_inv [OF assms(1)])
  then have k: "\<forall>(eid, r) \<in> set (c_m c). eid = ElementID C r" and d: "distinct (map fst (c_m c))"
    by (auto simp: cache_inv_def)
  have g: "cache_Get c eid = Some r \<longleftrightarrow> (eid, r) \<in> set (c_m c)" for eid r
    using d by (simp add: cache_Get_def map_of_eq_Some_iff)
  have "r \<in> set (LocalRecords c f) \<longleftrightarrow> cache_Get c (ElementID C r) = Some r \<and> matchFilter r f" for r
    using k by (auto simp: g LocalRecords_def image_iff Bex_def)
  then show ?thesis using inv assms(2) k by (auto simp: g cache_inv_def)
qed

theorem cache_bounded_witness:
  "cache_reach toy_crypto 1 (cache_Add toy_crypto (SetMaxRecords NewRecordCache 1) toy_record) \<and>
   int (cache_Len (cache_Add toy_crypto (SetMaxRecords NewRecordCache 1) toy_record)) \<le> 1"
proof -
  have r: "cache_reach toy_crypto 1 (cache_Add toy_crypto (SetMaxRecords NewRecordCache 1) toy_record)"
    by (intro cache_reach.intros)
  show ?thesis using r cache_bounded [OF r] by simp
qed

text \<open>
  Without removals by hand the cache is a queue: adding a new record to a full cache evicts
  exactly the record that was inserted first.
\<close>

lemma cache_evicts_oldest:
  assumes "fifo_reach C n c" and "0 < n" and "int (cache_Len c) = n" and "cache_Get c (ElementID C r) = None"
  shows "c_m (cache_Add C c r) = tl (c_m c) @ [(ElementID C r, r)] \<and>
    c_order (cache_Add C c r) = map fst (tl (c_m c)) @ [ElementID C r]"
proof -
  have inv: "cache_inv C n c" by (rule cache_reach_inv [OF fifo_cache [OF assms(1)]])
  have o: "c_order c = map fst (c_m c)" using fifo_reach_inv [OF assms(1)] by (simp add: fifo_inv_def)
  have ne: "c_m c \<noteq> []" using assms(2,3) by (auto simp: cache_Len_def)
  have "evict (c_m c) (c_order c) = (tl (c_m c), map fst (tl (c_m c)))"
    unfolding o using inv ne by (intro fifo_evict) (simp_all add: cache_inv_def)
  moreover have "map_of (tl (c_m c)) (ElementID C r) = None"
    using assms(4) by (cases "c_m c") (auto simp: cache_Get_def split: if_splits)
  ultimately show ?thesis
    using assms inv by (simp add: cache_Add_def Let_def cache_Get_def cache_inv_def cache_Len_def AList_update_new)
qed

definition toy_at :: "64 word \<Rightarrow> Record" where "toy_at t = toy_record\<lparr>T := t\<rparr>"

lemma toy_ids: "ElementID toy_crypto (toy_at 1) \<noteq> ElementID toy_crypto (toy_at 2)"
  "ElementID toy_crypto (toy_at 1) \<noteq> ElementID toy_crypto (toy_at 3)"
  "ElementID toy_crypto (toy_at 2) \<noteq> ElementID toy_crypto (toy_at 3)"
  by code_simp+

theorem cache_evicts_oldest_witness:
  "cache_Get (cache_Add toy_crypto (cache_Add toy_crypto (SetMaxRecords NewRecordCache 1) (toy_at 1)) (toy_at 2))
     (ElementID toy_crypto (toy_at 1)) = None"
proof -
  let ?c = "cache_Add toy_crypto (SetMaxRecords NewRecordCache 1) (toy_at 1)"
  have r: "fifo_reach toy_crypto 1 ?c" by (intro fifo_reach.intros)
  have m: "c_m ?c = [(ElementID toy_crypto (toy_at 1), toy_at 1)]"
    by (simp add: cache_Add_def SetMaxRecords_def NewRecordCache_def Let_def)
  then have l: "int (cache_Len ?c) = 1" "cache_Get ?c (ElementID toy_crypto (toy_at 2)) = None"
    using toy_ids(1) by (simp_all add: cache_Len_def cache_Get_def)
  show ?thesis using cache_evicts_oldest [OF r _ l] m toy_ids(1) by (simp add: cache_Get_def)
qed

text \<open>
  Removing a record breaks the queue.  A cache of two holds records 1 and 2; record 1 is removed
  and added again, which makes it the newest; the next addition evicts it all the same, because its
  old order entry is still at the front, and keeps the older record 2.
\<close>

lemma stale_order_evicts_newest:
  "let c0 = SetMaxRecords NewRecordCache 2;
       c = cache_Add toy_crypto (cache_Add toy_crypto c0 (toy_at 1)) (toy_at 2);
       c = cache_Add toy_crypto (cache_Remove c (ElementID toy_crypto (toy_at 1))) (toy_at 1);
       c' = cache_Add toy_crypto c (toy_at 3)
   in cache_Get c (ElementID toy_crypto (toy_at 1)) = Some (toy_at 1) \<and>
      cache_Get c' (ElementID toy_crypto (toy_at 1)) = None \<and>
      cache_Get c' (ElementID toy_crypto (toy_at 2)) = Some (toy_at 2)"
  by code_simp

end
