(* ===== verification/Sync_Session.thy ===== *)
theory Sync_Session
  imports Riblt Record_Cache
begin

text \<open>
  One reconciliation exchange with a peer (\<^verbatim>\<open>internal/swarmsearch/sync_session.go\<close>).  Every method
  runs under the session's mutex, so it is a function from the session to the session and its
  result.  The reorder buffer is an association list keyed by stream index; the pump's stop channel
  is a flag.
\<close>

section \<open>State\<close>

datatype syncRole = RoleInitiator | RoleResponder

datatype syncPhase = PhaseIdle | PhaseBegun | PhaseSymbolsFlowing | PhaseNeeded | PhaseFulfilled | PhaseEnded

datatype sync_error =
  ErrSymbolBudgetExceeded | ErrSyncBytesBudgetExceeded | ErrSyncDesync | ErrSyncPhase | ErrSyncTxID
| ErrSyncTooLarge

record SyncSession =
  txid :: u32
  role :: syncRole
  phase :: syncPhase
  records :: "bytes \<Rightarrow> Record option"
  enc :: Encoder
  dec :: Decoder
  maxSymbols :: int
  maxBytes :: int
  symbolsOut :: int
  symbolsIn :: int
  bytesIn :: int
  bytesOut :: int
  recordsIn :: int
  pendingSymbols :: "(int \<times> SyncSymbols) list"
  doneReceived :: bool
  convergeFired :: bool
  lastActivity :: int
  pumpStopped :: bool

definition convergeSymbolFloor :: int where "convergeSymbolFloor = 256"
definition maxPendingSymbolBatches :: nat where "maxPendingSymbolBatches = 32"

definition touch :: "int \<Rightarrow> SyncSession \<Rightarrow> SyncSession" where
  "touch now s = s\<lparr>lastActivity := now\<rparr>"

definition stale :: "int \<Rightarrow> int \<Rightarrow> SyncSession \<Rightarrow> bool" where
  "stale now d s \<longleftrightarrow> now - lastActivity s > d"

definition StopPump :: "SyncSession \<Rightarrow> SyncSession" where
  "StopPump s = s\<lparr>pumpStopped := True\<rparr>"

definition load_record :: "crypto \<Rightarrow> SyncSession \<Rightarrow> Record \<Rightarrow> SyncSession" where
  "load_record C s r =
     (let eid = ElementID C r in
      case records s eid of
        Some _ \<Rightarrow> s
      | None \<Rightarrow> s\<lparr>records := (records s)(eid \<mapsto> r), enc := AddElement (enc s) eid,
                  dec := AddLocalElement (dec s) eid\<rparr>)"

definition NewSyncSession :: "crypto \<Rightarrow> int \<Rightarrow> u32 \<Rightarrow> syncRole \<Rightarrow> Record list \<Rightarrow> SyncSession" where
  "NewSyncSession C now tx rl rs =
     foldl (load_record C)
       \<lparr>txid = tx, role = rl, phase = PhaseIdle, records = (\<lambda>_. None), enc = newEncoder, dec = NewDecoder,
        maxSymbols = DefaultSyncMaxSymbols, maxBytes = DefaultSyncMaxBytes, symbolsOut = 0, symbolsIn = 0,
        bytesIn = 0, bytesOut = 0, recordsIn = 0, pendingSymbols = [], doneReceived = False,
        convergeFired = False, lastActivity = now, pumpStopped = False\<rparr> rs"

section \<open>Opening\<close>

definition Begin :: "SyncSession \<Rightarrow> SyncFilter \<Rightarrow> SyncBegin \<times> SyncSession" where
  "Begin s f =
     (\<lparr>sb_MsgType = 0, sb_TxID = txid s, sb_Algo = SyncAlgo, sb_ElementSize = int RIBLTElementSize,
       sb_Filter = f, sb_LocalCount = int (Len (enc s)), sb_MaxSymbols = maxSymbols s,
       sb_MaxBytes = maxBytes s\<rparr>,
      s\<lparr>phase := PhaseBegun\<rparr>)"

definition ApplyBegin :: "SyncSession \<Rightarrow> SyncBegin \<Rightarrow> sync_error option \<times> SyncSession" where
  "ApplyBegin s m =
     (if sb_TxID m \<noteq> txid s then (Some ErrSyncTxID, s)
      else if sb_ElementSize m \<noteq> int RIBLTElementSize then (Some ErrSyncDesync, s)
      else
        let s = (if sb_MaxSymbols m > 0 \<and> sb_MaxSymbols m < maxSymbols s
                 then s\<lparr>maxSymbols := sb_MaxSymbols m\<rparr> else s);
            s = (if sb_MaxBytes m > 0 \<and> sb_MaxBytes m < maxBytes s
                 then s\<lparr>maxBytes := sb_MaxBytes m\<rparr> else s)
        in (None, s\<lparr>phase := PhaseBegun\<rparr>))"

section \<open>Symbols\<close>

definition wire_symbol :: "Symbol \<Rightarrow> SyncSymbol" where
  "wire_symbol cs = \<lparr>sym_C = Count cs, sym_H = KeyXOR cs, sym_B = DataXOR cs\<rparr>"

definition unwire_symbol :: "SyncSymbol \<Rightarrow> Symbol" where
  "unwire_symbol w = \<lparr>Count = sym_C w, KeyXOR = sym_H w, DataXOR = copy_array 32 (sym_B w)\<rparr>"

definition ProduceSymbols :: "SyncSession \<Rightarrow> int \<Rightarrow> (sync_error + SyncSymbols) \<times> SyncSession" where
  "ProduceSymbols s count0 =
     (let cnt = (if count0 > int MaxSymbolsPerMessage then int MaxSymbolsPerMessage else count0);
          remaining = maxSymbols s - symbolsOut s;
          cnt = (if cnt > remaining then remaining else cnt)
      in if cnt \<le> 0 then (Inl ErrSymbolBudgetExceeded, s)
         else
           let baseIdx = uint (nextIdx (enc s));
               (css, e) = NextSymbols (nat cnt) (enc s)
           in (Inr \<lparr>ss_MsgType = 0, ss_TxID = txid s, ss_Index = baseIdx,
                    ss_Symbols = map wire_symbol css, ss_Done = False\<rparr>,
               s\<lparr>enc := e, symbolsOut := symbolsOut s + cnt, phase := PhaseSymbolsFlowing\<rparr>))"

text \<open>
  The drain loop of \<open>ApplySymbols\<close>: apply a batch, then the buffered batch that starts where it
  ended, until there is none.  Each round but the first removes a buffered batch.
\<close>

definition apply_batch :: "SyncSession \<Rightarrow> SyncSymbols \<Rightarrow> SyncSession" where
  "apply_batch s cur =
     s\<lparr>dec := foldl AddRemoteSymbol (dec s) (map unwire_symbol (ss_Symbols cur)),
       symbolsIn := symbolsIn s + int (length (ss_Symbols cur)),
       doneReceived := doneReceived s \<or> ss_Done cur\<rparr>"

lemma AList_delete_less:
  "map_of m k = Some v \<Longrightarrow> length (AList.delete k m) < length m"
proof (induction m)
  case (Cons e m)
  have "length (AList.delete k m) \<le> length m" by (simp add: AList.delete_eq)
  with Cons show ?case by (cases e) (auto split: if_splits)
qed simp

function drain :: "SyncSession \<Rightarrow> SyncSymbols \<Rightarrow> sync_error option \<times> SyncSession" where
  "drain s cur =
     (if symbolsIn s + int (length (ss_Symbols cur)) > maxSymbols s then (Some ErrSymbolBudgetExceeded, s)
      else
        let s = apply_batch s cur in
        case map_of (pendingSymbols s) (symbolsIn s) of
          None \<Rightarrow> (None, s)
        | Some nxt \<Rightarrow>
            drain (s\<lparr>pendingSymbols := AList.delete (symbolsIn s) (pendingSymbols s)\<rparr>) nxt)"
  by pat_completeness auto
termination
  by (relation "measure (\<lambda>(s, cur). length (pendingSymbols s))")
    (auto simp: apply_batch_def dest: AList_delete_less)

declare drain.simps [simp del]

definition ApplySymbols :: "SyncSession \<Rightarrow> SyncSymbols \<Rightarrow> sync_error option \<times> SyncSession" where
  "ApplySymbols s0 m =
     (if ss_TxID m \<noteq> txid s0 then (Some ErrSyncTxID, s0)
      else
        let s = s0\<lparr>phase := PhaseSymbolsFlowing\<rparr> in
        if ss_Index m < symbolsIn s then (None, s)
        else if ss_Index m > symbolsIn s then
          (case map_of (pendingSymbols s) (ss_Index m) of
             Some _ \<Rightarrow> (None, s)
           | None \<Rightarrow>
               if length (pendingSymbols s) \<ge> maxPendingSymbolBatches then (Some ErrSyncDesync, s)
               else (None, s\<lparr>pendingSymbols := AList.update (ss_Index m) m (pendingSymbols s)\<rparr>))
        else drain s m)"

definition ShouldInitiatorConverge :: "SyncSession \<Rightarrow> bool \<times> SyncSession" where
  "ShouldInitiatorConverge s =
     (if convergeFired s then (False, s)
      else
        let ready = Converged (dec s) \<and> symbolsIn s \<ge> convergeSymbolFloor \<or> doneReceived s
        in (ready, if ready then s\<lparr>convergeFired := True\<rparr> else s))"

section \<open>Needs and records\<close>

text \<open>\<open>sort.Slice\<close> under \<open>less32\<close>: the lexicographic order of the identifiers.\<close>

definition NeedIDs :: "SyncSession \<Rightarrow> bytes list" where
  "NeedIDs s = sort (Added (dec s))"

definition RemovedRecords :: "SyncSession \<Rightarrow> Record list" where
  "RemovedRecords s = List.map_filter (records s) (Removed (dec s))"

definition NeedFrame :: "SyncSession \<Rightarrow> bytes list \<Rightarrow> (sync_error + SyncNeed) \<times> SyncSession" where
  "NeedFrame s ids =
     (if length ids > MaxNeedIDsPerMessage then (Inl ErrSyncTooLarge, s)
      else (Inr \<lparr>sn_MsgType = 0, sn_TxID = txid s, sn_IDs = ids\<rparr>, s\<lparr>phase := PhaseNeeded\<rparr>))"

definition ApplyNeed :: "SyncSession \<Rightarrow> SyncNeed \<Rightarrow> sync_error + Record list \<times> bytes list" where
  "ApplyNeed s m =
     (if sn_TxID m \<noteq> txid s then Inl ErrSyncTxID
      else if length (sn_IDs m) > MaxNeedIDsPerMessage then Inl ErrSyncTooLarge
      else
        let ids = filter (\<lambda>b. length b = 32) (sn_IDs m)
        in Inr (List.map_filter (records s) ids, filter (\<lambda>b. records s b = None) ids))"

definition toWireRecord :: "Record \<Rightarrow> SyncRecord" where
  "toWireRecord r = \<lparr>sr_Pk = Pk r, sr_Kw = Kw r, sr_Ih = Ih r, sr_T = T r, sr_Pow = Pow r, sr_Sig = Sig r\<rparr>"

definition fromWireRecord :: "SyncRecord \<Rightarrow> Record" where
  "fromWireRecord w = \<lparr>Pk = copy_array 32 (sr_Pk w), Kw = sr_Kw w, Ih = copy_array 20 (sr_Ih w), T = sr_T w,
     Pow = sr_Pow w, Sig = copy_array 64 (sr_Sig w)\<rparr>"

definition BuildRecordsFrame ::
  "SyncSession \<Rightarrow> Record list \<Rightarrow> bytes list \<Rightarrow> (sync_error + SyncRecords) \<times> SyncSession" where
  "BuildRecordsFrame s recs missing =
     (if length recs > MaxRecordsPerMessage then (Inl ErrSyncTooLarge, s)
      else (Inr \<lparr>sc_MsgType = 0, sc_TxID = txid s, sc_Records = map toWireRecord recs, sc_Missing = missing\<rparr>,
            s\<lparr>bytesOut := bytesOut s + sum_list (map syncRecordWireSize recs) + 32 * int (length missing),
              phase := PhaseFulfilled\<rparr>))"

definition ApplyRecords :: "SyncSession \<Rightarrow> SyncRecords \<Rightarrow> (sync_error + Record list) \<times> SyncSession" where
  "ApplyRecords s m =
     (if sc_TxID m \<noteq> txid s then (Inl ErrSyncTxID, s)
      else if phase s = PhaseIdle \<or> phase s = PhaseBegun then (Inl ErrSyncPhase, s)
      else if length (sc_Records m) > MaxRecordsPerMessage then (Inl ErrSyncTooLarge, s)
      else if list_ex (\<lambda>w. length (sr_Pk w) \<noteq> 32 \<or> length (sr_Ih w) \<noteq> 20 \<or> length (sr_Sig w) \<noteq> 64) (sc_Records m)
      then (Inl ErrSyncPhase, s)
      else
        let out = map fromWireRecord (sc_Records m);
            frameBytes = sum_list (map syncRecordWireSize out) + 32 * int (length (sc_Missing m))
        in if bytesIn s + frameBytes > maxBytes s then (Inl ErrSyncBytesBudgetExceeded, s)
           else (Inr out, s\<lparr>bytesIn := bytesIn s + frameBytes, recordsIn := recordsIn s + int (length out),
                            phase := PhaseFulfilled\<rparr>))"

section \<open>Ending\<close>

definition Finish :: "SyncSession \<Rightarrow> string \<Rightarrow> SyncEnd \<times> SyncSession" where
  "Finish s status =
     (\<lparr>se_MsgType = 0, se_TxID = txid s, se_Status = (if status = [] then SyncStatusConverged else status),
       se_Decoded = recordsIn s, se_Sent = symbolsOut s, se_BytesIn = bytesIn s, se_BytesOut = bytesOut s,
       se_AbortCode = 0\<rparr>,
      s\<lparr>phase := PhaseEnded\<rparr>)"

definition ApplyEnd :: "SyncSession \<Rightarrow> SyncEnd \<Rightarrow> sync_error option \<times> SyncSession" where
  "ApplyEnd s m = (if se_TxID m \<noteq> txid s then (Some ErrSyncTxID, s) else (None, s\<lparr>phase := PhaseEnded\<rparr>))"


section \<open>Delivery in any order\<close>

text \<open>
  Inbound frames are handled on independent goroutines, so the batches of a stream reach
  \<open>ApplySymbols\<close> in any order.  \<open>deliver\<close> is such a sequence of calls, with their results.
\<close>

fun deliver :: "SyncSession \<Rightarrow> SyncSymbols list \<Rightarrow> sync_error option list \<times> SyncSession" where
  "deliver s [] = ([], s)"
| "deliver s (m # ms) =
     (let (e, s1) = ApplySymbols s m; (es, s2) = deliver s1 ms in (e # es, s2))"

fun contiguous :: "int \<Rightarrow> SyncSymbols list \<Rightarrow> bool" where
  "contiguous i [] = True"
| "contiguous i (b # bs) \<longleftrightarrow>
     ss_Index b = i \<and> ss_Symbols b \<noteq> [] \<and> contiguous (i + int (length (ss_Symbols b))) bs"

definition total_symbols :: "SyncSymbols list \<Rightarrow> int" where
  "total_symbols bs = int (length (concat (map ss_Symbols bs)))"

lemma total_symbols_simps [simp]:
  "total_symbols [] = 0"
  "total_symbols (b # bs) = int (length (ss_Symbols b)) + total_symbols bs"
  "total_symbols (bs @ cs) = total_symbols bs + total_symbols cs"
  by (simp_all add: total_symbols_def)

lemma total_symbols_nonneg [simp]: "0 \<le> total_symbols bs"
  by (simp add: total_symbols_def)

lemma phase_absorb [simp]: "phase s = f \<Longrightarrow> s\<lparr>phase := f\<rparr> = s"
  by (cases s) simp

lemma apply_batch_simps [simp]:
  "symbolsIn (apply_batch s b) = symbolsIn s + int (length (ss_Symbols b))"
  "pendingSymbols (apply_batch s b) = pendingSymbols s"
  "maxSymbols (apply_batch s b) = maxSymbols s" "txid (apply_batch s b) = txid s"
  "phase (apply_batch s b) = phase s"
  "(apply_batch s b)\<lparr>phase := f\<rparr> = apply_batch (s\<lparr>phase := f\<rparr>) b"
  "(apply_batch s b)\<lparr>pendingSymbols := p\<rparr> = apply_batch (s\<lparr>pendingSymbols := p\<rparr>) b"
  by (simp_all add: apply_batch_def)

lemma apply_batches_simps [simp]:
  "symbolsIn (foldl apply_batch s bs) = symbolsIn s + total_symbols bs"
  "pendingSymbols (foldl apply_batch s bs) = pendingSymbols s"
  "maxSymbols (foldl apply_batch s bs) = maxSymbols s" "txid (foldl apply_batch s bs) = txid s"
  "phase (foldl apply_batch s bs) = phase s"
  by (induction bs arbitrary: s) auto

lemma apply_batches_update:
  "(foldl apply_batch s bs)\<lparr>phase := f\<rparr> = foldl apply_batch (s\<lparr>phase := f\<rparr>) bs"
  "(foldl apply_batch s bs)\<lparr>pendingSymbols := p\<rparr> = foldl apply_batch (s\<lparr>pendingSymbols := p\<rparr>) bs"
  by (induction bs arbitrary: s) auto

lemma contiguous_append:
  "contiguous i (bs @ cs) \<longleftrightarrow> contiguous i bs \<and> contiguous (i + total_symbols bs) cs"
  by (induction bs arbitrary: i) (auto simp: add.assoc)

text \<open>In a contiguous stream the index of a batch tells where it lies.\<close>

lemma contiguous_index:
  assumes "contiguous i bs" and "b \<in> set bs"
  shows "i \<le> ss_Index b" and "ss_Index b < i + total_symbols bs"
proof -
  have "i \<le> ss_Index b \<and> ss_Index b < i + total_symbols bs"
    using assms
  proof (induction bs arbitrary: i)
    case (Cons a bs)
    have "0 < int (length (ss_Symbols a))" and "0 \<le> total_symbols bs" using Cons.prems by simp_all
    then have "0 < int (length (ss_Symbols a)) + total_symbols bs" by linarith
    then show ?case
      using Cons.prems Cons.IH [of "i + int (length (ss_Symbols a))"] by (auto simp: add.assoc)
  qed simp
  then show "i \<le> ss_Index b" "ss_Index b < i + total_symbols bs" by auto
qed

lemma contiguous_tail_index:
  assumes "contiguous i (a # bs)" and "b \<in> set bs"
  shows "i < ss_Index b"
  using assms contiguous_index(1) [of "i + int (length (ss_Symbols a))" bs b]
  by (cases "ss_Symbols a") auto

lemma contiguous_inj:
  "contiguous i bs \<Longrightarrow> b \<in> set bs \<Longrightarrow> c \<in> set bs \<Longrightarrow> ss_Index b = ss_Index c \<Longrightarrow> b = c"
proof (induction bs arbitrary: i)
  case (Cons a bs)
  note tail = contiguous_tail_index [OF Cons.prems(1)]
  show ?case
    using Cons.prems tail [of b] tail [of c] Cons.IH [of "i + int (length (ss_Symbols a))"] by auto
qed simp

text \<open>The reorder buffer holds exactly the delivered batches of the rest of the stream.\<close>

definition buffered :: "SyncSymbols set \<Rightarrow> SyncSymbols list \<Rightarrow> (int \<times> SyncSymbols) list \<Rightarrow> bool" where
  "buffered D rest p \<longleftrightarrow> distinct (map fst p) \<and>
     (\<forall>i b. map_of p i = Some b \<longleftrightarrow> b \<in> D \<and> b \<in> set rest \<and> ss_Index b = i)"

lemma buffered_length:
  assumes "buffered D rest p"
  shows "length p \<le> length rest"
proof -
  have "b \<in> set rest \<and> ss_Index b = i" if "(i, b) \<in> set p" for i b
    using assms that map_of_is_SomeI [of p i b] by (auto simp: buffered_def)
  then have "set (map fst p) \<subseteq> ss_Index ` set rest" by force
  then have "card (set (map fst p)) \<le> card (ss_Index ` set rest)" by (intro card_mono) auto
  also have "\<dots> \<le> length rest"
    by (rule order.trans [OF card_image_le [OF finite_set] card_length])
  finally show ?thesis using assms distinct_card [of "map fst p"] by (simp add: buffered_def)
qed

lemma buffered_delete:
  assumes "buffered D (b # rest) p" and "contiguous i (b # rest)"
  shows "buffered D rest (AList.delete i p)"
  using assms contiguous_tail_index [OF assms(2)]
  by (force simp: buffered_def get_delete AList.distinct_delete)

lemma buffered_skip:
  assumes "buffered D (b # rest) p" and "map_of p (ss_Index b) = None"
  shows "b \<notin> D" and "buffered D rest p"
proof -
  have m: "map_of p i = Some c \<longleftrightarrow> c \<in> D \<and> c \<in> set (b # rest) \<and> ss_Index c = i" for i c
    using assms(1) unfolding buffered_def by blast
  from m [of "ss_Index b" b] assms(2) show "b \<notin> D" by simp
  with assms(1) m show "buffered D rest p" unfolding buffered_def by auto
qed

lemma buffered_insert:
  assumes "buffered D rest p" and "contiguous i rest" and "b \<in> set rest"
  shows "buffered (insert b D) rest (AList.update (ss_Index b) b p)"
  using assms contiguous_inj [OF assms(2) _ assms(3)]
  by (auto simp: buffered_def get_update AList.distinct_update)

lemma buffered_dup:
  assumes "buffered D rest p" and "contiguous i rest" and "b \<in> set rest" and "map_of p (ss_Index b) = Some c"
  shows "insert b D = D"
  using assms contiguous_inj [OF assms(2) _ assms(3)] by (auto simp: buffered_def)

text \<open>Applying the next batch drains up to the first batch that has not been delivered.\<close>

lemma drain_contiguous:
  assumes "contiguous (symbolsIn s) (cur # rest)" and "buffered D rest (pendingSymbols s)"
    and "symbolsIn s + total_symbols (cur # rest) \<le> maxSymbols s"
  shows "\<exists>app todo p. rest = app @ todo \<and> set app \<subseteq> D \<and> (todo = [] \<or> hd todo \<notin> D) \<and>
    buffered D todo p \<and> drain s cur = (None, foldl apply_batch (s\<lparr>pendingSymbols := p\<rparr>) (cur # app))"
  using assms
proof (induction rest arbitrary: s cur)
  case Nil
  then have "pendingSymbols s = []" using buffered_length [of D "[]" "pendingSymbols s"] by simp
  then show ?case
    using Nil by (intro exI [of _ "[]"]) (auto simp: drain.simps [of s] apply_batch_def buffered_def)
next
  case (Cons b rest)
  let ?s = "apply_batch s cur"
  have b: "ss_Index b = symbolsIn ?s" and c: "contiguous (symbolsIn ?s) (b # rest)" using Cons.prems by auto
  have fits: "\<not> symbolsIn s + int (length (ss_Symbols cur)) > maxSymbols s"
    using Cons.prems(3) total_symbols_nonneg [of "b # rest"] unfolding total_symbols_simps(2) [of cur] by linarith
  show ?case
  proof (cases "map_of (pendingSymbols s) (symbolsIn ?s)")
    case None
    then have "b \<notin> D" using buffered_skip(1) [OF Cons.prems(2)] b by simp
    moreover have "drain s cur = (None, ?s)" using None fits by (simp add: drain.simps [of s])
    ultimately show ?thesis
      using Cons.prems(2) by (intro exI [of _ "[]"] exI [of _ "b # rest"] exI [of _ "pendingSymbols s"]) simp
  next
    case (Some x)
    then have x: "x \<in> D" "x = b"
      using Cons.prems(2) b contiguous_inj [OF c, of x b] by (auto simp: buffered_def)
    let ?t = "?s\<lparr>pendingSymbols := AList.delete (symbolsIn ?s) (pendingSymbols ?s)\<rparr>"
    have d: "drain s cur = drain ?t b"
      using Some fits x by (subst drain.simps) simp
    have "\<exists>app todo p. rest = app @ todo \<and> set app \<subseteq> D \<and> (todo = [] \<or> hd todo \<notin> D) \<and>
      buffered D todo p \<and> drain ?t b = (None, foldl apply_batch (?t\<lparr>pendingSymbols := p\<rparr>) (b # app))"
      using c Cons.prems(3) buffered_delete [OF Cons.prems(2) c]
      by (intro Cons.IH) (auto simp: add.assoc)
    then obtain app todo p where r: "rest = app @ todo" "set app \<subseteq> D" "todo = [] \<or> hd todo \<notin> D"
      "buffered D todo p" "drain ?t b = (None, foldl apply_batch (?t\<lparr>pendingSymbols := p\<rparr>) (b # app))" by blast
    then have "drain s cur = (None, foldl apply_batch (s\<lparr>pendingSymbols := p\<rparr>) (cur # b # app))"
      using d by simp
    with r x show ?thesis by (intro exI [of _ "b # app"] exI [of _ todo] exI [of _ p]) simp
  qed
qed

text \<open>
  The state after the batches \<open>D\<close> of the stream \<open>bs\<close> have come in, in whatever order: a prefix of
  the stream is applied and the rest of \<open>D\<close> is buffered.
\<close>

definition received :: "SyncSession \<Rightarrow> SyncSymbols list \<Rightarrow> SyncSymbols set \<Rightarrow> SyncSession \<Rightarrow> bool" where
  "received s0 bs D s \<longleftrightarrow>
     (\<exists>app todo p. bs = app @ todo \<and> set app \<subseteq> D \<and> (todo = [] \<or> hd todo \<notin> D) \<and> buffered D todo p \<and>
        s = foldl apply_batch (s0\<lparr>pendingSymbols := p\<rparr>) app)"

lemma buffered_fresh:
  assumes "buffered D rest p" and "m \<in> set rest" and "map_of p (ss_Index m) = None"
  shows "length p < length rest"
proof -
  have "m \<notin> D" using assms by (auto simp: buffered_def)
  then have "buffered D (removeAll m rest) p" using assms(1) by (auto simp: buffered_def)
  then have "length p \<le> length (removeAll m rest)" by (rule buffered_length)
  also have "\<dots> < length rest" using assms(2) by (rule length_removeAll_less)
  finally show ?thesis .
qed

text \<open>The two cases that change the state: the batch the stream waits for, and a later one.\<close>

lemma ApplySymbols_next:
  assumes c: "contiguous (symbolsIn s) (m # rest)" and "m \<notin> D" and p: "buffered D (m # rest) (pendingSymbols s)"
    and "symbolsIn s + total_symbols (m # rest) \<le> maxSymbols s" and "ss_TxID m = txid s"
    and "phase s = PhaseSymbolsFlowing"
  shows "\<exists>app todo p. rest = app @ todo \<and> set app \<subseteq> insert m D \<and> (todo = [] \<or> hd todo \<notin> insert m D) \<and>
    buffered (insert m D) todo p \<and>
    ApplySymbols s m = (None, foldl apply_batch (s\<lparr>pendingSymbols := p\<rparr>) (m # app))"
proof -
  have "buffered (insert m D) rest (pendingSymbols s)"
    using p assms(2) contiguous_tail_index [OF c, of m] c by (auto simp: buffered_def)
  moreover have "ApplySymbols s m = drain s m" using c assms(5,6) by (simp add: ApplySymbols_def)
  ultimately show ?thesis using drain_contiguous [OF c _ assms(4), of "insert m D"] by (metis (no_types))
qed

lemma ApplySymbols_later:
  assumes c: "contiguous (symbolsIn s) (b # rest)" and m: "m \<in> set rest" "b \<notin> D"
    and p: "buffered D (b # rest) (pendingSymbols s)" and "length rest \<le> maxPendingSymbolBatches"
    and "ss_TxID m = txid s" "phase s = PhaseSymbolsFlowing"
  shows "\<exists>p. buffered (insert m D) (b # rest) p \<and> ApplySymbols s m = (None, s\<lparr>pendingSymbols := p\<rparr>)"
proof (cases "map_of (pendingSymbols s) (ss_Index m)")
  case (Some x)
  then have "insert m D = D" using buffered_dup [OF p c _ Some] m by auto
  then show ?thesis using assms Some contiguous_tail_index [OF c m(1)]
    by (intro exI [of _ "pendingSymbols s"]) (simp add: ApplySymbols_def)
next
  case None
  have "buffered D rest (pendingSymbols s)" using p m(2) by (auto simp: buffered_def)
  then have "length (pendingSymbols s) < length rest" using buffered_fresh m(1) None by blast
  then show ?thesis
    using assms None contiguous_tail_index [OF c m(1)] buffered_insert [OF p c, of m]
    by (intro exI [of _ "AList.update (ss_Index m) m (pendingSymbols s)"]) (simp add: ApplySymbols_def)
qed

lemma ApplySymbols_received:
  assumes st: "contiguous (symbolsIn s0) bs" "length bs \<le> Suc maxPendingSymbolBatches"
      "symbolsIn s0 + total_symbols bs \<le> maxSymbols s0" "phase s0 = PhaseSymbolsFlowing"
    and m: "m \<in> set bs" "ss_TxID m = txid s0" and inv: "received s0 bs D s"
  shows "\<exists>s'. ApplySymbols s m = (None, s') \<and> received s0 bs (insert m D) s'"
proof -
  obtain app todo p where bs: "bs = app @ todo" and app: "set app \<subseteq> D" and hd: "todo = [] \<or> hd todo \<notin> D"
    and p: "buffered D todo p" and s: "s = foldl apply_batch (s0\<lparr>pendingSymbols := p\<rparr>) app"
    using inv unfolding received_def by blast
  have c: "contiguous (symbolsIn s0) app" "contiguous (symbolsIn s) todo"
    using st(1) s bs by (simp_all add: contiguous_append)
  have pend: "pendingSymbols s = p" and start: "ss_TxID m = txid s" "phase s = PhaseSymbolsFlowing"
    and room: "symbolsIn s + total_symbols todo \<le> maxSymbols s"
    using s st m(2) bs by simp_all
  have re: "s\<lparr>pendingSymbols := p'\<rparr> = foldl apply_batch (s0\<lparr>pendingSymbols := p'\<rparr>) app" for p'
    by (simp add: s apply_batches_update)
  consider (old) "m \<in> set app" | (nxt) rest where "todo = m # rest"
    | (later) b rest where "todo = b # rest" "m \<in> set rest" "m \<noteq> b"
    using m(1) bs by (cases todo) auto
  then show ?thesis
  proof cases
    case old
    then have "insert m D = D" "ss_Index m < symbolsIn s"
      using app contiguous_index(2) [OF c(1)] s by auto
    then show ?thesis using inv start by (simp add: ApplySymbols_def)
  next
    case nxt
    obtain app' todo' p' where d: "rest = app' @ todo'" "set app' \<subseteq> insert m D"
      "todo' = [] \<or> hd todo' \<notin> insert m D" "buffered (insert m D) todo' p'"
      "ApplySymbols s m = (None, foldl apply_batch (s\<lparr>pendingSymbols := p'\<rparr>) (m # app'))"
      using ApplySymbols_next [of s m rest D] c(2) nxt hd p pend room start by auto
    have "received s0 bs (insert m D) (foldl apply_batch (s\<lparr>pendingSymbols := p'\<rparr>) (m # app'))"
      unfolding received_def re using bs nxt app d
      by (intro exI [of _ "app @ m # app'"] exI [of _ todo'] exI [of _ p']) auto
    with d(5) show ?thesis by blast
  next
    case later
    obtain p' where d: "buffered (insert m D) todo p'" "ApplySymbols s m = (None, s\<lparr>pendingSymbols := p'\<rparr>)"
      using ApplySymbols_later [of s b rest m D] c(2) later hd p pend start st(2) bs by auto
    have "received s0 bs (insert m D) (s\<lparr>pendingSymbols := p'\<rparr>)"
      unfolding received_def re using bs app hd later d
      by (intro exI [of _ app] exI [of _ todo] exI [of _ p']) auto
    with d(2) show ?thesis by blast
  qed
qed

lemma deliver_received:
  assumes st: "contiguous (symbolsIn s0) bs" "length bs \<le> Suc maxPendingSymbolBatches"
      "symbolsIn s0 + total_symbols bs \<le> maxSymbols s0" "phase s0 = PhaseSymbolsFlowing"
    and ds: "set ds \<subseteq> set bs" "\<forall>m \<in> set bs. ss_TxID m = txid s0" and inv: "received s0 bs D s"
  shows "\<exists>s'. deliver s ds = (replicate (length ds) None, s') \<and> received s0 bs (set ds \<union> D) s'"
  using ds(1) inv
proof (induction ds arbitrary: s D)
  case (Cons m ds)
  then obtain s1 where s1: "ApplySymbols s m = (None, s1)" "received s0 bs (insert m D) s1"
    using ApplySymbols_received [OF st, of m D s] ds(2) by auto
  with Cons.IH [of "insert m D" s1] Cons.prems(1) show ?case by auto
qed auto

lemma received_all:
  assumes "received s0 bs (set bs) s"
  shows "s = foldl apply_batch (s0\<lparr>pendingSymbols := []\<rparr>) bs"
proof -
  obtain app todo p where bs: "bs = app @ todo" and hd: "todo = [] \<or> hd todo \<notin> set bs"
    and p: "buffered (set bs) todo p" and s: "s = foldl apply_batch (s0\<lparr>pendingSymbols := p\<rparr>) app"
    using assms unfolding received_def by blast
  have "todo = []" using bs hd by (cases todo) auto
  moreover from this have "p = []" using buffered_length [OF p] by simp
  ultimately show ?thesis using bs s by simp
qed

lemma deliver_phase:
  assumes "ds \<noteq> []" and "ss_TxID (hd ds) = txid s"
  shows "deliver s ds = deliver (s\<lparr>phase := PhaseSymbolsFlowing\<rparr>) ds"
  using assms by (cases ds) (simp_all add: ApplySymbols_def Let_def)

text \<open>All batches delivered, in any order and with repetitions, from any state with an empty buffer.\<close>

lemma deliver_all:
  assumes "contiguous (symbolsIn s) bs" and "length bs \<le> Suc maxPendingSymbolBatches"
    and "symbolsIn s + total_symbols bs \<le> maxSymbols s" and tx: "\<forall>m \<in> set bs. ss_TxID m = txid s"
    and "pendingSymbols s = []" and ds: "set ds = set bs" "ds \<noteq> []"
  shows "deliver s ds =
    (replicate (length ds) None, foldl apply_batch (s\<lparr>phase := PhaseSymbolsFlowing\<rparr>) bs)"
proof -
  let ?s = "s\<lparr>phase := PhaseSymbolsFlowing\<rparr>"
  have "received ?s bs {} ?s"
    using assms by (auto simp: received_def buffered_def intro!: exI [of _ "[]"])
  then obtain s' where "deliver ?s ds = (replicate (length ds) None, s')" "received ?s bs (set bs) s'"
    using deliver_received [of ?s bs ds "{}" ?s] assms by auto
  moreover from this have "s' = foldl apply_batch ?s bs"
    using received_all [of ?s bs s'] assms(5) by (simp add: apply_batches_update [symmetric])
  moreover have "hd ds \<in> set bs" using ds by (metis hd_in_set)
  ultimately show ?thesis using deliver_phase [of ds s] tx ds(2) by simp
qed

section \<open>The responder's pump\<close>

text \<open>
  \<open>runSyncPump\<close> stopped after at most \<open>n\<close> rounds: batches until the budget is spent, the last one
  marked done.
\<close>

fun pump :: "nat \<Rightarrow> SyncSession \<Rightarrow> SyncSymbols list \<times> SyncSession" where
  "pump 0 s = ([], s)"
| "pump (Suc n) s =
     (case ProduceSymbols s (int MaxSymbolsPerMessage) of
        (Inl e, s1) \<Rightarrow> ([], s1)
      | (Inr frame, s1) \<Rightarrow>
          let fin = symbolsOut s1 \<ge> maxSymbols s1;
              frame = frame\<lparr>ss_Done := fin\<rparr>
          in if fin then ([frame], s1)
             else let (fs, s2) = pump n s1 in (frame # fs, s2))"

text \<open>The stream position is the encoder's index, and the budget keeps it far from wrapping.\<close>

definition out_ok :: "SyncSession \<Rightarrow> bool" where
  "out_ok s \<longleftrightarrow> symbolsOut s = uint (nextIdx (enc s)) \<and> symbolsOut s \<le> DefaultSyncMaxSymbols \<and>
     0 < maxSymbols s \<and> maxSymbols s \<le> DefaultSyncMaxSymbols"

definition stream_symbols :: "SyncSession \<Rightarrow> nat \<Rightarrow> nat \<Rightarrow> Symbol list" where
  "stream_symbols s i j = map (\<lambda>k. signed_symbol (elems (enc s)) [] (of_nat k)) [i..<j]"

lemma unwire_wire: "wf_symbol cs \<Longrightarrow> unwire_symbol (wire_symbol cs) = cs"
  by (simp add: unwire_symbol_def wire_symbol_def wf_symbol_def)

lemma unwire_wires: "\<forall>cs \<in> set css. wf_symbol cs \<Longrightarrow> map (unwire_symbol \<circ> wire_symbol) css = css"
  by (simp add: unwire_wire map_idI)

lemma uint_plus_of_nat:
  fixes w :: u64
  assumes "uint w + int n < 2 ^ 64"
  shows "uint (w + of_nat n) = uint w + int n"
proof -
  have "uint (w + of_nat n) = (uint w + int n) mod 2 ^ 64"
    by (simp add: uint_word_ariths unsigned_of_nat take_bit_eq_mod of_nat_mod mod_add_right_eq)
  also have "\<dots> = uint w + int n" using assms by (intro mod_pos_pos_trivial) auto
  finally show ?thesis .
qed

lemma ProduceSymbols_cases:
  assumes "out_ok s" and wf: "wf_elems (elems (enc s))"
  shows "(\<exists>frame s1. ProduceSymbols s (int MaxSymbolsPerMessage) = (Inr frame, s1) \<and>
      symbolsOut s < maxSymbols s \<and> out_ok s1 \<and> ss_Index frame = symbolsOut s \<and> ss_TxID frame = txid s \<and>
      int (length (ss_Symbols frame)) = min 100 (maxSymbols s - symbolsOut s) \<and>
      map unwire_symbol (ss_Symbols frame) = stream_symbols s (nat (symbolsOut s)) (nat (symbolsOut s1)) \<and>
      symbolsOut s1 = symbolsOut s + int (length (ss_Symbols frame)) \<and>
      s1 = s\<lparr>enc := (enc s)\<lparr>nextIdx := nextIdx (enc s1)\<rparr>, symbolsOut := symbolsOut s1, phase := PhaseSymbolsFlowing\<rparr>) \<or>
    ProduceSymbols s (int MaxSymbolsPerMessage) = (Inl ErrSymbolBudgetExceeded, s) \<and> maxSymbols s \<le> symbolsOut s"
proof (cases "symbolsOut s < maxSymbols s")
  case False
  then show ?thesis by (simp add: ProduceSymbols_def Let_def MaxSymbolsPerMessage_def)
next
  case True
  let ?c = "min 100 (maxSymbols s - symbolsOut s)" and ?i = "nextIdx (enc s)"
  have c: "0 < ?c" using True by simp
  have out: "symbolsOut s = uint ?i" and m: "maxSymbols s \<le> 2000"
    using assms(1) by (simp_all add: out_ok_def DefaultSyncMaxSymbols_def)
  then have o0: "0 \<le> symbolsOut s" by simp
  then have mp: "0 < maxSymbols s" using True by linarith
  have u: "uint (?i + of_nat (nat ?c)) = uint ?i + ?c"
    using True out m uint_plus_of_nat [of ?i "nat ?c"] by simp
  have sym: "fst (NextSymbols (nat ?c) (enc s)) =
      map (\<lambda>k. signed_symbol (elems (enc s)) [] (of_nat k)) [nat (symbolsOut s)..<nat (symbolsOut s + ?c)]"
  proof -
    have "?i = of_nat (nat (symbolsOut s))" using out by simp
    then show ?thesis
      using o0 c by (intro nth_equalityI) (simp_all add: NextSymbols_eq nat_add_distrib)
  qed
  define css where "css = fst (NextSymbols (nat ?c) (enc s))"
  let ?s1 = "s\<lparr>enc := (enc s)\<lparr>nextIdx := ?i + of_nat (nat ?c)\<rparr>, symbolsOut := symbolsOut s + ?c, phase := PhaseSymbolsFlowing\<rparr>"
  let ?fr = "\<lparr>ss_MsgType = 0, ss_TxID = txid s, ss_Index = symbolsOut s, ss_Symbols = map wire_symbol css, ss_Done = False\<rparr>"
  have "\<forall>cs \<in> set css. wf_symbol cs"
    unfolding css_def sym using wf by (auto intro!: wf_signed_symbol simp: wf_elems_def)
  then have uw: "map unwire_symbol (ss_Symbols ?fr) = stream_symbols s (nat (symbolsOut s)) (nat (symbolsOut ?s1))"
    using unwire_wires [of css] by (simp add: css_def sym stream_symbols_def)
  have len: "int (length (ss_Symbols ?fr)) = ?c" using c by (simp add: css_def NextSymbols_eq)
  have ok: "out_ok ?s1" using u out m True mp by (auto simp: out_ok_def DefaultSyncMaxSymbols_def min_def)
  have "ProduceSymbols s (int MaxSymbolsPerMessage) = (Inr ?fr, ?s1)"
    using True out by (simp add: ProduceSymbols_def Let_def MaxSymbolsPerMessage_def NextSymbols_eq min_def css_def)
  then show ?thesis
    using True uw len ok by (intro disjI1 exI [of _ ?fr] exI [of _ ?s1] conjI) simp_all
qed

definition pumped :: "SyncSession \<Rightarrow> SyncSymbols list \<Rightarrow> SyncSession \<Rightarrow> bool" where
  "pumped s fs s' \<longleftrightarrow> contiguous (symbolsOut s) fs \<and> (\<forall>m \<in> set fs. ss_TxID m = txid s) \<and>
     symbolsOut s' = symbolsOut s + total_symbols fs \<and>
     concat (map (map unwire_symbol \<circ> ss_Symbols) fs) =
       stream_symbols s (nat (symbolsOut s)) (nat (symbolsOut s')) \<and>
     out_ok s' \<and> 100 * int (length fs) < total_symbols fs + 100 \<and>
     (fs \<noteq> [] \<longrightarrow> symbolsOut s' \<le> maxSymbols s) \<and> elems (enc s') = elems (enc s) \<and> records s' = records s \<and>
     maxSymbols s' = maxSymbols s \<and> txid s' = txid s"

lemma pumped_Nil: "out_ok s \<Longrightarrow> pumped s [] s"
  by (simp add: pumped_def stream_symbols_def)

lemma upt_split: "i \<le> j \<Longrightarrow> j \<le> k \<Longrightarrow> [i..<k] = [i..<j] @ [j..<k]"
  by (metis le_Suc_ex upt_add_eq_append)

lemma pump_stream:
  assumes "out_ok s" and "wf_elems (elems (enc s))"
  shows "pumped s (fst (pump n s)) (snd (pump n s))"
  using assms
proof (induction n arbitrary: s)
  case (Suc n)
  from ProduceSymbols_cases [OF Suc.prems]
  show ?case
  proof (elim disjE exE conjE)
    assume "ProduceSymbols s (int MaxSymbolsPerMessage) = (Inl ErrSymbolBudgetExceeded, s)"
    then show ?thesis using pumped_Nil [OF Suc.prems(1)] by simp
  next
    fix frame s1
    assume P: "ProduceSymbols s (int MaxSymbolsPerMessage) = (Inr frame, s1)"
      and f: "symbolsOut s < maxSymbols s" "out_ok s1" "ss_Index frame = symbolsOut s" "ss_TxID frame = txid s"
        "int (length (ss_Symbols frame)) = min 100 (maxSymbols s - symbolsOut s)"
        "map unwire_symbol (ss_Symbols frame) = stream_symbols s (nat (symbolsOut s)) (nat (symbolsOut s1))"
        "symbolsOut s1 = symbolsOut s + int (length (ss_Symbols frame))"
        "s1 = s\<lparr>enc := (enc s)\<lparr>nextIdx := nextIdx (enc s1)\<rparr>, symbolsOut := symbolsOut s1, phase := PhaseSymbolsFlowing\<rparr>"
    have same: "elems (enc s1) = elems (enc s)" "records s1 = records s" "maxSymbols s1 = maxSymbols s" "txid s1 = txid s"
      by (subst f(8), simp)+
    have ne: "ss_Symbols frame \<noteq> []" using f(1,5) by auto
    let ?fr = "frame\<lparr>ss_Done := symbolsOut s1 \<ge> maxSymbols s1\<rparr>"
    show ?thesis
    proof (cases "symbolsOut s1 \<ge> maxSymbols s1")
      case True
      then have "pump (Suc n) s = ([?fr], s1)" using P by simp
      then show ?thesis using f ne same by (simp add: pumped_def)
    next
      case False
      let ?fs = "fst (pump n s1)" and ?s2 = "snd (pump n s1)"
      have pu: "pump (Suc n) s = (?fr # ?fs, ?s2)" using P False by (simp add: case_prod_unfold Let_def)
      have IH: "pumped s1 ?fs ?s2" using Suc.IH [OF f(2)] Suc.prems(2) same by simp
      have full: "int (length (ss_Symbols frame)) = 100" using f(5,7) False same by simp
      have "stream_symbols s (nat (symbolsOut s)) (nat (symbolsOut ?s2)) =
        stream_symbols s (nat (symbolsOut s)) (nat (symbolsOut s1)) @
        stream_symbols s1 (nat (symbolsOut s1)) (nat (symbolsOut ?s2))"
        unfolding stream_symbols_def same
        using IH f(7) total_symbols_nonneg [of ?fs]
        by (subst upt_split [of _ "nat (symbolsOut s1)"]) (auto simp: pumped_def intro!: nat_mono)
      then show ?thesis
        unfolding pu using IH f ne same full False
        by (auto simp: pumped_def add.assoc)
    qed
  qed
qed (simp add: pumped_Nil)

section \<open>What a session holds of its records\<close>

definition holds_records :: "crypto \<Rightarrow> Record list \<Rightarrow> SyncSession \<Rightarrow> bool" where
  "holds_records C rs s \<longleftrightarrow> distinct (elems (enc s)) \<and> set (elems (enc s)) = ElementID C ` set rs \<and>
     local (dec s) = elems (enc s) \<and>
     (\<forall>eid. (records s eid = None \<longleftrightarrow> eid \<notin> set (elems (enc s))) \<and>
        (\<forall>r. records s eid = Some r \<longrightarrow> r \<in> set rs \<and> ElementID C r = eid))"

text \<open>Everything of a session but its records, its encoder's elements and its decoder's local set.\<close>

definition fresh_session :: "SyncSession \<Rightarrow> bool" where
  "fresh_session s \<longleftrightarrow> nextIdx (enc s) = 0 \<and> dec s = NewDecoder\<lparr>local := local (dec s)\<rparr> \<and>
     symbolsOut s = 0 \<and> symbolsIn s = 0 \<and> bytesIn s = 0 \<and> pendingSymbols s = [] \<and>
     maxSymbols s = DefaultSyncMaxSymbols \<and> maxBytes s = DefaultSyncMaxBytes \<and>
     \<not> doneReceived s \<and> \<not> convergeFired s"

lemma load_record_fresh: "fresh_session s \<Longrightarrow> fresh_session (load_record C s r)"
  by (cases "dec s") (auto simp: fresh_session_def load_record_def Let_def AddElement_def AddLocalElement_def
      NewDecoder_def split: option.splits)

lemma load_record_holds: "holds_records C rs s \<Longrightarrow> holds_records C (rs @ [r]) (load_record C s r)"
proof (cases "records s (ElementID C r)")
  case None
  then have "load_record C s r = s\<lparr>records := (records s)(ElementID C r \<mapsto> r), enc := AddElement (enc s) (ElementID C r),
      dec := AddLocalElement (dec s) (ElementID C r)\<rparr>"
    by (simp add: load_record_def Let_def)
  with None show "holds_records C rs s \<Longrightarrow> holds_records C (rs @ [r]) (load_record C s r)"
    by (auto simp: holds_records_def AddElement_def AddLocalElement_def)
next
  case (Some x)
  assume h: "holds_records C rs s"
  then have "ElementID C r \<in> ElementID C ` set rs" using Some unfolding holds_records_def by (metis option.distinct(1))
  with h Some show "holds_records C (rs @ [r]) (load_record C s r)"
    by (auto simp: holds_records_def load_record_def Let_def)
qed

lemma load_record_other:
  "txid (load_record C s r) = txid s" "role (load_record C s r) = role s" "phase (load_record C s r) = phase s"
  by (simp_all add: load_record_def Let_def split: option.splits)

lemma NewSyncSession_new:
  fixes C now tx rl rs
  defines "s \<equiv> NewSyncSession C now tx rl rs"
  shows "holds_records C rs s" "fresh_session s" "txid s = tx" "role s = rl" "phase s = PhaseIdle"
proof -
  have "holds_records C rs s \<and> fresh_session s \<and> txid s = tx \<and> role s = rl \<and> phase s = PhaseIdle"
    unfolding s_def NewSyncSession_def
  proof (induction rs rule: rev_induct)
    case Nil
    show ?case by (simp add: holds_records_def fresh_session_def newEncoder_def NewDecoder_def)
  next
    case (snoc r rs)
    then show ?case by (simp add: load_record_holds load_record_fresh load_record_other)
  qed
  then show "holds_records C rs s" "fresh_session s" "txid s = tx" "role s = rl" "phase s = PhaseIdle" by auto
qed

lemma holds_wf:
  assumes "holds_records C rs s" and "\<forall>m. length (sha256 C m) = 32"
  shows "wf_elems (elems (enc s))"
  using assms by (auto simp: holds_records_def wf_elems_def ElementID_def)

lemma fold_batches_dec:
  "dec (foldl apply_batch s bs) = foldl AddRemoteSymbol (dec s) (concat (map (map unwire_symbol \<circ> ss_Symbols) bs))"
  by (induction bs arbitrary: s) (simp_all add: apply_batch_def)

lemma fold_batches_records: "records (foldl apply_batch s bs) = records s"
  by (induction bs arbitrary: s) (simp_all add: apply_batch_def)

text \<open>
  The whole symbol exchange of two fresh sessions: the initiator's decoder ends as if it had read
  the responder's stream in order.
\<close>

lemma exchange_decoder:
  assumes i: "holds_records C LS i" "fresh_session i" and r: "holds_records C RS r" "fresh_session r"
    and sha: "\<forall>m. length (sha256 C m) = 32" and "txid i = txid r"
    and p: "pump n r = (fs, r')" and ds: "set ds = set fs" "ds \<noteq> []"
  shows "\<exists>i'. deliver i ds = (replicate (length ds) None, i') \<and> symbolsIn i' = total_symbols fs \<and>
    dec i' = runDecoder (elems (enc i)) (encoderStream (elems (enc r)) (nat (total_symbols fs))) \<and>
    records i' = records i \<and> txid i' = txid i \<and> pendingSymbols i' = [] \<and> 0 < total_symbols fs"
    and "records r' = records r" and "txid r' = txid r"
proof -
  have ok: "out_ok r" using r(2) by (simp add: out_ok_def fresh_session_def DefaultSyncMaxSymbols_def)
  have out0: "symbolsOut r = 0" "symbolsIn i = 0" "maxSymbols i = 2000" "maxSymbols r = 2000" "pendingSymbols i = []"
    using i(2) r(2) by (simp_all add: fresh_session_def DefaultSyncMaxSymbols_def)
  have pu: "pumped r fs r'" using pump_stream [OF ok holds_wf [OF r(1) sha], of n] p by simp
  then show "records r' = records r" "txid r' = txid r" by (simp_all add: pumped_def)
  have fs: "fs \<noteq> []" using ds by auto
  then have t: "total_symbols fs \<le> 2000" using pu out0 by (simp add: pumped_def)
  then have len: "length fs \<le> Suc maxPendingSymbolBatches"
    using pu by (simp add: pumped_def maxPendingSymbolBatches_def)
  have d: "deliver i ds = (replicate (length ds) None, foldl apply_batch (i\<lparr>phase := PhaseSymbolsFlowing\<rparr>) fs)"
    by (rule deliver_all) (use pu out0 t len ds assms(6) in \<open>auto simp: pumped_def\<close>)
  have st: "concat (map (map unwire_symbol \<circ> ss_Symbols) fs) = encoderStream (elems (enc r)) (nat (total_symbols fs))"
    using pu out0(1) by (simp add: pumped_def stream_symbols_def encoderStream_eq)
  have "dec i = NewDecoder\<lparr>local := elems (enc i)\<rparr>" using i by (simp add: fresh_session_def holds_records_def)
  then have "dec (foldl apply_batch (i\<lparr>phase := PhaseSymbolsFlowing\<rparr>) fs) =
      runDecoder (elems (enc i)) (encoderStream (elems (enc r)) (nat (total_symbols fs)))"
    unfolding fold_batches_dec st runDecoder_def AddLocalElements by (simp add: foldl_conv_fold NewDecoder_def)
  moreover have "0 < total_symbols fs" using fs pu by (cases fs) (auto simp: pumped_def add_pos_nonneg)
  ultimately show "\<exists>i'. deliver i ds = (replicate (length ds) None, i') \<and> symbolsIn i' = total_symbols fs \<and>
    dec i' = runDecoder (elems (enc i)) (encoderStream (elems (enc r)) (nat (total_symbols fs))) \<and>
    records i' = records i \<and> txid i' = txid i \<and> pendingSymbols i' = [] \<and> 0 < total_symbols fs"
    using d out0 by (auto simp: fold_batches_records)
qed

lemma hash_separates_sets:
  "set R = set R' \<Longrightarrow> set L = set L' \<Longrightarrow> hash_separates R L n \<longleftrightarrow> hash_separates R' L' n"
  by (simp add: hash_separates_def)

lemma map_filter_records:
  assumes "holds_records C rs s" and "set ids \<subseteq> set (elems (enc s))"
  shows "map (ElementID C) (List.map_filter (records s) ids) = ids"
    and "set (List.map_filter (records s) ids) \<subseteq> set rs" and "filter (\<lambda>b. records s b = None) ids = []"
proof -
  have x: "\<exists>r. records s x = Some r \<and> r \<in> set rs \<and> ElementID C r = x" if "x \<in> set ids" for x
    using assms that unfolding holds_records_def by (metis option.exhaust subsetD)
  then show "map (ElementID C) (List.map_filter (records s) ids) = ids"
  proof (induction ids)
    case (Cons a ids)
    from Cons.prems [of a] obtain y where "records s a = Some y" "ElementID C y = a" by auto
    with Cons show ?case by (simp add: List.map_filter_simps)
  qed (simp add: List.map_filter_simps)
  show "set (List.map_filter (records s) ids) \<subseteq> set rs"
    using x by (force simp: List.map_filter_def)
  show "filter (\<lambda>b. records s b = None) ids = []" using x by (force simp: filter_empty_conv)
qed

text \<open>A converged decoder whose symbols every difference touches has found every difference.\<close>

lemma converged_complete:
  assumes ex: "exchange R L n" and "Converged (runDecoder L (encoderStream R n))"
    and touch: "\<forall>x \<in> (set R - set L) \<union> (set L - set R). \<exists>k < n. contributes (Key x) (of_nat k)"
  shows "set (Added (runDecoder L (encoderStream R n))) = set R - set L"
    and "set (Removed (runDecoder L (encoderStream R n))) = set L - set R"
proof -
  let ?d = "runDecoder L (encoderStream R n)"
  have snd: "sound R L ?d" by (rule sound_runDecoder [OF ex order_refl])
  have "x \<notin> set (remaining R L (Added ?d) @ remaining L R (Removed ?d))" for x
  proof
    assume x: "x \<in> set (remaining R L (Added ?d) @ remaining L R (Removed ?d))"
    then have "x \<in> (set R - set L) \<union> (set L - set R)" by (auto simp: set_remaining)
    with touch obtain k where "k < n" "contributes (Key x) (of_nat k)" by blast
    then have "x \<in> set (contributors (remaining R L (Added ?d) @ remaining L R (Removed ?d)) k)"
      using x unfolding set_contributors by blast
    moreover have "contributors (remaining R L (Added ?d) @ remaining L R (Removed ?d)) k = []"
      using peeling_converged [OF ex] assms(2) \<open>k < n\<close> by blast
    ultimately show False by simp
  qed
  then show "set (Added ?d) = set R - set L" "set (Removed ?d) = set L - set R"
    using snd by (auto simp: set_remaining sound_def)
qed

lemma ApplyNeed_found:
  assumes "holds_records C RS r" and "records r' = records r" "txid r' = sn_TxID need"
    and "set (sn_IDs need) \<subseteq> set (elems (enc r))" and "length (sn_IDs need) \<le> MaxNeedIDsPerMessage"
    and "wf_elems (elems (enc r))"
  shows "\<exists>found. ApplyNeed r' need = Inr (found, []) \<and> map (ElementID C) found = sn_IDs need \<and> set found \<subseteq> set RS"
proof -
  have "filter (\<lambda>b. length b = 32) (sn_IDs need) = sn_IDs need"
    using assms(4,6) by (auto simp: wf_elems_def filter_id_conv)
  then show ?thesis
    using assms map_filter_records [OF assms(1,4)] by (simp add: ApplyNeed_def Let_def)
qed

section \<open>Runs of a session\<close>

text \<open>
  A session is opened by one side, then any of its operations is called in any order with any
  arguments, failing calls included.  The index counts the calls that told the initiator to converge.
\<close>

inductive session_run :: "crypto \<Rightarrow> nat \<Rightarrow> SyncSession \<Rightarrow> bool" for C where
  initiator: "session_run C 0 (snd (Begin (NewSyncSession C now tx RoleInitiator rs) f))"
| responder: "ApplyBegin (NewSyncSession C now tx RoleResponder rs) m = (None, s) \<Longrightarrow> session_run C 0 s"
| produce: "session_run C k s \<Longrightarrow> session_run C k (snd (ProduceSymbols s n))"
| symbols: "session_run C k s \<Longrightarrow> session_run C k (snd (ApplySymbols s m))"
| converge: "session_run C k s \<Longrightarrow> ShouldInitiatorConverge s = (b, s') \<Longrightarrow> session_run C (if b then Suc k else k) s'"
| need: "session_run C k s \<Longrightarrow> session_run C k (snd (NeedFrame s ids))"
| build: "session_run C k s \<Longrightarrow> session_run C k (snd (BuildRecordsFrame s recs missing))"
| receive: "session_run C k s \<Longrightarrow> session_run C k (snd (ApplyRecords s rm))"
| finish: "session_run C k s \<Longrightarrow> session_run C k (snd (Finish s st))"
| ended: "session_run C k s \<Longrightarrow> session_run C k (snd (ApplyEnd s em))"
| touched: "session_run C k s \<Longrightarrow> session_run C k (touch t s)"
| stopped: "session_run C k s \<Longrightarrow> session_run C k (StopPump s)"

definition within_budget :: "nat \<Rightarrow> SyncSession \<Rightarrow> bool" where
  "within_budget k s \<longleftrightarrow>
     maxSymbols s \<le> DefaultSyncMaxSymbols \<and> maxBytes s \<le> DefaultSyncMaxBytes \<and>
     0 \<le> symbolsIn s \<and> symbolsIn s \<le> maxSymbols s \<and> symbolsIn s = int (SymbolsIn (dec s)) \<and>
     symbolsOut s \<le> maxSymbols s \<and> symbolsOut s = uint (nextIdx (enc s)) \<and>
     0 \<le> bytesIn s \<and> bytesIn s \<le> maxBytes s \<and> length (pendingSymbols s) \<le> maxPendingSymbolBatches \<and>
     k = (if convergeFired s then 1 else 0)"

lemma SymbolsIn_AddRemoteSymbol: "SymbolsIn (AddRemoteSymbol d x) = Suc (SymbolsIn d)"
proof -
  have "length (diffSymbols (peel (Riblt.extend d x))) = Suc (length (diffSymbols d))"
    by (rule peel_invariant) (simp_all add: Riblt.extend_def diffSymbols_peel_step)
  then show ?thesis by (simp add: SymbolsIn_def AddRemoteSymbol_extend)
qed

lemma SymbolsIn_batch: "SymbolsIn (foldl AddRemoteSymbol d xs) = SymbolsIn d + length xs"
  by (induction xs arbitrary: d) (simp_all add: SymbolsIn_AddRemoteSymbol)

lemma SymbolsIn_fresh: "fresh_session s \<Longrightarrow> SymbolsIn (dec s) = 0"
  by (cases "dec s") (simp add: fresh_session_def SymbolsIn_def NewDecoder_def)

lemma within_budget_pending:
  "within_budget k s \<Longrightarrow> length p \<le> maxPendingSymbolBatches \<Longrightarrow> within_budget k (s\<lparr>pendingSymbols := p\<rparr>)"
  by (simp add: within_budget_def)

lemma within_budget_irrelevant [simp]:
  "within_budget k (s\<lparr>phase := f\<rparr>) = within_budget k s" "within_budget k (touch t s) = within_budget k s"
  "within_budget k (StopPump s) = within_budget k s" "within_budget k (s\<lparr>bytesOut := b\<rparr>) = within_budget k s"
  by (simp_all add: within_budget_def touch_def StopPump_def)

lemma within_budget_batch:
  assumes "within_budget k s" and "\<not> symbolsIn s + int (length (ss_Symbols cur)) > maxSymbols s"
  shows "within_budget k (apply_batch s cur)"
  using assms by (auto simp: within_budget_def apply_batch_def SymbolsIn_batch)

lemma within_budget_drain: "within_budget k s \<Longrightarrow> within_budget k (snd (drain s cur))"
proof (induction s cur rule: drain.induct)
  case (1 s cur)
  show ?case
  proof (cases "symbolsIn s + int (length (ss_Symbols cur)) > maxSymbols s")
    case True
    with 1 show ?thesis by (simp add: drain.simps [of s])
  next
    case False
    let ?s = "apply_batch s cur"
    have w: "within_budget k ?s" by (rule within_budget_batch [OF 1(2) False])
    show ?thesis
    proof (cases "map_of (pendingSymbols ?s) (symbolsIn ?s)")
      case None
      then show ?thesis using w False by (simp add: drain.simps [of s] Let_def)
    next
      case (Some nxt)
      have "length (AList.delete (symbolsIn ?s) (pendingSymbols ?s)) \<le> maxPendingSymbolBatches"
        using AList_delete_less [OF Some] w by (simp add: within_budget_def)
      from 1(1) [OF False refl Some within_budget_pending [OF w this]] show ?thesis
        using False Some by (simp add: drain.simps [of s] Let_def)
    qed
  qed
qed

lemma within_budget_ApplySymbols: "within_budget k s \<Longrightarrow> within_budget k (snd (ApplySymbols s m))"
  using within_budget_drain [of k "s\<lparr>phase := PhaseSymbolsFlowing\<rparr>" m]
  by (auto simp: ApplySymbols_def Let_def AList_update_new intro!: within_budget_pending split: option.splits)

lemma within_budget_ProduceSymbols:
  assumes "within_budget k s"
  shows "within_budget k (snd (ProduceSymbols s n))"
proof -
  let ?c = "min (min n 100) (maxSymbols s - symbolsOut s)"
  show ?thesis
  proof (cases "?c \<le> 0")
    case True
    then have "snd (ProduceSymbols s n) = s"
      by (auto simp: ProduceSymbols_def Let_def MaxSymbolsPerMessage_def min_def split: if_splits)
    with assms show ?thesis by simp
  next
    case False
    have b: "symbolsOut s = uint (nextIdx (enc s))" "maxSymbols s \<le> 2000"
      using assms by (simp_all add: within_budget_def DefaultSyncMaxSymbols_def)
    define c where "c = ?c"
    have c: "0 < c" "c \<le> maxSymbols s - symbolsOut s" using False by (auto simp: c_def)
    then have u: "uint (nextIdx (enc s) + of_nat (nat c)) = uint (nextIdx (enc s)) + c"
      using b uint_plus_of_nat [of "nextIdx (enc s)" "nat c"] by simp
    have "snd (ProduceSymbols s n) = s\<lparr>enc := (enc s)\<lparr>nextIdx := nextIdx (enc s) + of_nat (nat c)\<rparr>,
        symbolsOut := symbolsOut s + c, phase := PhaseSymbolsFlowing\<rparr>"
      using False unfolding c_def
      by (auto simp: ProduceSymbols_def Let_def MaxSymbolsPerMessage_def NextSymbols_eq min_def split: if_splits)
    with assms u c show ?thesis by (simp add: within_budget_def)
  qed
qed

lemma syncRecordWireSize_nonneg: "0 \<le> syncRecordWireSize x"
  by (simp add: syncRecordWireSize_def)

lemma within_budget_ApplyRecords: "within_budget k s \<Longrightarrow> within_budget k (snd (ApplyRecords s m))"
proof -
  have "0 \<le> sum_list (map (syncRecordWireSize \<circ> fromWireRecord) xs)" for xs
    by (rule sum_list_nonneg) (auto simp: syncRecordWireSize_nonneg)
  then show "within_budget k s \<Longrightarrow> within_budget k (snd (ApplyRecords s m))"
    by (auto simp: ApplyRecords_def Let_def within_budget_def)
qed

lemma session_run_budget: "session_run C k s \<Longrightarrow> within_budget k s"
proof (induction rule: session_run.induct)
  case (initiator now tx rs f)
  show ?case
    using NewSyncSession_new(2) [of C now tx RoleInitiator rs]
      SymbolsIn_fresh [OF NewSyncSession_new(2) [of C now tx RoleInitiator rs]]
    by (auto simp: Begin_def within_budget_def fresh_session_def DefaultSyncMaxSymbols_def DefaultSyncMaxBytes_def)
next
  case (responder now tx rs m s)
  then show ?case
    using NewSyncSession_new(2) [of C now tx RoleResponder rs]
      SymbolsIn_fresh [OF NewSyncSession_new(2) [of C now tx RoleResponder rs]]
    by (auto simp: ApplyBegin_def within_budget_def fresh_session_def DefaultSyncMaxSymbols_def DefaultSyncMaxBytes_def
        Let_def split: if_splits)
next
  case (converge k s b s')
  then show ?case by (auto simp: ShouldInitiatorConverge_def within_budget_def Let_def split: if_splits)
qed (simp_all add: within_budget_ProduceSymbols within_budget_ApplySymbols within_budget_ApplyRecords NeedFrame_def
    BuildRecordsFrame_def Finish_def ApplyEnd_def)

section \<open>Properties\<close>

text \<open>
  C10: budgets.  In every run of a session the negotiated budgets are at most the defaults, the
  symbols received and sent and the bytes received stay within them, the decoder has
  read exactly \<open>symbolsIn\<close> symbols, the reorder buffer never exceeds 32 batches, and the initiator
  is told to converge at most once.
\<close>

theorem session_within_budget:
  assumes "session_run C k s"
  shows "maxSymbols s \<le> DefaultSyncMaxSymbols \<and> maxBytes s \<le> DefaultSyncMaxBytes \<and>
    symbolsIn s \<le> maxSymbols s \<and> symbolsIn s = int (SymbolsIn (dec s)) \<and> symbolsOut s \<le> maxSymbols s \<and>
    symbolsOut s = uint (nextIdx (enc s)) \<and> bytesIn s \<le> maxBytes s \<and>
    length (pendingSymbols s) \<le> maxPendingSymbolBatches \<and> k \<le> 1"
  using session_run_budget [OF assms] by (simp add: within_budget_def)

theorem session_within_budget_witness:
  "session_run toy_crypto 0 (snd (ProduceSymbols
      (snd (Begin (NewSyncSession toy_crypto 0 1 RoleInitiator [toy_record]) \<lparr>Pubkeys = [], Since = 0, Prefix = []\<rparr>)) 3)) \<and>
   symbolsOut (snd (ProduceSymbols
      (snd (Begin (NewSyncSession toy_crypto 0 1 RoleInitiator [toy_record]) \<lparr>Pubkeys = [], Since = 0, Prefix = []\<rparr>)) 3))
     \<le> DefaultSyncMaxSymbols"
proof -
  have run: "session_run toy_crypto 0 (snd (ProduceSymbols
      (snd (Begin (NewSyncSession toy_crypto 0 1 RoleInitiator [toy_record]) \<lparr>Pubkeys = [], Since = 0, Prefix = []\<rparr>)) 3))"
    by (intro session_run.produce session_run.initiator)
  show ?thesis using run session_within_budget [OF run] by linarith
qed

text \<open>
  C9: the order of delivery is irrelevant.  When the batches of a contiguous stream, at most one
  more than the reorder buffer holds and within the symbol budget, reach \<open>ApplySymbols\<close> in any order
  and any number of times, no call fails and the session ends exactly as if the batches had been
  applied once each, in stream order.
\<close>

theorem delivery_order_irrelevant:
  assumes "contiguous (symbolsIn s) bs" and "length bs \<le> Suc maxPendingSymbolBatches"
    and "symbolsIn s + total_symbols bs \<le> maxSymbols s" and "\<forall>m \<in> set bs. ss_TxID m = txid s"
    and "pendingSymbols s = []" and "set ds = set bs" "ds \<noteq> []"
  shows "deliver s ds =
    (replicate (length ds) None, foldl apply_batch (s\<lparr>phase := PhaseSymbolsFlowing\<rparr>) bs)"
  using assms by (rule deliver_all)

definition toy_batch :: "int \<Rightarrow> SyncSymbols" where
  "toy_batch i = \<lparr>ss_MsgType = 0, ss_TxID = 1, ss_Index = i,
     ss_Symbols = [wire_symbol zeroSymbol], ss_Done = False\<rparr>"

theorem delivery_order_irrelevant_witness:
  "deliver (NewSyncSession toy_crypto 0 1 RoleInitiator []) [toy_batch 1, toy_batch 0, toy_batch 1] =
     ([None, None, None], foldl apply_batch
        ((NewSyncSession toy_crypto 0 1 RoleInitiator [])\<lparr>phase := PhaseSymbolsFlowing\<rparr>) [toy_batch 0, toy_batch 1])"
  using delivery_order_irrelevant [of "NewSyncSession toy_crypto 0 1 RoleInitiator []" "[toy_batch 0, toy_batch 1]"
      "[toy_batch 1, toy_batch 0, toy_batch 1]"]
  by (simp add: NewSyncSession_def toy_batch_def maxPendingSymbolBatches_def DefaultSyncMaxSymbols_def
      numeral_3_eq_3 insert_commute)

text \<open>
  C8: the symbol exchange finds the difference.  Two sessions opened on the record lists \<open>LS\<close> and
  \<open>RS\<close>, the responder's batches delivered to the initiator in any order: under the hash hypothesis
  of the decoder, the identifiers asked for are exactly records the peer has and the initiator
  lacks, without repetition and in ascending order, the records to push are ones the peer lacks, and the
  responder answers the request with exactly the records asked for and nothing missing.  When the
  decoder reports convergence and every differing identifier touches one of the symbols, both are
  complete.
\<close>

theorem sync_finds_difference:
  assumes sha: "\<forall>m. length (sha256 C m) = 32"
    and i: "i = snd (Begin (NewSyncSession C t1 tx RoleInitiator LS) f)"
    and r: "ApplyBegin (NewSyncSession C t2 tx RoleResponder RS)
              (fst (Begin (NewSyncSession C t1 tx RoleInitiator LS) f)) = (None, r)"
    and p: "pump n r = (fs, r')" and ds: "set ds = set fs" "ds \<noteq> []"
    and hash: "hash_separates (map (ElementID C) RS) (map (ElementID C) LS) (nat (total_symbols fs))"
  shows "\<exists>i'. deliver i ds = (replicate (length ds) None, i') \<and> symbolsIn i' = total_symbols fs \<and>
    sorted (NeedIDs i') \<and> distinct (NeedIDs i') \<and>
    set (NeedIDs i') \<subseteq> ElementID C ` set RS - ElementID C ` set LS \<and>
    set (RemovedRecords i') \<subseteq> {x \<in> set LS. ElementID C x \<notin> ElementID C ` set RS} \<and>
    (\<forall>need i''. NeedFrame i' (NeedIDs i') = (Inr need, i'') \<longrightarrow>
       (\<exists>found. ApplyNeed r' need = Inr (found, []) \<and> map (ElementID C) found = NeedIDs i' \<and> set found \<subseteq> set RS)) \<and>
    (Converged (dec i') \<and>
     (\<forall>x \<in> (ElementID C ` set RS - ElementID C ` set LS) \<union> (ElementID C ` set LS - ElementID C ` set RS).
        \<exists>k < nat (total_symbols fs). contributes (Key x) (of_nat k)) \<longrightarrow>
     set (NeedIDs i') = ElementID C ` set RS - ElementID C ` set LS \<and>
     ElementID C ` set (RemovedRecords i') = ElementID C ` set LS - ElementID C ` set RS)"
proof -
  note newL = NewSyncSession_new [where C = C and rs = LS and now = t1 and tx = tx and rl = RoleInitiator]
    and newR = NewSyncSession_new [where C = C and rs = RS and now = t2 and tx = tx and rl = RoleResponder]
  have hi: "holds_records C LS i" "fresh_session i" "txid i = tx"
    using newL by (simp_all add: i Begin_def holds_records_def fresh_session_def)
  have hr: "holds_records C RS r" "fresh_session r" "txid r = tx"
    using r newL newR
    by (auto simp: ApplyBegin_def Begin_def holds_records_def fresh_session_def Let_def split: if_splits)
  note ex = exchange_decoder [OF hi(1,2) hr(1,2) sha _ p ds]
  have tx: "txid i = txid r" using hi(3) hr(3) by simp
  obtain i' where i': "deliver i ds = (replicate (length ds) None, i')" "symbolsIn i' = total_symbols fs"
    "dec i' = runDecoder (elems (enc i)) (encoderStream (elems (enc r)) (nat (total_symbols fs)))"
    "records i' = records i" "txid i' = txid i" using ex(1) [OF tx] by blast
  let ?R = "elems (enc r)" and ?L = "elems (enc i)" and ?n = "nat (total_symbols fs)"
  have sets: "set ?R = ElementID C ` set RS" "set ?L = ElementID C ` set LS"
    using hi hr by (simp_all add: holds_records_def)
  have "hash_separates ?R ?L ?n" using hash hash_separates_sets [of ?R "map (ElementID C) RS" ?L "map (ElementID C) LS"] sets by simp
  then have exch: "exchange ?R ?L ?n"
    using hi(1) hr(1) holds_wf [OF hi(1) sha] holds_wf [OF hr(1) sha] by (simp add: exchange_def holds_records_def)
  have snd: "sound ?R ?L (dec i')" unfolding i'(3) by (rule sound_runDecoder [OF exch order_refl])
  have ok: "decoded_ok (dec i')" unfolding i'(3) using dec_inv_runDecoder by (auto simp: dec_inv_def)
  have need: "set (NeedIDs i') = set (Added (dec i'))" "sorted (NeedIDs i')" "distinct (NeedIDs i')"
    using decoded_ok_wf(3) [OF ok] by (simp_all add: NeedIDs_def)
  have inR: "set (NeedIDs i') \<subseteq> set ?R" and inL: "set (Removed (dec i')) \<subseteq> set ?L"
    using snd need by (auto simp: sound_def)
  have rem: "ElementID C ` set (RemovedRecords i') = set (Removed (dec i'))" "set (RemovedRecords i') \<subseteq> set LS"
    using map_filter_records [OF hi(1) inL] i'(4) by (simp_all add: RemovedRecords_def flip: set_map)
  have found: "\<exists>found. ApplyNeed r' nd = Inr (found, []) \<and> map (ElementID C) found = NeedIDs i' \<and> set found \<subseteq> set RS"
    if "NeedFrame i' (NeedIDs i') = (Inr nd, i'')" for nd i''
    using ApplyNeed_found [OF hr(1) ex(2) [OF tx], of nd] that inR ex(3) [OF tx] i'(5) hr(3) hi(3) holds_wf [OF hr(1) sha]
    by (auto simp: NeedFrame_def split: if_splits)
  have full: "set (NeedIDs i') = set ?R - set ?L \<and> ElementID C ` set (RemovedRecords i') = set ?L - set ?R"
    if "Converged (dec i')" "\<forall>x \<in> (set ?R - set ?L) \<union> (set ?L - set ?R). \<exists>k < ?n. contributes (Key x) (of_nat k)"
    using converged_complete [OF exch] that need(1) rem(1) unfolding i'(3) by blast
  have push: "set (RemovedRecords i') \<subseteq> {x \<in> set LS. ElementID C x \<notin> set ?R}"
    using rem snd by (auto simp: sound_def)
  have ask: "set (NeedIDs i') \<subseteq> set ?R - set ?L" using snd need(1) by (simp add: sound_def)
  show ?thesis
    unfolding sets [symmetric]
    by (intro exI [of _ i'] conjI allI impI i'(1,2) need(2,3) push ask; (elim conjE)?)
      (erule found, simp_all add: full)
qed

theorem sync_finds_difference_witness:
  "\<exists>i' fs r'. pump 1 (snd (ApplyBegin (NewSyncSession toy_crypto 0 1 RoleResponder [toy_record])
        (fst (Begin (NewSyncSession toy_crypto 0 1 RoleInitiator []) \<lparr>Pubkeys = [], Since = 0, Prefix = []\<rparr>)))) = (fs, r') \<and>
     deliver (snd (Begin (NewSyncSession toy_crypto 0 1 RoleInitiator []) \<lparr>Pubkeys = [], Since = 0, Prefix = []\<rparr>))
       (rev fs) = (replicate (length fs) None, i') \<and>
     set (NeedIDs i') \<subseteq> {ElementID toy_crypto toy_record}"
proof -
  let ?f = "\<lparr>Pubkeys = [], Since = 0, Prefix = []\<rparr>"
  let ?new = "NewSyncSession toy_crypto 0 1"
  let ?b = "fst (Begin (?new RoleInitiator []) ?f)"
  have sha: "\<forall>m. length (sha256 toy_crypto m) = 32" by (simp add: toy_crypto_def)
  define r where "r = snd (ApplyBegin (?new RoleResponder [toy_record]) ?b)"
  note new = NewSyncSession_new [where C = toy_crypto and now = 0 and tx = 1]
  have r: "ApplyBegin (?new RoleResponder [toy_record]) ?b = (None, r)"
    using new(3) by (simp add: r_def ApplyBegin_def Begin_def Let_def)
  have "out_ok r" "wf_elems (elems (enc r))" "symbolsOut r < maxSymbols r"
    using new(2) [where rl = RoleResponder and rs = "[toy_record]"] new(2) [where rl = RoleInitiator and rs = "[]"]
      holds_wf [OF new(1) [where rl = RoleResponder and rs = "[toy_record]"] sha]
    by (auto simp: r_def ApplyBegin_def Begin_def Let_def out_ok_def fresh_session_def DefaultSyncMaxSymbols_def)
  with ProduceSymbols_cases [of r] obtain fr s1 where "ProduceSymbols r (int MaxSymbolsPerMessage) = (Inr fr, s1)"
    by fastforce
  then have ne: "fst (pump 1 r) \<noteq> []" by (simp add: Let_def split: prod.split)
  obtain fs r' where p: "pump 1 r = (fs, r')" by force
  have h: "hash_separates (map (ElementID toy_crypto) [toy_record]) (map (ElementID toy_crypto) []) n" for n
    using sha by (intro hash_separates_single [where x = "ElementID toy_crypto toy_record"]) (auto simp: ElementID_def)
  from sync_finds_difference [OF sha refl r p _ _ h, of "rev fs"] ne p obtain i' where
    "deliver (snd (Begin (?new RoleInitiator []) ?f)) (rev fs) = (replicate (length (rev fs)) None, i')"
    "set (NeedIDs i') \<subseteq> ElementID toy_crypto ` set [toy_record] - ElementID toy_crypto ` set []" by auto
  then show ?thesis using p unfolding r_def by (intro exI [of _ i'] exI [of _ fs] exI [of _ r']) auto
qed

end
