(* ===== verification/Swarm_Protocol.thy ===== *)
theory Swarm_Protocol
  imports Swarm_Limits Sync_Session
begin

text \<open>
  The peer-wire engine's state and its negotiation callbacks
  (\<^verbatim>\<open>internal/swarmsearch/protocol.go\<close>, \<^verbatim>\<open>ports.go\<close>).  The state is one record; every callback is a
  function on it.  Sessions live in the store \<open>p_store\<close> and the registry and the pumps hold their
  positions there, as the Go code holds pointers.  The effects on the outside are logs: \<open>p_sent\<close> the
  calls of \<open>Transport.SendExtension\<close>, \<open>p_replies\<close> the calls of a handler's \<open>ReplyFunc\<close>, \<open>p_indexers\<close>,
  \<open>p_endorsed\<close> and \<open>p_observed\<close> the calls of the gossip sinks and the publisher observer.  The record
  source and sink are the node's record cache.  Maps the code ranges over are association lists,
  whose order stands for one of Go's iteration orders.
\<close>

section \<open>Ports\<close>

text \<open>\<open>AddedAt\<close> is in seconds, \<open>None\<close> when it is the zero time; \<open>Score\<close>, a \<open>float64\<close>, is a rational.\<close>

record LocalHit =
  lh_DocType :: string
  lh_InfoHash :: string
  lh_Name :: bytes
  lh_SizeBytes :: int
  lh_AddedAt :: "int option"
  lh_Seeders :: int
  lh_Leechers :: int
  lh_FileIndex :: int
  lh_FilePath :: bytes
  lh_Score :: rat

text \<open>\<open>SearchLocal\<close>: \<open>None\<close> is an error.\<close>

type_synonym LocalSearcher = "bytes \<Rightarrow> int \<Rightarrow> (int \<times> LocalHit list) option"

record PeerToken =
  tok_addr :: addr
  tok_epoch :: u64

definition zeroToken :: PeerToken where "zeroToken = \<lparr>tok_addr = [], tok_epoch = 0\<rparr>"

definition valid :: "PeerToken \<Rightarrow> bool" where "valid t \<longleftrightarrow> tok_addr t \<noteq> []"

text \<open>The transport decides whether a send fails.\<close>

type_synonym Transport = "PeerToken \<Rightarrow> bytes \<Rightarrow> bool"

section \<open>State\<close>

definition announceQueueDepth :: nat where "announceQueueDepth = 64"

record Capabilities =
  cap_Sharing :: Sharing
  cap_Services :: u64

record PeerState =
  ps_Addr :: addr
  ps_SeenAt :: int
  ps_Supported :: bool
  ps_RemoteExtID :: int
  ps_token :: PeerToken
  ps_Services :: ServiceBits
  ps_Version :: int
  ps_PublisherPubkey :: bytes
  ps_hasPubkey :: bool

definition zeroPubkey :: bytes where "zeroPubkey = replicate 32 0"

definition newPeerState :: "addr \<Rightarrow> int \<Rightarrow> PeerState" where
  "newPeerState a now = \<lparr>ps_Addr = a, ps_SeenAt = now, ps_Supported = False, ps_RemoteExtID = 0, ps_token = zeroToken,
     ps_Services = 0, ps_Version = 0, ps_PublisherPubkey = zeroPubkey, ps_hasPubkey = False\<rparr>"

record incomingResult =
  in_fromAddr :: addr
  in_reject :: bool
  in_code :: int
  in_total :: int
  in_hits :: "Hit list"

text \<open>\<open>pq_results\<close> is the content of the channel, of capacity \<open>pq_cap\<close>.\<close>

record pendingQuery =
  pq_txid :: u32
  pq_asked :: "addr list"
  pq_cap :: nat
  pq_results :: "incomingResult list"
  pq_responded :: "addr list"

record Protocol =
  p_peers :: "(addr \<times> PeerState) list"
  p_searcher :: "LocalSearcher option"
  p_transport :: "Transport option"
  p_caps :: "Capabilities option"
  p_pubkey :: bytes
  p_hasPub :: bool
  p_epoch :: u64
  p_idxSink :: bool
  p_endSink :: bool
  p_source :: bool
  p_sink :: bool
  p_observer :: bool
  p_cache :: RecordCache
  p_store :: "SyncSession list"
  p_syncSessions :: "(addr \<times> (u32 \<times> nat) list) list"
  p_pumps :: "(PeerToken \<times> nat) list"
  p_limiter :: rateLimiter
  p_ban :: banman
  p_pending :: "u32 \<Rightarrow> pendingQuery option"
  p_txid :: u32
  p_announceCh :: "PeerToken list"
  p_done :: bool
  p_sent :: "(PeerToken \<times> bytes) list"
  p_replies :: "(addr \<times> bytes) list"
  p_indexers :: "(bytes \<times> string) list"
  p_endorsed :: "(bytes \<times> bytes) list"
  p_observed :: "bytes list"

definition New :: Protocol where
  "New = \<lparr>p_peers = [], p_searcher = None, p_transport = None, p_caps = None, p_pubkey = zeroPubkey, p_hasPub = False,
     p_epoch = 0, p_idxSink = False, p_endSink = False, p_source = False, p_sink = False, p_observer = False,
     p_cache = NewRecordCache, p_store = [], p_syncSessions = [], p_pumps = [],
     p_limiter = newRateLimiter DefaultRateLimit, p_ban = newBanman, p_pending = (\<lambda>_. None), p_txid = 0,
     p_announceCh = [], p_done = False, p_sent = [], p_replies = [], p_indexers = [], p_endorsed = [], p_observed = []\<rparr>"

definition Close :: "Protocol \<Rightarrow> Protocol" where "Close p = p\<lparr>p_done := True\<rparr>"

section \<open>Injection\<close>

definition SetSearcher :: "Protocol \<Rightarrow> LocalSearcher option \<Rightarrow> Protocol" where "SetSearcher p s = p\<lparr>p_searcher := s\<rparr>"
definition SetTransport :: "Protocol \<Rightarrow> Transport option \<Rightarrow> Protocol" where "SetTransport p t = p\<lparr>p_transport := t\<rparr>"
definition SetCapabilitySource :: "Protocol \<Rightarrow> Capabilities option \<Rightarrow> Protocol" where "SetCapabilitySource p c = p\<lparr>p_caps := c\<rparr>"
definition SetPublisherPubkey :: "Protocol \<Rightarrow> bytes \<Rightarrow> bool \<Rightarrow> Protocol" where
  "SetPublisherPubkey p pk has = p\<lparr>p_pubkey := pk, p_hasPub := has\<rparr>"
definition SetIndexerSink :: "Protocol \<Rightarrow> bool \<Rightarrow> Protocol" where "SetIndexerSink p b = p\<lparr>p_idxSink := b\<rparr>"
definition SetEndorsementSink :: "Protocol \<Rightarrow> bool \<Rightarrow> Protocol" where "SetEndorsementSink p b = p\<lparr>p_endSink := b\<rparr>"
definition SetRateLimit :: "Protocol \<Rightarrow> RateLimit \<Rightarrow> Protocol" where
  "SetRateLimit p rl = p\<lparr>p_limiter := setConfig (p_limiter p) rl\<rparr>"
definition SetRecordSource :: "Protocol \<Rightarrow> bool \<Rightarrow> Protocol" where "SetRecordSource p b = p\<lparr>p_source := b\<rparr>"
definition SetRecordSink :: "Protocol \<Rightarrow> bool \<Rightarrow> Protocol" where "SetRecordSink p b = p\<lparr>p_sink := b\<rparr>"
definition SetPublisherObserver :: "Protocol \<Rightarrow> bool \<Rightarrow> Protocol" where "SetPublisherObserver p b = p\<lparr>p_observer := b\<rparr>"

section \<open>Bans, tokens and sending\<close>

definition charge :: "int \<Rightarrow> addr \<Rightarrow> int \<Rightarrow> Protocol \<Rightarrow> Protocol" where
  "charge now a pts p = p\<lparr>p_ban := snd (ban_Add now (p_ban p) a pts)\<rparr>"

definition is_banned :: "int \<Rightarrow> addr \<Rightarrow> Protocol \<Rightarrow> bool \<times> Protocol" where
  "is_banned now a p = (let (b, m) = IsBanned now (p_ban p) a in (b, p\<lparr>p_ban := m\<rparr>))"

definition peerToken :: "Protocol \<Rightarrow> addr \<Rightarrow> PeerToken option" where
  "peerToken p a =
     (case map_of (p_peers p) a of
        Some ps \<Rightarrow> if valid (ps_token ps) then Some (ps_token ps) else None
      | None \<Rightarrow> None)"

definition peerHasReconciliation :: "Protocol \<Rightarrow> addr \<Rightarrow> bool" where
  "peerHasReconciliation p a =
     (case map_of (p_peers p) a of Some ps \<Rightarrow> Has (ps_Services ps) BitSetReconciliation | None \<Rightarrow> False)"

definition sendVia :: "PeerToken \<Rightarrow> bytes \<Rightarrow> Protocol \<Rightarrow> Protocol" where
  "sendVia tok f p = (case p_transport p of Some t \<Rightarrow> p\<lparr>p_sent := p_sent p @ [(tok, f)]\<rparr> | None \<Rightarrow> p)"

definition ascii :: "string \<Rightarrow> bytes" where "ascii s = map of_char s"

text \<open>A \<open>ReplyFunc\<close>, which may be \<open>nil\<close>.\<close>

definition reply_frame :: "bool \<Rightarrow> addr \<Rightarrow> bytes \<Rightarrow> Protocol \<Rightarrow> Protocol" where
  "reply_frame reply a f p = (if reply then p\<lparr>p_replies := p_replies p @ [(a, f)]\<rparr> else p)"

definition sendReject :: "wire \<Rightarrow> bool \<Rightarrow> addr \<Rightarrow> u32 \<Rightarrow> int \<Rightarrow> string \<Rightarrow> Protocol \<Rightarrow> Protocol" where
  "sendReject W reply a tx code reason p =
     (if \<not> reply then p
      else case EncodeReject W \<lparr>j_MsgType = 0, j_TxID = tx, j_Code = code, j_Reason = ascii reason\<rparr> of
             Inl _ \<Rightarrow> p
           | Inr f \<Rightarrow> reply_frame reply a f p)"

definition nextTxID :: "Protocol \<Rightarrow> u32 \<times> Protocol" where
  "nextTxID p = (p_txid p + 1, p\<lparr>p_txid := p_txid p + 1\<rparr>)"

definition caps :: "Protocol \<Rightarrow> Capabilities" where
  "caps p = (case p_caps p of
     Some c \<Rightarrow> c
   | None \<Rightarrow> \<lparr>cap_Sharing = \<lparr>ShareLocal = 0, FileHits = False, ContentHits = False\<rparr>, cap_Services = 0\<rparr>)"

section \<open>Session registry\<close>

definition MaxSyncSessionsPerPeer :: nat where "MaxSyncSessionsPerPeer = 4"
definition SyncSessionStaleAfter :: int where "SyncSessionStaleAfter = 120 * 10 ^ 9"

definition with_session :: "nat \<Rightarrow> (SyncSession \<Rightarrow> SyncSession) \<Rightarrow> Protocol \<Rightarrow> Protocol" where
  "with_session i f p = p\<lparr>p_store := (p_store p)[i := f (p_store p ! i)]\<rparr>"

definition new_session :: "SyncSession \<Rightarrow> Protocol \<Rightarrow> nat \<times> Protocol" where
  "new_session s p = (length (p_store p), p\<lparr>p_store := p_store p @ [s]\<rparr>)"

definition peer_sessions :: "Protocol \<Rightarrow> addr \<Rightarrow> (u32 \<times> nat) list" where
  "peer_sessions p a = (case map_of (p_syncSessions p) a of None \<Rightarrow> [] | Some m \<Rightarrow> m)"

text \<open>Stop the incumbent at this transaction id, if it is another session, then take its place.\<close>

definition replace_session :: "addr \<Rightarrow> nat \<Rightarrow> Protocol \<Rightarrow> Protocol" where
  "replace_session a i p =
     (let m = peer_sessions p a; tx = txid (p_store p ! i);
          p = (case map_of m tx of
                 Some j \<Rightarrow> if j \<noteq> i then with_session j StopPump p else p
               | None \<Rightarrow> p)
      in p\<lparr>p_syncSessions := AList.update a (AList.update tx i m) (p_syncSessions p)\<rparr>)"

definition registerSyncSession :: "addr \<Rightarrow> nat \<Rightarrow> Protocol \<Rightarrow> Protocol" where
  "registerSyncSession = replace_session"

definition lookupSyncSession :: "Protocol \<Rightarrow> addr \<Rightarrow> u32 \<Rightarrow> nat option" where
  "lookupSyncSession p a tx = map_of (peer_sessions p a) tx"

definition releaseSyncSession :: "addr \<Rightarrow> u32 \<Rightarrow> Protocol \<Rightarrow> Protocol" where
  "releaseSyncSession a tx p =
     (case map_of (p_syncSessions p) a of
        None \<Rightarrow> p
      | Some m \<Rightarrow>
          let m = AList.delete tx m in
          p\<lparr>p_syncSessions := (if m = [] then AList.delete a (p_syncSessions p)
                               else AList.update a m (p_syncSessions p))\<rparr>)"

definition releaseAllSyncSessions :: "addr \<Rightarrow> Protocol \<Rightarrow> Protocol" where
  "releaseAllSyncSessions a p =
     fold (\<lambda>(tx, i). with_session i StopPump) (peer_sessions p a)
       (p\<lparr>p_syncSessions := AList.delete a (p_syncSessions p)\<rparr>)"

text \<open>When the cap is reached the code leaves behind the inner map it may just have created.\<close>

definition registerSyncSessionIfUnderCap :: "addr \<Rightarrow> nat \<Rightarrow> nat \<Rightarrow> Protocol \<Rightarrow> bool \<times> Protocol" where
  "registerSyncSessionIfUnderCap a i cap p =
     (let m = peer_sessions p a; tx = txid (p_store p ! i);
          n = length (filter (\<lambda>e. fst e \<noteq> tx) m)
      in if n \<ge> cap then (False, p\<lparr>p_syncSessions := AList.update a m (p_syncSessions p)\<rparr>)
         else (True, replace_session a i p))"

section \<open>Negotiation\<close>

definition NotePeerAdded :: "int \<Rightarrow> addr \<Rightarrow> Protocol \<Rightarrow> Protocol" where
  "NotePeerAdded now a p =
     (case map_of (p_peers p) a of
        Some _ \<Rightarrow> p
      | None \<Rightarrow> p\<lparr>p_peers := AList.update a (newPeerState a now) (p_peers p)\<rparr>)"

definition OnRemoteHandshake :: "int \<Rightarrow> addr \<Rightarrow> bool \<Rightarrow> int \<Rightarrow> Protocol \<Rightarrow> Protocol" where
  "OnRemoteHandshake now a supported remoteExtID p0 =
     (let (banned, p) = is_banned now a p0 in
      if banned then p
      else
        let ps = (case map_of (p_peers p) a of Some ps \<Rightarrow> ps | None \<Rightarrow> newPeerState a now);
            wasSupported = ps_Supported ps;
            ps = ps\<lparr>ps_RemoteExtID := remoteExtID\<rparr>;
            advertises = (supported \<and> remoteExtID \<noteq> 0);
            newly = (advertises \<and> \<not> wasSupported);
            ep = (if newly then p_epoch p + 1 else p_epoch p);
            ps = (if advertises then ps\<lparr>ps_Supported := True\<rparr> else ps);
            ps = (if newly then ps\<lparr>ps_token := \<lparr>tok_addr = a, tok_epoch = ep\<rparr>\<rparr> else ps);
            p = p\<lparr>p_epoch := ep, p_peers := AList.update a ps (p_peers p)\<rparr>
        in if newly \<and> length (p_announceCh p) < announceQueueDepth
           then p\<lparr>p_announceCh := p_announceCh p @ [ps_token ps]\<rparr> else p)"

definition OnPeerClosed :: "addr \<Rightarrow> Protocol \<Rightarrow> Protocol" where
  "OnPeerClosed a p =
     releaseAllSyncSessions a
       (p\<lparr>p_peers := AList.delete a (p_peers p), p_limiter := limiter_forget (p_limiter p) a, p_ban := Forget (p_ban p) a\<rparr>)"

definition KnownPeers :: "Protocol \<Rightarrow> nat" where "KnownPeers p = length (p_peers p)"

definition CapablePeerCount :: "Protocol \<Rightarrow> nat" where
  "CapablePeerCount p = length (filter (\<lambda>e. ps_Supported (snd e)) (p_peers p))"

definition sendAnnounce :: "wire \<Rightarrow> PeerToken \<Rightarrow> Protocol \<Rightarrow> Protocol" where
  "sendAnnounce W tok p =
     (if p_transport p = None \<or> \<not> valid tok then p
      else
        let pa = \<lparr>a_MsgType = 0, a_Version = 0, a_Services = cap_Services (caps p),
                  a_Pk = (if p_hasPub p then p_pubkey p else []), a_Endorsed = []\<rparr>
        in case EncodePeerAnnounce W pa of Inl _ \<Rightarrow> p | Inr f \<Rightarrow> sendVia tok f p)"

text \<open>One round of the announce worker.\<close>

definition announceWorker :: "wire \<Rightarrow> Protocol \<Rightarrow> Protocol" where
  "announceWorker W p =
     (if p_done p then p
      else case p_announceCh p of
             [] \<Rightarrow> p
           | tok # rest \<Rightarrow> sendAnnounce W tok (p\<lparr>p_announceCh := rest\<rparr>))"

end
