(* ===== verification/Sync_Dispatch.thy ===== *)
theory Sync_Dispatch
  imports Swarm_Protocol
begin

text \<open>
  Dispatch of the set-reconciliation frames (\<^verbatim>\<open>internal/swarmsearch/sync_dispatch.go\<close>) and the
  initiator's entry points (\<^verbatim>\<open>sync_start.go\<close>).  A handler is one atomic step of the protocol; the pump
  goroutine of a responder is a sequence of rounds, any of which may come between other steps.
\<close>

section \<open>Helpers\<close>

definition send_end :: "wire \<Rightarrow> PeerToken \<Rightarrow> SyncEnd \<Rightarrow> Protocol \<Rightarrow> Protocol" where
  "send_end W tok e p = (case EncodeSyncEnd W e of Inl _ \<Rightarrow> p | Inr f \<Rightarrow> sendVia tok f p)"

definition aborted_end :: "u32 \<Rightarrow> SyncEnd" where
  "aborted_end tx = \<lparr>se_MsgType = 0, se_TxID = tx, se_Status = SyncStatusAborted, se_Decoded = 0, se_Sent = 0,
     se_BytesIn = 0, se_BytesOut = 0, se_AbortCode = 0\<rparr>"

text \<open>\<open>sess.Finish(status)\<close> and the attempt to send its frame.\<close>

definition finish_and_send :: "wire \<Rightarrow> PeerToken \<Rightarrow> nat \<Rightarrow> string \<Rightarrow> Protocol \<Rightarrow> Protocol" where
  "finish_and_send W tok i status p =
     (let (e, s) = Finish (p_store p ! i) status in send_end W tok e (with_session i (\<lambda>_. s) p))"

definition stop_and_abort :: "wire \<Rightarrow> addr \<times> nat \<Rightarrow> Protocol \<Rightarrow> Protocol" where
  "stop_and_abort W v p =
     (let p = with_session (snd v) StopPump p in
      case peerToken p (fst v) of
        Some tok \<Rightarrow> finish_and_send W tok (snd v) SyncStatusAborted p
      | None \<Rightarrow> p)"

definition is_stale :: "int \<Rightarrow> Protocol \<Rightarrow> nat \<Rightarrow> bool" where
  "is_stale now p i = stale now SyncSessionStaleAfter (p_store p ! i)"

definition reapStaleSyncSessions :: "wire \<Rightarrow> int \<Rightarrow> Protocol \<Rightarrow> Protocol" where
  "reapStaleSyncSessions W now p =
     (let victims = concat (map (\<lambda>(a, m). map (\<lambda>(tx, i). (a, i)) (filter (\<lambda>(tx, i). is_stale now p i) m)) (p_syncSessions p));
          kept = filter (\<lambda>(a, m). m \<noteq> [])
                   (map (\<lambda>(a, m). (a, filter (\<lambda>(tx, i). \<not> is_stale now p i) m)) (p_syncSessions p))
      in fold (stop_and_abort W) victims (p\<lparr>p_syncSessions := kept\<rparr>))"

definition endWithError :: "wire \<Rightarrow> int \<Rightarrow> addr \<Rightarrow> nat \<Rightarrow> sync_error \<Rightarrow> Protocol \<Rightarrow> Protocol" where
  "endWithError W now a i err p =
     (let budget = (err = ErrSymbolBudgetExceeded \<or> err = ErrSyncBytesBudgetExceeded);
          status = (if budget then SyncStatusLimitExceeded else SyncStatusAborted);
          p = (if budget then p else charge now a ScoreUnexpectedMessage p);
          p = with_session i StopPump p;
          p = (case peerToken p a of Some tok \<Rightarrow> finish_and_send W tok i status p | None \<Rightarrow> p)
      in releaseSyncSession a (txid (p_store p ! i)) p)"

section \<open>Records\<close>

text \<open>The loop of \<open>sendRecordsChunked\<close> from offset \<open>start\<close>.\<close>

function send_chunks ::
  "wire \<Rightarrow> (bytes \<Rightarrow> Protocol \<Rightarrow> Protocol) \<Rightarrow> nat \<Rightarrow> Record list \<Rightarrow> bytes list \<Rightarrow> nat \<Rightarrow> Protocol \<Rightarrow> Protocol" where
  "send_chunks W send i found missing start p =
     (let n = length found in
      if \<not> (start = 0 \<or> start < n) then p
      else
        let stop = (if start + MaxRecordsPerMessage > n then n else start + MaxRecordsPerMessage);
            miss = (if stop \<ge> n then missing else []);
            (r, s) = BuildRecordsFrame (p_store p ! i) (take (stop - start) (drop start found)) miss;
            p = with_session i (\<lambda>_. s) p
        in case r of
             Inl _ \<Rightarrow> p
           | Inr f \<Rightarrow>
               (case EncodeSyncRecords W f of
                  Inl _ \<Rightarrow> p
                | Inr w \<Rightarrow>
                    let p = send w p in
                    if n = 0 then p else send_chunks W send i found missing (start + MaxRecordsPerMessage) p))"
  by pat_completeness auto
termination
  by (relation "measure (\<lambda>(W, send, i, found, missing, start, p). if start = 0 then Suc (length found) else length found - start)")
    (auto simp: MaxRecordsPerMessage_def)

declare send_chunks.simps [simp del]

definition sendRecordsChunked ::
  "wire \<Rightarrow> (bytes \<Rightarrow> Protocol \<Rightarrow> Protocol) \<Rightarrow> nat \<Rightarrow> Record list \<Rightarrow> bytes list \<Rightarrow> Protocol \<Rightarrow> Protocol" where
  "sendRecordsChunked W send i found missing p = send_chunks W send i found missing 0 p"

text \<open>One record of \<open>ingestSyncRecords\<close>, with the publishers seen so far.\<close>

definition ingest_one :: "crypto \<Rightarrow> int \<Rightarrow> addr \<Rightarrow> Record \<Rightarrow> bytes set \<times> Protocol \<Rightarrow> bytes set \<times> Protocol" where
  "ingest_one C now a r = (\<lambda>(seen, p).
     case Verify C r of
       Some _ \<Rightarrow> (seen, charge now a ScoreBadRecordSig p)
     | None \<Rightarrow>
         let p = (if p_sink p then p\<lparr>p_cache := cache_Add C (p_cache p) r\<rparr> else p)
         in if p_observer p \<and> Pk r \<notin> seen
            then (insert (Pk r) seen, p\<lparr>p_observed := p_observed p @ [Pk r]\<rparr>)
            else (seen, p))"

definition ingestSyncRecords :: "crypto \<Rightarrow> int \<Rightarrow> addr \<Rightarrow> Record list \<Rightarrow> Protocol \<Rightarrow> Protocol" where
  "ingestSyncRecords C now a recs p = snd (fold (ingest_one C now a) recs ({}, p))"

section \<open>Handlers\<close>

text \<open>The tail of \<open>onSyncBegin\<close>: register the responder under the cap, then answer or start its pump.\<close>

definition accept_begin :: "wire \<Rightarrow> int \<Rightarrow> addr \<Rightarrow> u32 \<Rightarrow> Record list \<Rightarrow> SyncSession \<Rightarrow> Protocol \<Rightarrow> Protocol" where
  "accept_begin W now a tx recs s p =
     (let (i, p) = new_session s p;
          (ok, p) = registerSyncSessionIfUnderCap a i MaxSyncSessionsPerPeer p
      in if \<not> ok then
           let tok = (case peerToken p a of Some t \<Rightarrow> t | None \<Rightarrow> zeroToken)
           in charge now a ScoreUnexpectedMessage (send_end W tok (aborted_end tx) p)
         else
           (case peerToken p a of
              None \<Rightarrow> releaseSyncSession a tx p
            | Some tok \<Rightarrow>
                if recs = [] then releaseSyncSession a tx (finish_and_send W tok i SyncStatusConverged p)
                else p\<lparr>p_pumps := p_pumps p @ [(tok, i)]\<rparr>))"

definition onSyncBegin :: "wire \<Rightarrow> crypto \<Rightarrow> int \<Rightarrow> addr \<Rightarrow> bytes \<Rightarrow> Protocol \<Rightarrow> Protocol" where
  "onSyncBegin W C now a payload p =
     (case DecodeSyncBegin W payload of
        Inl _ \<Rightarrow> charge now a ScoreBadBencode p
      | Inr m \<Rightarrow>
          let (ok, lim) = Allow now (p_limiter p) a; p = p\<lparr>p_limiter := lim\<rparr> in
          if \<not> ok then
            let p = charge now a ScoreRateLimited p in
            (case peerToken p a of Some tok \<Rightarrow> send_end W tok (aborted_end (sb_TxID m)) p | None \<Rightarrow> p)
          else
            let recs = (if p_source p then LocalRecords (p_cache p) (sb_Filter m) else []);
                (e, s) = ApplyBegin (NewSyncSession C now (sb_TxID m) RoleResponder recs) m
            in (case e of Some _ \<Rightarrow> p | None \<Rightarrow> accept_begin W now a (sb_TxID m) recs s p))"

definition initiatorConverge :: "wire \<Rightarrow> addr \<Rightarrow> nat \<Rightarrow> Protocol \<Rightarrow> Protocol" where
  "initiatorConverge W a i p =
     (case peerToken p a of
        None \<Rightarrow> p
      | Some tok \<Rightarrow>
          let (r, s) = NeedFrame (p_store p ! i) (NeedIDs (p_store p ! i));
              p = with_session i (\<lambda>_. s) p;
              p = (case r of
                     Inl _ \<Rightarrow> p
                   | Inr need \<Rightarrow> (case EncodeSyncNeed W need of Inl _ \<Rightarrow> p | Inr f \<Rightarrow> sendVia tok f p));
              push = RemovedRecords (p_store p ! i)
          in if push \<noteq> [] then sendRecordsChunked W (sendVia tok) i push [] p else p)"

definition onSyncSymbols :: "wire \<Rightarrow> int \<Rightarrow> addr \<Rightarrow> bytes \<Rightarrow> Protocol \<Rightarrow> Protocol" where
  "onSyncSymbols W now a payload p =
     (case DecodeSyncSymbols W payload of
        Inl _ \<Rightarrow> charge now a ScoreBadBencode p
      | Inr m \<Rightarrow>
          (case lookupSyncSession p a (ss_TxID m) of
             None \<Rightarrow> p
           | Some i \<Rightarrow>
               let p = with_session i (touch now) p;
                   (e, s) = ApplySymbols (p_store p ! i) m;
                   p = with_session i (\<lambda>_. s) p
               in (case e of
                    Some err \<Rightarrow> endWithError W now a i err p
                  | None \<Rightarrow>
                      if role s = RoleInitiator then
                        let (ready, s) = ShouldInitiatorConverge s; p = with_session i (\<lambda>_. s) p
                        in if ready then initiatorConverge W a i p else p
                      else p)))"

definition onSyncNeed :: "wire \<Rightarrow> int \<Rightarrow> addr \<Rightarrow> bytes \<Rightarrow> bool \<Rightarrow> Protocol \<Rightarrow> Protocol" where
  "onSyncNeed W now a payload reply p =
     (case DecodeSyncNeed W payload of
        Inl _ \<Rightarrow> charge now a ScoreBadBencode p
      | Inr m \<Rightarrow>
          (case lookupSyncSession p a (sn_TxID m) of
             None \<Rightarrow> p
           | Some i \<Rightarrow>
               let p = with_session i StopPump (with_session i (touch now) p)
               in (case ApplyNeed (p_store p ! i) m of
                    Inl _ \<Rightarrow> p
                  | Inr (found, missing) \<Rightarrow>
                      sendRecordsChunked W
                        (\<lambda>w p. if reply then reply_frame reply a w p
                               else case peerToken p a of Some tok \<Rightarrow> sendVia tok w p | None \<Rightarrow> p)
                        i found missing p)))"

definition onSyncRecords :: "wire \<Rightarrow> crypto \<Rightarrow> int \<Rightarrow> addr \<Rightarrow> bytes \<Rightarrow> Protocol \<Rightarrow> Protocol" where
  "onSyncRecords W C now a payload p =
     (case DecodeSyncRecords W payload of
        Inl _ \<Rightarrow> charge now a ScoreBadBencode p
      | Inr m \<Rightarrow>
          (case lookupSyncSession p a (sc_TxID m) of
             None \<Rightarrow> p
           | Some i \<Rightarrow>
               let p = with_session i (touch now) p;
                   (r, s) = ApplyRecords (p_store p ! i) m;
                   p = with_session i (\<lambda>_. s) p
               in (case r of
                    Inl err \<Rightarrow> endWithError W now a i err p
                  | Inr recs \<Rightarrow> ingestSyncRecords C now a recs p)))"

definition onSyncEnd :: "wire \<Rightarrow> int \<Rightarrow> addr \<Rightarrow> bytes \<Rightarrow> Protocol \<Rightarrow> Protocol" where
  "onSyncEnd W now a payload p =
     (case DecodeSyncEnd W payload of
        Inl _ \<Rightarrow> charge now a ScoreBadBencode p
      | Inr m \<Rightarrow>
          (case lookupSyncSession p a (se_TxID m) of
             None \<Rightarrow> p
           | Some i \<Rightarrow>
               let p = with_session i StopPump p
               in releaseSyncSession a (se_TxID m) (with_session i (\<lambda>s. snd (ApplyEnd s m)) p)))"

definition handleSyncFrame :: "wire \<Rightarrow> crypto \<Rightarrow> int \<Rightarrow> addr \<Rightarrow> bytes \<Rightarrow> bool \<Rightarrow> Protocol \<Rightarrow> Protocol" where
  "handleSyncFrame W C now a payload reply p =
     (if \<not> peerHasReconciliation p a then
        sendReject W reply a (PeekTxID W payload) RejectUnsupportedScope ''sync_not_supported''
          (charge now a ScoreUnexpectedMessage p)
      else
        let p = reapStaleSyncSessions W now p
        in case PeekMsgType W payload of
             Inl _ \<Rightarrow> charge now a ScoreBadBencode p
           | Inr mt \<Rightarrow>
               if mt = MsgTypeSyncBegin then onSyncBegin W C now a payload p
               else if mt = MsgTypeSyncSymbols then onSyncSymbols W now a payload p
               else if mt = MsgTypeSyncNeed then onSyncNeed W now a payload reply p
               else if mt = MsgTypeSyncRecords then onSyncRecords W C now a payload p
               else if mt = MsgTypeSyncEnd then onSyncEnd W now a payload p
               else p)"

text \<open>
  One round of \<open>runSyncPump\<close>, for the pump at position \<open>k\<close>; a round that ends the goroutine removes it.
\<close>

definition runSyncPump :: "wire \<Rightarrow> nat \<Rightarrow> Protocol \<Rightarrow> Protocol" where
  "runSyncPump W k p =
     (if \<not> k < length (p_pumps p) then p
      else
        let (tok, i) = p_pumps p ! k;
            ended = (\<lambda>p. p\<lparr>p_pumps := take k (p_pumps p) @ drop (Suc k) (p_pumps p)\<rparr>)
        in if p_done p \<or> pumpStopped (p_store p ! i) then ended p
           else
             let (r, s) = ProduceSymbols (p_store p ! i) (int MaxSymbolsPerMessage);
                 p = with_session i (\<lambda>_. s) p
             in (case r of
                  Inl _ \<Rightarrow> ended p
                | Inr f \<Rightarrow>
                    let fin = symbolsOut s \<ge> maxSymbols s
                    in (case EncodeSyncSymbols W (f\<lparr>ss_Done := fin\<rparr>) of
                         Inl _ \<Rightarrow> ended p
                       | Inr w \<Rightarrow> let p = sendVia tok w p in if fin then ended p else p)))"

section \<open>The initiator\<close>

datatype start_error = ErrSyncPeerUnknown | ErrSyncCapabilityMissing | ErrNoSender | ErrEncode wire_error | ErrSend
  | ErrSession sync_error

definition StartSync ::
  "wire \<Rightarrow> crypto \<Rightarrow> int \<Rightarrow> addr \<Rightarrow> SyncFilter \<Rightarrow> Record list \<Rightarrow> Protocol \<Rightarrow> (start_error + nat) \<times> Protocol" where
  "StartSync W C now a f localRecords p =
     (case map_of (p_peers p) a of
        None \<Rightarrow> (Inl ErrSyncPeerUnknown, p)
      | Some ps \<Rightarrow>
          if \<not> Has (ps_Services ps) BitSetReconciliation then (Inl ErrSyncCapabilityMissing, p)
          else (case p_transport p of
            None \<Rightarrow> (Inl ErrNoSender, p)
          | Some t \<Rightarrow>
              if \<not> valid (ps_token ps) then (Inl ErrNoSender, p)
              else
                let (tx, p) = nextTxID p;
                    (begin, s) = Begin (NewSyncSession C now tx RoleInitiator localRecords) f;
                    (i, p) = new_session s p;
                    p = registerSyncSession a i p
                in (case EncodeSyncBegin W begin of
                     Inl e \<Rightarrow> (Inl (ErrEncode e), releaseSyncSession a tx p)
                   | Inr w \<Rightarrow>
                       let p = sendVia (ps_token ps) w p
                       in if t (ps_token ps) w then (Inl ErrSend, releaseSyncSession a tx p) else (Inr i, p))))"

definition SendSyncNeed :: "wire \<Rightarrow> addr \<Rightarrow> nat \<Rightarrow> bytes list \<Rightarrow> Protocol \<Rightarrow> start_error option \<times> Protocol" where
  "SendSyncNeed W a i ids p =
     (let (r, s) = NeedFrame (p_store p ! i) ids; p = with_session i (\<lambda>_. s) p
      in case r of
           Inl e \<Rightarrow> (Some (ErrSession e), p)
         | Inr need \<Rightarrow>
             (case EncodeSyncNeed W need of
                Inl e \<Rightarrow> (Some (ErrEncode e), p)
              | Inr w \<Rightarrow>
                  (case peerToken p a of
                     None \<Rightarrow> (Some ErrNoSender, p)
                   | Some tok \<Rightarrow> (None, sendVia tok w p))))"

definition CloseSync :: "wire \<Rightarrow> addr \<Rightarrow> nat \<Rightarrow> string \<Rightarrow> Protocol \<Rightarrow> start_error option \<times> Protocol" where
  "CloseSync W a i status p =
     (let tx = txid (p_store p ! i);
          p = with_session i StopPump p;
          (e, s) = Finish (p_store p ! i) status;
          p = with_session i (\<lambda>_. s) p
      in case EncodeSyncEnd W e of
           Inl err \<Rightarrow> (Some (ErrEncode err), releaseSyncSession a tx p)
         | Inr w \<Rightarrow>
             (case peerToken p a of
                None \<Rightarrow> (Some ErrNoSender, releaseSyncSession a tx p)
              | Some tok \<Rightarrow> (None, releaseSyncSession a tx (sendVia tok w p))))"

text \<open>\<open>WaitSyncConverged\<close> polls this flag.\<close>

definition Finalized :: "Protocol \<Rightarrow> nat \<Rightarrow> bool" where
  "Finalized p i = convergeFired (p_store p ! i)"

end
