(* ===== verification/Swarm_Query.thy ===== *)
theory Swarm_Query
  imports Sync_Dispatch
begin

text \<open>
  The search half of the peer-wire engine: answering inbound queries and announces
  (\<^verbatim>\<open>internal/swarmsearch/handler.go\<close>) and sending a query, routing the answers and merging them
  (\<^verbatim>\<open>internal/swarmsearch/query.go\<close>).  A query that runs is split where the code blocks: \<open>Query\<close> up to
  the last send, \<open>Query_collect\<close> on the results read from the channel until the deadline.
\<close>

section \<open>Standard library\<close>

text \<open>
  \<open>strings.TrimSpace\<close>: the UTF-8 encodings of the Unicode white space are stripped at both ends.
\<close>

definition space_runes :: "bytes list" where
  "space_runes = map (\<lambda>b. [b]) [0x09, 0x0A, 0x0B, 0x0C, 0x0D, 0x20] @ [[0xC2, 0x85], [0xC2, 0xA0], [0xE1, 0x9A, 0x80]] @
     map (\<lambda>b. [0xE2, 0x80, b]) [0x80, 0x81, 0x82, 0x83, 0x84, 0x85, 0x86, 0x87, 0x88, 0x89, 0x8A, 0xA8, 0xA9, 0xAF] @
     [[0xE2, 0x81, 0x9F], [0xE3, 0x80, 0x80]]"

function trim_left :: "bytes list \<Rightarrow> bytes \<Rightarrow> bytes" where
  "trim_left rs s =
     (case find (\<lambda>r. r \<noteq> [] \<and> has_prefix s r) rs of
        None \<Rightarrow> s
      | Some r \<Rightarrow> if s = [] then s else trim_left rs (drop (length r) s))"
  by pat_completeness auto
termination
  by (relation "measure (length \<circ> snd)") (auto simp: find_Some_iff)

declare trim_left.simps [simp del]

definition TrimSpace :: "bytes \<Rightarrow> bytes" where
  "TrimSpace s = rev (trim_left (map rev space_runes) (rev (trim_left space_runes s)))"

text \<open>Conversion of a float to \<open>int\<close> truncates; addition of \<open>int\<close> wraps.\<close>

definition truncate_rat :: "rat \<Rightarrow> int" where
  "truncate_rat x = (if x \<ge> 0 then \<lfloor>x\<rfloor> else \<lceil>x\<rceil>)"

definition wrap64 :: "int \<Rightarrow> int" where
  "wrap64 x = sint (word_of_int x :: 64 word)"

section \<open>Answering a query\<close>

definition unsupportedScope :: "bytes \<Rightarrow> Sharing \<Rightarrow> (int \<times> string) option" where
  "unsupportedScope sc cs =
     (if 0x63 \<in> set sc \<and> \<not> ContentHits cs then Some (RejectUnsupportedScope, ''unsupported_scope_c'')
      else if 0x66 \<in> set sc \<and> \<not> FileHits cs then Some (RejectUnsupportedScope, ''unsupported_scope_f'')
      else None)"

text \<open>The accumulator of \<open>hitsToWire\<close>: the hits by infohash in order of appearance, and \<open>hasName\<close>.\<close>

definition new_hit :: "LocalHit \<Rightarrow> bytes \<Rightarrow> Hit" where
  "new_hit h ih = \<lparr>hit_IH = ih, hit_IH2 = [], hit_N = lh_Name h, hit_S = lh_Seeders h, hit_L = lh_Leechers h,
     hit_Sz = lh_SizeBytes h, hit_T = (case lh_AddedAt h of Some t \<Rightarrow> t | None \<Rightarrow> 0),
     hit_Rank = truncate_rat (lh_Score h * 1000), hit_Matches = []\<rparr>"

definition add_hit :: "Sharing \<Rightarrow> LocalHit \<Rightarrow> (string \<times> Hit) list \<times> string set \<Rightarrow> (string \<times> Hit) list \<times> string set" where
  "add_hit cs h = (\<lambda>(byIH, hasName).
     case hex_DecodeString (lh_InfoHash h) of
       None \<Rightarrow> (byIH, hasName)
     | Some ih \<Rightarrow>
         if length ih \<noteq> 20 then (byIH, hasName)
         else
           let w = (case map_of byIH (lh_InfoHash h) of None \<Rightarrow> new_hit h ih | Some w \<Rightarrow> w);
               byIH = AList.update (lh_InfoHash h) w byIH
           in if lh_DocType h = ''content'' then
                if \<not> ContentHits cs then (byIH, hasName)
                else
                  let fm = \<lparr>FI = lh_FileIndex h, FP = (if FileHits cs then lh_FilePath h else []), Off = 0, Pr = [], Sn = []\<rparr>
                  in (AList.update (lh_InfoHash h) (w\<lparr>hit_Matches := hit_Matches w @ [fm]\<rparr>) byIH, hasName)
              else (byIH, insert (lh_InfoHash h) hasName))"

definition hitsToWire :: "LocalHit list \<Rightarrow> Sharing \<Rightarrow> Hit list" where
  "hitsToWire hits cs =
     (let (byIH, hasName) = fold (add_hit cs) hits ([], {})
      in map snd (filter (\<lambda>(ih, w). \<not> (\<not> ContentHits cs \<and> ih \<notin> hasName)) byIH))"

definition handleQuery :: "wire \<Rightarrow> int \<Rightarrow> addr \<Rightarrow> bytes \<Rightarrow> bool \<Rightarrow> Protocol \<Rightarrow> Protocol" where
  "handleQuery W now a payload reply p =
     (case DecodeQuery W payload of
        Inl _ \<Rightarrow> charge now a ScoreBadBencode p
      | Inr q \<Rightarrow>
          let (ok, lim) = Allow now (p_limiter p) a; p = p\<lparr>p_limiter := lim\<rparr> in
          if \<not> ok then sendReject W reply a (q_TxID q) RejectRateLimited ''rate_limited'' (charge now a ScoreRateLimited p)
          else
            let cs = cap_Sharing (caps p) in
            (case p_searcher p of
              None \<Rightarrow> sendReject W reply a (q_TxID q) RejectShuttingDown ''searcher_disabled'' p
            | Some search \<Rightarrow>
                if ShareLocal cs \<noteq> 2 then sendReject W reply a (q_TxID q) RejectShuttingDown ''searcher_disabled'' p
                else (case unsupportedScope (q_Scope q) cs of
                  Some (code, reason) \<Rightarrow> sendReject W reply a (q_TxID q) code reason p
                | None \<Rightarrow>
                    if length (TrimSpace (q_Q q)) < 2 then
                      sendReject W reply a (q_TxID q) RejectQueryTooBroad ''query_too_short'' (charge now a ScoreQueryTooBroad p)
                    else
                      let limit = (if q_Limit q \<le> 0 \<or> q_Limit q > 100 then 50 else q_Limit q) in
                      (case search (q_Q q) limit of
                         None \<Rightarrow> sendReject W reply a (q_TxID q) RejectTooExpensive ''local_error'' p
                       | Some (tot, hits) \<Rightarrow>
                           if \<not> reply then p
                           else (case EncodeResult W \<lparr>r_MsgType = 0, r_TxID = q_TxID q, r_Total = tot, r_Partial = 0,
                                                     r_Hits = hitsToWire hits cs\<rparr> of
                                  Inl _ \<Rightarrow> p
                                | Inr f \<Rightarrow> reply_frame reply a f p)))))"

definition handlePeerAnnounce :: "addr \<Rightarrow> PeerAnnounce \<Rightarrow> Protocol \<Rightarrow> Protocol" where
  "handlePeerAnnounce a pa p =
     (let havePk = (length (a_Pk pa) = 32 \<and> copy_array 32 (a_Pk pa) \<noteq> zeroPubkey);
          pk = (if havePk then copy_array 32 (a_Pk pa) else zeroPubkey)
      in case map_of (p_peers p) a of
           None \<Rightarrow> p
         | Some ps \<Rightarrow>
             let ps = ps\<lparr>ps_Services := a_Services pa, ps_Version := a_Version pa\<rparr>;
                 ps = (if havePk then ps\<lparr>ps_PublisherPubkey := pk, ps_hasPubkey := True\<rparr> else ps);
                 p = p\<lparr>p_peers := AList.update a ps (p_peers p)\<rparr>
             in if \<not> havePk then p
                else
                  let p = (if p_idxSink p then p\<lparr>p_indexers := p_indexers p @ [(pk, ''gossip:'' @ a)]\<rparr> else p)
                  in if \<not> p_endSink p then p
                     else p\<lparr>p_endorsed := p_endorsed p @
                            map (\<lambda>e. (pk, copy_array 32 e))
                              (filter (\<lambda>e. length e = 32 \<and> copy_array 32 e \<noteq> zeroPubkey \<and> copy_array 32 e \<noteq> pk) (a_Endorsed pa))\<rparr>)"

section \<open>Sending a query\<close>

definition supportedTargets :: "Protocol \<Rightarrow> PeerToken list" where
  "supportedTargets p =
     map (\<lambda>e. ps_token (snd e)) (filter (\<lambda>e. ps_Supported (snd e) \<and> valid (ps_token (snd e))) (p_peers p))"

record QueryRequest =
  req_Q :: bytes
  req_Scope :: bytes
  req_Limit :: int

record MergedHit =
  mh_InfoHash :: string
  mh_Name :: bytes
  mh_Size :: int
  mh_Seeders :: int
  mh_Score :: int
  mh_Sources :: "addr list"
  mh_Matches :: "FileMatch list"

record QueryResponse =
  resp_TxID :: u32
  resp_Hits :: "MergedHit list"
  resp_Asked :: nat
  resp_Responded :: nat
  resp_Rejected :: nat

datatype query_error = ErrEmptyQuery | ErrQueryNoSender | ErrNoCapablePeers | ErrQueryEncode wire_error

definition registerPending :: "pendingQuery \<Rightarrow> Protocol \<Rightarrow> Protocol" where
  "registerPending pq p = p\<lparr>p_pending := (p_pending p)(pq_txid pq \<mapsto> pq)\<rparr>"

definition unregisterPending :: "u32 \<Rightarrow> Protocol \<Rightarrow> Protocol" where
  "unregisterPending tx p = p\<lparr>p_pending := (p_pending p)(tx := None)\<rparr>"

text \<open>Returns the transaction id and the number of peers the query was sent to.\<close>

definition Query :: "wire \<Rightarrow> QueryRequest \<Rightarrow> Protocol \<Rightarrow> (query_error + u32 \<times> nat) \<times> Protocol" where
  "Query W req p =
     (if req_Q req = [] then (Inl ErrEmptyQuery, p)
      else (case p_transport p of
        None \<Rightarrow> (Inl ErrQueryNoSender, p)
      | Some t \<Rightarrow>
          let targets = supportedTargets p in
          if targets = [] then (Inl ErrNoCapablePeers, p)
          else
            let (tx, p) = nextTxID p;
                pq = \<lparr>pq_txid = tx, pq_asked = map tok_addr targets, pq_cap = length targets, pq_results = [], pq_responded = []\<rparr>;
                p = registerPending pq p
            in (case EncodeQuery W \<lparr>q_MsgType = 0, q_TxID = tx, q_Q = req_Q req, q_Scope = req_Scope req,
                                   q_Limit = req_Limit req, q_Lang = [], q_MinSize = 0, q_MaxSize = 0, q_NotIH = []\<rparr> of
                 Inl e \<Rightarrow> (Inl (ErrQueryEncode e), p)
               | Inr f \<Rightarrow>
                   let p = fold (\<lambda>tok. sendVia tok f) targets p;
                       sent = length (filter (\<lambda>tok. \<not> t tok f) targets)
                   in (if sent = 0 then Inl ErrNoCapablePeers else Inr (tx, sent), p))))"

definition firstFrom :: "addr \<Rightarrow> pendingQuery \<Rightarrow> bool \<times> pendingQuery" where
  "firstFrom a pq = (if a \<in> set (pq_responded pq) then (False, pq) else (True, pq\<lparr>pq_responded := a # pq_responded pq\<rparr>))"

definition resultIsMalformed :: "Result \<Rightarrow> bool" where
  "resultIsMalformed r \<longleftrightarrow> r_Total r > 0 \<and> r_Hits r = [] \<or> list_ex (\<lambda>h. length (hit_IH h) \<noteq> 20) (r_Hits r)"

text \<open>The non-blocking send on the results channel drops what does not fit.\<close>

definition channel_send :: "incomingResult \<Rightarrow> pendingQuery \<Rightarrow> pendingQuery" where
  "channel_send x pq = (if length (pq_results pq) < pq_cap pq then pq\<lparr>pq_results := pq_results pq @ [x]\<rparr> else pq)"

text \<open>The part that \<open>routeResult\<close> and \<open>routeReject\<close> share.\<close>

definition route :: "int \<Rightarrow> addr \<Rightarrow> u32 \<Rightarrow> incomingResult \<Rightarrow> Protocol \<Rightarrow> Protocol" where
  "route now from tx x p =
     (case p_pending p tx of
        None \<Rightarrow> charge now from ScoreStaleTxID p
      | Some pq \<Rightarrow>
          if from \<notin> set (pq_asked pq) then charge now from ScoreUnexpectedMessage p
          else
            let (first, pq) = firstFrom from pq;
                pq = (if first then channel_send x pq else pq)
            in p\<lparr>p_pending := (p_pending p)(tx \<mapsto> pq)\<rparr>)"

definition routeResult :: "int \<Rightarrow> addr \<Rightarrow> Result \<Rightarrow> Protocol \<Rightarrow> Protocol" where
  "routeResult now from r p =
     (if resultIsMalformed r then charge now from ScoreMalformedResult p
      else route now from (r_TxID r)
             \<lparr>in_fromAddr = from, in_reject = False, in_code = 0, in_total = r_Total r, in_hits = r_Hits r\<rparr> p)"

definition routeReject :: "int \<Rightarrow> addr \<Rightarrow> Reject \<Rightarrow> Protocol \<Rightarrow> Protocol" where
  "routeReject now from rj p =
     route now from (j_TxID rj)
       \<lparr>in_fromAddr = from, in_reject = True, in_code = j_Code rj, in_total = 0, in_hits = []\<rparr> p"

section \<open>Merging\<close>

definition newMergedHit :: "string \<Rightarrow> MergedHit" where
  "newMergedHit ih = \<lparr>mh_InfoHash = ih, mh_Name = [], mh_Size = 0, mh_Seeders = 0, mh_Score = 0, mh_Sources = [], mh_Matches = []\<rparr>"

text \<open>The fields of a merged hit, updated by one hit; \<open>fresh\<close> when this peer has not named the infohash yet.\<close>

definition absorb_hit :: "addr \<Rightarrow> Hit \<Rightarrow> bool \<Rightarrow> MergedHit \<Rightarrow> MergedHit" where
  "absorb_hit from h fresh m =
     (let sc = wrap64 (mh_Score m + hit_Rank h);
          m = (if fresh then m\<lparr>mh_Score := (if sc > 1000 then 1000 else sc), mh_Sources := mh_Sources m @ [from]\<rparr> else m);
          m = (if mh_Name m = [] \<and> hit_N h \<noteq> [] then m\<lparr>mh_Name := hit_N h\<rparr> else m);
          m = (if mh_Size m = 0 \<and> hit_Sz h \<noteq> 0 then m\<lparr>mh_Size := hit_Sz h\<rparr> else m);
          m = (if hit_S h > mh_Seeders m then m\<lparr>mh_Seeders := hit_S h\<rparr> else m)
      in m\<lparr>mh_Matches := mh_Matches m @ hit_Matches h\<rparr>)"

text \<open>
  One hit of one peer.  The set holds the pairs of peer and infohash already counted; the key of the
  code, the two joined by a bar, determines them since an infohash is always 40 hex digits.
\<close>

definition merge_hit :: "addr \<Rightarrow> Hit \<Rightarrow> (string \<times> MergedHit) list \<times> (addr \<times> string) set \<Rightarrow>
    (string \<times> MergedHit) list \<times> (addr \<times> string) set" where
  "merge_hit from h = (\<lambda>(byIH, seen).
     if length (hit_IH h) \<noteq> 20 then (byIH, seen)
     else
       let ih = hex_EncodeToString (hit_IH h);
           m = (case map_of byIH ih of None \<Rightarrow> newMergedHit ih | Some m \<Rightarrow> m)
       in (AList.update ih (absorb_hit from h ((from, ih) \<notin> seen) m) byIH, insert (from, ih) seen))"

definition merge_all :: "incomingResult list \<Rightarrow> (string \<times> MergedHit) list \<times> (addr \<times> string) set" where
  "merge_all results = fold (\<lambda>res. fold (merge_hit (in_fromAddr res)) (in_hits res)) results ([], {})"

text \<open>\<open>sort.SliceStable\<close> by score, then seeders, both descending.\<close>

definition merge_key :: "MergedHit \<Rightarrow> int list" where
  "merge_key m = [- mh_Score m, - mh_Seeders m]"

definition mergeResponses :: "incomingResult list \<Rightarrow> int \<Rightarrow> MergedHit list" where
  "mergeResponses results limit =
     (let out = sort_key merge_key (map snd (fst (merge_all results)))
      in if limit > 0 \<and> int (length out) > limit then take (nat limit) out else out)"

text \<open>The collection loop on the results read before the deadline: at most one per peer asked.\<close>

definition Query_collect :: "u32 \<Rightarrow> nat \<Rightarrow> int \<Rightarrow> incomingResult list \<Rightarrow> QueryResponse" where
  "Query_collect tx sent limit ins =
     (let got = take sent ins; good = filter (\<lambda>x. \<not> in_reject x) got
      in \<lparr>resp_TxID = tx, resp_Hits = mergeResponses good limit, resp_Asked = sent,
          resp_Responded = length good, resp_Rejected = length (filter in_reject got)\<rparr>)"

section \<open>Dispatch\<close>

definition HandleMessage :: "wire \<Rightarrow> crypto \<Rightarrow> int \<Rightarrow> addr \<Rightarrow> bytes \<Rightarrow> bool \<Rightarrow> Protocol \<Rightarrow> Protocol" where
  "HandleMessage W C now a payload reply p0 =
     (let (banned, p) = is_banned now a p0 in
      if banned then p
      else case PeekMsgType W payload of
        Inl _ \<Rightarrow> charge now a ScoreBadBencode p
      | Inr mt \<Rightarrow>
          if mt = MsgTypeQuery then handleQuery W now a payload reply p
          else if mt = MsgTypeResult then
            (case DecodeResult W payload of Inl _ \<Rightarrow> charge now a ScoreBadBencode p | Inr r \<Rightarrow> routeResult now a r p)
          else if mt = MsgTypeReject then
            (case DecodeReject W payload of Inl _ \<Rightarrow> charge now a ScoreBadBencode p | Inr r \<Rightarrow> routeReject now a r p)
          else if mt = MsgTypePeerAnnounce then
            (case DecodePeerAnnounce W payload of Inl _ \<Rightarrow> charge now a ScoreBadBencode p | Inr r \<Rightarrow> handlePeerAnnounce a r p)
          else if mt \<in> {MsgTypeSyncBegin, MsgTypeSyncSymbols, MsgTypeSyncNeed, MsgTypeSyncRecords, MsgTypeSyncEnd} then
            handleSyncFrame W C now a payload reply p
          else charge now a ScoreUnexpectedMessage p)"

end
