(* ===== verification/Swarm_Runs.thy ===== *)
theory Swarm_Runs
  imports Swarm_Query
begin

text \<open>
  Runs of the peer-wire engine: every callback, handler, pump round and initiator call, in any
  order, with any arguments and any frames from the network.  The invariant ties together the peer
  tokens, the session registry, the pumps and the record cache.
\<close>

section \<open>The invariant\<close>

text \<open>\<open>A\<close> holds the addresses that have advertised the extension.\<close>

definition tokens_ok :: "addr set \<Rightarrow> Protocol \<Rightarrow> bool" where
  "tokens_ok A p \<longleftrightarrow>
     (\<forall>(a, ps) \<in> set (p_peers p). valid (ps_token ps) \<longrightarrow> tok_addr (ps_token ps) = a \<and> a \<in> A) \<and>
     (\<forall>tok \<in> set (p_announceCh p). valid tok \<longrightarrow> tok_addr tok \<in> A) \<and>
     (\<forall>(tok, f) \<in> set (p_sent p). valid tok \<and> tok_addr tok \<in> A) \<and>
     (\<forall>(tok, i) \<in> set (p_pumps p). valid tok \<and> tok_addr tok \<in> A) \<and>
     (\<forall>a tx i. lookupSyncSession p a tx = Some i \<longrightarrow> peerToken p a \<noteq> None)"

definition responders :: "Protocol \<Rightarrow> addr \<Rightarrow> u32 set" where
  "responders p a = {tx. \<exists>i. lookupSyncSession p a tx = Some i \<and> role (p_store p ! i) = RoleResponder}"

definition registry_ok :: "Protocol \<Rightarrow> bool" where
  "registry_ok p \<longleftrightarrow>
     distinct (map fst (p_syncSessions p)) \<and> (\<forall>(a, m) \<in> set (p_syncSessions p). distinct (map fst m)) \<and>
     (\<forall>a tx i. lookupSyncSession p a tx = Some i \<longrightarrow> i < length (p_store p) \<and> txid (p_store p ! i) = tx) \<and>
     (\<forall>a. card (responders p a) \<le> MaxSyncSessionsPerPeer)"

definition pumps_ok :: "Protocol \<Rightarrow> bool" where
  "pumps_ok p \<longleftrightarrow> distinct (map snd (p_pumps p)) \<and>
     (\<forall>(tok, i) \<in> set (p_pumps p). i < length (p_store p) \<and> role (p_store p ! i) = RoleResponder \<and>
        (pumpStopped (p_store p ! i) \<or> lookupSyncSession p (tok_addr tok) (txid (p_store p ! i)) = Some i))"

definition cache_ok :: "crypto \<Rightarrow> Protocol \<Rightarrow> bool" where
  "cache_ok C p \<longleftrightarrow> (\<forall>eid x. cache_Get (p_cache p) eid = Some x \<longrightarrow> Verify C x = None)"

definition proto_inv :: "crypto \<Rightarrow> addr set \<Rightarrow> Protocol \<Rightarrow> bool" where
  "proto_inv C A p \<longleftrightarrow> tokens_ok A p \<and> registry_ok p \<and> pumps_ok p \<and> cache_ok C p"

lemmas proto_inv_defs = proto_inv_def tokens_ok_def registry_ok_def pumps_ok_def cache_ok_def responders_def

section \<open>Updates the invariant does not see\<close>

lemmas view_defs = lookupSyncSession_def peer_sessions_def peerToken_def

lemma proto_inv_frame [simp]:
  "proto_inv C A (p\<lparr>p_ban := v1\<rparr>) = proto_inv C A p" "proto_inv C A (p\<lparr>p_limiter := v2\<rparr>) = proto_inv C A p"
  "proto_inv C A (p\<lparr>p_replies := v3\<rparr>) = proto_inv C A p" "proto_inv C A (p\<lparr>p_observed := v4\<rparr>) = proto_inv C A p"
  "proto_inv C A (p\<lparr>p_indexers := v5\<rparr>) = proto_inv C A p" "proto_inv C A (p\<lparr>p_endorsed := v6\<rparr>) = proto_inv C A p"
  "proto_inv C A (p\<lparr>p_pending := v7\<rparr>) = proto_inv C A p" "proto_inv C A (p\<lparr>p_txid := v8\<rparr>) = proto_inv C A p"
  "proto_inv C A (p\<lparr>p_epoch := v9\<rparr>) = proto_inv C A p" "proto_inv C A (p\<lparr>p_done := v10\<rparr>) = proto_inv C A p"
  by (simp_all add: proto_inv_defs view_defs)

lemma proto_inv_config [simp]:
  "proto_inv C A (p\<lparr>p_searcher := v1\<rparr>) = proto_inv C A p" "proto_inv C A (p\<lparr>p_transport := v2\<rparr>) = proto_inv C A p"
  "proto_inv C A (p\<lparr>p_caps := v3\<rparr>) = proto_inv C A p" "proto_inv C A (p\<lparr>p_pubkey := v4\<rparr>) = proto_inv C A p"
  "proto_inv C A (p\<lparr>p_hasPub := v5\<rparr>) = proto_inv C A p" "proto_inv C A (p\<lparr>p_idxSink := v6\<rparr>) = proto_inv C A p"
  "proto_inv C A (p\<lparr>p_endSink := v7\<rparr>) = proto_inv C A p" "proto_inv C A (p\<lparr>p_source := v8\<rparr>) = proto_inv C A p"
  "proto_inv C A (p\<lparr>p_sink := v9\<rparr>) = proto_inv C A p" "proto_inv C A (p\<lparr>p_observer := v10\<rparr>) = proto_inv C A p"
  by (simp_all add: proto_inv_defs view_defs)

lemma proto_inv_charge [simp]: "proto_inv C A (charge now a pts p) = proto_inv C A p"
  by (simp add: charge_def)

lemma proto_inv_reply [simp]: "proto_inv C A (reply_frame r a f p) = proto_inv C A p"
  by (simp add: reply_frame_def)

lemma proto_inv_sendReject [simp]: "proto_inv C A (sendReject W r a tx c s p) = proto_inv C A p"
  by (simp add: sendReject_def split: sum.split)

lemma proto_inv_is_banned: "proto_inv C A (snd (is_banned now a p)) = proto_inv C A p"
  by (simp add: is_banned_def case_prod_unfold Let_def)

text \<open>What the lookups see of the updates they do not depend on.\<close>

lemma view_frame [simp]:
  "lookupSyncSession (p\<lparr>p_store := v1\<rparr>) = lookupSyncSession p" "peerToken (p\<lparr>p_store := v1\<rparr>) = peerToken p"
  "lookupSyncSession (p\<lparr>p_sent := v2\<rparr>) = lookupSyncSession p" "peerToken (p\<lparr>p_sent := v2\<rparr>) = peerToken p"
  "lookupSyncSession (p\<lparr>p_pumps := v3\<rparr>) = lookupSyncSession p" "peerToken (p\<lparr>p_pumps := v3\<rparr>) = peerToken p"
  "lookupSyncSession (p\<lparr>p_ban := v4\<rparr>) = lookupSyncSession p" "peerToken (p\<lparr>p_ban := v4\<rparr>) = peerToken p"
  "lookupSyncSession (p\<lparr>p_limiter := v5\<rparr>) = lookupSyncSession p" "peerToken (p\<lparr>p_limiter := v5\<rparr>) = peerToken p"
  "lookupSyncSession (p\<lparr>p_txid := v6\<rparr>) = lookupSyncSession p" "peerToken (p\<lparr>p_txid := v6\<rparr>) = peerToken p"
  "peerToken (p\<lparr>p_syncSessions := v7\<rparr>) = peerToken p"
  by (simp_all add: fun_eq_iff view_defs)

section \<open>Sending\<close>

lemma peerToken_ok: "proto_inv C A p \<Longrightarrow> peerToken p a = Some tok \<Longrightarrow> valid tok \<and> tok_addr tok = a \<and> a \<in> A"
  by (auto simp: proto_inv_def tokens_ok_def peerToken_def dest!: map_of_SomeD split: option.splits if_splits)

lemma sendVia_inv: "proto_inv C A p \<Longrightarrow> valid tok \<Longrightarrow> tok_addr tok \<in> A \<Longrightarrow> proto_inv C A (sendVia tok f p)"
  by (auto simp: sendVia_def proto_inv_defs split: option.split)

lemma sendVia_view [simp]:
  "lookupSyncSession (sendVia tok f p) = lookupSyncSession p" "peerToken (sendVia tok f p) = peerToken p"
  "p_store (sendVia tok f p) = p_store p" "p_pumps (sendVia tok f p) = p_pumps p" "p_peers (sendVia tok f p) = p_peers p"
  by (simp_all add: sendVia_def split: option.split)

lemma send_end_inv: "proto_inv C A p \<Longrightarrow> valid tok \<Longrightarrow> tok_addr tok \<in> A \<Longrightarrow> proto_inv C A (send_end W tok e p)"
  by (simp add: send_end_def sendVia_inv split: sum.split)

lemma send_end_view [simp]:
  "lookupSyncSession (send_end W tok e p) = lookupSyncSession p" "peerToken (send_end W tok e p) = peerToken p"
  "p_store (send_end W tok e p) = p_store p" "p_pumps (send_end W tok e p) = p_pumps p"
  by (simp_all add: send_end_def split: sum.split)

section \<open>Sessions\<close>

text \<open>What every operation on a session keeps: its id and role, and a stopped pump stays stopped.\<close>

definition mild :: "SyncSession \<Rightarrow> SyncSession \<Rightarrow> bool" where
  "mild s s' \<longleftrightarrow> txid s' = txid s \<and> role s' = role s \<and> (pumpStopped s \<longrightarrow> pumpStopped s')"

lemma apply_batch_mild: "mild s (apply_batch s b)"
  by (simp add: mild_def apply_batch_def)

lemma mild_trans: "mild s t \<Longrightarrow> mild t u \<Longrightarrow> mild s u"
  by (auto simp: mild_def)

lemma drain_mild: "mild s (snd (drain s b))"
proof (induction s b rule: drain.induct)
  case (1 s cur)
  show ?case
  proof (cases "symbolsIn s + int (length (ss_Symbols cur)) > maxSymbols s")
    case True
    then show ?thesis by (simp add: drain.simps [of s] mild_def)
  next
    case False
    let ?s = "apply_batch s cur"
    have "mild s (?s\<lparr>pendingSymbols := q\<rparr>)" for q by (simp add: mild_def apply_batch_def)
    then show ?thesis
      using 1 [OF False refl] False apply_batch_mild [of s cur]
      by (auto simp: drain.simps [of s] Let_def split: option.split intro: mild_trans)
  qed
qed

lemma session_ops_mild [simp]:
  "mild s (touch t s)" "mild s (StopPump s)" "mild s (snd (Finish s st))" "mild s (snd (ApplyEnd s e))"
  "mild s (snd (NeedFrame s ids))" "mild s (snd (BuildRecordsFrame s rs ms))" "mild s (snd (ApplyRecords s m))"
  "mild s (snd (ShouldInitiatorConverge s))" "mild s (snd (ProduceSymbols s n))"
  by (simp_all add: mild_def touch_def StopPump_def Finish_def ApplyEnd_def NeedFrame_def BuildRecordsFrame_def
      ApplyRecords_def ShouldInitiatorConverge_def ProduceSymbols_def Let_def case_prod_unfold)

lemma ApplySymbols_mild [simp]: "mild s (snd (ApplySymbols s m))"
proof -
  have "mild s (s\<lparr>phase := f\<rparr>)" for f by (simp add: mild_def)
  from mild_trans [OF this drain_mild] show ?thesis
    by (auto simp: ApplySymbols_def Let_def mild_def split: option.split)
qed

lemma with_session_view [simp]:
  "lookupSyncSession (with_session i f p) = lookupSyncSession p" "peerToken (with_session i f p) = peerToken p"
  "length (p_store (with_session i f p)) = length (p_store p)" "p_pumps (with_session i f p) = p_pumps p"
  by (simp_all add: with_session_def)

lemma with_session_nth: "p_store (with_session i f p) ! j = (if j = i \<and> i < length (p_store p) then f (p_store p ! i) else p_store p ! j)"
  by (cases "i < length (p_store p)") (auto simp: with_session_def nth_list_update list_update_beyond)

lemma with_session_inv:
  assumes "proto_inv C A p" and "mild (p_store p ! i) (f (p_store p ! i))"
  shows "proto_inv C A (with_session i f p)"
proof -
  let ?p = "with_session i f p"
  have m: "mild (p_store p ! j) (p_store ?p ! j)" for j
    using assms(2) by (auto simp: with_session_nth mild_def)
  then have e: "txid (p_store ?p ! j) = txid (p_store p ! j)" "role (p_store ?p ! j) = role (p_store p ! j)"
    "pumpStopped (p_store p ! j) \<Longrightarrow> pumpStopped (p_store ?p ! j)" for j by (auto simp: mild_def)
  have r: "responders ?p a = responders p a" for a by (simp add: responders_def e(2))
  have "tokens_ok A ?p" using assms(1) by (simp add: proto_inv_def tokens_ok_def) (simp add: with_session_def)
  moreover have "cache_ok C ?p" using assms(1) by (simp add: proto_inv_def cache_ok_def with_session_def)
  moreover have "registry_ok ?p" using assms(1) by (simp add: proto_inv_def registry_ok_def r e) (simp add: with_session_def)
  moreover have "pumps_ok ?p" using assms(1) e by (fastforce simp: proto_inv_def pumps_ok_def)
  ultimately show ?thesis by (simp add: proto_inv_def)
qed

section \<open>Registry\<close>

lemma registered_token: "proto_inv C A p \<Longrightarrow> lookupSyncSession p a tx = Some i \<Longrightarrow> peerToken p a \<noteq> None"
  unfolding proto_inv_def tokens_ok_def by blast

lemma finite_responders: "finite (responders p a)"
proof (rule finite_subset)
  show "responders p a \<subseteq> dom (map_of (peer_sessions p a))" by (auto simp: responders_def lookupSyncSession_def)
qed (rule finite_dom_map_of)

text \<open>A change of the registry and the store that keeps what the invariant says of them.\<close>

lemma registry_change:
  assumes inv: "proto_inv C A p"
    and len: "length (p_store p) \<le> length st"
    and mild: "\<And>j. j < length (p_store p) \<Longrightarrow> mild (p_store p ! j) (st ! j)"
    and dist: "distinct (map fst ss)" "\<forall>(a, m) \<in> set ss. distinct (map fst m)"
    and look: "\<And>a tx i. lookupSyncSession (p\<lparr>p_store := st, p_syncSessions := ss\<rparr>) a tx = Some i \<Longrightarrow>
        i < length st \<and> txid (st ! i) = tx \<and> peerToken p a \<noteq> None"
    and card: "\<And>a. card (responders (p\<lparr>p_store := st, p_syncSessions := ss\<rparr>) a) \<le> MaxSyncSessionsPerPeer"
    and pump: "\<And>a tx i. lookupSyncSession p a tx = Some i \<Longrightarrow> i \<in> snd ` set (p_pumps p) \<Longrightarrow> \<not> pumpStopped (st ! i) \<Longrightarrow>
        lookupSyncSession (p\<lparr>p_store := st, p_syncSessions := ss\<rparr>) a tx = Some i"
  shows "proto_inv C A (p\<lparr>p_store := st, p_syncSessions := ss\<rparr>)"
proof -
  let ?p = "p\<lparr>p_store := st, p_syncSessions := ss\<rparr>"
  have pt: "peerToken ?p = peerToken p" by simp
  have "tokens_ok A ?p" using inv look unfolding proto_inv_def tokens_ok_def pt by simp
  moreover have "cache_ok C ?p" using inv by (simp add: proto_inv_def cache_ok_def)
  moreover have "registry_ok ?p" using dist look card by (simp add: registry_ok_def)
  moreover have "pumps_ok ?p"
  proof -
    have "i < length st \<and> role (st ! i) = RoleResponder \<and>
        (pumpStopped (st ! i) \<or> lookupSyncSession ?p (tok_addr tok) (txid (st ! i)) = Some i)"
      if "(tok, i) \<in> set (p_pumps p)" for tok i
    proof -
      have b: "i < length (p_store p)" "role (p_store p ! i) = RoleResponder"
        "pumpStopped (p_store p ! i) \<or> lookupSyncSession p (tok_addr tok) (txid (p_store p ! i)) = Some i"
        using inv that by (auto simp: proto_inv_def pumps_ok_def)
      have "i \<in> snd ` set (p_pumps p)" using that by force
      with b show ?thesis using mild [OF b(1)] len pump by (auto simp: mild_def)
    qed
    then show ?thesis using inv by (auto simp: proto_inv_def pumps_ok_def)
  qed
  ultimately show ?thesis by (simp add: proto_inv_def)
qed

lemma peer_sessions_distinct: "registry_ok p \<Longrightarrow> distinct (map fst (peer_sessions p a))"
  by (auto simp: registry_ok_def peer_sessions_def dest!: map_of_SomeD split: option.split)

lemma set_AList_update: "set (AList.update k v m) \<subseteq> insert (k, v) (set m)"
  by (induction m) auto

lemma lookup_update:
  "lookupSyncSession (p\<lparr>p_store := st, p_syncSessions := AList.update a m (p_syncSessions p)\<rparr>) b tx =
     (if b = a then map_of m tx else lookupSyncSession p b tx)"
  by (simp add: lookupSyncSession_def peer_sessions_def get_update)

lemma lookup_delete:
  "lookupSyncSession (p\<lparr>p_store := st, p_syncSessions := AList.delete a (p_syncSessions p)\<rparr>) b tx =
     (if b = a then None else lookupSyncSession p b tx)"
  by (simp add: lookupSyncSession_def peer_sessions_def get_delete)

lemma update_dist:
  assumes "registry_ok p" and "distinct (map fst m)"
  shows "distinct (map fst (AList.update a m (p_syncSessions p)))"
    and "\<forall>(b, m') \<in> set (AList.update a m (p_syncSessions p)). distinct (map fst m')"
    and "distinct (map fst (AList.delete a (p_syncSessions p)))"
    and "\<forall>(b, m') \<in> set (AList.delete a (p_syncSessions p)). distinct (map fst m')"
  using assms set_AList_update [of a m "p_syncSessions p"] set_AList_delete [of a "p_syncSessions p"]
  by (auto simp: registry_ok_def AList.distinct_update AList.distinct_delete)

text \<open>Register a session just created.\<close>

lemma register_inv:
  assumes inv: "proto_inv C A p" and tok: "peerToken p a \<noteq> None"
    and cap: "role s = RoleResponder \<Longrightarrow>
      length (filter (\<lambda>e. fst e \<noteq> txid s) (peer_sessions p a)) < MaxSyncSessionsPerPeer"
  shows "proto_inv C A (replace_session a (length (p_store p)) (p\<lparr>p_store := p_store p @ [s]\<rparr>))"
proof -
  let ?i = "length (p_store p)" and ?m = "peer_sessions p a"
  define st where "st = (case map_of ?m (txid s) of
      Some j \<Rightarrow> (p_store p @ [s])[j := StopPump ((p_store p @ [s]) ! j)] | None \<Rightarrow> p_store p @ [s])"
  define ss where "ss = AList.update a (AList.update (txid s) ?i ?m) (p_syncSessions p)"
  have reg: "registry_ok p" using inv by (simp add: proto_inv_def)
  have d: "distinct (map fst (AList.update (txid s) ?i ?m))"
    by (rule AList.distinct_update [OF peer_sessions_distinct [OF reg]])
  have old: "j < ?i \<and> txid (p_store p ! j) = tx" if "lookupSyncSession p b tx = Some j" for b tx j
    using reg that by (simp add: registry_ok_def)
  have ne: "j \<noteq> ?i" if "map_of ?m (txid s) = Some j" for j
    using old [of a "txid s" j] that by (simp add: lookupSyncSession_def)
  have P: "replace_session a ?i (p\<lparr>p_store := p_store p @ [s]\<rparr>) = p\<lparr>p_store := st, p_syncSessions := ss\<rparr>"
    using ne by (auto simp: replace_session_def Let_def st_def ss_def peer_sessions_def with_session_def split: option.splits)
  have look: "lookupSyncSession (p\<lparr>p_store := st, p_syncSessions := ss\<rparr>) b tx =
      (if b = a \<and> tx = txid s then Some ?i else lookupSyncSession p b tx)" for b tx
    unfolding ss_def lookup_update by (simp add: get_update lookupSyncSession_def)
  have len: "length st = Suc ?i" by (simp add: st_def split: option.split)
  have stj: "st ! j = (if j = ?i then s else if map_of ?m (txid s) = Some j then StopPump (p_store p ! j) else p_store p ! j)"
    if "j < Suc ?i" for j
    using that ne by (auto simp: st_def nth_append nth_list_update split: option.splits)
  have mild: "mild (p_store p ! j) (st ! j)" if "j < ?i" for j
    using that stj [of j] by (auto simp: mild_def StopPump_def)
  show ?thesis
    unfolding P
  proof (rule registry_change [OF inv])
    show "distinct (map fst ss)" "\<forall>(a, m) \<in> set ss. distinct (map fst m)"
      unfolding ss_def by (rule update_dist(1,2) [OF reg d])+
    show "card (responders (p\<lparr>p_store := st, p_syncSessions := ss\<rparr>) b) \<le> MaxSyncSessionsPerPeer" (is "card ?R \<le> _") for b
    proof (cases "b = a \<and> role s = RoleResponder")
      case True
      let ?F = "set (map fst (filter (\<lambda>e. fst e \<noteq> txid s) ?m))"
      have "?R \<subseteq> insert (txid s) ?F"
      proof
        fix tx
        assume "tx \<in> ?R"
        then obtain i where "tx = txid s \<or> map_of ?m tx = Some i"
          using True by (auto simp: responders_def look lookupSyncSession_def [of p] split: if_splits)
        then show "tx \<in> insert (txid s) ?F" using map_of_SomeD [of ?m tx i] by force
      qed
      then have "card ?R \<le> card (insert (txid s) ?F)" by (intro card_mono) auto
      also have "\<dots> \<le> Suc (length (filter (\<lambda>e. fst e \<noteq> txid s) ?m))"
        using card_length [of "map fst (filter (\<lambda>e. fst e \<noteq> txid s) ?m)"]
        by (simp add: card_insert_if del: set_map set_filter)
      finally show ?thesis using cap True by simp
    next
      case False
      have "?R \<subseteq> responders p b"
      proof
        fix tx
        assume "tx \<in> ?R"
        then obtain i where i: "lookupSyncSession p b tx = Some i" "role (st ! i) = RoleResponder"
          using False stj [of ?i] by (auto simp: responders_def look split: if_splits)
        with mild [of i] old [OF i(1)] show "tx \<in> responders p b" by (auto simp: responders_def mild_def)
      qed
      then have "card ?R \<le> card (responders p b)" by (rule card_mono [OF finite_responders])
      also have "\<dots> \<le> MaxSyncSessionsPerPeer" using reg by (simp add: registry_ok_def)
      finally show ?thesis .
    qed
    show "i < length st \<and> txid (st ! i) = tx \<and> peerToken p b \<noteq> None"
      if "lookupSyncSession (p\<lparr>p_store := st, p_syncSessions := ss\<rparr>) b tx = Some i" for b tx i
    proof (cases "b = a \<and> tx = txid s")
      case True
      with that tok stj [of ?i] len show ?thesis by (auto simp: look)
    next
      case False
      then have l: "lookupSyncSession p b tx = Some i" using that by (auto simp: look split: if_splits)
      show ?thesis using registered_token [OF inv l] old [OF l] mild [of i] len by (auto simp: mild_def)
    qed
    show "lookupSyncSession (p\<lparr>p_store := st, p_syncSessions := ss\<rparr>) b tx = Some i"
      if "lookupSyncSession p b tx = Some i" "\<not> pumpStopped (st ! i)" for b tx i
      using that stj [of i] old [of b tx i] by (auto simp: look lookupSyncSession_def [of p] StopPump_def split: if_splits)
  qed (use len mild in auto)
qed

text \<open>Take entries out of the registry whose pumps are stopped.\<close>

lemma shrink_inv:
  assumes inv: "proto_inv C A p" and dist: "distinct (map fst ss)" "\<forall>(a, m) \<in> set ss. distinct (map fst m)"
    and sub: "\<And>a tx i. lookupSyncSession (p\<lparr>p_syncSessions := ss\<rparr>) a tx = Some i \<Longrightarrow> lookupSyncSession p a tx = Some i"
    and pump: "\<And>a tx i. lookupSyncSession p a tx = Some i \<Longrightarrow> i \<in> snd ` set (p_pumps p) \<Longrightarrow> \<not> pumpStopped (p_store p ! i) \<Longrightarrow>
        lookupSyncSession (p\<lparr>p_syncSessions := ss\<rparr>) a tx = Some i"
  shows "proto_inv C A (p\<lparr>p_syncSessions := ss\<rparr>)"
proof -
  have eq: "p\<lparr>p_store := p_store p, p_syncSessions := ss\<rparr> = p\<lparr>p_syncSessions := ss\<rparr>" by simp
  have reg: "registry_ok p" using inv by (simp add: proto_inv_def)
  have card: "card (responders (p\<lparr>p_syncSessions := ss\<rparr>) a) \<le> MaxSyncSessionsPerPeer" for a
  proof -
    have "responders (p\<lparr>p_syncSessions := ss\<rparr>) a \<subseteq> responders p a" using sub by (auto simp: responders_def)
    then have "card (responders (p\<lparr>p_syncSessions := ss\<rparr>) a) \<le> card (responders p a)"
      by (rule card_mono [OF finite_responders])
    with reg show ?thesis by (meson order_trans registry_ok_def)
  qed
  show ?thesis
    unfolding eq [symmetric]
  proof (rule registry_change [OF inv order_refl _ dist], unfold eq)
    show "i < length (p_store p) \<and> txid (p_store p ! i) = tx \<and> peerToken p a \<noteq> None"
      if "lookupSyncSession (p\<lparr>p_syncSessions := ss\<rparr>) a tx = Some i" for a tx i
      using reg registered_token [OF inv sub [OF that]] sub [OF that] by (auto simp: registry_ok_def)
  qed (use card pump in \<open>auto simp: mild_def\<close>)
qed

lemma lookup_release:
  "lookupSyncSession (releaseSyncSession a tx p) b t =
     (if b = a \<and> t = tx then None else lookupSyncSession p b t)"
proof (cases "map_of (p_syncSessions p) a")
  case None
  then show ?thesis by (simp add: releaseSyncSession_def lookupSyncSession_def peer_sessions_def)
next
  case (Some m)
  have "map_of m t = None" if "AList.delete tx m = []" "t \<noteq> tx" for t
    using get_delete [of tx m t] that by simp
  with Some show ?thesis
    by (simp add: releaseSyncSession_def Let_def lookupSyncSession_def peer_sessions_def get_update get_delete
        split: option.split)
qed

lemma release_inv:
  assumes inv: "proto_inv C A p"
    and stop: "\<And>i. lookupSyncSession p a tx = Some i \<Longrightarrow> pumpStopped (p_store p ! i) \<or> i \<notin> snd ` set (p_pumps p)"
  shows "proto_inv C A (releaseSyncSession a tx p)"
proof (cases "map_of (p_syncSessions p) a")
  case None
  with inv show ?thesis by (simp add: releaseSyncSession_def)
next
  case (Some m)
  have reg: "registry_ok p" using inv by (simp add: proto_inv_def)
  define ss where "ss = (if AList.delete tx m = [] then AList.delete a (p_syncSessions p)
      else AList.update a (AList.delete tx m) (p_syncSessions p))"
  have P: "releaseSyncSession a tx p = p\<lparr>p_syncSessions := ss\<rparr>"
    using Some by (simp add: releaseSyncSession_def Let_def ss_def)
  have d: "distinct (map fst (AList.delete tx m))"
    using peer_sessions_distinct [OF reg, of a] Some by (simp add: peer_sessions_def AList.distinct_delete)
  show ?thesis
    unfolding P
  proof (rule shrink_inv [OF inv], fold P)
    show "distinct (map fst ss)" "\<forall>(a, m) \<in> set ss. distinct (map fst m)"
      unfolding ss_def using update_dist [OF reg d] by presburger+
  qed (use stop in \<open>auto simp: lookup_release split: if_splits\<close>)
qed

text \<open>Stopping the sessions of a list, and aborting stale ones.\<close>

lemma stop_and_abort_view [simp]:
  "lookupSyncSession (stop_and_abort W v p) = lookupSyncSession p" "peerToken (stop_and_abort W v p) = peerToken p"
  "length (p_store (stop_and_abort W v p)) = length (p_store p)"
  by (simp_all add: stop_and_abort_def Let_def finish_and_send_def case_prod_unfold split: option.split)

lemma finish_and_send_inv:
  "proto_inv C A p \<Longrightarrow> valid tok \<Longrightarrow> tok_addr tok \<in> A \<Longrightarrow> proto_inv C A (finish_and_send W tok i st p)"
  by (simp add: finish_and_send_def Let_def case_prod_unfold send_end_inv with_session_inv)

lemma stop_and_abort_inv: "proto_inv C A p \<Longrightarrow> proto_inv C A (stop_and_abort W v p)"
  using peerToken_ok [of C A p "fst v"] with_session_inv [of C A p "snd v" StopPump]
  by (auto simp: stop_and_abort_def Let_def intro!: finish_and_send_inv split: option.split)

lemma stop_and_abort_mild: "mild (p_store p ! j) (p_store (stop_and_abort W v p) ! j)"
proof -
  have "mild s (snd (Finish (StopPump s) st))" for s st by (simp add: mild_def Finish_def StopPump_def)
  then show ?thesis
    by (auto simp: stop_and_abort_def Let_def finish_and_send_def case_prod_unfold with_session_nth mild_def StopPump_def
        split: option.split)
qed

lemma stop_and_abort_stops:
  "snd v < length (p_store p) \<Longrightarrow> pumpStopped (p_store (stop_and_abort W v p) ! snd v)"
  by (auto simp: stop_and_abort_def Let_def finish_and_send_def case_prod_unfold with_session_nth Finish_def StopPump_def
      split: option.split)

lemma stop_all:
  assumes "proto_inv C A p" and "\<forall>v \<in> set vs. snd v < length (p_store p)"
  shows "proto_inv C A (fold (stop_and_abort W) vs p)"
    and "lookupSyncSession (fold (stop_and_abort W) vs p) = lookupSyncSession p"
    and "\<And>j. mild (p_store p ! j) (p_store (fold (stop_and_abort W) vs p) ! j)"
    and "\<And>v. v \<in> set vs \<Longrightarrow> pumpStopped (p_store (fold (stop_and_abort W) vs p) ! snd v)"
proof -
  have "proto_inv C A (fold (stop_and_abort W) vs p) \<and> lookupSyncSession (fold (stop_and_abort W) vs p) = lookupSyncSession p \<and>
    (\<forall>j. mild (p_store p ! j) (p_store (fold (stop_and_abort W) vs p) ! j)) \<and>
    (\<forall>v \<in> set vs. pumpStopped (p_store (fold (stop_and_abort W) vs p) ! snd v))"
    using assms
  proof (induction vs arbitrary: p)
    case (Cons v vs)
    let ?p = "stop_and_abort W v p"
    have IH: "proto_inv C A (fold (stop_and_abort W) vs ?p)" "lookupSyncSession (fold (stop_and_abort W) vs ?p) = lookupSyncSession p"
      "\<And>j. mild (p_store ?p ! j) (p_store (fold (stop_and_abort W) vs ?p) ! j)"
      "\<forall>v \<in> set vs. pumpStopped (p_store (fold (stop_and_abort W) vs ?p) ! snd v)"
      using Cons.IH [of ?p] Cons.prems stop_and_abort_inv by auto
    have "pumpStopped (p_store (fold (stop_and_abort W) vs ?p) ! snd v)"
      using IH(3) [of "snd v"] stop_and_abort_stops [of v p W] Cons.prems by (simp add: mild_def)
    with IH show ?case using mild_trans [OF stop_and_abort_mild IH(3)] by simp
  qed (simp add: mild_def)
  then show "proto_inv C A (fold (stop_and_abort W) vs p)"
    "lookupSyncSession (fold (stop_and_abort W) vs p) = lookupSyncSession p"
    "\<And>j. mild (p_store p ! j) (p_store (fold (stop_and_abort W) vs p) ! j)"
    "\<And>v. v \<in> set vs \<Longrightarrow> pumpStopped (p_store (fold (stop_and_abort W) vs p) ! snd v)" by blast+
qed

lemma registry_update_commute [simp]:
  "with_session i f (p\<lparr>p_syncSessions := x\<rparr>) = (with_session i f p)\<lparr>p_syncSessions := x\<rparr>"
  "sendVia tok w (p\<lparr>p_syncSessions := x\<rparr>) = (sendVia tok w p)\<lparr>p_syncSessions := x\<rparr>"
  "send_end W tok e (p\<lparr>p_syncSessions := x\<rparr>) = (send_end W tok e p)\<lparr>p_syncSessions := x\<rparr>"
  by (simp_all add: with_session_def sendVia_def send_end_def split: option.split sum.split)

lemma stop_and_abort_commute:
  "stop_and_abort W v (p\<lparr>p_syncSessions := x\<rparr>) = (stop_and_abort W v p)\<lparr>p_syncSessions := x\<rparr>"
  by (simp add: stop_and_abort_def Let_def finish_and_send_def case_prod_unfold split: option.split)

lemma stop_all_commute:
  "fold (stop_and_abort W) vs (p\<lparr>p_syncSessions := x\<rparr>) = (fold (stop_and_abort W) vs p)\<lparr>p_syncSessions := x\<rparr>"
  by (induction vs arbitrary: p) (simp_all add: stop_and_abort_commute)

lemma lookup_iff:
  assumes "distinct (map fst (p_syncSessions p))" and "\<forall>(a, m) \<in> set (p_syncSessions p). distinct (map fst m)"
  shows "lookupSyncSession p a tx = Some i \<longleftrightarrow> (\<exists>m. (a, m) \<in> set (p_syncSessions p) \<and> (tx, i) \<in> set m)"
proof -
  have "lookupSyncSession p a tx = Some i \<longleftrightarrow> (\<exists>m. map_of (p_syncSessions p) a = Some m \<and> map_of m tx = Some i)"
    by (simp add: lookupSyncSession_def peer_sessions_def split: option.split)
  also have "\<dots> \<longleftrightarrow> (\<exists>m. (a, m) \<in> set (p_syncSessions p) \<and> (tx, i) \<in> set m)"
    using assms by (intro ex_cong1 conj_cong) (auto simp: map_of_eq_Some_iff)
  finally show ?thesis .
qed

lemma reap_inv:
  assumes inv: "proto_inv C A p"
  shows "proto_inv C A (reapStaleSyncSessions W now p)"
proof -
  define st where "st = is_stale now p"
  define vs where "vs = concat (map (\<lambda>(a, m). map (\<lambda>(tx, i). (a, i)) (filter (\<lambda>(tx, i). st i) m)) (p_syncSessions p))"
  define kept where "kept = filter (\<lambda>(a, m). m \<noteq> []) (map (\<lambda>(a, m). (a, filter (\<lambda>(tx, i). \<not> st i) m)) (p_syncSessions p))"
  let ?q = "fold (stop_and_abort W) vs p"
  have P: "reapStaleSyncSessions W now p = ?q\<lparr>p_syncSessions := kept\<rparr>"
    by (simp add: reapStaleSyncSessions_def Let_def vs_def kept_def st_def stop_all_commute)
  have dist: "distinct (map fst (p_syncSessions p))" "\<forall>(a, m) \<in> set (p_syncSessions p). distinct (map fst m)"
    and lt: "\<And>a tx i. lookupSyncSession p a tx = Some i \<Longrightarrow> i < length (p_store p)"
    using inv by (auto simp: proto_inv_def registry_ok_def)
  note look = lookup_iff [OF dist]
  have vic: "(a, i) \<in> set vs \<longleftrightarrow> (\<exists>tx. lookupSyncSession p a tx = Some i) \<and> st i" for a i
    unfolding look by (force simp: vs_def)
  have "\<forall>v \<in> set vs. snd v < length (p_store p)" using vic lt by (metis prod.collapse)
  note q = stop_all [OF inv this, where W = W]
  have "map fst kept = map fst (filter (\<lambda>(a, m). filter (\<lambda>(tx, i). \<not> st i) m \<noteq> []) (p_syncSessions p))"
    by (simp add: kept_def filter_map comp_def case_prod_unfold)
  then have kd: "distinct (map fst kept)" using dist(1) by (simp add: distinct_map_filter)
  have kd2: "\<forall>(a, m) \<in> set kept. distinct (map fst m)"
    using dist(2) by (auto simp: kept_def distinct_map_filter)
  have klook: "lookupSyncSession (?q\<lparr>p_syncSessions := kept\<rparr>) a tx = Some i \<longleftrightarrow> lookupSyncSession p a tx = Some i \<and> \<not> st i" for a tx i
  proof -
    have "lookupSyncSession (?q\<lparr>p_syncSessions := kept\<rparr>) a tx = Some i \<longleftrightarrow> (\<exists>m. (a, m) \<in> set kept \<and> (tx, i) \<in> set m)"
      using lookup_iff [of "?q\<lparr>p_syncSessions := kept\<rparr>"] kd kd2 by simp
    also have "\<dots> \<longleftrightarrow> (\<exists>m. (a, m) \<in> set (p_syncSessions p) \<and> (tx, i) \<in> set (filter (\<lambda>(tx, i). \<not> st i) m))"
    proof
      assume "\<exists>m. (a, m) \<in> set kept \<and> (tx, i) \<in> set m"
      then show "\<exists>m. (a, m) \<in> set (p_syncSessions p) \<and> (tx, i) \<in> set (filter (\<lambda>(tx, i). \<not> st i) m)"
        by (auto simp: kept_def)
    next
      assume "\<exists>m. (a, m) \<in> set (p_syncSessions p) \<and> (tx, i) \<in> set (filter (\<lambda>(tx, i). \<not> st i) m)"
      then obtain m where m: "(a, m) \<in> set (p_syncSessions p)" "(tx, i) \<in> set (filter (\<lambda>(tx, i). \<not> st i) m)" by blast
      have "(a, filter (\<lambda>(tx, i). \<not> st i) m) \<in>
          set (map (\<lambda>(a, m). (a, filter (\<lambda>(tx, i). \<not> st i) m)) (p_syncSessions p))"
        unfolding set_map by (rule rev_image_eqI [OF m(1)]) simp
      moreover have "filter (\<lambda>(tx, i). \<not> st i) m \<noteq> []" using m(2) by (metis empty_iff list.set(1))
      ultimately have "(a, filter (\<lambda>(tx, i). \<not> st i) m) \<in> set kept" unfolding kept_def set_filter by simp
      with m(2) show "\<exists>m. (a, m) \<in> set kept \<and> (tx, i) \<in> set m" by blast
    qed
    finally show ?thesis unfolding look by auto
  qed
  show ?thesis
    unfolding P
  proof (rule shrink_inv [OF q(1) kd kd2])
    show "lookupSyncSession (?q\<lparr>p_syncSessions := kept\<rparr>) a tx = Some i"
      if "lookupSyncSession ?q a tx = Some i" "\<not> pumpStopped (p_store ?q ! i)" for a tx i
      using that q(4) [of "(a, i)"] vic [of a i] unfolding klook q(2) by auto
  qed (simp add: klook q(2))
qed

section \<open>Handlers\<close>

lemma registered: "proto_inv C A p \<Longrightarrow> lookupSyncSession p a tx = Some i \<Longrightarrow> i < length (p_store p) \<and> txid (p_store p ! i) = tx"
  by (simp add: proto_inv_def registry_ok_def)

lemma peerToken_charge [simp]: "peerToken (charge now a pts p) = peerToken p" "lookupSyncSession (charge now a pts p) = lookupSyncSession p"
  "p_store (charge now a pts p) = p_store p"
  by (simp_all add: charge_def)

lemma endWithError_inv:
  assumes inv: "proto_inv C A p" and i: "lookupSyncSession p a tx = Some i"
  shows "proto_inv C A (endWithError W now a i err p)"
proof -
  define p1 where "p1 = (if err = ErrSymbolBudgetExceeded \<or> err = ErrSyncBytesBudgetExceeded then p else charge now a ScoreUnexpectedMessage p)"
  define p2 where "p2 = with_session i StopPump p1"
  define st where "st = (if err = ErrSymbolBudgetExceeded \<or> err = ErrSyncBytesBudgetExceeded then SyncStatusLimitExceeded else SyncStatusAborted)"
  define p3 where "p3 = (case peerToken p2 a of Some tok \<Rightarrow> finish_and_send W tok i st p2 | None \<Rightarrow> p2)"
  have p1: "proto_inv C A p1" "lookupSyncSession p1 = lookupSyncSession p" "p_store p1 = p_store p" using inv by (simp_all add: p1_def)
  have p2: "proto_inv C A p2" unfolding p2_def by (rule with_session_inv [OF p1(1)]) simp
  have p3: "proto_inv C A p3"
    using p2 peerToken_ok [OF p2] by (auto simp: p3_def intro!: finish_and_send_inv split: option.split)
  have v: "lookupSyncSession p3 = lookupSyncSession p" "i < length (p_store p)" "txid (p_store p ! i) = tx"
    using registered [OF inv i] p1
    by (simp_all add: p3_def p2_def finish_and_send_def Let_def case_prod_unfold split: option.split)
  have s: "pumpStopped (p_store p3 ! i)" "txid (p_store p3 ! i) = tx"
    using v(2,3) p1 by (auto simp: p3_def p2_def finish_and_send_def Let_def case_prod_unfold with_session_nth StopPump_def Finish_def
        split: option.split)
  have "endWithError W now a i err p = releaseSyncSession a (txid (p_store p3 ! i)) p3"
    by (simp only: endWithError_def Let_def p3_def p2_def p1_def st_def)
  then show ?thesis using release_inv [OF p3, of a tx] s v(1) i by simp
qed

text \<open>The proof rule of the chunked sender: what its sends and its session updates keep, it keeps.\<close>

lemma send_chunks_keeps:
  assumes "\<And>w p. I p \<Longrightarrow> I (send w p)" and "\<And>s p. I p \<Longrightarrow> mild (p_store p ! i) s \<Longrightarrow> I (with_session i (\<lambda>_. s) p)" and "I p"
  shows "I (send_chunks W send i found missing start p)"
  using assms
proof (induction W send i found missing start p rule: send_chunks.induct)
  case (1 W send i found missing start p)
  note eq = send_chunks.simps [of W send i found missing start p]
  show ?case
  proof (cases "start = 0 \<or> start < length found")
    case False
    with 1(4) show ?thesis by (simp add: eq)
  next
    case True
    define stop where "stop = (if start + MaxRecordsPerMessage > length found then length found else start + MaxRecordsPerMessage)"
    define miss where "miss = (if stop \<ge> length found then missing else [])"
    obtain r s where b: "BuildRecordsFrame (p_store p ! i) (take (stop - start) (drop start found)) miss = (r, s)"
      by (cases "BuildRecordsFrame (p_store p ! i) (take (stop - start) (drop start found)) miss") blast
    have w: "I (with_session i (\<lambda>_. s) p)"
      using session_ops_mild(6) [of "p_store p ! i" "take (stop - start) (drop start found)" miss] b 1(3) [OF 1(4)] by simp
    note IH = 1(1) [OF refl _ stop_def miss_def refl b [symmetric] refl _ _ refl _ 1(2,3)]
    show ?thesis
      using True w IH 1(2) [OF w] unfolding eq Let_def stop_def [symmetric] miss_def [symmetric]
      by (auto simp: b split: sum.split)
  qed
qed

lemmas send_chunks_inv = send_chunks_keeps [where I = "proto_inv C A" for C A, OF _ with_session_inv]

lemma ingest_inv:
  assumes "proto_inv C A p"
  shows "proto_inv C A (ingestSyncRecords C now a recs p)"
proof -
  have one: "proto_inv C A (snd (ingest_one C now a r x))" if i: "proto_inv C A (snd x)" for r x
  proof -
    obtain seen q where x: "x = (seen, q)" by (cases x)
    have "proto_inv C A (q\<lparr>p_cache := cache_Add C (p_cache q) r\<rparr>)" if v: "Verify C r = None"
    proof -
      have "Verify C y = None" if "cache_Get (cache_Add C (p_cache q) r) eid = Some y" for eid y
        using cache_sink.put_only [OF that] cache_sink.get_put [of C "p_cache q" r] that v i x
        by (cases "eid = ElementID C r") (auto simp: proto_inv_def cache_ok_def)
      then show ?thesis using i x by (simp add: proto_inv_defs view_defs)
    qed
    then show ?thesis using i x by (auto simp: ingest_one_def Let_def split: option.split)
  qed
  have "proto_inv C A (snd (fold (ingest_one C now a) recs x))" if "proto_inv C A (snd x)" for x
    using that by (induction recs arbitrary: x) (simp_all add: one)
  from this [of "({}, p)"] assms show ?thesis by (simp add: ingestSyncRecords_def)
qed

lemma initiatorConverge_inv:
  assumes inv: "proto_inv C A p"
  shows "proto_inv C A (initiatorConverge W a i p)"
proof (cases "peerToken p a")
  case (Some tok)
  note tok = peerToken_ok [OF inv Some]
  let ?q = "with_session i (\<lambda>_. snd (NeedFrame (p_store p ! i) (NeedIDs (p_store p ! i)))) p"
  have q: "proto_inv C A ?q" by (rule with_session_inv [OF inv]) simp
  have send: "proto_inv C A (sendVia tok w q)" if "proto_inv C A q" for w q using sendVia_inv [OF that] tok by simp
  show ?thesis
    using q send Some by (auto simp: initiatorConverge_def Let_def case_prod_unfold sendRecordsChunked_def
        intro!: send_chunks_inv split: sum.split)
qed (use inv in \<open>simp add: initiatorConverge_def\<close>)

lemma onSyncSymbols_inv:
  assumes inv: "proto_inv C A p"
  shows "proto_inv C A (onSyncSymbols W now a payload p)"
proof -
  have ap: "proto_inv C A (with_session i (\<lambda>_. snd (ApplySymbols (p_store (with_session i (touch now) p) ! i) m)) (with_session i (touch now) p))" for i m
    by (intro with_session_inv inv) simp_all
  have cv: "proto_inv C A (with_session i (\<lambda>_. snd (ShouldInitiatorConverge s)) (with_session i (\<lambda>_. s) q))"
    if "proto_inv C A (with_session i (\<lambda>_. s) q)" for i s q
  proof (cases "i < length (p_store q)")
    case True
    then show ?thesis by (intro with_session_inv that) (simp add: with_session_nth)
  next
    case False
    then have "with_session i f q' = q'" if "length (p_store q') = length (p_store q)" for f q'
      using that False by (simp add: with_session_def list_update_beyond)
    with that show ?thesis by simp
  qed
  show ?thesis
    using ap inv cv [OF ap]
    by (auto simp: onSyncSymbols_def Let_def case_prod_unfold intro!: endWithError_inv initiatorConverge_inv split: sum.split option.split)
qed

lemma onSyncNeed_inv: "proto_inv C A p \<Longrightarrow> proto_inv C A (onSyncNeed W now a payload reply p)"
proof -
  assume inv: "proto_inv C A p"
  have t: "proto_inv C A (with_session i StopPump (with_session i (touch now) p))" for i
    by (intro with_session_inv inv) simp_all
  have send: "proto_inv C A (if reply then reply_frame reply a w q else case peerToken q a of Some tok \<Rightarrow> sendVia tok w q | None \<Rightarrow> q)"
    if "proto_inv C A q" for w q
    using that peerToken_ok [OF that, of a] by (auto intro!: sendVia_inv split: option.split)
  show ?thesis
    using inv t send
    by (auto simp: onSyncNeed_def Let_def sendRecordsChunked_def intro!: send_chunks_inv split: sum.split option.split)
qed

lemma onSyncRecords_inv: "proto_inv C A p \<Longrightarrow> proto_inv C A (onSyncRecords W C now a payload p)"
proof -
  assume inv: "proto_inv C A p"
  have t: "proto_inv C A (with_session i (\<lambda>_. snd (ApplyRecords (p_store (with_session i (touch now) p) ! i) m)) (with_session i (touch now) p))" for i m
    by (intro with_session_inv inv) simp_all
  then show ?thesis
    using inv by (auto simp: onSyncRecords_def Let_def case_prod_unfold intro!: endWithError_inv ingest_inv split: sum.split option.split)
qed

lemma onSyncEnd_inv: "proto_inv C A p \<Longrightarrow> proto_inv C A (onSyncEnd W now a payload p)"
proof -
  assume inv: "proto_inv C A p"
  let ?q = "\<lambda>i m. with_session i (\<lambda>s. snd (ApplyEnd s m)) (with_session i StopPump p)"
  have q: "proto_inv C A (?q i m)" for i m by (intro with_session_inv inv) simp_all
  have "proto_inv C A (releaseSyncSession a (se_TxID m) (?q i m))" if "lookupSyncSession p a (se_TxID m) = Some i" for i m
    using registered [OF inv that] that
    by (intro release_inv q) (auto simp: with_session_nth StopPump_def ApplyEnd_def)
  then show ?thesis
    using inv by (auto simp: onSyncEnd_def Let_def split: sum.split option.split)
qed

lemma extend_store_inv:
  assumes inv: "proto_inv C A p"
  shows "proto_inv C A (p\<lparr>p_store := p_store p @ [s]\<rparr>)"
proof -
  have reg: "registry_ok p" using inv by (simp add: proto_inv_def)
  have eq: "p\<lparr>p_store := p_store p @ [s], p_syncSessions := p_syncSessions p\<rparr> = p\<lparr>p_store := p_store p @ [s]\<rparr>" by simp
  have resp: "responders (p\<lparr>p_store := p_store p @ [s]\<rparr>) a = responders p a" for a
    using registered [OF inv] by (auto simp: responders_def nth_append)
  show ?thesis
  proof (subst eq [symmetric], rule registry_change [OF inv], unfold eq)
    show "i < length (p_store p @ [s]) \<and> txid ((p_store p @ [s]) ! i) = tx \<and> peerToken p a \<noteq> None"
      if "lookupSyncSession (p\<lparr>p_store := p_store p @ [s]\<rparr>) a tx = Some i" for a tx i
      using that registered [OF inv, of a tx i] registered_token [OF inv, of a tx i] by (simp add: nth_append)
  qed (use reg in \<open>auto simp: resp nth_append mild_def registry_ok_def\<close>)
qed

lemma rewrite_entry_inv:
  assumes inv: "proto_inv C A p" and "peer_sessions p a = m"
  shows "proto_inv C A (p\<lparr>p_syncSessions := AList.update a m (p_syncSessions p)\<rparr>)"
proof -
  have reg: "registry_ok p" using inv by (simp add: proto_inv_def)
  have "lookupSyncSession (p\<lparr>p_syncSessions := AList.update a m (p_syncSessions p)\<rparr>) b tx = lookupSyncSession p b tx" for b tx
    using lookup_update [where p = p and st = "p_store p" and a = a and m = m and b = b and tx = tx] assms(2) by (simp add: lookupSyncSession_def [of p])
  then show ?thesis
    using update_dist(1,2) [OF reg peer_sessions_distinct [OF reg, of a]] assms(2) by (intro shrink_inv [OF inv]) simp_all
qed

text \<open>Registration of a responder without a token is taken back at once.\<close>

lemma register_release_inv:
  assumes inv: "proto_inv C A p" and none: "peerToken p a = None"
  shows "proto_inv C A (releaseSyncSession a (txid s) (replace_session a (length (p_store p)) (p\<lparr>p_store := p_store p @ [s]\<rparr>)))"
proof -
  let ?p = "p\<lparr>p_store := p_store p @ [s]\<rparr>" and ?m = "peer_sessions p a"
  have reg: "registry_ok p" using inv by (simp add: proto_inv_def)
  have no: "lookupSyncSession p a tx = None" for tx
    using registered_token [OF inv, of a tx] none by (cases "lookupSyncSession p a tx") auto
  have m: "map_of ?m (txid s) = None" using no [of "txid s"] by (simp add: lookupSyncSession_def)
  define m' where "m' = AList.update (txid s) (length (p_store p)) ?m"
  define ss where "ss = AList.update a m' (p_syncSessions p)"
  have P: "replace_session a (length (p_store p)) ?p = ?p\<lparr>p_syncSessions := ss\<rparr>"
    using m by (simp add: replace_session_def Let_def ss_def m'_def peer_sessions_def split: option.splits)
  have d: "distinct (map fst m')" unfolding m'_def by (rule AList.distinct_update [OF peer_sessions_distinct [OF reg]])
  have m1: "map_of ss a = Some m'" by (simp add: ss_def get_update)
  define ss' where "ss' = (if AList.delete (txid s) m' = [] then AList.delete a ss else AList.update a (AList.delete (txid s) m') ss)"
  have R: "releaseSyncSession a (txid s) (?p\<lparr>p_syncSessions := ss\<rparr>) = ?p\<lparr>p_syncSessions := ss'\<rparr>"
    using m1 by (simp add: releaseSyncSession_def Let_def ss'_def)
  have l: "lookupSyncSession (?p\<lparr>p_syncSessions := ss'\<rparr>) b tx = lookupSyncSession ?p b tx" for b tx
    unfolding R [symmetric] lookup_release
    using lookup_update [where p = p and st = "p_store p @ [s]" and a = a and m = m' and b = b and tx = tx] no
    by (auto simp: ss_def m'_def get_update lookupSyncSession_def [of p])
  have dd: "distinct (map fst ss)" "\<forall>(b, m) \<in> set ss. distinct (map fst m)" unfolding ss_def by (rule update_dist(1,2) [OF reg d])+
  have "distinct (map fst ss') \<and> (\<forall>(b, m) \<in> set ss'. distinct (map fst m))"
    using dd d set_AList_update [of a "AList.delete (txid s) m'" ss] set_AList_delete [of a ss]
    by (auto simp: ss'_def AList.distinct_update AList.distinct_delete)
  then show ?thesis
    unfolding P R using extend_store_inv [OF inv] by (intro shrink_inv) (simp_all add: l)
qed

lemma accept_begin_inv:
  assumes inv: "proto_inv C A p" and s: "txid s = tx" "role s = RoleResponder"
  shows "proto_inv C A (accept_begin W now a tx recs s p)" (is "proto_inv C A ?r")
proof -
  let ?i = "length (p_store p)" and ?p = "p\<lparr>p_store := p_store p @ [s]\<rparr>"
  let ?n = "length (filter (\<lambda>e. fst e \<noteq> tx) (peer_sessions p a))"
  have ps: "peer_sessions ?p a = peer_sessions p a" by (simp add: peer_sessions_def)
  have tx: "txid (p_store ?p ! ?i) = tx" using s by simp
  have old: "i < ?i" if "i \<in> snd ` set (p_pumps p)" for i using inv that by (auto simp: proto_inv_def pumps_ok_def)
  show ?thesis
  proof (cases "?n \<ge> MaxSyncSessionsPerPeer")
    case True
    then have "peer_sessions p a \<noteq> []" by (auto simp: MaxSyncSessionsPerPeer_def)
    then obtain e where "e \<in> set (peer_sessions p a)" by (meson list.set_sel(1))
    then have "fst e \<in> dom (map_of (peer_sessions p a))" by (simp add: dom_map_of_conv_image_fst)
    then obtain t i where "lookupSyncSession p a t = Some i" by (auto simp: lookupSyncSession_def)
    then obtain tok where tok: "peerToken p a = Some tok" using registered_token [OF inv] by blast
    let ?q = "?p\<lparr>p_syncSessions := AList.update a (peer_sessions p a) (p_syncSessions ?p)\<rparr>"
    have q: "proto_inv C A ?q" by (rule rewrite_entry_inv [OF extend_store_inv [OF inv] ps])
    have "?r = charge now a ScoreUnexpectedMessage (send_end W tok (aborted_end tx) ?q)"
      using True tok tx by (simp add: accept_begin_def new_session_def registerSyncSessionIfUnderCap_def Let_def ps)
    then show ?thesis using send_end_inv [OF q] peerToken_ok [OF inv tok] by simp
  next
    case False
    let ?q = "replace_session a ?i ?p"
    have r: "?r = (case peerToken ?q a of
             None \<Rightarrow> releaseSyncSession a tx ?q
           | Some tok \<Rightarrow>
               if recs = [] then releaseSyncSession a tx (finish_and_send W tok ?i SyncStatusConverged ?q)
               else ?q\<lparr>p_pumps := p_pumps ?q @ [(tok, ?i)]\<rparr>)"
      using False tx by (simp add: accept_begin_def new_session_def registerSyncSessionIfUnderCap_def Let_def ps)
    have v: "peerToken ?q a = peerToken p a" "p_pumps ?q = p_pumps p" "length (p_store ?q) = Suc ?i"
      by (simp_all add: replace_session_def Let_def split: option.split)
    show ?thesis
    proof (cases "peerToken p a")
      case None
      then show ?thesis unfolding r using register_release_inv [OF inv None, of s] s v by simp
    next
      case (Some tok)
      note tok = peerToken_ok [OF inv Some]
      have q: "proto_inv C A ?q" using register_inv [OF inv, of a s] Some False s by simp
      have look: "lookupSyncSession ?q a tx = Some ?i"
        using s by (auto simp: replace_session_def Let_def lookupSyncSession_def peer_sessions_def get_update with_session_def split: option.split)
      have "p_store ?q ! ?i = s"
        using ps s registered [OF inv, of a tx]
        by (auto simp: replace_session_def Let_def with_session_nth lookupSyncSession_def split: option.split)
      then have "proto_inv C A (?q\<lparr>p_pumps := p_pumps ?q @ [(tok, ?i)]\<rparr>)"
        using q tok look s old v unfolding proto_inv_def tokens_ok_def registry_ok_def pumps_ok_def cache_ok_def responders_def
        by auto
      moreover have "proto_inv C A (releaseSyncSession a tx (finish_and_send W tok ?i SyncStatusConverged ?q))"
        using tok look old v
        by (intro release_inv finish_and_send_inv q) (auto simp: finish_and_send_def Let_def case_prod_unfold)
      ultimately show ?thesis unfolding r using v Some by simp
    qed
  qed
qed

lemma ApplyBegin_None:
  assumes "ApplyBegin (NewSyncSession C now tx rl recs) m = (None, s)"
  shows "txid s = tx" "role s = rl"
  using assms NewSyncSession_new(3,4) [of C now tx rl recs] by (auto simp: ApplyBegin_def Let_def split: if_splits)

lemma onSyncBegin_inv:
  assumes inv: "proto_inv C A p"
  shows "proto_inv C A (onSyncBegin W C now a payload p)"
proof (cases "DecodeSyncBegin W payload")
  case (Inl e)
  with inv show ?thesis by (simp add: onSyncBegin_def)
next
  case (Inr m)
  obtain ok lim where al: "Allow now (p_limiter p) a = (ok, lim)" by force
  define q where "q = p\<lparr>p_limiter := lim\<rparr>"
  have q: "proto_inv C A q" using inv by (simp add: q_def)
  show ?thesis
  proof (cases ok)
    case False
    have "onSyncBegin W C now a payload p = (case peerToken q a of
        Some tok \<Rightarrow> send_end W tok (aborted_end (sb_TxID m)) (charge now a ScoreRateLimited q) | None \<Rightarrow> charge now a ScoreRateLimited q)"
      using Inr al False by (simp add: onSyncBegin_def q_def Let_def split: option.split)
    then show ?thesis using q peerToken_ok [OF q, of a] by (auto intro!: send_end_inv split: option.split)
  next
    case True
    define recs where "recs = (if p_source q then LocalRecords (p_cache q) (sb_Filter m) else [])"
    obtain e s where b: "ApplyBegin (NewSyncSession C now (sb_TxID m) RoleResponder recs) m = (e, s)" by force
    show ?thesis
    proof (cases e)
      case (Some x)
      have "onSyncBegin W C now a payload p = q"
        using Inr al True b Some by (simp add: onSyncBegin_def q_def recs_def Let_def cong: if_cong)
      then show ?thesis using q by simp
    next
      case None
      note s = ApplyBegin_None [OF b [unfolded None]]
      show ?thesis
        using accept_begin_inv [OF q s, of W now a recs] Inr al True b None
        unfolding q_def recs_def by (cases "p_source p") (simp_all add: onSyncBegin_def Let_def)
    qed
  qed
qed

lemma handleSyncFrame_inv: "proto_inv C A p \<Longrightarrow> proto_inv C A (handleSyncFrame W C now a payload reply p)"
  using reap_inv [of C A p W now]
  by (simp add: handleSyncFrame_def Let_def onSyncBegin_inv onSyncSymbols_inv onSyncNeed_inv onSyncRecords_inv onSyncEnd_inv
      split: sum.split)

lemma handleQuery_inv: "proto_inv C A p \<Longrightarrow> proto_inv C A (handleQuery W now a payload reply p)"
  by (auto simp: handleQuery_def Let_def case_prod_unfold split: sum.split option.split)

lemma update_peer_inv:
  assumes inv: "proto_inv C A p"
    and tok: "valid (ps_token ps) \<Longrightarrow> tok_addr (ps_token ps) = a \<and> a \<in> A"
    and keep: "peerToken p a \<noteq> None \<Longrightarrow> valid (ps_token ps)"
  shows "proto_inv C A (p\<lparr>p_peers := AList.update a ps (p_peers p)\<rparr>)"
proof -
  let ?p = "p\<lparr>p_peers := AList.update a ps (p_peers p)\<rparr>"
  have l: "lookupSyncSession ?p = lookupSyncSession p" by (simp add: fun_eq_iff lookupSyncSession_def peer_sessions_def)
  have t: "peerToken ?p b \<noteq> None" if "peerToken p b \<noteq> None" for b
    using that keep by (auto simp: peerToken_def get_update split: option.splits if_splits)
  have "\<forall>(b, x) \<in> set (AList.update a ps (p_peers p)). valid (ps_token x) \<longrightarrow> tok_addr (ps_token x) = b \<and> b \<in> A"
    using inv tok set_AList_update [of a ps "p_peers p"] by (auto simp: proto_inv_def tokens_ok_def)
  then have "tokens_ok A ?p"
    using inv t unfolding proto_inv_def tokens_ok_def l by simp
  moreover have "registry_ok ?p" "pumps_ok ?p" "cache_ok C ?p"
    using inv by (simp_all add: proto_inv_def registry_ok_def pumps_ok_def cache_ok_def responders_def l)
  ultimately show ?thesis by (simp add: proto_inv_def)
qed

lemma known_peer_token:
  assumes "proto_inv C A p" and "map_of (p_peers p) a = Some ps"
  shows "valid (ps_token ps) \<longrightarrow> tok_addr (ps_token ps) = a \<and> a \<in> A" and "peerToken p a \<noteq> None \<longrightarrow> valid (ps_token ps)"
  using assms map_of_SomeD [OF assms(2)] by (auto simp: proto_inv_def tokens_ok_def peerToken_def split: if_splits)

lemma handlePeerAnnounce_inv:
  assumes inv: "proto_inv C A p"
  shows "proto_inv C A (handlePeerAnnounce a pa p)"
proof (cases "map_of (p_peers p) a")
  case (Some ps)
  note k = known_peer_token [OF inv Some]
  have "proto_inv C A (p\<lparr>p_peers := AList.update a ps' (p_peers p)\<rparr>)" if "ps_token ps' = ps_token ps" for ps'
    using k that by (intro update_peer_inv [OF inv]) auto
  with Some show ?thesis by (auto simp: handlePeerAnnounce_def Let_def)
qed (use inv in \<open>simp add: handlePeerAnnounce_def\<close>)

lemma route_inv: "proto_inv C A p \<Longrightarrow> proto_inv C A (route now from tx x p)"
  by (auto simp: route_def Let_def case_prod_unfold split: option.split)

lemma HandleMessage_inv:
  assumes "proto_inv C A p"
  shows "proto_inv C A (HandleMessage W C now a payload reply p)"
proof -
  obtain banned q where b: "is_banned now a p = (banned, q)" by force
  have q: "proto_inv C A q" using proto_inv_is_banned [of C A now a p] b assms by simp
  show ?thesis
    by (simp add: HandleMessage_def b q routeResult_def routeReject_def handleQuery_inv handlePeerAnnounce_inv
        handleSyncFrame_inv route_inv split: sum.split)
qed

section \<open>Callbacks and calls\<close>

lemma NotePeerAdded_inv:
  assumes inv: "proto_inv C A p"
  shows "proto_inv C A (NotePeerAdded now a p)"
proof (cases "map_of (p_peers p) a")
  case None
  have "proto_inv C A (p\<lparr>p_peers := AList.update a (newPeerState a now) (p_peers p)\<rparr>)"
    by (rule update_peer_inv [OF inv]) (simp_all add: newPeerState_def valid_def zeroToken_def peerToken_def None)
  with None show ?thesis by (simp add: NotePeerAdded_def)
qed (use inv in \<open>simp add: NotePeerAdded_def\<close>)

lemma proto_inv_mono: "proto_inv C A p \<Longrightarrow> A \<subseteq> B \<Longrightarrow> proto_inv C B p"
  unfolding proto_inv_def tokens_ok_def by fast

lemma announceCh_inv:
  "proto_inv C A p \<Longrightarrow> \<forall>tok \<in> set ch. valid tok \<longrightarrow> tok_addr tok \<in> A \<Longrightarrow> proto_inv C A (p\<lparr>p_announceCh := ch\<rparr>)"
  by (simp add: proto_inv_defs view_defs)

lemma OnRemoteHandshake_inv:
  assumes inv: "proto_inv C A p"
  shows "proto_inv C (if supported \<and> ext \<noteq> 0 then insert a A else A) (OnRemoteHandshake now a supported ext p)"
proof -
  let ?A = "if supported \<and> ext \<noteq> 0 then insert a A else A"
  obtain banned q where b: "is_banned now a p = (banned, q)" by force
  have q: "proto_inv C ?A q" using proto_inv_is_banned [of C A now a p] b inv by (auto intro: proto_inv_mono)
  show ?thesis
  proof (cases banned)
    case True
    with q b show ?thesis by (simp add: OnRemoteHandshake_def)
  next
    case False
    define ps where "ps = (case map_of (p_peers q) a of Some ps \<Rightarrow> ps | None \<Rightarrow> newPeerState a now)"
    define adv where "adv = (supported \<and> ext \<noteq> 0)"
    define newly where "newly = (adv \<and> \<not> ps_Supported ps)"
    define ep where "ep = (if newly then p_epoch q + 1 else p_epoch q)"
    define ps1 where "ps1 = ps\<lparr>ps_RemoteExtID := ext\<rparr>"
    define ps2 where "ps2 = (if adv then ps1\<lparr>ps_Supported := True\<rparr> else ps1)"
    define ps3 where "ps3 = (if newly then ps2\<lparr>ps_token := \<lparr>tok_addr = a, tok_epoch = ep\<rparr>\<rparr> else ps2)"
    define q1 where "q1 = q\<lparr>p_epoch := ep, p_peers := AList.update a ps3 (p_peers q)\<rparr>"
    have P: "OnRemoteHandshake now a supported ext p =
        (if newly \<and> length (p_announceCh q1) < announceQueueDepth then q1\<lparr>p_announceCh := p_announceCh q1 @ [ps_token ps3]\<rparr> else q1)"
      using b False by (simp only: OnRemoteHandshake_def Let_def prod.case if_False ps_def adv_def newly_def ep_def ps1_def ps2_def ps3_def q1_def
          PeerState.simps refl)
    have old: "valid (ps_token ps) \<longrightarrow> tok_addr (ps_token ps) = a \<and> a \<in> ?A" "peerToken q a \<noteq> None \<longrightarrow> valid (ps_token ps)"
      using known_peer_token [OF q, of a] by (auto simp: ps_def newPeerState_def valid_def zeroToken_def peerToken_def split: option.splits)
    have t3: "ps_token ps3 = (if newly then \<lparr>tok_addr = a, tok_epoch = ep\<rparr> else ps_token ps)"
      by (simp add: ps3_def ps2_def ps1_def)
    have nA: "newly \<longrightarrow> a \<in> ?A" by (simp add: newly_def adv_def)
    have "proto_inv C ?A ((q\<lparr>p_epoch := ep\<rparr>)\<lparr>p_peers := AList.update a ps3 (p_peers (q\<lparr>p_epoch := ep\<rparr>))\<rparr>)"
    proof (rule update_peer_inv)
      show "proto_inv C ?A (q\<lparr>p_epoch := ep\<rparr>)" using q by simp
      show "tok_addr (ps_token ps3) = a \<and> a \<in> ?A" if "valid (ps_token ps3)"
        using that old nA by (auto simp: t3 split: if_splits)
      show "valid (ps_token ps3)" if "peerToken (q\<lparr>p_epoch := ep\<rparr>) a \<noteq> None"
        using that old by (auto simp: t3 valid_def peerToken_def)
    qed
    then have q1: "proto_inv C ?A q1" by (simp add: q1_def)
    have "\<forall>tok \<in> set (p_announceCh q1). valid tok \<longrightarrow> tok_addr tok \<in> ?A" using q1 unfolding proto_inv_def tokens_ok_def by blast
    with q1 nA show ?thesis unfolding P by (auto intro!: announceCh_inv simp: t3 split: if_splits)
  qed
qed

lemma stop_sessions:
  "\<exists>st. fold (\<lambda>(tx, i). with_session i StopPump) ms p = p\<lparr>p_store := st\<rparr> \<and> length st = length (p_store p) \<and>
     (\<forall>j. mild (p_store p ! j) (st ! j)) \<and> (\<forall>(tx, i) \<in> set ms. i < length st \<longrightarrow> pumpStopped (st ! i))"
proof (induction ms arbitrary: p)
  case Nil
  show ?case by (intro exI [of _ "p_store p"]) (simp add: mild_def)
next
  case (Cons e ms)
  obtain tx i where e: "e = (tx, i)" by force
  let ?p = "with_session i StopPump p"
  have pp: "?p\<lparr>p_store := x\<rparr> = p\<lparr>p_store := x\<rparr>" for x by (simp add: with_session_def)
  from Cons [of ?p] obtain st where st: "fold (\<lambda>(tx, i). with_session i StopPump) ms ?p = p\<lparr>p_store := st\<rparr>"
    "length st = length (p_store p)" "\<forall>j. mild (p_store ?p ! j) (st ! j)" "\<forall>(tx, i) \<in> set ms. i < length st \<longrightarrow> pumpStopped (st ! i)"
    unfolding pp with_session_view(3) by blast
  have m: "mild (p_store p ! j) (p_store ?p ! j)" for j by (simp add: with_session_nth mild_def StopPump_def)
  have "pumpStopped (st ! i)" if "i < length st"
    using st(2,3) that by (auto simp: with_session_nth mild_def StopPump_def dest!: spec [of _ i])
  with st m show ?case by (auto simp: e intro!: exI [of _ st] intro: mild_trans [OF m])
qed

lemma delete_peer_inv:
  assumes inv: "proto_inv C A p" and none: "\<And>tx. lookupSyncSession p a tx = None"
  shows "proto_inv C A (p\<lparr>p_peers := AList.delete a (p_peers p)\<rparr>)"
proof -
  let ?p = "p\<lparr>p_peers := AList.delete a (p_peers p)\<rparr>"
  have l: "lookupSyncSession ?p = lookupSyncSession p" by (simp add: fun_eq_iff lookupSyncSession_def peer_sessions_def)
  have t: "peerToken ?p b \<noteq> None" if "lookupSyncSession p b tx = Some i" for b tx i
    using registered_token [OF inv that] none [of tx] that by (cases "b = a") (auto simp: peerToken_def get_delete)
  have "\<forall>(b, x) \<in> set (AList.delete a (p_peers p)). valid (ps_token x) \<longrightarrow> tok_addr (ps_token x) = b \<and> b \<in> A"
    using inv set_AList_delete [of a "p_peers p"] by (auto simp: proto_inv_def tokens_ok_def)
  then have "tokens_ok A ?p" using inv t unfolding proto_inv_def tokens_ok_def l by simp
  moreover have "registry_ok ?p" "pumps_ok ?p" "cache_ok C ?p"
    using inv by (simp_all add: proto_inv_def registry_ok_def pumps_ok_def cache_ok_def responders_def l)
  ultimately show ?thesis by (simp add: proto_inv_def)
qed

lemma OnPeerClosed_inv:
  assumes inv: "proto_inv C A p"
  shows "proto_inv C A (OnPeerClosed a p)"
proof -
  define q where "q = p\<lparr>p_peers := AList.delete a (p_peers p), p_limiter := limiter_forget (p_limiter p) a, p_ban := Forget (p_ban p) a\<rparr>"
  let ?ss = "AList.delete a (p_syncSessions p)"
  have reg: "registry_ok p" using inv by (simp add: proto_inv_def)
  obtain st where st: "fold (\<lambda>(tx, i). with_session i StopPump) (peer_sessions p a) (q\<lparr>p_syncSessions := ?ss\<rparr>) = (q\<lparr>p_syncSessions := ?ss\<rparr>)\<lparr>p_store := st\<rparr>"
    "length st = length (p_store p)" "\<forall>j. mild (p_store p ! j) (st ! j)" "\<forall>(tx, i) \<in> set (peer_sessions p a). i < length st \<longrightarrow> pumpStopped (st ! i)"
    using stop_sessions [of "peer_sessions p a" "q\<lparr>p_syncSessions := ?ss\<rparr>"] by (auto simp: q_def)
  have P: "OnPeerClosed a p = (q\<lparr>p_syncSessions := ?ss\<rparr>)\<lparr>p_store := st\<rparr>"
    using st(1) by (simp add: OnPeerClosed_def releaseAllSyncSessions_def q_def peer_sessions_def)
  let ?r = "p\<lparr>p_store := st, p_syncSessions := ?ss\<rparr>"
  note look = lookup_delete [where p = p and st = st and a = a]
  have stopped: "pumpStopped (st ! i)" if "lookupSyncSession p a tx = Some i" for tx i
    using st(2,4) map_of_SomeD [of "peer_sessions p a" tx i] that registered [OF inv that] by (auto simp: lookupSyncSession_def)
  have role: "role (st ! j) = role (p_store p ! j)" "txid (st ! j) = txid (p_store p ! j)" for j using st(3) by (simp_all add: mild_def)
  have "proto_inv C A ?r"
  proof (rule registry_change [OF inv])
    show "distinct (map fst ?ss)" "\<forall>(a, m) \<in> set ?ss. distinct (map fst m)"
      using reg set_AList_delete [of a "p_syncSessions p"] by (auto simp: registry_ok_def AList.distinct_delete)
    show "card (responders ?r b) \<le> MaxSyncSessionsPerPeer" for b
    proof -
      have "responders ?r b \<subseteq> responders p b" by (auto simp: responders_def look role split: if_splits)
      then have "card (responders ?r b) \<le> card (responders p b)" by (rule card_mono [OF finite_responders])
      with reg show ?thesis by (meson order_trans registry_ok_def)
    qed
    show "i < length st \<and> txid (st ! i) = tx \<and> peerToken p b \<noteq> None" if "lookupSyncSession ?r b tx = Some i" for b tx i
    proof -
      have "lookupSyncSession p b tx = Some i" using that unfolding look by (simp split: if_splits)
      then show ?thesis using registered [OF inv] registered_token [OF inv] st(2) role(2) by metis
    qed
    show "lookupSyncSession ?r b tx = Some i" if "lookupSyncSession p b tx = Some i" "\<not> pumpStopped (st ! i)" for b tx i
      unfolding look using that stopped by auto
  qed (use st in auto)
  then have "proto_inv C A (?r\<lparr>p_peers := AList.delete a (p_peers ?r)\<rparr>)" by (rule delete_peer_inv) (simp add: look)
  moreover have "OnPeerClosed a p = ((?r\<lparr>p_peers := AList.delete a (p_peers ?r)\<rparr>)\<lparr>p_limiter := limiter_forget (p_limiter p) a\<rparr>)\<lparr>p_ban := Forget (p_ban p) a\<rparr>"
    unfolding P q_def by simp
  ultimately show ?thesis by (simp only: proto_inv_frame)
qed

lemma announceWorker_inv:
  assumes inv: "proto_inv C A p"
  shows "proto_inv C A (announceWorker W p)"
proof (cases "p_announceCh p")
  case (Cons tok rest)
  have ch: "\<forall>t \<in> set (tok # rest). valid t \<longrightarrow> tok_addr t \<in> A"
    using inv Cons unfolding proto_inv_def tokens_ok_def by metis
  then have q: "proto_inv C A (p\<lparr>p_announceCh := rest\<rparr>)" by (intro announceCh_inv [OF inv]) simp
  then have "proto_inv C A (sendAnnounce W tok (p\<lparr>p_announceCh := rest\<rparr>))"
    using ch sendVia_inv [OF q] by (auto simp: sendAnnounce_def Let_def split: sum.split)
  with Cons inv show ?thesis by (simp add: announceWorker_def)
qed (use inv in \<open>simp add: announceWorker_def\<close>)

lemma Query_inv:
  assumes inv: "proto_inv C A p"
  shows "proto_inv C A (snd (Query W req p))"
proof -
  have tg: "\<forall>tok \<in> set (supportedTargets p). valid tok \<and> tok_addr tok \<in> A"
    using inv by (auto simp: supportedTargets_def proto_inv_def tokens_ok_def)
  have fold: "proto_inv C A (fold (\<lambda>tok. sendVia tok f) ts q)"
    if "proto_inv C A q" "\<forall>tok \<in> set ts. valid tok \<and> tok_addr tok \<in> A" for f ts q
    using that by (induction ts arbitrary: q) (simp_all add: sendVia_inv)
  show ?thesis
    using inv tg fold [OF _ tg]
    by (auto simp: Query_def Let_def nextTxID_def registerPending_def split: option.split sum.split)
qed

lemma drop_pump_inv:
  assumes inv: "proto_inv C A p"
  shows "proto_inv C A (p\<lparr>p_pumps := take k (p_pumps p) @ drop (Suc k) (p_pumps p)\<rparr>)"
proof -
  let ?l = "take k (p_pumps p) @ drop (Suc k) (p_pumps p)"
  have sub: "set ?l \<subseteq> set (p_pumps p)" by (auto dest: in_set_takeD in_set_dropD)
  have "distinct (map snd ?l)"
  proof (cases "k < length (p_pumps p)")
    case True
    have "distinct (map snd (take k (p_pumps p) @ p_pumps p ! k # drop (Suc k) (p_pumps p)))"
      using inv unfolding id_take_nth_drop [OF True, symmetric] by (simp add: proto_inv_def pumps_ok_def)
    then show ?thesis by simp
  next
    case False
    then show ?thesis using inv by (simp add: proto_inv_def pumps_ok_def)
  qed
  with inv sub show ?thesis unfolding proto_inv_def tokens_ok_def registry_ok_def pumps_ok_def cache_ok_def responders_def by auto
qed

lemma runSyncPump_inv:
  assumes inv: "proto_inv C A p"
  shows "proto_inv C A (runSyncPump W k p)"
proof (cases "k < length (p_pumps p)")
  case True
  obtain tok i where t: "p_pumps p ! k = (tok, i)" by force
  have "(tok, i) \<in> set (p_pumps p)" using True t by (metis nth_mem)
  then have tok: "valid tok" "tok_addr tok \<in> A" using inv by (auto simp: proto_inv_def tokens_ok_def)
  have q: "proto_inv C A (with_session i (\<lambda>_. snd (ProduceSymbols (p_store p ! i) n)) p)" for n
    by (rule with_session_inv [OF inv]) simp
  note s = sendVia_inv [OF q tok]
  show ?thesis
    using True t inv q s drop_pump_inv [OF inv, of k] drop_pump_inv [OF q, of k] drop_pump_inv [OF s, of k]
    by (auto simp: runSyncPump_def Let_def case_prod_unfold split: sum.split)
qed (use inv in \<open>simp add: runSyncPump_def\<close>)

lemma StartSync_inv:
  assumes inv: "proto_inv C A p"
  shows "proto_inv C A (snd (StartSync W C now a f recs p))"
proof (cases "map_of (p_peers p) a")
  case (Some ps)
  show ?thesis
  proof (cases "Has (ps_Services ps) BitSetReconciliation \<and> p_transport p \<noteq> None \<and> valid (ps_token ps)")
    case False
    with Some inv show ?thesis by (auto simp: StartSync_def split: option.split)
  next
    case True
    then obtain t where t: "p_transport p = Some t" by blast
    define tx where "tx = p_txid p + 1"
    define q where "q = p\<lparr>p_txid := tx\<rparr>"
    define s where "s = snd (Begin (NewSyncSession C now tx RoleInitiator recs) f)"
    define r where "r = replace_session a (length (p_store q)) (q\<lparr>p_store := p_store q @ [s]\<rparr>)"
    have tok: "valid (ps_token ps)" "tok_addr (ps_token ps) \<in> A" "peerToken p a \<noteq> None"
      using known_peer_token [OF inv Some] True Some by (auto simp: peerToken_def)
    have s: "txid s = tx" "role s = RoleInitiator"
      using NewSyncSession_new(3,4) [of C now tx RoleInitiator recs] by (simp_all add: s_def Begin_def)
    have q: "proto_inv C A q" using inv by (simp add: q_def)
    have r: "proto_inv C A r" unfolding r_def by (rule register_inv [OF q]) (use tok s in \<open>simp_all add: q_def\<close>)
    have look: "lookupSyncSession r a tx = Some (length (p_store q))"
      using s by (auto simp: r_def replace_session_def Let_def lookupSyncSession_def peer_sessions_def get_update with_session_def split: option.split)
    have pumps: "p_pumps r = p_pumps p" "p_store q = p_store p" by (auto simp: r_def q_def replace_session_def Let_def split: option.split)
    have new: "length (p_store q) \<notin> snd ` set (p_pumps p)" using inv pumps(2) by (auto simp: proto_inv_def pumps_ok_def)
    have rel: "proto_inv C A (releaseSyncSession a tx r)" using look new pumps by (intro release_inv r) auto
    have snt: "proto_inv C A (sendVia (ps_token ps) w r)" for w using sendVia_inv [OF r] tok by simp
    have "proto_inv C A (releaseSyncSession a tx (sendVia (ps_token ps) w r))" for w
      using look new pumps by (intro release_inv snt) auto
    then show ?thesis
      using rel snt Some True t
      by (auto simp: StartSync_def Let_def nextTxID_def new_session_def case_prod_unfold registerSyncSession_def
          r_def [symmetric] s_def [symmetric] q_def [symmetric] tx_def [symmetric] split: sum.split)
  qed
qed (use inv in \<open>simp add: StartSync_def\<close>)

lemma SendSyncNeed_inv:
  assumes inv: "proto_inv C A p"
  shows "proto_inv C A (snd (SendSyncNeed W a i ids p))"
proof -
  have q: "proto_inv C A (with_session i (\<lambda>_. snd (NeedFrame (p_store p ! i) ids)) p)"
    by (rule with_session_inv [OF inv]) simp
  then show ?thesis
    using peerToken_ok [OF q, of a] by (auto simp: SendSyncNeed_def Let_def case_prod_unfold intro!: sendVia_inv split: sum.split option.split)
qed

text \<open>Closing keeps the invariant when the session has not been replaced in the registry.\<close>

lemma CloseSync_inv:
  assumes inv: "proto_inv C A p" and own: "lookupSyncSession p a (txid (p_store p ! i)) \<in> {None, Some i}"
  shows "proto_inv C A (snd (CloseSync W a i st p))"
proof -
  let ?q = "with_session i (\<lambda>_. snd (Finish (p_store (with_session i StopPump p) ! i) st)) (with_session i StopPump p)"
  have q: "proto_inv C A ?q" by (intro with_session_inv inv) simp_all
  have stop: "pumpStopped (p_store ?q ! j)" if "lookupSyncSession p a (txid (p_store p ! i)) = Some j" for j
    using own that registered [OF inv that] by (auto simp: with_session_nth Finish_def StopPump_def)
  have "proto_inv C A (sendVia tok w ?q)" if "peerToken p a = Some tok" for tok w
    using peerToken_ok [OF inv that] by (intro sendVia_inv q) auto
  then show ?thesis
    using q stop by (auto simp: CloseSync_def Let_def case_prod_unfold intro!: release_inv split: sum.split option.split)
qed

section \<open>Runs\<close>

inductive config_step :: "Protocol \<Rightarrow> Protocol \<Rightarrow> bool" where
  "config_step p (SetSearcher p s)" | "config_step p (SetTransport p t)" | "config_step p (SetCapabilitySource p c)"
| "config_step p (SetPublisherPubkey p pk has)" | "config_step p (SetIndexerSink p b)" | "config_step p (SetEndorsementSink p b)"
| "config_step p (SetRateLimit p rl)" | "config_step p (SetRecordSource p b)" | "config_step p (SetRecordSink p b)"
| "config_step p (SetPublisherObserver p b)" | "config_step p (Close p)"

inductive_cases config_stepE: "config_step p p'"

definition verified_cache :: "crypto \<Rightarrow> RecordCache \<Rightarrow> bool" where
  "verified_cache C c \<longleftrightarrow> list_all (\<lambda>e. Verify C (snd e) = None) (c_m c)"

text \<open>
  The set collects the addresses that advertised the extension in a handshake.  A session is
  closed only by the caller that still owns its place in the registry.
\<close>

inductive proto_run :: "wire \<Rightarrow> crypto \<Rightarrow> addr set \<Rightarrow> Protocol \<Rightarrow> bool" for W C where
  start: "verified_cache C c \<Longrightarrow> proto_run W C {} (New\<lparr>p_cache := c\<rparr>)"
| config: "proto_run W C A p \<Longrightarrow> config_step p p' \<Longrightarrow> proto_run W C A p'"
| added: "proto_run W C A p \<Longrightarrow> proto_run W C A (NotePeerAdded now a p)"
| handshake: "proto_run W C A p \<Longrightarrow>
    proto_run W C (if supported \<and> ext \<noteq> 0 then insert a A else A) (OnRemoteHandshake now a supported ext p)"
| closed: "proto_run W C A p \<Longrightarrow> proto_run W C A (OnPeerClosed a p)"
| announce: "proto_run W C A p \<Longrightarrow> proto_run W C A (announceWorker W p)"
| message: "proto_run W C A p \<Longrightarrow> proto_run W C A (HandleMessage W C now a payload reply p)"
| pump_round: "proto_run W C A p \<Longrightarrow> proto_run W C A (runSyncPump W k p)"
| query: "proto_run W C A p \<Longrightarrow> proto_run W C A (snd (Query W req p))"
| forget: "proto_run W C A p \<Longrightarrow> proto_run W C A (unregisterPending tx p)"
| start_sync: "proto_run W C A p \<Longrightarrow> proto_run W C A (snd (StartSync W C now a f recs p))"
| send_need: "proto_run W C A p \<Longrightarrow> proto_run W C A (snd (SendSyncNeed W a i ids p))"
| close_sync: "proto_run W C A p \<Longrightarrow> lookupSyncSession p a (txid (p_store p ! i)) \<in> {None, Some i} \<Longrightarrow>
    proto_run W C A (snd (CloseSync W a i status p))"

lemma config_step_inv: "config_step p p' \<Longrightarrow> proto_inv C A p \<Longrightarrow> proto_inv C A p'"
  by (erule config_stepE)
    (simp_all add: SetSearcher_def SetTransport_def SetCapabilitySource_def SetPublisherPubkey_def SetIndexerSink_def
      SetEndorsementSink_def SetRateLimit_def SetRecordSource_def SetRecordSink_def SetPublisherObserver_def Close_def)

lemma New_inv: "verified_cache C c \<Longrightarrow> proto_inv C {} (New\<lparr>p_cache := c\<rparr>)"
  by (auto simp: proto_inv_defs view_defs New_def verified_cache_def list_all_iff cache_Get_def dest!: map_of_SomeD)

lemma proto_run_inv: "proto_run W C A p \<Longrightarrow> proto_inv C A p"
  by (induction rule: proto_run.induct)
    (simp_all add: New_inv config_step_inv NotePeerAdded_inv OnRemoteHandshake_inv OnPeerClosed_inv announceWorker_inv
      HandleMessage_inv runSyncPump_inv Query_inv unregisterPending_def StartSync_inv SendSyncNeed_inv CloseSync_inv
      del: if_split_asm split del: if_split)

section \<open>Properties\<close>

lemma pump_registered:
  assumes "proto_inv C A p" and "(tok, i) \<in> set (p_pumps p)"
  shows "role (p_store p ! i) = RoleResponder \<and>
    (pumpStopped (p_store p ! i) \<or> lookupSyncSession p (tok_addr tok) (txid (p_store p ! i)) = Some i)"
proof -
  have "pumps_ok p" using assms(1) by (simp add: proto_inv_def)
  then show ?thesis unfolding pumps_ok_def using assms(2) by blast
qed

lemma OnPeerClosed_releases: "lookupSyncSession (OnPeerClosed a p) a tx = None"
proof -
  have "lookupSyncSession (fold (\<lambda>(tx, i). with_session i StopPump) ms q) = lookupSyncSession q" for ms :: "(u32 \<times> nat) list" and q
    using stop_sessions [of ms q] by auto
  then show ?thesis unfolding OnPeerClosed_def releaseAllSyncSessions_def
    by (simp only:) (simp add: lookupSyncSession_def peer_sessions_def get_delete)
qed

subsection \<open>A concrete run\<close>

text \<open>
  A small wire format, whose frames are told apart by their first byte, and a few runs of a node with
  one peer: greeted, with a responder session, with records received, with a query answered, and with
  two sessions that met at the same transaction id.
\<close>

definition lab_record :: "64 word \<Rightarrow> Record" where "lab_record t = toy_record\<lparr>T := t, Sig := replicate 64 7\<rparr>"

definition lab_wire :: wire where
  "lab_wire = \<lparr>bmarshal = (\<lambda>_. Some []),
     u_header = (\<lambda>_ b. case b of [] \<Rightarrow> None | t # _ \<Rightarrow> Some \<lparr>p_MsgType = uint t, p_TxID = 1\<rparr>),
     u_query = (\<lambda>_ _. None),
     u_result = (\<lambda>_ _. Some \<lparr>r_MsgType = MsgTypeResult, r_TxID = 1, r_Total = 0, r_Partial = 0, r_Hits = []\<rparr>),
     u_reject = (\<lambda>_ _. None),
     u_announce = (\<lambda>_ _. Some \<lparr>a_MsgType = MsgTypePeerAnnounce, a_Version = 1, a_Services = BitSetReconciliation, a_Pk = [], a_Endorsed = []\<rparr>),
     u_begin = (\<lambda>_ _. Some \<lparr>sb_MsgType = MsgTypeSyncBegin, sb_TxID = 1, sb_Algo = SyncAlgo, sb_ElementSize = 32,
        sb_Filter = \<lparr>Pubkeys = [], Since = 0, Prefix = []\<rparr>, sb_LocalCount = 0, sb_MaxSymbols = 100, sb_MaxBytes = 1000\<rparr>),
     u_symbols = (\<lambda>_ _. None), u_need = (\<lambda>_ _. None),
     u_records = (\<lambda>_ _. Some \<lparr>sc_MsgType = MsgTypeSyncRecords, sc_TxID = 1,
        sc_Records = [\<lparr>sr_Pk = replicate 32 7, sr_Kw = [0x75, 0x62], sr_Ih = replicate 20 1, sr_T = 6, sr_Pow = 0, sr_Sig = replicate 64 7\<rparr>], sc_Missing = []\<rparr>),
     u_end = (\<lambda>_ _. None)\<rparr>"

definition lab_greeted :: Protocol where
  "lab_greeted =
     HandleMessage lab_wire toy_crypto 0 ''a'' [3] True
       (OnRemoteHandshake 0 ''a'' True 3
         (SetRecordSink (SetRecordSource (SetTransport (New\<lparr>p_cache := cache_Add toy_crypto NewRecordCache (lab_record 5)\<rparr>) (Some (\<lambda>_ _. False))) True) True))"

definition lab_begun :: Protocol where "lab_begun = HandleMessage lab_wire toy_crypto 0 ''a'' [4] True lab_greeted"

definition lab_started :: Protocol where
  "lab_started = snd (StartSync lab_wire toy_crypto 0 ''a'' \<lparr>Pubkeys = [], Since = 0, Prefix = []\<rparr> [] lab_greeted)"

definition lab_received :: Protocol where
  "lab_received = HandleMessage lab_wire toy_crypto 0 ''a'' [7] True (snd (SendSyncNeed lab_wire ''a'' 0 [] lab_started))"

definition lab_answered :: Protocol where
  "lab_answered = HandleMessage lab_wire toy_crypto 0 ''a'' [1] True
    (snd (Query lab_wire \<lparr>req_Q = [65], req_Scope = [], req_Limit = 5\<rparr> lab_greeted))"

definition lab_crossed :: Protocol where
  "lab_crossed = snd (CloseSync lab_wire ''a'' 0 SyncStatusAborted (HandleMessage lab_wire toy_crypto 0 ''a'' [4] True lab_started))"

lemma lab_verified: "verified_cache toy_crypto (cache_Add toy_crypto NewRecordCache (lab_record 5))"
  by code_simp

lemma lab_greeted_run: "proto_run lab_wire toy_crypto {''a''} lab_greeted"
proof -
  have "proto_run lab_wire toy_crypto (if True \<and> (3::int) \<noteq> 0 then insert ''a'' {} else {})
      (OnRemoteHandshake 0 ''a'' True 3
         (SetRecordSink (SetRecordSource (SetTransport (New\<lparr>p_cache := cache_Add toy_crypto NewRecordCache (lab_record 5)\<rparr>) (Some (\<lambda>_ _. False))) True) True))"
    by (intro handshake proto_run.config [OF _ config_step.intros(9)] proto_run.config [OF _ config_step.intros(8)]
        proto_run.config [OF _ config_step.intros(2)] start lab_verified)
  then show ?thesis unfolding lab_greeted_def by (intro message) simp
qed

lemmas lab_runs = lab_begun_def lab_started_def lab_received_def lab_answered_def

lemma lab_run:
  "proto_run lab_wire toy_crypto {''a''} lab_begun" "proto_run lab_wire toy_crypto {''a''} lab_started"
  "proto_run lab_wire toy_crypto {''a''} lab_received" "proto_run lab_wire toy_crypto {''a''} lab_answered"
  unfolding lab_runs by (intro message query send_need start_sync lab_greeted_run)+

text \<open>
  C13: whatever frames peers send and in whatever order, a node that starts from a cache of verified
  records only ever holds records whose signature verifies.
\<close>

theorem only_verified_records:
  assumes "proto_run W C A p" and "cache_Get (p_cache p) eid = Some x"
  shows "Verify C x = None"
  using proto_run_inv [OF assms(1)] assms(2) by (simp add: proto_inv_def cache_ok_def)

theorem only_verified_records_witness:
  "cache_Get (p_cache lab_received) (ElementID toy_crypto (lab_record 6)) = Some (lab_record 6) \<and> Verify toy_crypto (lab_record 6) = None"
proof -
  have "cache_Get (p_cache lab_received) (ElementID toy_crypto (lab_record 6)) = Some (lab_record 6)" by code_simp
  with only_verified_records [OF lab_run(3) this] show ?thesis by simp
qed





text \<open>
  What the owner's guard in the runs rules out.  The node starts a session, its peer opens one with
  the same transaction id, which takes its place in the registry, and the node then closes its own:
  the close releases the peer's session, whose pump is still running and is not stopped when the
  peer disconnects.
\<close>

lemma close_orphans_pump:
  "p_pumps (OnPeerClosed ''a'' lab_crossed) = [(\<lparr>tok_addr = ''a'', tok_epoch = 1\<rparr>, 1)] \<and>
   \<not> pumpStopped (p_store (OnPeerClosed ''a'' lab_crossed) ! 1) \<and> p_peers (OnPeerClosed ''a'' lab_crossed) = [] \<and>
   lookupSyncSession lab_crossed ''a'' 1 = None"
  by code_simp

end
