(* ===== verification/Swarm_Answers.thy ===== *)
theory Swarm_Answers
  imports Swarm_Runs
begin

text \<open>
  Distributed search as the user sees it: who may answer a query
  (\<^verbatim>\<open>internal/swarmsearch/query.go\<close>, \<open>routeResult\<close> and \<open>routeReject\<close>), what the merge of the answers
  promises, and what a node discloses when it answers (\<^verbatim>\<open>handler.go\<close>, \<open>hitsToWire\<close>).
\<close>

section \<open>Steps that leave the pending queries and the peer table alone\<close>

definition front :: "Protocol \<Rightarrow> (u32 \<Rightarrow> pendingQuery option) \<times> (addr \<times> PeerState) list" where
  "front p = (p_pending p, p_peers p)"

lemma front_basic [simp]:
  "front (charge now a pts p) = front p" "front (reply_frame r a f p) = front p" "front (sendVia tok f p) = front p"
  "front (with_session i g p) = front p" "front (send_end W tok e p) = front p" "front (sendReject W r a tx c s p) = front p"
  "front (releaseSyncSession a tx p) = front p" "front (snd (is_banned now a p)) = front p"
  "front (snd (new_session sn p)) = front p" "front (snd (nextTxID p)) = front p" "front (replace_session a i p) = front p"
  "front (p\<lparr>p_limiter := l\<rparr>) = front p" "front (p\<lparr>p_pumps := pu\<rparr>) = front p" "front (p\<lparr>p_cache := ca\<rparr>) = front p"
  "front (p\<lparr>p_observed := ob\<rparr>) = front p" "front (p\<lparr>p_syncSessions := ss\<rparr>) = front p" "front (p\<lparr>p_announceCh := ch\<rparr>) = front p"
  by (simp_all add: front_def charge_def reply_frame_def sendVia_def with_session_def send_end_def sendReject_def
      releaseSyncSession_def is_banned_def new_session_def nextTxID_def replace_session_def Let_def case_prod_unfold
      split: option.split sum.split)

lemma front_finish [simp]: "front (finish_and_send W tok i st p) = front p" "front (stop_and_abort W v p) = front p"
  by (simp_all add: finish_and_send_def stop_and_abort_def case_prod_unfold Let_def split: option.split)

lemma front_fold: "(\<And>x p. x \<in> set xs \<Longrightarrow> front (f x p) = front p) \<Longrightarrow> front (fold f xs p) = front p"
  by (induction xs arbitrary: p) simp_all

lemma front_endWithError [simp]: "front (endWithError W now a i err p) = front p"
  by (simp add: endWithError_def Let_def split: option.split)

lemma front_reap [simp]: "front (reapStaleSyncSessions W now p) = front p"
  by (simp add: reapStaleSyncSessions_def Let_def front_fold)

lemma front_send_chunks:
  assumes "\<And>w q. front (send w q) = front q"
  shows "front (send_chunks W send i found missing start p) = front p"
  by (rule send_chunks_keeps [where I = "\<lambda>q. front q = front p"]) (simp_all add: assms)

lemma front_ingest [simp]: "front (ingestSyncRecords C now a recs p) = front p"
proof -
  have "front (snd (ingest_one C now a r x)) = front (snd x)" for r x
    by (cases x) (simp add: ingest_one_def Let_def split: option.split)
  then have "front (snd (fold (ingest_one C now a) recs x)) = front (snd x)" for x
    by (induction recs arbitrary: x) simp_all
  then show ?thesis by (simp add: ingestSyncRecords_def)
qed

lemma front_accept_begin [simp]: "front (accept_begin W now a tx recs s p) = front p"
  using front_basic(9) [of s p]
  by (simp add: accept_begin_def registerSyncSessionIfUnderCap_def Let_def case_prod_unfold split: option.split)

lemma front_sync_handlers [simp]:
  "front (onSyncBegin W C now a payload p) = front p" "front (onSyncEnd W now a payload p) = front p"
  "front (onSyncRecords W C now a payload p) = front p" "front (onSyncNeed W now a payload reply p) = front p"
  "front (initiatorConverge W a i p) = front p" "front (onSyncSymbols W now a payload p) = front p"
proof -
  show conv: "front (initiatorConverge W a i p) = front p" for i p
    by (simp add: initiatorConverge_def sendRecordsChunked_def front_send_chunks Let_def case_prod_unfold split: option.split sum.split)
  show "front (onSyncBegin W C now a payload p) = front p"
    by (simp add: onSyncBegin_def Let_def case_prod_unfold split: option.split sum.split)
  show "front (onSyncEnd W now a payload p) = front p"
    by (simp add: onSyncEnd_def Let_def split: option.split sum.split)
  show "front (onSyncRecords W C now a payload p) = front p"
    by (simp add: onSyncRecords_def Let_def case_prod_unfold split: option.split sum.split)
  show "front (onSyncNeed W now a payload reply p) = front p"
    by (simp add: onSyncNeed_def Let_def sendRecordsChunked_def front_send_chunks case_prod_unfold split: option.split sum.split)
  show "front (onSyncSymbols W now a payload p) = front p"
    by (simp add: onSyncSymbols_def Let_def case_prod_unfold conv split: option.split sum.split)
qed

lemma front_handlers [simp]:
  "front (handleSyncFrame W C now a payload reply p) = front p" "front (handleQuery W now a payload reply p) = front p"
  "front (announceWorker W p) = front p" "front (runSyncPump W k p) = front p"
  "front (snd (StartSync W C now a f recs p)) = front p" "front (snd (SendSyncNeed W a i ids p)) = front p"
  "front (snd (CloseSync W a i st p)) = front p"
  subgoal by (simp add: handleSyncFrame_def Let_def split: sum.split)
  subgoal by (simp add: handleQuery_def Let_def case_prod_unfold split: sum.split option.split)
  subgoal by (simp add: announceWorker_def sendAnnounce_def Let_def split: sum.split list.split)
  subgoal by (simp add: runSyncPump_def Let_def case_prod_unfold split: sum.split)
  subgoal by (simp add: StartSync_def registerSyncSession_def Let_def case_prod_unfold split: sum.split option.split)
  subgoal by (simp add: SendSyncNeed_def Let_def case_prod_unfold split: sum.split option.split)
  subgoal by (simp add: CloseSync_def Let_def case_prod_unfold split: sum.split option.split)
  done

section \<open>Who may answer\<close>

text \<open>
  A pending query: every frame taken off the wire for it came from another peer among those it was
  sent to, and the results channel, whose capacity is their number, has room for all of them.
\<close>

definition query_ok :: "addr set \<Rightarrow> u32 \<Rightarrow> pendingQuery \<Rightarrow> bool" where
  "query_ok A tx pq \<longleftrightarrow> pq_txid pq = tx \<and> distinct (pq_asked pq) \<and> set (pq_asked pq) \<subseteq> A \<and>
     pq_cap pq = length (pq_asked pq) \<and> distinct (pq_responded pq) \<and> set (pq_responded pq) \<subseteq> set (pq_asked pq) \<and>
     map in_fromAddr (pq_results pq) = rev (pq_responded pq)"

definition front_ok :: "addr set \<Rightarrow> Protocol \<Rightarrow> bool" where
  "front_ok A p \<longleftrightarrow> distinct (map fst (p_peers p)) \<and> (\<forall>tx pq. p_pending p tx = Some pq \<longrightarrow> query_ok A tx pq)"

lemma front_ok_cong: "front p = front q \<Longrightarrow> front_ok A p = front_ok A q"
  by (simp add: front_def front_ok_def)

lemma front_ok_mono: "front_ok A p \<Longrightarrow> A \<subseteq> B \<Longrightarrow> front_ok B p"
  by (fastforce simp: front_ok_def query_ok_def)

lemma query_ok_accept:
  assumes q: "query_ok A tx pq" and asked: "from \<in> set (pq_asked pq)" and sender: "in_fromAddr x = from"
    and first: "firstFrom from pq = (b, pq')"
  shows "query_ok A tx (if b then channel_send x pq' else pq')"
proof (cases "from \<in> set (pq_responded pq)")
  case True
  then show ?thesis using q first by (auto simp: firstFrom_def)
next
  case False
  have "length (pq_results pq) = card (set (pq_responded pq))"
    using q by (metis query_ok_def distinct_card length_map length_rev)
  also have "... < card (set (pq_asked pq))"
    using q asked False by (intro psubset_card_mono) (auto simp: query_ok_def)
  finally have "length (pq_results pq) < pq_cap pq" using q by (simp add: query_ok_def distinct_card)
  then show ?thesis using q first False asked sender by (auto simp: firstFrom_def channel_send_def query_ok_def)
qed

lemma route_ok:
  assumes "front_ok A p" and "in_fromAddr x = from"
  shows "front_ok A (route now from tx x p)"
proof (cases "p_pending p tx")
  case None
  then show ?thesis using assms front_ok_cong [OF front_basic(1)] by (simp add: route_def)
next
  case (Some pq)
  obtain b pq' where f: "firstFrom from pq = (b, pq')" by (cases "firstFrom from pq")
  have "query_ok A tx pq" using assms Some by (simp add: front_ok_def)
  from query_ok_accept [OF this _ assms(2) f] show ?thesis
    using assms(1) Some f front_ok_cong [OF front_basic(1)] by (auto simp: route_def front_ok_def Let_def)
qed

lemma front_ok_peers:
  "front_ok A p \<Longrightarrow> p_pending q = p_pending p \<Longrightarrow> p_peers q = AList.update a ps (p_peers p) \<Longrightarrow> front_ok A q"
  "front_ok A p \<Longrightarrow> p_pending q = p_pending p \<Longrightarrow> p_peers q = AList.delete a (p_peers p) \<Longrightarrow> front_ok A q"
  "front_ok A p \<Longrightarrow> p_pending q = p_pending p \<Longrightarrow> p_peers q = p_peers p \<Longrightarrow> front_ok A q"
  by (simp_all add: front_ok_def distinct_update AList.distinct_delete)

lemma NotePeerAdded_ok: "front_ok A p \<Longrightarrow> front_ok A (NotePeerAdded now a p)"
  by (auto simp: NotePeerAdded_def intro: front_ok_peers split: option.split)

lemma handlePeerAnnounce_ok:
  assumes "front_ok A p"
  shows "front_ok A (handlePeerAnnounce a pa p)"
proof (cases "map_of (p_peers p) a")
  case None
  with assms show ?thesis by (simp add: handlePeerAnnounce_def)
next
  case (Some ps)
  have "\<exists>ps'. p_peers (handlePeerAnnounce a pa p) = AList.update a ps' (p_peers p)" "p_pending (handlePeerAnnounce a pa p) = p_pending p"
    by (auto simp: handlePeerAnnounce_def Some Let_def)
  then show ?thesis using front_ok_peers(1) [OF assms] by blast
qed

lemma OnRemoteHandshake_ok:
  assumes "front_ok A p"
  shows "front_ok A (OnRemoteHandshake now a supported ext p)"
proof -
  obtain b q where q: "is_banned now a p = (b, q)" by (cases "is_banned now a p")
  have q': "p_peers q = p_peers p" "p_pending q = p_pending p" using front_basic(8) [of now a p] q by (simp_all add: front_def)
  show ?thesis
  proof (cases b)
    case True
    then show ?thesis using front_ok_peers(3) [OF assms q'(2,1)] by (simp add: OnRemoteHandshake_def q)
  next
    case False
    have "\<exists>ps'. p_peers (OnRemoteHandshake now a supported ext p) = AList.update a ps' (p_peers q)"
      "p_pending (OnRemoteHandshake now a supported ext p) = p_pending q"
      by (auto simp: OnRemoteHandshake_def q False Let_def)
    then show ?thesis unfolding q' using front_ok_peers(1) [OF assms] by blast
  qed
qed

lemma OnPeerClosed_ok: "front_ok A p \<Longrightarrow> front_ok A (OnPeerClosed a p)"
proof -
  let ?q = "p\<lparr>p_peers := AList.delete a (p_peers p), p_limiter := limiter_forget (p_limiter p) a, p_ban := Forget (p_ban p) a\<rparr>"
  assume "front_ok A p"
  then have "front_ok A ?q" by (auto intro: front_ok_peers)
  moreover have "front (OnPeerClosed a p) = front ?q"
    unfolding OnPeerClosed_def releaseAllSyncSessions_def
    by (subst front_fold) (auto simp: front_def with_session_def)
  ultimately show ?thesis using front_ok_cong by blast
qed

lemma HandleMessage_ok: "front_ok A p \<Longrightarrow> front_ok A (HandleMessage W C now a payload reply p)"
proof -
  assume ok: "front_ok A p"
  obtain b q where q: "is_banned now a p = (b, q)" by (cases "is_banned now a p")
  have "front q = front p" using front_basic(8) [of now a p] q by simp
  then have ok: "front_ok A q" using ok front_ok_cong by blast
  have ok': "front_ok A q'" if "front q' = front q" for q' using ok that front_ok_cong by blast
  show ?thesis
    using ok by (auto simp: HandleMessage_def q Let_def routeResult_def routeReject_def ok'
        intro!: route_ok handlePeerAnnounce_ok split: sum.split)
qed

lemma supportedTargets_ok:
  assumes "proto_inv C A p" and "distinct (map fst (p_peers p))"
  shows "distinct (map tok_addr (supportedTargets p)) \<and> set (map tok_addr (supportedTargets p)) \<subseteq> A"
proof -
  let ?good = "filter (\<lambda>e. ps_Supported (snd e) \<and> valid (ps_token (snd e))) (p_peers p)"
  have g: "tok_addr (ps_token (snd e)) = fst e \<and> fst e \<in> A" if "e \<in> set ?good" for e
    using that assms(1) unfolding proto_inv_def tokens_ok_def by fastforce
  then have "map tok_addr (supportedTargets p) = map fst ?good" by (simp add: supportedTargets_def)
  then show ?thesis using g assms(2) by (auto simp: distinct_map_filter)
qed

lemma Query_ok:
  assumes "front_ok A p" and "proto_inv C A p"
  shows "front_ok A (snd (Query W req p))"
proof -
  define targets where "targets = supportedTargets p"
  define pq where "pq = \<lparr>pq_txid = p_txid p + 1, pq_asked = map tok_addr targets, pq_cap = length targets, pq_results = [], pq_responded = []\<rparr>"
  have "query_ok A (p_txid p + 1) pq"
    using supportedTargets_ok [OF assms(2)] assms(1) by (simp add: query_ok_def pq_def targets_def front_ok_def)
  then have ok: "front_ok A (registerPending pq (p\<lparr>p_txid := p_txid p + 1\<rparr>))"
    using assms(1) by (auto simp: front_ok_def registerPending_def pq_def)
  have "front_ok A (fold (\<lambda>tok. sendVia tok f) targets (registerPending pq (p\<lparr>p_txid := p_txid p + 1\<rparr>)))" for f
    using ok front_ok_cong [OF front_fold [of targets "\<lambda>tok. sendVia tok f"]] by simp
  then show ?thesis using ok assms(1)
    by (simp add: Query_def nextTxID_def Let_def pq_def [symmetric] targets_def [symmetric] split: option.split sum.split)
qed

lemma unregister_ok: "front_ok A p \<Longrightarrow> front_ok A (unregisterPending tx p)"
  by (auto simp: front_ok_def unregisterPending_def)

lemma config_step_front: "config_step p p' \<Longrightarrow> front p' = front p"
  by (erule config_stepE)
    (simp_all add: front_def SetSearcher_def SetTransport_def SetCapabilitySource_def SetPublisherPubkey_def SetIndexerSink_def
      SetEndorsementSink_def SetRateLimit_def SetRecordSource_def SetRecordSink_def SetPublisherObserver_def Close_def)

lemma proto_run_front: "proto_run W C A p \<Longrightarrow> front_ok A p"
proof (induction rule: proto_run.induct)
  case (start c)
  show ?case by (simp add: front_ok_def New_def)
next
  case (config A p p')
  then show ?case using front_ok_cong [OF config_step_front] by blast
next
  case (handshake A p supported ext a now)
  then show ?case by (auto intro!: OnRemoteHandshake_ok elim: front_ok_mono)
next
  case (query A p req)
  then show ?case by (intro Query_ok proto_run_inv)
qed (auto simp: front_ok_cong [OF front_handlers(3)] front_ok_cong [OF front_handlers(4)] front_ok_cong [OF front_handlers(5)]
    front_ok_cong [OF front_handlers(6)] front_ok_cong [OF front_handlers(7)]
    intro: NotePeerAdded_ok OnPeerClosed_ok HandleMessage_ok unregister_ok)



section \<open>Merging the answers\<close>

text \<open>
  The reference.  The hits are taken in order of arrival with the peer they came from; an infohash
  gets credit once per peer, for the first rank that peer gave it.
\<close>

definition arrivals :: "incomingResult list \<Rightarrow> (addr \<times> Hit) list" where
  "arrivals results =
     filter (\<lambda>(a, h). length (hit_IH h) = 20) (concat (map (\<lambda>r. map (Pair (in_fromAddr r)) (in_hits r)) results))"

definition key_of :: "addr \<times> Hit \<Rightarrow> string" where "key_of x = hex_EncodeToString (hit_IH (snd x))"

fun credits :: "addr set \<Rightarrow> (addr \<times> Hit) list \<Rightarrow> (addr \<times> int) list" where
  "credits seen [] = []"
| "credits seen ((a, h) # xs) =
     (if a \<in> seen then credits seen xs else (a, hit_Rank h) # credits (insert a seen) xs)"

definition first_such :: "('a \<Rightarrow> bool) \<Rightarrow> 'a \<Rightarrow> 'a list \<Rightarrow> 'a" where
  "first_such P d xs = (case filter P xs of [] \<Rightarrow> d | x # _ \<Rightarrow> x)"

definition merged :: "string \<Rightarrow> (addr \<times> Hit) list \<Rightarrow> MergedHit" where
  "merged ih xs =
     (let zs = filter (\<lambda>x. key_of x = ih) xs; hs = map snd zs
      in \<lparr>mh_InfoHash = ih, mh_Name = first_such (\<lambda>n. n \<noteq> []) [] (map hit_N hs),
          mh_Size = first_such (\<lambda>n. n \<noteq> 0) 0 (map hit_Sz hs), mh_Seeders = fold max (map hit_S hs) 0,
          mh_Score = min 1000 (sum_list (map snd (credits {} zs))), mh_Sources = map fst (credits {} zs),
          mh_Matches = concat (map hit_Matches hs)\<rparr>)"

definition merge_reference :: "incomingResult list \<Rightarrow> int \<Rightarrow> MergedHit list" where
  "merge_reference results limit =
     (let xs = arrivals results;
          out = sort_key merge_key (map (\<lambda>ih. merged ih xs) (first_appearance {} (map key_of xs)))
      in if limit > 0 then take (nat limit) out else out)"

lemma credits_fst: "set (map fst (credits S xs)) = set (map fst xs) - S"
  by (induction S xs rule: credits.induct) auto

lemma credits_snoc:
  "credits S (xs @ [(a, h)]) = credits S xs @ (if a \<in> S \<union> fst ` set xs then [] else [(a, hit_Rank h)])"
  by (induction S xs rule: credits.induct) auto

lemma credits_nonneg: "(\<forall>x \<in> set xs. 0 \<le> hit_Rank (snd x)) \<Longrightarrow> 0 \<le> sum_list (map snd (credits S xs))"
  by (induction S xs rule: credits.induct) auto

lemma first_such_snoc: "first_such P d (xs @ [x]) = (if filter P xs = [] then (if P x then x else d) else first_such P d xs)"
  by (simp add: first_such_def split: list.split)

lemma first_such_default: "\<not> P d \<Longrightarrow> first_such P d xs = d \<longleftrightarrow> filter P xs = []"
  by (auto simp: first_such_def filter_eq_Cons_iff split: list.split)

lemma wrap64_small: "- (2 ^ 63) \<le> x \<Longrightarrow> x < 2 ^ 63 \<Longrightarrow> wrap64 x = x"
  unfolding wrap64_def by (subst sint_sbintrunc') (simp add: signed_take_bit_int_eq_self)

text \<open>One step of the loop is one step of the reference.\<close>

lemma merged_other: "key_of x \<noteq> ih \<Longrightarrow> merged ih (xs @ [x]) = merged ih xs"
  by (simp add: merged_def)

lemma merged_none: "ih \<notin> set (map key_of xs) \<Longrightarrow> merged ih xs = newMergedHit ih"
proof -
  assume "ih \<notin> set (map key_of xs)"
  then have "filter (\<lambda>x. key_of x = ih) xs = []" by (auto simp: filter_empty_conv)
  then show ?thesis by (simp add: merged_def newMergedHit_def first_such_def)
qed

definition ranks_ok :: "(addr \<times> Hit) list \<Rightarrow> bool" where
  "ranks_ok xs \<longleftrightarrow> list_all (\<lambda>x. 0 \<le> hit_Rank (snd x) \<and> hit_Rank (snd x) < 2 ^ 63 - 1000) xs"

lemma score_step:
  assumes "0 \<le> s" and "0 \<le> r" and "r < 2 ^ 63 - 1000"
  shows "(if wrap64 (min 1000 s + r) > 1000 then 1000 else wrap64 (min 1000 s + r)) = min 1000 (s + r)"
  using assms wrap64_small [of "min 1000 s + r"] by auto

lemma absorb_hit_fields:
  "mh_InfoHash (absorb_hit a h fresh m) = mh_InfoHash m"
  "mh_Name (absorb_hit a h fresh m) = (if mh_Name m = [] then hit_N h else mh_Name m)"
  "mh_Size (absorb_hit a h fresh m) = (if mh_Size m = 0 then hit_Sz h else mh_Size m)"
  "mh_Seeders (absorb_hit a h fresh m) = max (hit_S h) (mh_Seeders m)"
  "mh_Score (absorb_hit a h fresh m) = (if fresh then (let sc = wrap64 (mh_Score m + hit_Rank h) in if sc > 1000 then 1000 else sc) else mh_Score m)"
  "mh_Sources (absorb_hit a h fresh m) = (if fresh then mh_Sources m @ [a] else mh_Sources m)"
  "mh_Matches (absorb_hit a h fresh m) = mh_Matches m @ hit_Matches h"
  "MergedHit.more (absorb_hit a h fresh m) = MergedHit.more m"
  by (auto simp: absorb_hit_def Let_def max_def)

lemma absorb_merged:
  assumes "ranks_ok (xs @ [(a, h)])"
  shows "absorb_hit a h (\<forall>x \<in> set xs. \<not> (fst x = a \<and> key_of x = key_of (a, h))) (merged (key_of (a, h)) xs) = merged (key_of (a, h)) (xs @ [(a, h)])"
proof -
  define zs where "zs = filter (\<lambda>x. key_of x = key_of (a, h)) xs"
  have "0 \<le> sum_list (map snd (credits {} zs))"
    using assms by (intro credits_nonneg) (auto simp: zs_def ranks_ok_def list_all_iff)
  note sc = score_step [OF this, of "hit_Rank h"]
  have fresh: "(\<forall>x \<in> set xs. \<not> (fst x = a \<and> key_of x = key_of (a, h))) \<longleftrightarrow> a \<notin> fst ` set zs" by (auto simp: zs_def)
  have m: "merged (key_of (a, h)) xs = \<lparr>mh_InfoHash = key_of (a, h), mh_Name = first_such (\<lambda>n. n \<noteq> []) [] (map hit_N (map snd zs)),
          mh_Size = first_such (\<lambda>n. n \<noteq> 0) 0 (map hit_Sz (map snd zs)), mh_Seeders = fold max (map hit_S (map snd zs)) 0,
          mh_Score = min 1000 (sum_list (map snd (credits {} zs))), mh_Sources = map fst (credits {} zs),
          mh_Matches = concat (map hit_Matches (map snd zs))\<rparr>" by (simp add: merged_def zs_def Let_def)
  have m': "merged (key_of (a, h)) (xs @ [(a, h)]) = \<lparr>mh_InfoHash = key_of (a, h), mh_Name = first_such (\<lambda>n. n \<noteq> []) [] (map hit_N (map snd zs) @ [hit_N h]),
          mh_Size = first_such (\<lambda>n. n \<noteq> 0) 0 (map hit_Sz (map snd zs) @ [hit_Sz h]), mh_Seeders = fold max (map hit_S (map snd zs) @ [hit_S h]) 0,
          mh_Score = min 1000 (sum_list (map snd (credits {} (zs @ [(a, h)])))), mh_Sources = map fst (credits {} (zs @ [(a, h)])),
          mh_Matches = concat (map hit_Matches (map snd zs) @ [hit_Matches h])\<rparr>" by (simp add: merged_def zs_def Let_def)
  have name: "first_such (\<lambda>n. n \<noteq> []) [] (ns @ [n]) = (if first_such (\<lambda>n. n \<noteq> []) [] ns = [] then n else first_such (\<lambda>n. n \<noteq> []) [] ns)"
    for ns :: "bytes list" and n by (simp add: first_such_snoc first_such_default)
  have sz: "first_such (\<lambda>n. n \<noteq> 0) 0 (ns @ [n]) = (if first_such (\<lambda>n. n \<noteq> 0) 0 ns = 0 then n else first_such (\<lambda>n. n \<noteq> 0) 0 ns)"
    for ns :: "int list" and n by (simp add: first_such_snoc first_such_default)
  have r: "0 \<le> hit_Rank h" "hit_Rank h < 2 ^ 63 - 1000" using assms by (simp_all add: ranks_ok_def)
  show ?thesis unfolding m m' fresh
    by (rule MergedHit.equality) (simp_all only: absorb_hit_fields MergedHit.simps name sz, simp_all add: Let_def credits_snoc sc [OF r])
qed

definition arrival_step :: "addr \<times> Hit \<Rightarrow> (string \<times> MergedHit) list \<times> (addr \<times> string) set \<Rightarrow>
    (string \<times> MergedHit) list \<times> (addr \<times> string) set" where
  "arrival_step x = merge_hit (fst x) (snd x)"

lemma merge_all_arrivals: "merge_all results = fold arrival_step (arrivals results) ([], {})"
proof -
  have one: "fold (merge_hit a) hs acc = fold arrival_step (filter (\<lambda>(a, h). length (hit_IH h) = 20) (map (Pair a) hs)) acc" for a hs acc
    by (induction hs arbitrary: acc) (auto simp: arrival_step_def merge_hit_def)
  have "fold (\<lambda>res. fold (merge_hit (in_fromAddr res)) (in_hits res)) results acc = fold arrival_step (arrivals results) acc" for acc
    unfolding one by (induction results arbitrary: acc) (simp_all add: arrivals_def)
  then show ?thesis by (simp add: merge_all_def)
qed

lemma merge_loop:
  assumes "ranks_ok xs" and "\<forall>x \<in> set xs. length (hit_IH (snd x)) = 20"
  shows "fst (fold arrival_step xs ([], {})) = map (\<lambda>ih. (ih, merged ih xs)) (first_appearance {} (map key_of xs)) \<and>
    snd (fold arrival_step xs ([], {})) = (\<lambda>x. (fst x, key_of x)) ` set xs"
  using assms
proof (induction xs rule: rev_induct)
  case Nil
  show ?case by simp
next
  case (snoc x xs)
  obtain a h where x: "x = (a, h)" by (cases x)
  let ?k = "key_of x" and ?fa = "first_appearance {} (map key_of xs)"
  obtain byIH seen where f: "fold arrival_step xs ([], {}) = (byIH, seen)" by (cases "fold arrival_step xs ([], {})")
  have "ranks_ok xs" using snoc.prems(1) by (simp add: ranks_ok_def)
  then have tab: "byIH = map (\<lambda>ih. (ih, merged ih xs)) ?fa" and seen: "seen = (\<lambda>x. (fst x, key_of x)) ` set xs"
    using snoc.IH snoc.prems(2) f by auto
  have dist: "distinct ?fa" by (rule first_appearance_distinct)
  have cur: "(case map_of byIH ?k of None \<Rightarrow> newMergedHit ?k | Some m \<Rightarrow> m) = merged ?k xs"
    using dist merged_none [of ?k xs] by (auto simp: tab map_of_map_restrict restrict_map_def first_appearance_set)
  have fresh: "(a, ?k) \<notin> seen \<longleftrightarrow> (\<forall>y \<in> set xs. \<not> (fst y = a \<and> key_of y = key_of (a, h)))" by (auto simp: seen x)
  have step: "fold arrival_step (xs @ [x]) ([], {}) =
      (AList.update ?k (absorb_hit a h ((a, ?k) \<notin> seen) (merged ?k xs)) byIH, insert (a, ?k) seen)"
  proof -
    have hx: "fst x = a" "snd x = h" "hex_EncodeToString (hit_IH h) = ?k" by (simp_all add: x key_of_def)
    then show ?thesis using snoc.prems(2) by (simp add: f arrival_step_def merge_hit_def Let_def cur)
  qed
  have "absorb_hit a h ((a, ?k) \<notin> seen) (merged ?k xs) = merged ?k (xs @ [x])"
    unfolding fresh using absorb_merged [of xs a h] snoc.prems(1) by (simp add: x)
  moreover have "AList.update ?k (merged ?k (xs @ [x])) byIH = map (\<lambda>ih. (ih, merged ih (xs @ [x]))) (first_appearance {} (map key_of (xs @ [x])))"
    unfolding tab using update_tabulated [OF dist, of ?k "\<lambda>ih. merged ih xs" "\<lambda>ih. merged ih (xs @ [x])"]
    by (simp add: first_appearance_snoc first_appearance_set merged_other)
  ultimately show ?case unfolding step by (simp add: seen) (simp add: x)
qed

text \<open>
  C17: merging.  When the ranks are not negative (and too small to wrap), the merge of the collected
  answers is the reference: one entry per infohash in order of first appearance, credited once per
  peer with that peer's first rank for it, the sum capped at 1000, with the first name and size
  given, the highest seeder count and all matches; sorted stably by score, then seeders, and cut at
  the limit.
\<close>

theorem merge_is_reference:
  assumes "ranks_ok (arrivals results)"
  shows "mergeResponses results limit = merge_reference results limit"
proof -
  have "\<forall>x \<in> set (arrivals results). length (hit_IH (snd x)) = 20" by (auto simp: arrivals_def)
  from merge_loop [OF assms this]
  have "map snd (fst (merge_all results)) = map (\<lambda>ih. merged ih (arrivals results)) (first_appearance {} (map key_of (arrivals results)))"
    by (simp add: merge_all_arrivals)
  then show ?thesis by (auto simp: mergeResponses_def merge_reference_def Let_def)
qed

definition two_answers :: "incomingResult list" where
  "two_answers =
     (let h = (\<lambda>r. \<lparr>hit_IH = replicate 20 1, hit_IH2 = [], hit_N = [], hit_S = 0, hit_L = 0, hit_Sz = 0, hit_T = 0, hit_Rank = r, hit_Matches = []\<rparr>)
      in [\<lparr>in_fromAddr = ''a'', in_reject = False, in_code = 0, in_total = 2, in_hits = [h 300, h 500]\<rparr>,
          \<lparr>in_fromAddr = ''b'', in_reject = False, in_code = 0, in_total = 1, in_hits = [h 200]\<rparr>])"

theorem merge_is_reference_witness:
  "ranks_ok (arrivals two_answers) \<and> mergeResponses two_answers 5 = merge_reference two_answers 5 \<and>
   map mh_Score (mergeResponses two_answers 5) = [500]"
proof -
  have r: "ranks_ok (arrivals two_answers)" by code_simp
  have "map mh_Score (merge_reference two_answers 5) = [500]" by code_simp
  with merge_is_reference [OF r, of 5] r show ?thesis by simp
qed

section \<open>What an answer discloses\<close>

definition servable :: "LocalHit \<Rightarrow> bool" where
  "servable h \<longleftrightarrow> (case hex_DecodeString (lh_InfoHash h) of Some ih \<Rightarrow> length ih = 20 | None \<Rightarrow> False)"

definition is_content :: "LocalHit \<Rightarrow> bool" where "is_content h \<longleftrightarrow> lh_DocType h = ''content''"

definition file_match :: "Sharing \<Rightarrow> LocalHit \<Rightarrow> FileMatch" where
  "file_match cs h = \<lparr>FI = lh_FileIndex h, FP = (if FileHits cs then lh_FilePath h else []), Off = 0, Pr = [], Sn = []\<rparr>"

definition wire_hit :: "Sharing \<Rightarrow> LocalHit list \<Rightarrow> string \<Rightarrow> Hit" where
  "wire_hit cs hs k =
     (let zs = filter (\<lambda>h. lh_InfoHash h = k) hs
      in (new_hit (hd zs) (the (hex_DecodeString k)))
           \<lparr>hit_Matches := (if ContentHits cs then map (file_match cs) (filter is_content zs) else [])\<rparr>)"

definition wire_reference :: "LocalHit list \<Rightarrow> Sharing \<Rightarrow> Hit list" where
  "wire_reference hits cs =
     (let hs = filter servable hits
      in map (wire_hit cs hs)
           (filter (\<lambda>k. ContentHits cs \<or> k \<in> lh_InfoHash ` set (filter (\<lambda>h. \<not> is_content h) hs))
             (first_appearance {} (map lh_InfoHash hs))))"

lemma servable_filter: "fold (add_hit cs) hits acc = fold (add_hit cs) (filter servable hits) acc"
proof (induction hits arbitrary: acc)
  case (Cons h hits)
  have "add_hit cs h acc = acc" if "\<not> servable h"
    using that by (cases acc) (auto simp: add_hit_def servable_def split: option.splits)
  with Cons show ?case by simp
qed simp

text \<open>What one hit does to the entry of its infohash.\<close>

definition with_match :: "Sharing \<Rightarrow> LocalHit \<Rightarrow> Hit \<Rightarrow> Hit" where
  "with_match cs h w = (if is_content h \<and> ContentHits cs then w\<lparr>hit_Matches := hit_Matches w @ [file_match cs h]\<rparr> else w)"

lemma add_hit_step:
  assumes "servable h"
  shows "add_hit cs h (byIH, hasName) =
    (AList.update (lh_InfoHash h)
       (with_match cs h (case map_of byIH (lh_InfoHash h) of None \<Rightarrow> new_hit h (the (hex_DecodeString (lh_InfoHash h))) | Some w \<Rightarrow> w)) byIH,
     if is_content h then hasName else insert (lh_InfoHash h) hasName)"
  using assms
  by (auto simp: add_hit_def servable_def with_match_def is_content_def file_match_def Let_def split: option.splits)

lemma wire_hit_snoc:
  assumes "lh_InfoHash h = k"
  shows "wire_hit cs (hs @ [h]) k =
    with_match cs h (if k \<in> lh_InfoHash ` set hs then wire_hit cs hs k else new_hit h (the (hex_DecodeString k)))"
proof -
  define zs where "zs = filter (\<lambda>h. lh_InfoHash h = k) hs"
  have "k \<in> lh_InfoHash ` set hs \<longleftrightarrow> zs \<noteq> []" by (auto simp: zs_def filter_empty_conv)
  moreover have "filter (\<lambda>h. lh_InfoHash h = k) (hs @ [h]) = zs @ [h]" using assms by (simp add: zs_def)
  ultimately show ?thesis
    unfolding wire_hit_def zs_def [symmetric] by (auto simp: Let_def with_match_def hd_append new_hit_def)
qed

lemma wire_hit_other: "lh_InfoHash h \<noteq> k \<Longrightarrow> wire_hit cs (hs @ [h]) k = wire_hit cs hs k"
  by (simp add: wire_hit_def)

lemma hits_loop:
  assumes "\<forall>h \<in> set hs. servable h"
  shows "fold (add_hit cs) hs ([], {}) =
    (map (\<lambda>k. (k, wire_hit cs hs k)) (first_appearance {} (map lh_InfoHash hs)), lh_InfoHash ` set (filter (\<lambda>h. \<not> is_content h) hs))"
  using assms
proof (induction hs rule: rev_induct)
  case (snoc h hs)
  let ?k = "lh_InfoHash h" and ?ks = "first_appearance {} (map lh_InfoHash hs)"
  let ?tab = "map (\<lambda>k. (k, wire_hit cs hs k)) ?ks"
  have cur: "with_match cs h (case map_of ?tab ?k of None \<Rightarrow> new_hit h (the (hex_DecodeString ?k)) | Some w \<Rightarrow> w) = wire_hit cs (hs @ [h]) ?k"
    by (simp add: wire_hit_snoc map_of_map_restrict restrict_map_def first_appearance_set)
  have "AList.update ?k (wire_hit cs (hs @ [h]) ?k) ?tab = map (\<lambda>k. (k, wire_hit cs (hs @ [h]) k)) (first_appearance {} (map lh_InfoHash (hs @ [h])))"
    using update_tabulated [OF first_appearance_distinct, of "{}" "map lh_InfoHash hs" ?k "wire_hit cs hs" "wire_hit cs (hs @ [h])"]
    by (simp add: first_appearance_snoc first_appearance_set wire_hit_other)
  then show ?case using snoc by (simp add: add_hit_step cur)
qed simp


definition name_and_content :: "LocalHit list" where
  "name_and_content =
     (let h = (\<lambda>d s. \<lparr>lh_DocType = d, lh_InfoHash = replicate 40 (CHR ''a''), lh_Name = [], lh_SizeBytes = 0, lh_AddedAt = None,
                 lh_Seeders = 0, lh_Leechers = 0, lh_FileIndex = 1, lh_FilePath = [7], lh_Score = s\<rparr>)
      in [h ''content'' (9 / 10), h ''torrent'' (1 / 10)])"

definition names_only :: Sharing where "names_only = \<lparr>ShareLocal = 2, FileHits = False, ContentHits = False\<rparr>"


text \<open>
  A limit of that policy.  With \<open>ContentHits\<close> off, the rank disclosed for a torrent can still be
  the score of a withheld content hit: it differs from the rank the node would give without it.
\<close>

lemma content_rank_disclosed:
  "map hit_Rank (hitsToWire name_and_content names_only) = [900] \<and>
   map hit_Rank (hitsToWire (filter (\<lambda>h. \<not> is_content h) name_and_content) names_only) = [100]"
  by code_simp

end
