(* ===== verification/Sync_Transfer.thy ===== *)
theory Sync_Transfer
  imports Swarm_Answers
begin

text \<open>
  The transfer of records at the end of a reconciliation: the sender splits what was asked for into
  frames (\<open>sendRecordsChunked\<close>), the receiver verifies and stores what the frames carry
  (\<open>ingestSyncRecords\<close>).  The sender is stated over a locale, since the code passes it a closure: one
  that replies on the peer's connection or one that goes through the transport.
\<close>

section \<open>Frames on the wire\<close>

lemma records_roundtrip:
  assumes "wire_ok W" and "EncodeSyncRecords W m = Inr b"
  shows "DecodeSyncRecords W b = Inr (m\<lparr>sc_MsgType := MsgTypeSyncRecords\<rparr>)"
proof -
  let ?m = "m\<lparr>sc_MsgType := MsgTypeSyncRecords\<rparr>"
  have b: "bmarshal W (FRecords ?m) = Some b" and ok: "list_all validSyncRecord (sc_Records m)" "\<not> length (sc_Records m) > MaxRecordsPerMessage"
    using assms(2) by (auto simp: EncodeSyncRecords_def Marshal_def split: if_splits option.splits)
  have "decodeBounded (u_records W) b = Some ?m" using assms(1) b by (fastforce simp: wire_ok_def)
  then show ?thesis using ok by (simp add: DecodeSyncRecords_def)
qed

text \<open>The encoder accepts the frames that carry a piece of these records.\<close>

definition marshals :: "wire \<Rightarrow> u32 \<Rightarrow> Record list \<Rightarrow> bytes list \<Rightarrow> bool" where
  "marshals W tx found missing \<longleftrightarrow>
     (\<forall>recs miss. sublist recs found \<and> miss \<in> {[], missing} \<longrightarrow>
        bmarshal W (FRecords \<lparr>sc_MsgType = MsgTypeSyncRecords, sc_TxID = tx, sc_Records = map toWireRecord recs, sc_Missing = miss\<rparr>) \<noteq> None)"

lemma records_encode:
  assumes "marshals W tx found missing" and "list_all (\<lambda>r. validSyncRecord (toWireRecord r)) found"
    and "sublist recs found" and "length recs \<le> MaxRecordsPerMessage" and "miss \<in> {[], missing}"
  shows "\<exists>b. EncodeSyncRecords W \<lparr>sc_MsgType = 0, sc_TxID = tx, sc_Records = map toWireRecord recs, sc_Missing = miss\<rparr> = Inr b"
proof -
  obtain b where "bmarshal W (FRecords \<lparr>sc_MsgType = MsgTypeSyncRecords, sc_TxID = tx, sc_Records = map toWireRecord recs, sc_Missing = miss\<rparr>) = Some b"
    using assms(1,3,5) unfolding marshals_def by blast
  moreover have "list_all validSyncRecord (map toWireRecord recs)"
    using assms(2) set_mono_sublist [OF assms(3)] by (auto simp: list_all_iff)
  ultimately show ?thesis using assms(4) by (simp add: EncodeSyncRecords_def Marshal_def)
qed

lemma records_build:
  assumes "length recs \<le> MaxRecordsPerMessage"
  shows "\<exists>s'. BuildRecordsFrame s recs missing =
      (Inr \<lparr>sc_MsgType = 0, sc_TxID = txid s, sc_Records = map toWireRecord recs, sc_Missing = missing\<rparr>, s') \<and> txid s' = txid s"
  using assms by (simp add: BuildRecordsFrame_def)

text \<open>What the frames of a transfer must look like to carry these records and missing ids.\<close>

definition carries :: "u32 \<Rightarrow> SyncRecords list \<Rightarrow> Record list \<Rightarrow> bytes list \<Rightarrow> bool" where
  "carries tx fs found missing \<longleftrightarrow>
     fs \<noteq> [] \<and> concat (map sc_Records fs) = map toWireRecord found \<and>
     list_all (\<lambda>f. length (sc_Records f) \<le> MaxRecordsPerMessage \<and> sc_TxID f = tx \<and> sc_MsgType f = MsgTypeSyncRecords) fs \<and>
     sc_Missing (last fs) = missing \<and> list_all (\<lambda>f. sc_Missing f = []) (butlast fs)"

lemma carries_Cons:
  assumes "carries tx fs (drop n found) missing"
    and "f = \<lparr>sc_MsgType = MsgTypeSyncRecords, sc_TxID = tx, sc_Records = map toWireRecord (take n found), sc_Missing = []\<rparr>"
    and "n \<le> MaxRecordsPerMessage"
  shows "carries tx (f # fs) found missing"
proof -
  have "map toWireRecord (take n found) @ map toWireRecord (drop n found) = map toWireRecord found"
    by (simp flip: map_append)
  then show ?thesis using assms by (auto simp: carries_def)
qed

section \<open>Senders\<close>

locale sender =
  fixes send :: "bytes \<Rightarrow> Protocol \<Rightarrow> Protocol" and log :: "Protocol \<Rightarrow> 'e list" and entry :: "bytes \<Rightarrow> 'e" and ready :: "Protocol \<Rightarrow> bool"
  assumes log_send: "ready p \<Longrightarrow> log (send w p) = log p @ [entry w]"
    and ready_send: "ready p \<Longrightarrow> ready (send w p)"
    and store_send: "p_store (send w p) = p_store p"
    and log_session: "log (with_session i f p) = log p"
    and ready_session: "ready p \<Longrightarrow> ready (with_session i f p)"
begin

lemma chunk_step:
  fixes W i found missing start p
  defines "stop \<equiv> (if start + MaxRecordsPerMessage > length found then length found else start + MaxRecordsPerMessage)"
  defines "miss \<equiv> (if stop \<ge> length found then missing else [])"
  defines "f \<equiv> \<lparr>sc_MsgType = 0, sc_TxID = txid (p_store p ! i), sc_Records = map toWireRecord (take (stop - start) (drop start found)), sc_Missing = miss\<rparr>"
  assumes "marshals W (txid (p_store p ! i)) found missing" and "list_all (\<lambda>r. validSyncRecord (toWireRecord r)) found" and "i < length (p_store p)" and "ready p"
    and start: "start = 0 \<or> start < length found"
  obtains w q where "EncodeSyncRecords W f = Inr w" and "log q = log p @ [entry w]" and "ready q" and "length (p_store q) = length (p_store p)"
    and "txid (p_store q ! i) = txid (p_store p ! i)"
    and "send_chunks W send i found missing start p = (if found = [] then q else send_chunks W send i found missing (start + MaxRecordsPerMessage) q)"
proof -
  have len: "length (take (stop - start) (drop start found)) \<le> MaxRecordsPerMessage" by (auto simp: stop_def)
  have sub: "sublist (take (stop - start) (drop start found)) found"
    using sublist_order.order_trans [OF sublist_take sublist_drop] .
  have "miss \<in> {[], missing}" by (simp add: miss_def)
  from records_encode [OF assms(4,5) sub len this] obtain w where w: "EncodeSyncRecords W f = Inr w" by (auto simp: f_def)
  obtain s where b: "BuildRecordsFrame (p_store p ! i) (take (stop - start) (drop start found)) miss = (Inr f, s)" and tx: "txid s = txid (p_store p ! i)"
    using records_build [OF len, of "p_store p ! i" miss] unfolding f_def by blast
  let ?q = "send w (with_session i (\<lambda>_. s) p)"
  have r: "ready (with_session i (\<lambda>_. s) p)" by (intro ready_session assms)
  have "send_chunks W send i found missing start p = (if found = [] then ?q else send_chunks W send i found missing (start + MaxRecordsPerMessage) ?q)"
    using start unfolding send_chunks.simps [of W send i found missing start p] Let_def stop_def [symmetric] miss_def [symmetric]
    by (simp add: b w)
  then show ?thesis
    using that [OF w, of ?q] r log_send [OF r] ready_send [OF r] tx assms(6) by (simp add: store_send log_session with_session_nth)
qed

text \<open>The loop sends every record, in frames within the limit, and the missing ids in the last one.\<close>

lemma chunks_complete:
  assumes "wire_ok W" and "list_all (\<lambda>r. validSyncRecord (toWireRecord r)) found"
    and "marshals W (txid (p_store p ! i)) found missing" and "i < length (p_store p)" and "ready p" and "start = 0 \<or> start < length found"
  shows "\<exists>ws fs. log (send_chunks W send i found missing start p) = log p @ map entry ws \<and>
    map (DecodeSyncRecords W) ws = map Inr fs \<and> carries (txid (p_store p ! i)) fs (drop start found) missing"
  using assms(3-)
proof (induction "length found - start" arbitrary: start p rule: less_induct)
  case less
  let ?n = "length found" and ?tx = "txid (p_store p ! i)"
  obtain w q where w: "EncodeSyncRecords W \<lparr>sc_MsgType = 0, sc_TxID = ?tx,
        sc_Records = map toWireRecord (take ((if start + MaxRecordsPerMessage > ?n then ?n else start + MaxRecordsPerMessage) - start) (drop start found)),
        sc_Missing = (if (if start + MaxRecordsPerMessage > ?n then ?n else start + MaxRecordsPerMessage) \<ge> ?n then missing else [])\<rparr> = Inr w"
    and q: "log q = log p @ [entry w]" "ready q" "length (p_store q) = length (p_store p)" "txid (p_store q ! i) = ?tx"
    and eq: "send_chunks W send i found missing start p = (if found = [] then q else send_chunks W send i found missing (start + MaxRecordsPerMessage) q)"
    using chunk_step [OF less.prems(1) assms(2) less.prems(2-)] by metis
  note dec = records_roundtrip [OF assms(1) w]
  show ?case
  proof (cases "start + MaxRecordsPerMessage < ?n")
    case True
    have m: "?n - (start + MaxRecordsPerMessage) < ?n - start" using True by (simp add: MaxRecordsPerMessage_def)
    obtain ws fs where IH: "log (send_chunks W send i found missing (start + MaxRecordsPerMessage) q) = log q @ map entry ws"
      "map (DecodeSyncRecords W) ws = map Inr fs" "carries ?tx fs (drop (start + MaxRecordsPerMessage) found) missing"
      using less.hyps [OF m, of q] less.prems(1,2) q True by auto
    define f where "f = \<lparr>sc_MsgType = MsgTypeSyncRecords, sc_TxID = ?tx, sc_Records = map toWireRecord (take MaxRecordsPerMessage (drop start found)), sc_Missing = []\<rparr>"
    have "drop (start + MaxRecordsPerMessage) found = drop MaxRecordsPerMessage (drop start found)" by (simp add: add.commute)
    then have "carries ?tx (f # fs) (drop start found) missing" using IH(3) by (intro carries_Cons [OF _ f_def]) auto
    moreover have "DecodeSyncRecords W w = Inr f" using dec True by (simp add: f_def MaxRecordsPerMessage_def)
    ultimately show ?thesis
      using IH(1,2) True q(1) eq by (intro exI [of _ "w # ws"] exI [of _ "f # fs"]) auto
  next
    case False
    have "send_chunks W send i found missing (start + MaxRecordsPerMessage) q = q"
      using False unfolding send_chunks.simps [of W send i found missing "start + MaxRecordsPerMessage"]
      by (simp add: MaxRecordsPerMessage_def)
    moreover define f where "f = \<lparr>sc_MsgType = MsgTypeSyncRecords, sc_TxID = ?tx, sc_Records = map toWireRecord (drop start found), sc_Missing = missing\<rparr>"
    moreover have "carries ?tx [f] (drop start found) missing" using False by (simp add: carries_def f_def)
    moreover have "DecodeSyncRecords W w = Inr f" using dec False by (simp add: f_def)
    ultimately show ?thesis
      using q(1) eq by (intro exI [of _ "[w]"] exI [of _ "[f]"]) auto
  qed
qed

end

interpretation by_transport: sender "sendVia tok" p_sent "Pair tok" "\<lambda>p. p_transport p \<noteq> None"
  by unfold_locales (auto simp: sendVia_def with_session_def split: option.split)

interpretation by_reply: sender "reply_frame True a" p_replies "Pair a" "\<lambda>_. True"
  by unfold_locales (auto simp: reply_frame_def with_session_def)

section \<open>Receiving\<close>

definition verified :: "crypto \<Rightarrow> Record \<Rightarrow> bool" where "verified C r \<longleftrightarrow> Verify C r = None"

definition penalties :: "int \<Rightarrow> addr \<Rightarrow> nat \<Rightarrow> banman \<Rightarrow> banman" where
  "penalties now a n b = ((\<lambda>b. snd (ban_Add now b a ScoreBadRecordSig)) ^^ n) b"

lemma penalties_Suc: "penalties now a (Suc n) b = penalties now a n (snd (ban_Add now b a ScoreBadRecordSig))"
  by (simp add: penalties_def funpow_Suc_right del: funpow.simps)

lemma ingest_fold:
  "snd (fold (ingest_one C now a) recs (seen, p)) =
     p\<lparr>p_cache := (if p_sink p then cache_sink.absorb C (verified C) recs (p_cache p) else p_cache p),
       p_ban := penalties now a (length (filter (\<lambda>r. \<not> verified C r) recs)) (p_ban p),
       p_observed := p_observed p @ (if p_observer p then first_appearance seen (map Pk (filter (verified C) recs)) else [])\<rparr>"
proof (induction recs arbitrary: seen p)
  case Nil
  show ?case by (simp add: cache_sink.absorb_def penalties_def)
next
  case (Cons r recs)
  let ?new = "if p_observer p \<and> Pk r \<notin> seen then [Pk r] else []"
  have good: "ingest_one C now a r (seen, p) =
      (if p_observer p then insert (Pk r) seen else seen,
       p\<lparr>p_cache := (if p_sink p then cache_Add C (p_cache p) r else p_cache p), p_observed := p_observed p @ ?new\<rparr>)" if "verified C r"
    using that by (auto simp: ingest_one_def verified_def Let_def insert_absorb)
  have bad: "ingest_one C now a r (seen, p) = (seen, p\<lparr>p_ban := snd (ban_Add now (p_ban p) a ScoreBadRecordSig)\<rparr>)" if "\<not> verified C r"
    using that by (auto simp: ingest_one_def verified_def charge_def)
  show ?case
  proof (cases "verified C r")
    case True
    then show ?thesis by (auto simp: good Cons cache_sink.absorb_def insert_absorb)
  next
    case False
    then show ?thesis by (simp add: bad Cons cache_sink.absorb_def penalties_Suc)
  qed
qed

lemma ingest_cache:
  "p_sink p \<Longrightarrow> p_cache (ingestSyncRecords C now a recs p) = cache_sink.absorb C (verified C) recs (p_cache p)"
  "p_sink (ingestSyncRecords C now a recs p) = p_sink p"
  by (simp_all add: ingestSyncRecords_def ingest_fold)

lemma absorb_append: "cache_sink.absorb C ok (xs @ ys) c = cache_sink.absorb C ok ys (cache_sink.absorb C ok xs c)"
  by (simp add: cache_sink.absorb_def)

text \<open>
  Receiving records.  Processing a batch does three things and no more: the cache absorbs, in
  order, the records whose signature verifies (when a sink is set), the peer is charged once for each
  that does not, and the observer (when set) is told of each publisher of a verified record once, in
  order of first appearance.
\<close>

lemma ingest_refines_sink:
  "ingestSyncRecords C now a recs p =
     p\<lparr>p_cache := (if p_sink p then record_sink.absorb (cache_Add C) (verified C) recs (p_cache p) else p_cache p),
       p_ban := penalties now a (length (filter (\<lambda>r. \<not> verified C r) recs)) (p_ban p),
       p_observed := p_observed p @ (if p_observer p then first_appearance {} (map Pk (filter (verified C) recs)) else [])\<rparr>"
  by (simp add: ingestSyncRecords_def ingest_fold)

section \<open>From one node's cache to the other's\<close>

definition shaped :: "Record \<Rightarrow> bool" where
  "shaped r \<longleftrightarrow> length (Pk r) = 32 \<and> length (Ih r) = 20 \<and> length (Sig r) = 64 \<and> 1 \<le> length (Kw r) \<and> length (Kw r) \<le> 64"

lemma shaped_wire: "shaped r \<Longrightarrow> validSyncRecord (toWireRecord r) \<and> fromWireRecord (toWireRecord r) = r"
  by (simp add: shaped_def validSyncRecord_def toWireRecord_def fromWireRecord_def copy_array_def)

definition receive_all :: "crypto \<Rightarrow> int \<Rightarrow> addr \<Rightarrow> SyncRecords list \<Rightarrow> Protocol \<Rightarrow> Protocol" where
  "receive_all C now a fs = fold (\<lambda>f. ingestSyncRecords C now a (map fromWireRecord (sc_Records f))) fs"

lemma receive_all_cache:
  "p_sink q \<Longrightarrow> p_cache (receive_all C now a fs q) =
     cache_sink.absorb C (verified C) (map fromWireRecord (concat (map sc_Records fs))) (p_cache q)"
proof (induction fs arbitrary: q)
  case (Cons f fs)
  then show ?case by (simp add: receive_all_def ingest_cache absorb_append)
qed (simp add: receive_all_def cache_sink.absorb_def)


definition pair_frame :: "Record list \<Rightarrow> SyncRecords" where
  "pair_frame recs = \<lparr>sc_MsgType = MsgTypeSyncRecords, sc_TxID = 1, sc_Records = map toWireRecord recs, sc_Missing = []\<rparr>"

definition pair_wire :: wire where
  "pair_wire =
     \<lparr>bmarshal = (\<lambda>f. if f = FRecords (pair_frame []) then Some [0] else if f = FRecords (pair_frame [lab_record 5]) then Some [1] else None),
      u_header = (\<lambda>_ _. Some \<lparr>p_MsgType = MsgTypeSyncRecords, p_TxID = 1\<rparr>),
      u_query = (\<lambda>_ _. None), u_result = (\<lambda>_ _. None), u_reject = (\<lambda>_ _. None), u_announce = (\<lambda>_ _. None), u_begin = (\<lambda>_ _. None),
      u_symbols = (\<lambda>_ _. None),
      u_need = (\<lambda>_ _. Some \<lparr>sn_MsgType = MsgTypeSyncNeed, sn_TxID = 1, sn_IDs = [ElementID toy_crypto (lab_record 5)]\<rparr>),
      u_records = (\<lambda>_ b. Some (pair_frame (if b = [0] then [] else [lab_record 5]))), u_end = (\<lambda>_ _. None)\<rparr>"

lemma pair_wire_ok: "wire_ok pair_wire"
  by (auto simp: wire_ok_def pair_wire_def decodeBounded_def pair_frame_def)

lemma pair_wire_marshals: "marshals pair_wire 1 [lab_record 5] []"
  by (auto simp: marshals_def pair_wire_def pair_frame_def sublist_Cons_right prefix_Cons)

definition pair_node :: Protocol where
  "pair_node = New\<lparr>p_store := [NewSyncSession toy_crypto 0 1 RoleResponder [lab_record 5]], p_syncSessions := [(''a'', [(1, 0)])]\<rparr>"

lemma pair_node_records: "records (p_store pair_node ! 0) = [ElementID toy_crypto (lab_record 5) \<mapsto> lab_record 5]"
  by (simp add: pair_node_def NewSyncSession_def load_record_def Let_def)


end
