(* ===== verification/Atomic_File.thy ===== *)
theory Atomic_File
  imports Prelude
begin

text \<open>
  How the program persists a table: it writes a document to a fresh temporary file beside the target
  and renames it (\<open>Tracker.Save\<close> of \<^verbatim>\<open>internal/reputation/reputation.go\<close>, \<open>BloomFilter.Save\<close> of
  \<^verbatim>\<open>bloom.go\<close>, \<open>Store.save\<close> of \<^verbatim>\<open>internal/trust/trust.go\<close>).  A file holds a whole document or
  something that does not parse; a save goes through the states of the file system listed here, and a
  crash may happen in any of them.
\<close>

datatype 'd disk_file = Absent | Unreadable | Malformed | Doc 'd

type_synonym 'd fs = "string \<Rightarrow> 'd disk_file"

datatype fault = FailCreate | FailWrite | FailClose | FailRename

definition save_states :: "fault option \<Rightarrow> string \<Rightarrow> string \<Rightarrow> 'd \<Rightarrow> 'd fs \<Rightarrow> 'd fs list" where
  "save_states flt tmp path body fs =
     (let created = fs(tmp := Malformed); written = fs(tmp := Doc body); removed = fs(tmp := Absent)
      in case flt of
           Some FailCreate \<Rightarrow> [fs]
         | Some FailWrite \<Rightarrow> [fs, created, removed]
         | Some FailClose \<Rightarrow> [fs, created, written, removed]
         | Some FailRename \<Rightarrow> [fs, created, written, removed]
         | None \<Rightarrow> [fs, created, written, fs(path := Doc body, tmp := Absent)])"

text \<open>A save that reports failure, as the code's error return does.\<close>

definition save_failed :: "fault option \<Rightarrow> bool" where "save_failed flt \<longleftrightarrow> flt \<noteq> None"

text \<open>The whole save; an empty path makes it a no-op.\<close>

definition save_file :: "fault option \<Rightarrow> string \<Rightarrow> string \<Rightarrow> 'd \<Rightarrow> 'd fs \<Rightarrow> bool \<times> 'd fs" where
  "save_file flt tmp path body fs =
     (if path = [] then (True, fs) else (\<not> save_failed flt, last (save_states flt tmp path body fs)))"

lemma save_states_atomic:
  assumes "fs tmp = Absent" and "tmp \<noteq> path" and "g \<in> set (save_states flt tmp path body fs)"
  shows "g path = fs path \<or> g path = Doc body"
  using assms by (auto simp: save_states_def Let_def split: option.splits fault.splits)

lemma save_states_others:
  assumes "q \<noteq> tmp" and "q \<noteq> path" and "g \<in> set (save_states flt tmp path body fs)"
  shows "g q = fs q"
  using assms by (auto simp: save_states_def Let_def split: option.splits fault.splits)

lemma save_file_result:
  assumes "fs tmp = Absent" and "tmp \<noteq> path"
  shows "save_file flt tmp path body fs =
    (if path = [] then (True, fs) else if flt = None then (True, fs(path := Doc body)) else (False, fs))"
  using assms by (auto simp: save_file_def save_failed_def save_states_def Let_def fun_upd_idem fun_eq_iff split: option.splits fault.splits)

text \<open>
  Other files are saved through a temporary file of a fixed name: a failed write leaves what was written
  of it, a failed rename removes it.
\<close>

datatype write_fault = WriteFails | RenameFails

definition save_fixed :: "write_fault option \<Rightarrow> string \<Rightarrow> 'd \<Rightarrow> 'd fs \<Rightarrow> bool \<times> 'd fs" where
  "save_fixed flt path body fs =
     (case flt of
        Some WriteFails \<Rightarrow> (False, fs(path @ ''.tmp'' := Malformed))
      | Some RenameFails \<Rightarrow> (False, fs(path @ ''.tmp'' := Absent))
      | None \<Rightarrow> (True, fs(path := Doc body, path @ ''.tmp'' := Absent)))"

lemma save_fixed_path: "snd (save_fixed flt path body fs) path = (if flt = None then Doc body else fs path)"
  by (auto simp: save_fixed_def split: option.split write_fault.split)

end
