(* ===== verification/Reputation.thy ===== *)
theory Reputation
  imports Hex Atomic_File Complex_Main "HOL-Library.AList" "HOL-Library.Product_Lexorder" "HOL-Library.Char_ord"
begin

text \<open>
  The reputation table of \<^verbatim>\<open>internal/reputation/reputation.go\<close>: counters per indexer key and the score
  derived from them.  Scores are real numbers and counters unbounded integers; times are nanoseconds,
  \<open>None\<close> the zero time.  The table is an association list, whose order stands for the iteration order
  of the Go map.  The file holds the table as a document.
\<close>

type_synonym PubKeyHex = string

definition PubKey :: "bytes \<Rightarrow> PubKeyHex" where "PubKey pk = hex_EncodeToString pk"

record Counters =
  HitsReturned :: int
  HitsConfirmed :: int
  HitsFlagged :: int
  FirstSeen :: int
  LastUpdated :: int
  SeededAt :: "int option"
  SeedLabel :: string

definition defaultUnknownScore :: real where "defaultUnknownScore = 1 / 2"
definition smoothingPriorWeight :: real where "smoothingPriorWeight = 5"
definition SeedBonus :: real where "SeedBonus = 45 / 100"
definition SeedHalfLife :: int where "SeedHalfLife = 90 * 24 * 3600 * 10 ^ 9"

record Tracker =
  t_path :: string
  Records :: "(PubKeyHex \<times> Counters) list"

definition NewTracker :: Tracker where "NewTracker = \<lparr>t_path = [], Records = []\<rparr>"

section \<open>Files\<close>

datatype tracker_error = ErrEmptyPath | ErrMkdir | ErrReadTracker | ErrParseTracker

definition LoadOrCreateTracker :: "string \<Rightarrow> bool \<Rightarrow> (PubKeyHex \<times> Counters) list fs \<Rightarrow> tracker_error + Tracker" where
  "LoadOrCreateTracker path mkdir_ok fs =
     (if path = [] then Inl ErrEmptyPath
      else if \<not> mkdir_ok then Inl ErrMkdir
      else case fs path of
             Absent \<Rightarrow> Inr \<lparr>t_path = path, Records = []\<rparr>
           | Unreadable \<Rightarrow> Inl ErrReadTracker
           | Malformed \<Rightarrow> Inl ErrParseTracker
           | Doc rs \<Rightarrow> Inr \<lparr>t_path = path, Records = rs\<rparr>)"

definition tracker_Save :: "fault option \<Rightarrow> string \<Rightarrow> Tracker \<Rightarrow> (PubKeyHex \<times> Counters) list fs \<Rightarrow> bool \<times> (PubKeyHex \<times> Counters) list fs" where
  "tracker_Save flt tmp t fs = save_file flt tmp (t_path t) (Records t) fs"

section \<open>Counters\<close>

definition touch :: "int \<Rightarrow> Tracker \<Rightarrow> PubKeyHex \<Rightarrow> Counters" where
  "touch now t pk =
     (case map_of (Records t) pk of
        Some r \<Rightarrow> r
      | None \<Rightarrow> \<lparr>HitsReturned = 0, HitsConfirmed = 0, HitsFlagged = 0, FirstSeen = now, LastUpdated = now, SeededAt = None, SeedLabel = []\<rparr>)"

text \<open>A mutation through the pointer that \<open>touch\<close> returns.\<close>

definition put_record :: "PubKeyHex \<Rightarrow> Counters \<Rightarrow> Tracker \<Rightarrow> Tracker" where
  "put_record pk r t = t\<lparr>Records := AList.update pk r (Records t)\<rparr>"

definition RecordReturned :: "int \<Rightarrow> PubKeyHex \<Rightarrow> int \<Rightarrow> Tracker \<Rightarrow> Tracker" where
  "RecordReturned now pk n t =
     (if n \<le> 0 then t
      else let r = touch now t pk in put_record pk (r\<lparr>HitsReturned := HitsReturned r + n, LastUpdated := now\<rparr>) t)"

definition confirm_one :: "int \<Rightarrow> PubKeyHex \<Rightarrow> Tracker \<Rightarrow> Tracker" where
  "confirm_one now pk t =
     (let r = touch now t pk in put_record pk (r\<lparr>HitsConfirmed := HitsConfirmed r + 1, LastUpdated := now\<rparr>) t)"

definition flag_one :: "int \<Rightarrow> PubKeyHex \<Rightarrow> Tracker \<Rightarrow> Tracker" where
  "flag_one now pk t =
     (let r = touch now t pk in put_record pk (r\<lparr>HitsFlagged := HitsFlagged r + 1, LastUpdated := now\<rparr>) t)"

definition RecordConfirmed :: "int \<Rightarrow> PubKeyHex list \<Rightarrow> Tracker \<Rightarrow> Tracker" where
  "RecordConfirmed now pks t = fold (confirm_one now) pks t"

definition RecordFlagged :: "int \<Rightarrow> PubKeyHex list \<Rightarrow> Tracker \<Rightarrow> Tracker" where
  "RecordFlagged now pks t = fold (flag_one now) pks t"

section \<open>Scores\<close>

definition organic_score :: "Counters \<Rightarrow> real" where
  "organic_score r =
     (if HitsReturned r = 0 \<and> HitsConfirmed r = 0 \<and> HitsFlagged r = 0 then defaultUnknownScore
      else
        let returned = (if real_of_int (HitsReturned r) < 1 then 1 else real_of_int (HitsReturned r));
            good = real_of_int (HitsConfirmed r) - real_of_int (HitsFlagged r);
            good = (if good < 0 then 0 else good);
            rawScore = good / returned
        in (rawScore * returned + defaultUnknownScore * smoothingPriorWeight) / (returned + smoothingPriorWeight))"

definition seed_bonus :: "int \<Rightarrow> Counters \<Rightarrow> real" where
  "seed_bonus now r =
     (case SeededAt r of
        None \<Rightarrow> 0
      | Some s \<Rightarrow>
          let age = (if now - s < 0 then 0 else now - s)
          in SeedBonus * (1 / 2) powr (real_of_int age / real_of_int SeedHalfLife))"

definition scoreOf :: "int \<Rightarrow> Counters \<Rightarrow> real" where
  "scoreOf now r =
     (let organic = organic_score r + seed_bonus now r;
          organic = (if organic < 0 then 0 else organic)
      in if organic > 1 then 1 else organic)"

definition Score :: "int \<Rightarrow> Tracker \<Rightarrow> PubKeyHex \<Rightarrow> real" where
  "Score now t pk = (case map_of (Records t) pk of None \<Rightarrow> defaultUnknownScore | Some r \<Rightarrow> scoreOf now r)"

record SnapshotEntry =
  se_PubKey :: PubKeyHex
  se_Counters :: Counters
  se_Score :: real

definition Snapshot :: "int \<Rightarrow> Tracker \<Rightarrow> SnapshotEntry list" where
  "Snapshot now t =
     sort_key (\<lambda>e. (- se_Score e, se_PubKey e))
       (map (\<lambda>(pk, r). \<lparr>se_PubKey = pk, se_Counters = r, se_Score = scoreOf now r\<rparr>) (Records t))"

text \<open>A NaN cutoff, which also passes, is not a real number.\<close>

definition Threshold :: "int \<Rightarrow> Tracker \<Rightarrow> PubKeyHex \<Rightarrow> real \<Rightarrow> bool" where
  "Threshold now t pk cutoff \<longleftrightarrow> cutoff \<le> 0 \<or> Score now t pk \<ge> cutoff"

section \<open>Seeds\<close>

definition MarkSeeded :: "int \<Rightarrow> PubKeyHex \<Rightarrow> string \<Rightarrow> Tracker \<Rightarrow> Tracker" where
  "MarkSeeded now pk label t = put_record pk ((touch now t pk)\<lparr>SeededAt := Some now, SeedLabel := label\<rparr>) t"

definition IsSeeded :: "Tracker \<Rightarrow> PubKeyHex \<Rightarrow> bool" where
  "IsSeeded t pk \<longleftrightarrow> (case map_of (Records t) pk of None \<Rightarrow> False | Some r \<Rightarrow> SeededAt r \<noteq> None)"

definition AnySeeded :: "Tracker \<Rightarrow> PubKeyHex list \<Rightarrow> bool" where
  "AnySeeded t pks \<longleftrightarrow> list_ex (IsSeeded t) pks"

record SeedListEntry =
  sl_PubKey :: string
  sl_Label :: string

record SeedList =
  Version :: int
  Seeds :: "SeedListEntry list"

datatype seed_error = ErrReadSeeds | ErrParseSeeds | ErrSeedVersion int | ErrBadPubkey nat string

definition seed_step :: "int \<Rightarrow> nat \<times> SeedListEntry \<Rightarrow> nat \<times> seed_error list \<times> Tracker \<Rightarrow> nat \<times> seed_error list \<times> Tracker" where
  "seed_step now = (\<lambda>(i, e) (imported, errs, t).
     case hex_DecodeString (sl_PubKey e) of
       None \<Rightarrow> (imported, errs @ [ErrBadPubkey i (sl_PubKey e)], t)
     | Some raw \<Rightarrow>
         if length raw \<noteq> 32 then (imported, errs @ [ErrBadPubkey i (sl_PubKey e)], t)
         else (imported + 1, errs, MarkSeeded now (PubKey (copy_array 32 raw)) (sl_Label e) t))"

definition LoadSeedList :: "int \<Rightarrow> string \<Rightarrow> SeedList fs \<Rightarrow> Tracker \<Rightarrow> nat \<times> seed_error list \<times> Tracker" where
  "LoadSeedList now path fs t =
     (if path = [] then (0, [], t)
      else case fs path of
             Absent \<Rightarrow> (0, [], t)
           | Unreadable \<Rightarrow> (0, [ErrReadSeeds], t)
           | Malformed \<Rightarrow> (0, [ErrParseSeeds], t)
           | Doc l \<Rightarrow>
               if Version l \<noteq> 1 then (0, [ErrSeedVersion (Version l)], t)
               else fold (seed_step now) (enumerate 0 (Seeds l)) (0, [], t))"

section \<open>Lemmas\<close>

definition counters_ok :: "Counters \<Rightarrow> bool" where
  "counters_ok r \<longleftrightarrow> 0 \<le> HitsReturned r \<and> 0 \<le> HitsConfirmed r \<and> 0 \<le> HitsFlagged r"

lemma organic_nonneg: "0 \<le> organic_score r"
  by (simp add: organic_score_def Let_def defaultUnknownScore_def smoothingPriorWeight_def)

lemma seed_bonus_bounds: "0 \<le> seed_bonus now r \<and> seed_bonus now r \<le> SeedBonus"
proof -
  have "(1 / 2 :: real) powr (real_of_int x / real_of_int SeedHalfLife) \<le> 1" if "0 \<le> x" for x
    using that by (intro powr_le1) (simp_all add: SeedHalfLife_def)
  then show ?thesis by (auto simp: seed_bonus_def SeedBonus_def Let_def split: option.split)
qed

lemma score_range: "0 \<le> scoreOf now r \<and> scoreOf now r \<le> 1"
  by (simp add: scoreOf_def Let_def)

definition untouched :: "Counters \<Rightarrow> bool" where
  "untouched r \<longleftrightarrow> HitsReturned r = 0 \<and> HitsConfirmed r = 0 \<and> HitsFlagged r = 0"

lemma organic_formula:
  "organic_score r = (if untouched r then 1 / 2
     else (real_of_int (max 0 (HitsConfirmed r - HitsFlagged r)) + 5 / 2) / (real_of_int (max 1 (HitsReturned r)) + 5))"
proof -
  define n where "n = real_of_int (max 1 (HitsReturned r))"
  define g where "g = real_of_int (max 0 (HitsConfirmed r - HitsFlagged r))"
  have n: "n \<ge> 1" "(if real_of_int (HitsReturned r) < 1 then 1 else real_of_int (HitsReturned r)) = n" by (auto simp: n_def)
  have g: "(let good = real_of_int (HitsConfirmed r) - real_of_int (HitsFlagged r) in if good < 0 then 0 else good) = g" by (auto simp: g_def)
  have "organic_score r = (if untouched r then 1 / 2 else (g / n * n + 5 / 2) / (n + 5))"
    unfolding organic_score_def n(2) untouched_def g [symmetric] by (simp add: Let_def defaultUnknownScore_def smoothingPriorWeight_def)
  then show ?thesis using n(1) by (simp add: n_def [symmetric] g_def [symmetric])
qed

lemma organic_earned:
  "organic_score r > 1 / 2 \<longleftrightarrow> \<not> untouched r \<and> 2 * (HitsConfirmed r - HitsFlagged r) > max 1 (HitsReturned r)"
proof -
  have "(real_of_int (max 0 g) + 5 / 2) / (real_of_int (max 1 n) + 5) > 1 / 2 \<longleftrightarrow> 2 * g > max 1 n" for g n
  proof -
    have "(real_of_int (max 0 g) + 5 / 2) / (real_of_int (max 1 n) + 5) > 1 / 2 \<longleftrightarrow> 2 * real_of_int (max 0 g) > real_of_int (max 1 n)"
      using of_int_le_iff [where 'a = real, of 1 "max 1 n"] by (simp add: field_simps del: of_int_max)
    also have "... \<longleftrightarrow> 2 * max 0 g > max 1 n" by linarith
    finally show ?thesis by auto
  qed
  then show ?thesis by (auto simp: organic_formula)
qed

lemma score_unseeded: "SeededAt r = None \<Longrightarrow> scoreOf now r > 1 / 2 \<longleftrightarrow> organic_score r > 1 / 2"
  using organic_nonneg [of r] by (auto simp: scoreOf_def seed_bonus_def Let_def)

lemma organic_mono:
  assumes "HitsConfirmed r - HitsFlagged r \<le> HitsConfirmed r' - HitsFlagged r'" and "HitsReturned r' = HitsReturned r"
    and "\<not> untouched r" "\<not> untouched r'"
  shows "organic_score r \<le> organic_score r'"
  using assms by (simp add: organic_formula divide_right_mono del: of_int_max)

section \<open>Where a score comes from\<close>

text \<open>
  \<open>vouched T t\<close>: the only keys with a confirmation or a seed mark are those in \<open>T\<close>.  Every update
  extends \<open>T\<close> by the keys it confirms or seeds.
\<close>

definition vouched :: "PubKeyHex set \<Rightarrow> Tracker \<Rightarrow> bool" where
  "vouched T t \<longleftrightarrow> (\<forall>pk r. map_of (Records t) pk = Some r \<longrightarrow>
     counters_ok r \<and> (HitsConfirmed r > 0 \<or> SeededAt r \<noteq> None \<longrightarrow> pk \<in> T))"

lemma map_of_update [simp]: "map_of (AList.update k v m) j = (if j = k then Some v else map_of m j)"
  by (simp add: update_conv')

lemma vouched_mono: "vouched T t \<Longrightarrow> T \<subseteq> T' \<Longrightarrow> vouched T' t"
  unfolding vouched_def by blast

lemma vouched_put:
  assumes "vouched T t" and "T \<subseteq> T'" and "counters_ok r" and "HitsConfirmed r > 0 \<or> SeededAt r \<noteq> None \<Longrightarrow> pk \<in> T'"
  shows "vouched T' (put_record pk r t)"
  using assms by (auto simp: vouched_def put_record_def split: if_splits)

lemma touch_vouched:
  assumes "vouched T t"
  shows "counters_ok (touch now t pk)" and "HitsConfirmed (touch now t pk) > 0 \<or> SeededAt (touch now t pk) \<noteq> None \<Longrightarrow> pk \<in> T"
  using assms by (auto simp: touch_def vouched_def counters_ok_def split: option.splits)

lemma vouched_returned: "vouched T t \<Longrightarrow> vouched T (RecordReturned now pk n t)"
  using touch_vouched [of T t now pk] by (auto simp: RecordReturned_def Let_def counters_ok_def intro!: vouched_put)

lemma vouched_confirmed: "vouched T t \<Longrightarrow> vouched (T \<union> set pks) (RecordConfirmed now pks t)"
proof (induction pks arbitrary: t T)
  case (Cons pk pks)
  have "vouched (insert pk T) (confirm_one now pk t)"
    using touch_vouched [OF Cons.prems, of now pk] Cons.prems by (auto simp: confirm_one_def Let_def counters_ok_def intro!: vouched_put)
  from Cons.IH [OF this] show ?case by (simp add: RecordConfirmed_def)
qed (simp add: RecordConfirmed_def)

lemma vouched_flagged: "vouched T t \<Longrightarrow> vouched T (RecordFlagged now pks t)"
proof (induction pks arbitrary: t)
  case (Cons pk pks)
  have "vouched T (flag_one now pk t)"
    using touch_vouched [OF Cons.prems, of now pk] Cons.prems by (auto simp: flag_one_def Let_def counters_ok_def intro!: vouched_put)
  from Cons.IH [OF this] show ?case by (simp add: RecordFlagged_def)
qed (simp add: RecordFlagged_def)

lemma vouched_seeded: "vouched T t \<Longrightarrow> vouched (insert pk T) (MarkSeeded now pk label t)"
  using touch_vouched [of T t now pk] by (auto simp: MarkSeeded_def counters_ok_def intro!: vouched_put)

text \<open>The keys of the well-formed entries of a seed list, in the form the table uses.\<close>

definition entry_key :: "SeedListEntry \<Rightarrow> PubKeyHex set" where
  "entry_key e = (case hex_DecodeString (sl_PubKey e) of Some raw \<Rightarrow> if length raw = 32 then {PubKey raw} else {} | None \<Rightarrow> {})"

definition seed_keys :: "SeedList \<Rightarrow> PubKeyHex set" where
  "seed_keys l = \<Union> (entry_key ` set (Seeds l))"

lemma seed_step_vouched:
  "vouched T (snd (snd x)) \<Longrightarrow> vouched (T \<union> entry_key (snd ie)) (snd (snd (seed_step now ie x)))"
  by (auto simp: seed_step_def entry_key_def vouched_seeded case_prod_unfold split: option.split)

lemma seed_fold_vouched:
  "vouched T (snd (snd x)) \<Longrightarrow> vouched (T \<union> \<Union> (entry_key ` snd ` set ies)) (snd (snd (fold (seed_step now) ies x)))"
proof (induction ies arbitrary: T x)
  case (Cons ie ies)
  from Cons.IH [OF seed_step_vouched [OF Cons.prems, of ie now]] show ?case by (simp add: Un_assoc)
qed simp

lemma vouched_seed_list:
  assumes "vouched T t"
  shows "vouched (T \<union> (case fs path of Doc l \<Rightarrow> seed_keys l | _ \<Rightarrow> {})) (snd (snd (LoadSeedList now path fs t)))"
proof (cases "path \<noteq> [] \<and> (\<exists>l. fs path = Doc l \<and> Version l = 1)")
  case True
  then obtain l where l: "fs path = Doc l" "Version l = 1" "path \<noteq> []" by blast
  have "snd ` set (enumerate 0 (Seeds l)) = set (Seeds l)" by (metis list.set_map map_snd_enumerate)
  then show ?thesis using seed_fold_vouched [of T "(0, [], t)" "enumerate 0 (Seeds l)" now] assms l
    by (simp add: LoadSeedList_def seed_keys_def)
qed (use assms in \<open>auto simp: LoadSeedList_def vouched_def split: disk_file.split\<close>)

lemma vouched_earned:
  assumes "vouched T t" and "Score now t pk > 1 / 2 \<or> IsSeeded t pk"
  shows "pk \<in> T"
proof (cases "map_of (Records t) pk")
  case None
  then show ?thesis using assms(2) by (simp add: Score_def IsSeeded_def defaultUnknownScore_def)
next
  case (Some r)
  then have r: "counters_ok r" "HitsConfirmed r > 0 \<or> SeededAt r \<noteq> None \<Longrightarrow> pk \<in> T" using assms(1) by (auto simp: vouched_def)
  show ?thesis
  proof (cases "SeededAt r")
    case None
    then have "organic_score r > 1 / 2" using assms(2) Some score_unseeded by (simp add: Score_def IsSeeded_def)
    then have "2 * (HitsConfirmed r - HitsFlagged r) > max 1 (HitsReturned r)" using organic_earned by blast
    then have "HitsConfirmed r > 0" using r(1) by (simp add: counters_ok_def)
    with r(2) show ?thesis by simp
  qed (use r(2) in simp)
qed

section \<open>Properties\<close>

text \<open>
  The score.  It lies between 0 and 1; a key that was never seen and a key with no hits have
  exactly the neutral score; a key that is not a seed is above neutral exactly when the confirmations
  it has over its flags are more than half of its returned hits; a further flag never raises it and a
  further confirmation never lowers it; a seed's score is at most its organic score plus a bonus that
  is halved every 90 days.
\<close>

lemma score_characterised:
  assumes "counters_ok r" and "\<not> untouched r" and "SeededAt r = None"
  shows "0 \<le> scoreOf now r \<and> scoreOf now r \<le> 1 \<and> Score now NewTracker pk = 1 / 2 \<and>
    (scoreOf now r > 1 / 2 \<longleftrightarrow> 2 * (HitsConfirmed r - HitsFlagged r) > max 1 (HitsReturned r)) \<and>
    scoreOf now (r\<lparr>HitsFlagged := HitsFlagged r + 1\<rparr>) \<le> scoreOf now r \<and>
    scoreOf now r \<le> scoreOf now (r\<lparr>HitsConfirmed := HitsConfirmed r + 1\<rparr>) \<and>
    scoreOf (s + int k * SeedHalfLife) (r\<lparr>SeededAt := Some s\<rparr>) \<le> scoreOf now r + SeedBonus / 2 ^ k"
proof -
  have sc: "scoreOf now r' = min 1 (organic_score r')" if "SeededAt r' = None" for r'
    using that organic_nonneg [of r'] by (auto simp: scoreOf_def seed_bonus_def Let_def)
  have b: "0 \<le> SeedBonus / 2 ^ k" by (simp add: SeedBonus_def)
  have "organic_score (r\<lparr>SeededAt := Some s\<rparr>) = organic_score r" by (simp add: organic_score_def)
  moreover have "seed_bonus (s + int k * SeedHalfLife) (r\<lparr>SeededAt := Some s\<rparr>) = SeedBonus / 2 ^ k"
    by (simp add: seed_bonus_def SeedHalfLife_def powr_realpow power_one_over zero_le_mult_iff)
  ultimately have "scoreOf (s + int k * SeedHalfLife) (r\<lparr>SeededAt := Some s\<rparr>) \<le> min 1 (organic_score r) + SeedBonus / 2 ^ k"
    using organic_nonneg [of r] b by (simp add: scoreOf_def Let_def min_def)
  moreover have "organic_score (r\<lparr>HitsFlagged := HitsFlagged r + 1\<rparr>) \<le> organic_score r" "organic_score r \<le> organic_score (r\<lparr>HitsConfirmed := HitsConfirmed r + 1\<rparr>)"
    using assms by (auto intro!: organic_mono simp: untouched_def counters_ok_def)
  ultimately show ?thesis
    using assms(2,3) score_range [of now r] organic_earned [of r] by (auto simp: sc Score_def NewTracker_def defaultUnknownScore_def)
qed

theorem score_characterised_witness:
  "scoreOf 0 \<lparr>HitsReturned = 3, HitsConfirmed = 2, HitsFlagged = 0, FirstSeen = 0, LastUpdated = 0, SeededAt = None, SeedLabel = []\<rparr> > 1 / 2"
proof -
  let ?r = "\<lparr>HitsReturned = 3, HitsConfirmed = 2, HitsFlagged = 0, FirstSeen = 0, LastUpdated = 0, SeededAt = None, SeedLabel = []\<rparr>"
  have "counters_ok ?r" "\<not> untouched ?r" "SeededAt ?r = None" by (simp_all add: counters_ok_def untouched_def)
  from score_characterised [OF this, of 0] show ?thesis by simp
qed

end
