(* ===== verification/Admission.thy ===== *)
theory Admission
  imports Reputation
begin

text \<open>
  Publisher admission (\<^verbatim>\<open>internal/admission\<close>): a deny-by-default policy over a view of the reputation
  table, the admitted and pending sets, and the cap.  The view is an interface in the code; here it is
  a record of its three operations on a state, \<open>None\<close> for \<open>nil\<close>, and the production view is the adapter
  of \<^verbatim>\<open>internal/daemon/confirm_flag.go\<close> over the reputation tracker.  Public keys are 32-byte strings.
\<close>

section \<open>Policy\<close>

type_synonym Source = string

definition SourceAnchor :: Source where "SourceAnchor = ''anchor''"
definition SourceBEP51 :: Source where "SourceBEP51 = ''bep51''"
definition SourceEndorsement :: Source where "SourceEndorsement = ''endorsement''"

definition UnknownPrior :: real where "UnknownPrior = 1 / 2"
definition MaxTrackedPublishers :: int where "MaxTrackedPublishers = 100"
definition EndorsementThreshold :: int where "EndorsementThreshold = 3"
definition DefaultAnchorPubkeys :: "string list" where "DefaultAnchorPubkeys = []"

record 'v ReputationView =
  v_Score :: "'v \<Rightarrow> bytes \<Rightarrow> real"
  v_IsSeeded :: "'v \<Rightarrow> bytes \<Rightarrow> bool"
  v_MarkSeeded :: "bytes \<Rightarrow> string \<Rightarrow> 'v \<Rightarrow> 'v"

record Candidate =
  c_Pub :: bytes
  c_Label :: string
  c_Source :: Source
  c_StrongEndorsers :: int

definition earned :: "'v ReputationView option \<Rightarrow> 'v \<Rightarrow> bytes \<Rightarrow> bool" where
  "earned V v pub = (case V of None \<Rightarrow> False | Some w \<Rightarrow> v_Score w v pub > UnknownPrior \<or> v_IsSeeded w v pub)"

datatype Rule = AnchorRule | EndorsementRule int | CrawlRule int | permissiveRule Source

fun rule_Source :: "Rule \<Rightarrow> Source" where
  "rule_Source AnchorRule = SourceAnchor"
| "rule_Source (EndorsementRule n) = SourceEndorsement"
| "rule_Source (CrawlRule n) = SourceBEP51"
| "rule_Source (permissiveRule s) = s"

fun rule_Admit :: "'v ReputationView option \<Rightarrow> 'v \<Rightarrow> Candidate \<Rightarrow> Rule \<Rightarrow> bool" where
  "rule_Admit V v c AnchorRule = True"
| "rule_Admit V v c (EndorsementRule n) = (c_StrongEndorsers c \<ge> n \<or> earned V v (c_Pub c))"
| "rule_Admit V v c (CrawlRule n) = (earned V v (c_Pub c) \<or> c_StrongEndorsers c \<ge> n)"
| "rule_Admit V v c (permissiveRule s) = True"

record Policy =
  pol_MaxTrackedPublishers :: int
  pol_EndorsementThreshold :: int
  pol_rules :: "(Source \<times> Rule) list"

definition ruleFor :: "Policy \<Rightarrow> Source \<Rightarrow> Rule option" where "ruleFor p src = map_of (pol_rules p) src"

definition DefaultPolicy :: Policy where
  "DefaultPolicy = \<lparr>pol_MaxTrackedPublishers = MaxTrackedPublishers, pol_EndorsementThreshold = EndorsementThreshold,
     pol_rules = [(SourceAnchor, AnchorRule), (SourceEndorsement, EndorsementRule EndorsementThreshold),
                  (SourceBEP51, CrawlRule EndorsementThreshold)]\<rparr>"

definition PermissivePolicyForTest :: Policy where
  "PermissivePolicyForTest = \<lparr>pol_MaxTrackedPublishers = MaxTrackedPublishers, pol_EndorsementThreshold = EndorsementThreshold,
     pol_rules = [(SourceAnchor, permissiveRule SourceAnchor), (SourceEndorsement, permissiveRule SourceEndorsement),
                  (SourceBEP51, permissiveRule SourceBEP51)]\<rparr>"

section \<open>State\<close>

record State =
  anchorKeys :: "bytes list"
  admitted :: "bytes set"
  anchorsAdmitted :: "bytes set"
  endorsements :: "(bytes \<times> bytes set) list"
  observed :: "bytes set"

definition newState :: "bytes list \<Rightarrow> State" where
  "newState ks = \<lparr>anchorKeys = ks, admitted = {}, anchorsAdmitted = {}, endorsements = [], observed = {}\<rparr>"

definition IsAdmitted :: "State \<Rightarrow> bytes \<Rightarrow> bool" where "IsAdmitted s pub \<longleftrightarrow> pub \<in> admitted s"

definition IsPending :: "State \<Rightarrow> bytes \<Rightarrow> bool" where
  "IsPending s pub \<longleftrightarrow> (if pub \<in> admitted s then False else if map_of (endorsements s) pub \<noteq> None then True else pub \<in> observed s)"

definition AdmittedCount :: "State \<Rightarrow> nat" where "AdmittedCount s = card (admitted s)"
definition AnchorCount :: "State \<Rightarrow> nat" where "AnchorCount s = length (anchorKeys s)"

definition PendingCount :: "State \<Rightarrow> nat" where
  "PendingCount s = card ({k \<in> fst ` set (endorsements s). k \<notin> admitted s} \<union> {k \<in> observed s. k \<notin> admitted s})"

section \<open>Engine\<close>

record AdmissionEngine =
  e_policy :: Policy
  e_state :: State

datatype engine_error = ErrAnchorNotHex string | ErrAnchorLength string nat

fun parse_anchors :: "string list \<Rightarrow> engine_error + bytes list" where
  "parse_anchors [] = Inr []"
| "parse_anchors (s # ss) =
     (if s = [] then parse_anchors ss
      else case hex_DecodeString s of
             None \<Rightarrow> Inl (ErrAnchorNotHex s)
           | Some raw \<Rightarrow>
               if length raw \<noteq> 32 then Inl (ErrAnchorLength s (length raw))
               else map_sum id ((#) (copy_array 32 raw)) (parse_anchors ss))"

definition NewEngine :: "Policy \<Rightarrow> string list \<Rightarrow> engine_error + AdmissionEngine" where
  "NewEngine pol anchorHexes =
     (let pol = (if pol_MaxTrackedPublishers pol \<le> 0 then pol\<lparr>pol_MaxTrackedPublishers := MaxTrackedPublishers\<rparr> else pol);
          pol = (if pol_EndorsementThreshold pol \<le> 0 then pol\<lparr>pol_EndorsementThreshold := EndorsementThreshold\<rparr> else pol)
      in map_sum id (\<lambda>ks. \<lparr>e_policy = pol, e_state = newState ks\<rparr>) (parse_anchors anchorHexes))"

definition recordEndorserLocked :: "bytes \<Rightarrow> bytes \<Rightarrow> State \<Rightarrow> State" where
  "recordEndorserLocked cand endorser s =
     (let old = (case map_of (endorsements s) cand of None \<Rightarrow> {} | Some es \<Rightarrow> es)
      in s\<lparr>endorsements := AList.update cand (insert endorser old) (endorsements s)\<rparr>)"

definition strongEndorsersLocked :: "'v ReputationView option \<Rightarrow> 'v \<Rightarrow> State \<Rightarrow> bytes \<Rightarrow> int" where
  "strongEndorsersLocked V v s cand =
     (case map_of (endorsements s) cand of
        None \<Rightarrow> 0
      | Some es \<Rightarrow> (case V of
            None \<Rightarrow> 0
          | Some w \<Rightarrow> int (card {ep \<in> es. v_Score w v ep > UnknownPrior \<or> v_IsSeeded w v ep})))"

definition admit :: "'v ReputationView option \<Rightarrow> Candidate \<Rightarrow> AdmissionEngine \<times> 'v \<Rightarrow> bool \<times> AdmissionEngine \<times> 'v" where
  "admit V c0 = (\<lambda>(e, v).
     let s = e_state e in
     if c_Pub c0 \<in> admitted s then (True, e, v)
     else
       let c = c0\<lparr>c_StrongEndorsers := strongEndorsersLocked V v s (c_Pub c0)\<rparr>;
           anchor = (c_Source c = SourceAnchor)
       in case ruleFor (e_policy e) (c_Source c) of
            None \<Rightarrow> (False, e, v)
          | Some rule \<Rightarrow>
              if \<not> rule_Admit V v c rule then (False, e, v)
              else if \<not> anchor \<and> int (card (admitted s)) - int (card (anchorsAdmitted s)) \<ge> pol_MaxTrackedPublishers (e_policy e)
              then (False, e, v)
              else
                let s = s\<lparr>admitted := insert (c_Pub c) (admitted s)\<rparr>;
                    s = (if anchor then s\<lparr>anchorsAdmitted := insert (c_Pub c) (anchorsAdmitted s)\<rparr> else s)
                in (True, e\<lparr>e_state := s\<rparr>,
                    if anchor then (case V of Some w \<Rightarrow> v_MarkSeeded w (c_Pub c) (c_Label c) v | None \<Rightarrow> v) else v))"

definition AdmitAnchor :: "'v ReputationView option \<Rightarrow> bytes \<Rightarrow> string \<Rightarrow> AdmissionEngine \<times> 'v \<Rightarrow> bool \<times> AdmissionEngine \<times> 'v" where
  "AdmitAnchor V pub label = admit V \<lparr>c_Pub = pub, c_Label = label, c_Source = SourceAnchor, c_StrongEndorsers = 0\<rparr>"

definition CandidateFromCrawl :: "'v ReputationView option \<Rightarrow> bytes \<Rightarrow> bool \<Rightarrow> AdmissionEngine \<times> 'v \<Rightarrow> bool \<times> AdmissionEngine \<times> 'v" where
  "CandidateFromCrawl V cand sigValid = (\<lambda>(e, v).
     if \<not> sigValid then (False, e, v)
     else
       let s = e_state e in
       if cand \<in> admitted s then (True, e, v)
       else admit V \<lparr>c_Pub = cand, c_Label = ''crawled'', c_Source = SourceBEP51, c_StrongEndorsers = 0\<rparr>
              (e\<lparr>e_state := s\<lparr>observed := insert cand (observed s)\<rparr>\<rparr>, v))"

definition IngestEndorsement :: "'v ReputationView option \<Rightarrow> bytes \<Rightarrow> bytes \<Rightarrow> AdmissionEngine \<times> 'v \<Rightarrow> bool \<times> AdmissionEngine \<times> 'v" where
  "IngestEndorsement V endorser cand = (\<lambda>(e, v).
     let s = e_state e; e' = e\<lparr>e_state := recordEndorserLocked cand endorser s\<rparr> in
     if cand \<in> admitted s then (True, e', v)
     else admit V \<lparr>c_Pub = cand, c_Label = ''endorsed'', c_Source = SourceEndorsement, c_StrongEndorsers = 0\<rparr> (e', v))"

section \<open>The adapter\<close>

text \<open>\<open>None\<close> is an engine that runs without a tracker.\<close>

definition reputationView :: "int \<Rightarrow> Tracker option ReputationView" where
  "reputationView now =
     \<lparr>v_Score = (\<lambda>t pub. case t of None \<Rightarrow> 1 / 2 | Some t \<Rightarrow> Score now t (PubKey pub)),
      v_IsSeeded = (\<lambda>t pub. case t of None \<Rightarrow> False | Some t \<Rightarrow> IsSeeded t (PubKey pub)),
      v_MarkSeeded = (\<lambda>pub label t. case t of None \<Rightarrow> None | Some t \<Rightarrow> Some (MarkSeeded now (PubKey pub) label t))\<rparr>"

section \<open>The contract of a view\<close>

text \<open>
  What admission relies on: \<open>trusted T v\<close> says that every key with earned signal in \<open>v\<close> is in \<open>T\<close>, and
  marking a key as a seed adds only that key.
\<close>

locale reputation_view =
  fixes V :: "'v ReputationView" and trusted :: "bytes set \<Rightarrow> 'v \<Rightarrow> bool"
  assumes earned_trusted: "trusted T v \<Longrightarrow> v_Score V v p > UnknownPrior \<or> v_IsSeeded V v p \<Longrightarrow> p \<in> T"
    and mark_trusted: "trusted T v \<Longrightarrow> trusted (insert p T) (v_MarkSeeded V p l v)"
begin

text \<open>A key is backed by \<open>T\<close>: it is in \<open>T\<close> or enough of its endorsers are.\<close>

definition backed :: "bytes set \<Rightarrow> State \<Rightarrow> bytes \<Rightarrow> bool" where
  "backed T s p \<longleftrightarrow> p \<in> T \<or> (\<exists>es. map_of (endorsements s) p = Some es \<and> int (card (es \<inter> T)) \<ge> EndorsementThreshold)"

definition adm_inv :: "bytes set \<Rightarrow> AdmissionEngine \<Rightarrow> bool" where
  "adm_inv T e \<longleftrightarrow> e_policy e = DefaultPolicy \<and>
     (\<forall>p es. map_of (endorsements (e_state e)) p = Some es \<longrightarrow> finite es) \<and>
     finite (admitted (e_state e)) \<and> anchorsAdmitted (e_state e) \<subseteq> admitted (e_state e) \<and>
     (\<forall>p \<in> admitted (e_state e). backed T (e_state e) p) \<and>
     int (card (admitted (e_state e) - anchorsAdmitted (e_state e))) \<le> MaxTrackedPublishers"

lemma strong_backed:
  assumes "trusted T v" and "strongEndorsersLocked (Some V) v s p \<ge> EndorsementThreshold"
    and "\<And>es. map_of (endorsements s) p = Some es \<Longrightarrow> finite es"
  shows "backed T s p"
proof -
  obtain es where es: "map_of (endorsements s) p = Some es"
    and n: "int (card {ep \<in> es. v_Score V v ep > UnknownPrior \<or> v_IsSeeded V v ep}) \<ge> EndorsementThreshold"
    using assms(2) by (auto simp: strongEndorsersLocked_def EndorsementThreshold_def split: option.splits)
  have "{ep \<in> es. v_Score V v ep > UnknownPrior \<or> v_IsSeeded V v ep} \<subseteq> es \<inter> T" using earned_trusted [OF assms(1)] by blast
  then have "card {ep \<in> es. v_Score V v ep > UnknownPrior \<or> v_IsSeeded V v ep} \<le> card (es \<inter> T)"
    using assms(3) [OF es] by (intro card_mono) auto
  then show ?thesis using n es by (auto simp: backed_def)
qed

lemma rule_backed:
  assumes "trusted T v" and "ruleFor DefaultPolicy (c_Source c) = Some rule" and "c_Source c \<noteq> SourceAnchor"
    and "rule_Admit (Some V) v (c\<lparr>c_StrongEndorsers := strongEndorsersLocked (Some V) v s (c_Pub c)\<rparr>) rule"
    and "\<And>es. map_of (endorsements s) (c_Pub c) = Some es \<Longrightarrow> finite es"
  shows "backed T s (c_Pub c)"
proof -
  have "earned (Some V) v (c_Pub c) \<or> strongEndorsersLocked (Some V) v s (c_Pub c) \<ge> EndorsementThreshold"
    using assms(2-4) by (auto simp: ruleFor_def DefaultPolicy_def split: if_splits)
  then show ?thesis
  proof
    assume "earned (Some V) v (c_Pub c)"
    then show ?thesis using earned_trusted [OF assms(1)] by (auto simp: earned_def backed_def)
  next
    assume "strongEndorsersLocked (Some V) v s (c_Pub c) \<ge> EndorsementThreshold"
    from strong_backed [OF assms(1) this assms(5)] show ?thesis .
  qed
qed

lemma backed_mono:
  assumes "backed T s p" and "T \<subseteq> T'" and "\<And>es. map_of (endorsements s) p = Some es \<Longrightarrow> \<exists>es'. map_of (endorsements s') p = Some es' \<and> finite es' \<and> es \<subseteq> es'"
  shows "backed T' s' p"
proof (cases "p \<in> T")
  case False
  then obtain es where es: "map_of (endorsements s) p = Some es" "int (card (es \<inter> T)) \<ge> EndorsementThreshold" using assms(1) by (auto simp: backed_def)
  from assms(3) [OF es(1)] obtain es' where es': "map_of (endorsements s') p = Some es'" "finite es'" "es \<subseteq> es'" by blast
  have "card (es \<inter> T) \<le> card (es' \<inter> T')" using es' assms(2) by (intro card_mono) auto
  then show ?thesis using es es' by (auto simp: backed_def)
qed (use assms(2) in \<open>auto simp: backed_def\<close>)

lemma admit_inv:
  assumes "adm_inv T e" and "trusted T v" and "admit (Some V) c (e, v) = (b, e', v')"
  shows "adm_inv (if c_Source c = SourceAnchor then insert (c_Pub c) T else T) e' \<and>
    trusted (if c_Source c = SourceAnchor then insert (c_Pub c) T else T) v' \<or> e' = e \<and> v' = v"
proof (cases "e' = e \<and> v' = v")
  case False
  let ?s = "e_state e" and ?A = "c_Source c = SourceAnchor"
  let ?T = "if ?A then insert (c_Pub c) T else T"
  obtain rule where new: "c_Pub c \<notin> admitted ?s" and rule: "ruleFor (e_policy e) (c_Source c) = Some rule"
    and adm: "rule_Admit (Some V) v (c\<lparr>c_StrongEndorsers := strongEndorsersLocked (Some V) v ?s (c_Pub c)\<rparr>) rule"
    and cap: "?A \<or> int (card (admitted ?s)) - int (card (anchorsAdmitted ?s)) < pol_MaxTrackedPublishers (e_policy e)"
    and e': "e' = e\<lparr>e_state := (let s = ?s\<lparr>admitted := insert (c_Pub c) (admitted ?s)\<rparr> in if ?A then s\<lparr>anchorsAdmitted := insert (c_Pub c) (anchorsAdmitted s)\<rparr> else s)\<rparr>"
    and v': "v' = (if ?A then v_MarkSeeded V (c_Pub c) (c_Label c) v else v)"
    using assms(3) False by (auto simp: admit_def Let_def split: if_splits option.splits)
  have pol: "e_policy e = DefaultPolicy" and fin: "finite (admitted ?s)" and sub: "anchorsAdmitted ?s \<subseteq> admitted ?s"
    and fe: "\<And>p es. map_of (endorsements ?s) p = Some es \<Longrightarrow> finite es"
    using assms(1) by (auto simp: adm_inv_def)
  have "backed ?T ?s (c_Pub c)" using rule_backed [OF assms(2) rule [unfolded pol] _ adm fe] by (auto simp: backed_def)
  moreover have "backed ?T ?s p" if "p \<in> admitted ?s" for p
  proof (rule backed_mono)
    show "backed T ?s p" using assms(1) that by (simp add: adm_inv_def)
  qed (use fe in auto)
  moreover have "backed ?T (e_state e') p = backed ?T ?s p" for p by (simp add: e' backed_def Let_def)
  moreover have "int (card (admitted (e_state e') - anchorsAdmitted (e_state e'))) \<le> MaxTrackedPublishers"
  proof (cases ?A)
    case True
    then have "admitted (e_state e') - anchorsAdmitted (e_state e') \<subseteq> admitted ?s - anchorsAdmitted ?s" by (auto simp: e' Let_def)
    then have "card (admitted (e_state e') - anchorsAdmitted (e_state e')) \<le> card (admitted ?s - anchorsAdmitted ?s)" using fin by (intro card_mono) auto
    then show ?thesis using assms(1) by (simp add: adm_inv_def)
  next
    case False
    have "admitted (e_state e') - anchorsAdmitted (e_state e') = insert (c_Pub c) (admitted ?s - anchorsAdmitted ?s)"
      using False new sub by (auto simp: e' Let_def)
    moreover have "card (admitted ?s - anchorsAdmitted ?s) = card (admitted ?s) - card (anchorsAdmitted ?s)"
      using sub fin by (simp add: card_Diff_subset finite_subset)
    ultimately show ?thesis using cap False pol fin new card_mono [OF fin sub] by (simp add: DefaultPolicy_def)
  qed
  ultimately have "adm_inv ?T e'" using pol fin sub fe by (auto simp: adm_inv_def e' Let_def)
  then show ?thesis using mark_trusted [OF assms(2)] assms(2) by (simp add: v')
qed simp

lemma observe_inv:
  "adm_inv T e \<Longrightarrow> adm_inv T (e\<lparr>e_state := (e_state e)\<lparr>observed := o'\<rparr>\<rparr>)"
  by (simp add: adm_inv_def backed_def)

lemma endorse_inv:
  assumes "adm_inv T e"
  shows "adm_inv T (e\<lparr>e_state := recordEndorserLocked cand endorser (e_state e)\<rparr>)"
proof -
  let ?s = "recordEndorserLocked cand endorser (e_state e)"
  have fe: "finite es" if "map_of (endorsements (e_state e)) p = Some es" for p es using assms that by (auto simp: adm_inv_def)
  have grow: "\<exists>es'. map_of (endorsements ?s) p = Some es' \<and> finite es' \<and> es \<subseteq> es'" if "map_of (endorsements (e_state e)) p = Some es" for p es
    using that fe by (auto simp: recordEndorserLocked_def Let_def)
  have "backed T ?s p" if "p \<in> admitted (e_state e)" for p
  proof (rule backed_mono [OF _ order_refl grow])
    show "backed T (e_state e) p" using assms that by (simp add: adm_inv_def)
  qed
  moreover have "finite es" if "map_of (endorsements ?s) p = Some es" for p es
    using that fe by (auto simp: recordEndorserLocked_def Let_def split: if_splits option.splits)
  moreover have "admitted ?s = admitted (e_state e)" "anchorsAdmitted ?s = anchorsAdmitted (e_state e)" by (simp_all add: recordEndorserLocked_def Let_def)
  ultimately show ?thesis using assms by (auto simp: adm_inv_def)
qed

text \<open>What the three channels keep; only an anchor extends \<open>T\<close>.\<close>

lemma channel_inv:
  assumes "adm_inv T e" and "trusted T v" and "admit (Some V) c (e, v) = (b, e', v')"
  shows "c_Source c \<noteq> SourceAnchor \<Longrightarrow> adm_inv T e' \<and> trusted T v'"
  using admit_inv [OF assms] assms(1,2) by auto

lemma crawl_inv:
  assumes "adm_inv T e" and "trusted T v" and "CandidateFromCrawl (Some V) cand ok (e, v) = (b, e', v')"
  shows "adm_inv T e' \<and> trusted T v'"
  using assms channel_inv [OF observe_inv [OF assms(1)] assms(2), of "\<lparr>c_Pub = cand, c_Label = ''crawled'', c_Source = SourceBEP51, c_StrongEndorsers = 0\<rparr>"]
  by (auto simp: CandidateFromCrawl_def Let_def SourceBEP51_def SourceAnchor_def split: if_splits)

lemma endorsement_inv:
  assumes "adm_inv T e" and "trusted T v" and "IngestEndorsement (Some V) endorser cand (e, v) = (b, e', v')"
  shows "adm_inv T e' \<and> trusted T v'"
  using assms endorse_inv [OF assms(1)]
    channel_inv [OF endorse_inv [OF assms(1)] assms(2), of "\<lparr>c_Pub = cand, c_Label = ''endorsed'', c_Source = SourceEndorsement, c_StrongEndorsers = 0\<rparr>"]
  by (auto simp: IngestEndorsement_def Let_def SourceEndorsement_def SourceAnchor_def split: if_splits)

lemma adm_inv_mono:
  assumes "adm_inv T e" and "T \<subseteq> T'"
  shows "adm_inv T' e"
proof -
  have "backed T' (e_state e) p" if "backed T (e_state e) p" for p
    using backed_mono [OF that assms(2)] assms(1) by (auto simp: adm_inv_def)
  then show ?thesis using assms(1) by (auto simp: adm_inv_def)
qed

end

definition view_trusted :: "bytes set \<Rightarrow> Tracker option \<Rightarrow> bool" where
  "view_trusted T v \<longleftrightarrow> (case v of None \<Rightarrow> True | Some t \<Rightarrow> \<exists>H. vouched H t \<and> (\<forall>p. PubKey p \<in> H \<longrightarrow> p \<in> T))"

lemma PubKey_inj [simp]: "PubKey p = PubKey q \<longleftrightarrow> p = q"
  by (simp add: PubKey_def)

lemma view_trusted_step:
  assumes "view_trusted T (Some t)" and "\<And>H. vouched H t \<Longrightarrow> vouched (H \<union> K) t'" and "\<And>p. PubKey p \<in> K \<Longrightarrow> p \<in> T'" and "T \<subseteq> T'"
  shows "view_trusted T' (Some t')"
proof -
  obtain H where H: "vouched H t" "\<forall>p. PubKey p \<in> H \<longrightarrow> p \<in> T" using assms(1) by (auto simp: view_trusted_def)
  show ?thesis using assms(2) [OF H(1)] H(2) assms(3,4) unfolding view_trusted_def by (auto intro!: exI [of _ "H \<union> K"])
qed

interpretation tracker_view: reputation_view "reputationView now" view_trusted
proof unfold_locales
  fix T v p
  assume "view_trusted T v" "UnknownPrior < v_Score (reputationView now) v p \<or> v_IsSeeded (reputationView now) v p"
  then show "p \<in> T"
    by (auto simp: view_trusted_def reputationView_def UnknownPrior_def split: option.splits dest: vouched_earned)
next
  fix T v p l
  assume t: "view_trusted T v"
  show "view_trusted (insert p T) (v_MarkSeeded (reputationView now) p l v)"
  proof (cases v)
    case (Some t)
    then show ?thesis
      using view_trusted_step [of T t "{PubKey p}" "MarkSeeded now (PubKey p) l t" "insert p T"] t vouched_seeded
      by (auto simp: reputationView_def)
  qed (simp add: reputationView_def view_trusted_def)
qed

section \<open>Runs\<close>

text \<open>
  The admission engine and the tracker side by side, under the three discovery channels and under
  everything that writes to the tracker.  \<open>T\<close> collects the keys the local operator stands for: the
  anchors admitted, the keys the user confirmed, and the keys of loaded seed lists.
\<close>

inductive adm_run :: "bytes set \<Rightarrow> AdmissionEngine \<Rightarrow> Tracker option \<Rightarrow> bool" where
  start: "NewEngine DefaultPolicy hexes = Inr e \<Longrightarrow> view_trusted T v \<Longrightarrow> adm_run T e v"
| anchor: "adm_run T e v \<Longrightarrow> AdmitAnchor (Some (reputationView now)) p l (e, v) = (b, e', v') \<Longrightarrow> adm_run (insert p T) e' v'"
| crawl: "adm_run T e v \<Longrightarrow> CandidateFromCrawl (Some (reputationView now)) p ok (e, v) = (b, e', v') \<Longrightarrow> adm_run T e' v'"
| endorse: "adm_run T e v \<Longrightarrow> IngestEndorsement (Some (reputationView now)) q p (e, v) = (b, e', v') \<Longrightarrow> adm_run T e' v'"
| returned: "adm_run T e (Some t) \<Longrightarrow> adm_run T e (Some (RecordReturned now pk n t))"
| flagged: "adm_run T e (Some t) \<Longrightarrow> adm_run T e (Some (RecordFlagged now pks t))"
| confirmed: "adm_run T e (Some t) \<Longrightarrow> adm_run (T \<union> {p. PubKey p \<in> set pks}) e (Some (RecordConfirmed now pks t))"
| seeds: "adm_run T e (Some t) \<Longrightarrow> LoadSeedList now path fs t = (k, errs, t') \<Longrightarrow>
    adm_run (T \<union> {p. case fs path of Doc l \<Rightarrow> PubKey p \<in> seed_keys l | _ \<Rightarrow> False}) e (Some t')"

lemma NewEngine_inv: "NewEngine DefaultPolicy hexes = Inr e \<Longrightarrow> tracker_view.adm_inv T e"
  by (cases "parse_anchors hexes")
    (auto simp: NewEngine_def tracker_view.adm_inv_def newState_def DefaultPolicy_def MaxTrackedPublishers_def EndorsementThreshold_def)

lemma adm_run_inv: "adm_run T e v \<Longrightarrow> tracker_view.adm_inv T e \<and> view_trusted T v"
proof (induction rule: adm_run.induct)
  case (start hexes e T v)
  then show ?case using NewEngine_inv by blast
next
  case (anchor T e v now p l b e' v')
  have "view_trusted (insert p T) v" using anchor.IH by (auto simp: view_trusted_def split: option.splits)
  then show ?case
    using tracker_view.admit_inv [of T e v now "\<lparr>c_Pub = p, c_Label = l, c_Source = SourceAnchor, c_StrongEndorsers = 0\<rparr>" b e' v'] anchor
      tracker_view.adm_inv_mono [of T e "insert p T"]
    by (auto simp: AdmitAnchor_def)
next
  case (crawl T e v now p ok b e' v')
  then show ?case using tracker_view.crawl_inv by blast
next
  case (endorse T e v now q p b e' v')
  then show ?case using tracker_view.endorsement_inv by blast
next
  case (returned T e t now pk n)
  moreover from this have "view_trusted T (Some (RecordReturned now pk n t))"
    by (elim conjE view_trusted_step [where K = "{}"]) (simp_all add: vouched_returned)
  ultimately show ?case by simp
next
  case (flagged T e t now pks)
  moreover from this have "view_trusted T (Some (RecordFlagged now pks t))"
    by (elim conjE view_trusted_step [where K = "{}"]) (simp_all add: vouched_flagged)
  ultimately show ?case by simp
next
  case (confirmed T e t pks now)
  have "view_trusted (T \<union> {p. PubKey p \<in> set pks}) (Some (RecordConfirmed now pks t))"
    using confirmed.IH by (elim conjE view_trusted_step [where K = "set pks"]) (simp_all add: vouched_confirmed)
  then show ?case using confirmed.IH tracker_view.adm_inv_mono [of T e "T \<union> {p. PubKey p \<in> set pks}"] by simp
next
  case (seeds T e t now path fs k errs t')
  let ?K = "case fs path of Doc l \<Rightarrow> seed_keys l | _ \<Rightarrow> {}"
  have t': "t' = snd (snd (LoadSeedList now path fs t))" using seeds by simp
  have "view_trusted (T \<union> {p. case fs path of Doc l \<Rightarrow> PubKey p \<in> seed_keys l | _ \<Rightarrow> False}) (Some t')"
    using seeds.IH unfolding t'
    by (elim conjE view_trusted_step [where K = ?K]) (simp_all add: vouched_seed_list split: disk_file.splits)
  then show ?case using seeds.IH tracker_view.adm_inv_mono [of T e "T \<union> _"] by simp
qed

section \<open>Properties\<close>

definition anchored :: "bool \<times> AdmissionEngine \<times> Tracker option" where
  "anchored = AdmitAnchor (Some (reputationView 0)) (replicate 32 1) ''root'' (\<lparr>e_policy = DefaultPolicy, e_state = newState []\<rparr>, Some NewTracker)"

lemma anchored_run: "adm_run {replicate 32 1} (fst (snd anchored)) (snd (snd anchored))"
proof -
  have "NewEngine DefaultPolicy [] = Inr \<lparr>e_policy = DefaultPolicy, e_state = newState []\<rparr>" by code_simp
  moreover have "view_trusted {} (Some NewTracker)"
    by (auto simp: view_trusted_def NewTracker_def vouched_def intro!: exI [of _ "{}"])
  ultimately have "adm_run {} \<lparr>e_policy = DefaultPolicy, e_state = newState []\<rparr> (Some NewTracker)" by (rule start)
  from anchor [OF this, of 0 "replicate 32 1" "''root''" "fst anchored" "fst (snd anchored)" "snd (snd anchored)"]
  show ?thesis by (simp add: anchored_def)
qed

text \<open>
  C23: no Sybil attack on admission.  In every run, whatever endorsements and crawl results arrive and
  in whatever order, a publisher is admitted only if the local operator stands for it (anchor, user
  confirmation, seed list) or at least three distinct endorsers of it are keys the operator stands
  for; with no such key nobody is admitted.  Any number of keys that only vouch for each other gets
  none of them in.
\<close>

theorem admission_sybil_resistant:
  assumes "adm_run T e v"
  shows "(\<forall>p \<in> admitted (e_state e). p \<in> T \<or>
      (\<exists>es. map_of (endorsements (e_state e)) p = Some es \<and> 3 \<le> card (es \<inter> T))) \<and>
    (T = {} \<longrightarrow> admitted (e_state e) = {})"
  using adm_run_inv [OF assms]
  by (fastforce simp: tracker_view.adm_inv_def tracker_view.backed_def EndorsementThreshold_def)

theorem admission_sybil_resistant_witness:
  "admitted (e_state (fst (snd anchored))) = {replicate 32 1} \<and>
   (replicate 32 1 \<in> {replicate 32 1 :: bytes} \<or>
    (\<exists>es. map_of (endorsements (e_state (fst (snd anchored)))) (replicate 32 1) = Some es \<and> 3 \<le> card (es \<inter> {replicate 32 1})))"
proof -
  have "admitted (e_state (fst (snd anchored))) = {replicate 32 1}" by code_simp
  with admission_sybil_resistant [OF anchored_run] show ?thesis by simp
qed

text \<open>
  The admission state.  In every run at most 100 publishers other than anchors are admitted, the
  admitted anchors are admitted, an admitted key is not pending, and the pending count is the number of
  pending keys.
\<close>

lemma admission_capped:
  assumes "adm_run T e v"
  shows "card (admitted (e_state e) - anchorsAdmitted (e_state e)) \<le> 100 \<and> anchorsAdmitted (e_state e) \<subseteq> admitted (e_state e) \<and>
    \<not> (IsAdmitted (e_state e) p \<and> IsPending (e_state e) p) \<and> PendingCount (e_state e) = card {p. IsPending (e_state e) p}"
proof -
  have "{k \<in> fst ` set (endorsements s). k \<notin> admitted s} \<union> {k \<in> observed s. k \<notin> admitted s} = {p. IsPending s p}" for s
    by (auto simp: IsPending_def map_of_eq_None_iff split: if_splits)
  then show ?thesis
    using adm_run_inv [OF assms] by (auto simp: tracker_view.adm_inv_def MaxTrackedPublishers_def PendingCount_def IsAdmitted_def IsPending_def)
qed

theorem admission_capped_witness:
  "card (admitted (e_state (fst (snd anchored))) - anchorsAdmitted (e_state (fst (snd anchored)))) \<le> 100 \<and>
   anchorsAdmitted (e_state (fst (snd anchored))) = {replicate 32 1}"
proof -
  have "anchorsAdmitted (e_state (fst (snd anchored))) = {replicate 32 1}" by code_simp
  then show ?thesis using admission_capped [OF anchored_run, of "[]"] by blast
qed

text \<open>An anchor that was admitted as an ordinary publisher is neither marked nor exempted later.\<close>

lemma late_anchor_unmarked: "IsAdmitted (e_state e) p \<Longrightarrow> AdmitAnchor V p l (e, v) = (True, e, v)"
  by (simp add: AdmitAnchor_def admit_def IsAdmitted_def)

end
