(* ===== verification/Token.thy ===== *)
theory Token
  imports Utf8
begin

text \<open>
  Keyword tokens (\<^verbatim>\<open>contracts/token/token.go\<close>).  Strings are bytes, ranging over one reads UTF-8.  The
  Unicode tables (\<^verbatim>\<open>unicode.IsLetter\<close>, \<^verbatim>\<open>IsDigit\<close>, \<^verbatim>\<open>ToLower\<close>) are a parameter; \<open>tables_ok\<close> is what a
  theorem relies on of them.
\<close>

section \<open>The tokenizer\<close>

record unicode =
  IsLetter :: "nat \<Rightarrow> bool"
  IsDigit :: "nat \<Rightarrow> bool"
  ToLowerRune :: "nat \<Rightarrow> nat"

definition ascii :: "string \<Rightarrow> bytes" where "ascii s = map (\<lambda>c. of_nat (of_char c)) s"

definition MinTokenBytes :: nat where "MinTokenBytes = 3"
definition MaxKeywordsPerTorrent :: nat where "MaxKeywordsPerTorrent = 8"

definition stopWords :: "bytes list" where
  "stopWords = map ascii
     [''the'', ''and'', ''for'', ''are'', ''not'', ''with'', ''from'', ''this'', ''that'', ''have'',
      ''was'', ''you'', ''all'', ''any'', ''but'', ''can'', ''had'', ''has'', ''his'', ''her'',
      ''its'', ''our'', ''their'', ''they'', ''them'', ''who'', ''what'', ''when'', ''where'', ''why'', ''how'']"

definition extensionTokens :: "bytes list" where
  "extensionTokens = map ascii
     [''mp3'', ''mp4'', ''mkv'', ''iso'', ''avi'', ''wmv'', ''flac'', ''wav'', ''jpg'', ''jpeg'', ''png'', ''gif'',
      ''zip'', ''rar'', ''tar'', ''gz'', ''epub'', ''pdf'', ''txt'']"

record tok_state =
  tk_out :: "bytes list"
  tk_seen :: "bytes list"
  tk_buf :: bytes

definition flush :: "tok_state \<Rightarrow> tok_state" where
  "flush s =
     (if tk_buf s = [] then s
      else
        let tok = tk_buf s; s = s\<lparr>tk_buf := []\<rparr> in
        if length tok < MinTokenBytes then s
        else if tok \<in> set stopWords then s
        else if tok \<in> set extensionTokens then s
        else if tok \<in> set (tk_seen s) then s
        else s\<lparr>tk_seen := tok # tk_seen s, tk_out := tk_out s @ [tok]\<rparr>)"

definition tok_rune :: "unicode \<Rightarrow> nat \<Rightarrow> tok_state \<Rightarrow> tok_state" where
  "tok_rune U r s =
     (if IsLetter U r \<or> IsDigit U r then s\<lparr>tk_buf := tk_buf s @ encode_rune (ToLowerRune U r)\<rparr> else flush s)"

definition tokenizeUncapped :: "unicode \<Rightarrow> bytes \<Rightarrow> bytes list" where
  "tokenizeUncapped U name =
     (if name = [] then []
      else tk_out (flush (fold (tok_rune U) (rune_values name) \<lparr>tk_out = [], tk_seen = [], tk_buf = []\<rparr>)))"

definition Tokenize :: "unicode \<Rightarrow> bytes \<Rightarrow> bytes list" where
  "Tokenize U name =
     (let out = tokenizeUncapped U name
      in if length out > MaxKeywordsPerTorrent then take MaxKeywordsPerTorrent out else out)"

definition TokenizeAll :: "unicode \<Rightarrow> bytes \<Rightarrow> bytes list" where
  "TokenizeAll U name = tokenizeUncapped U name"

definition MostDistinctive :: "bytes list \<Rightarrow> bytes" where
  "MostDistinctive tokens = fold (\<lambda>tok best. if length tok > length best then tok else best) tokens []"

section \<open>A reference tokenizer\<close>

definition word_rune :: "unicode \<Rightarrow> nat \<Rightarrow> bool" where "word_rune U r \<longleftrightarrow> IsLetter U r \<or> IsDigit U r"

text \<open>The maximal runs of elements that satisfy \<open>P\<close>.\<close>

function runs :: "('a \<Rightarrow> bool) \<Rightarrow> 'a list \<Rightarrow> 'a list list" where
  "runs P xs = (case dropWhile (\<lambda>x. \<not> P x) xs of [] \<Rightarrow> [] | y # ys \<Rightarrow> takeWhile P (y # ys) # runs P (dropWhile P (y # ys)))"
  by pat_completeness auto
termination
proof (relation "measure (length \<circ> snd)")
  fix P :: "'a \<Rightarrow> bool" and xs y ys
  assume a: "dropWhile (\<lambda>x. \<not> P x) xs = y # ys"
  then have "P y" using hd_dropWhile [of "\<lambda>x. \<not> P x" xs] by simp
  then have "length (dropWhile P (y # ys)) < length (y # ys)" using length_dropWhile_le [of P ys] by simp
  also have "... \<le> length xs" unfolding a [symmetric] by (rule length_dropWhile_le)
  finally show "((P, dropWhile P (y # ys)), (P, xs)) \<in> measure (length \<circ> snd)" by simp
qed simp

declare runs.simps [simp del]

definition keep_token :: "bytes \<Rightarrow> bool" where
  "keep_token tok \<longleftrightarrow> MinTokenBytes \<le> length tok \<and> tok \<notin> set stopWords \<and> tok \<notin> set extensionTokens"

definition lower_word :: "unicode \<Rightarrow> nat list \<Rightarrow> bytes" where
  "lower_word U rs = concat (map (encode_rune \<circ> ToLowerRune U) rs)"

definition tokens_reference :: "unicode \<Rightarrow> bytes \<Rightarrow> bytes list" where
  "tokens_reference U name = first_appearance {} (filter keep_token (map (lower_word U) (runs (word_rune U) (rune_values name))))"

section \<open>Equivalence\<close>

lemma encode_rune_nonempty [simp]: "encode_rune c \<noteq> []"
  by (simp add: encode_rune_def Let_def)

lemma runs_Nil [simp]: "runs P [] = []"
  by (simp add: runs.simps)

lemma runs_skip: "\<not> P x \<Longrightarrow> runs P (x # xs) = runs P xs"
  by (subst (1 2) runs.simps) simp

lemma runs_word: "P x \<Longrightarrow> list_all P w \<Longrightarrow> runs P ((x # w) @ xs) = (x # w @ takeWhile P xs) # runs P (dropWhile P xs)"
  by (subst runs.simps) (simp add: list_all_iff takeWhile_append2 dropWhile_append2)

text \<open>What is still to come when the buffer holds the word \<open>w\<close>.\<close>

definition pending :: "unicode \<Rightarrow> nat list \<Rightarrow> nat list \<Rightarrow> bytes list" where
  "pending U w rs = filter keep_token (map (lower_word U) (runs (word_rune U) (w @ rs)))"

definition tok_inv :: "unicode \<Rightarrow> nat list \<Rightarrow> tok_state \<Rightarrow> bool" where
  "tok_inv U w s \<longleftrightarrow> set (tk_seen s) = set (tk_out s) \<and> tk_buf s = lower_word U w \<and> list_all (word_rune U) w"

lemma lower_word_Nil_iff [simp]: "lower_word U w = [] \<longleftrightarrow> w = []"
  by (cases w) (simp_all add: lower_word_def)

lemma flush_word:
  assumes "tok_inv U w s"
  shows "tk_out (flush s) = tk_out s @ first_appearance (set (tk_out s)) (pending U w [])" and "tok_inv U [] (flush s)"
proof -
  have r: "runs (word_rune U) w = (if w = [] then [] else [w])"
    using assms runs_word [of "word_rune U" _ _ "[]"] by (cases w) (auto simp: tok_inv_def)
  show "tk_out (flush s) = tk_out s @ first_appearance (set (tk_out s)) (pending U w [])"
    using assms by (auto simp: flush_def pending_def r tok_inv_def keep_token_def Let_def)
  show "tok_inv U [] (flush s)" using assms by (auto simp: flush_def tok_inv_def Let_def lower_word_def)
qed

lemma first_appearance_append:
  "first_appearance S (xs @ ys) = first_appearance S xs @ first_appearance (S \<union> set xs) ys"
proof (induction S xs rule: first_appearance.induct)
  case (2 seen x xs)
  then show ?case by (cases "x \<in> seen") (simp_all add: insert_absorb Un_absorb1)
qed simp

lemma pending_break:
  assumes "list_all (word_rune U) w" and "\<not> word_rune U r"
  shows "pending U w (r # rs) = pending U w [] @ pending U [] rs"
proof (cases w)
  case Nil
  then show ?thesis using assms(2) by (simp add: pending_def runs_skip)
next
  case (Cons x w')
  then show ?thesis using assms runs_word [of "word_rune U" x w' "r # rs"] runs_word [of "word_rune U" x w' "[]"]
    by (simp add: pending_def runs_skip)
qed

lemma tokenizer_run:
  assumes "tok_inv U w s"
  shows "tk_out (flush (fold (tok_rune U) rs s)) = tk_out s @ first_appearance (set (tk_out s)) (pending U w rs)"
  using assms
proof (induction rs arbitrary: w s)
  case Nil
  then show ?case using flush_word(1) by simp
next
  case (Cons r rs)
  show ?case
  proof (cases "word_rune U r")
    case True
    then have "tok_inv U (w @ [r]) (tok_rune U r s)" using Cons.prems by (simp add: tok_inv_def tok_rune_def word_rune_def lower_word_def)
    moreover have "tk_out (tok_rune U r s) = tk_out s" using True by (simp add: tok_rune_def word_rune_def)
    ultimately show ?thesis using Cons.IH by (simp add: pending_def)
  next
    case False
    then have f: "tok_rune U r s = flush s" by (simp add: tok_rune_def word_rune_def)
    have w: "list_all (word_rune U) w" using Cons.prems by (simp add: tok_inv_def)
    show ?thesis using Cons.IH [OF flush_word(2) [OF Cons.prems]] flush_word(1) [OF Cons.prems]
      by (simp add: f pending_break [OF w False] first_appearance_append first_appearance_set Un_Diff_cancel)
  qed
qed

lemma tokenize_reference: "tokenizeUncapped U name = tokens_reference U name"
proof (cases "name = []")
  case True
  then show ?thesis by (simp add: tokenizeUncapped_def tokens_reference_def rune_values.simps)
next
  case False
  have "tok_inv U [] \<lparr>tk_out = [], tk_seen = [], tk_buf = []\<rparr>" by (simp add: tok_inv_def lower_word_def)
  from tokenizer_run [OF this, of "rune_values name"] False show ?thesis
    by (simp add: tokenizeUncapped_def tokens_reference_def pending_def)
qed

lemma runs_elem: "w \<in> set (runs P xs) \<Longrightarrow> w \<noteq> [] \<and> list_all P w"
proof (induction P xs rule: runs.induct)
  case (1 P xs)
  show ?case
  proof (cases "dropWhile (\<lambda>x. \<not> P x) xs")
    case Nil
    then have "runs P xs = []" by (subst runs.simps) (simp only: list.case)
    then show ?thesis using 1(2) by simp
  next
    case (Cons y ys)
    then have y: "P y" using hd_dropWhile [of "\<lambda>x. \<not> P x" xs] by simp
    have "runs P xs = takeWhile P (y # ys) # runs P (dropWhile P (y # ys))" by (subst runs.simps) (simp only: Cons list.case)
    then have "w = takeWhile P (y # ys) \<or> w \<in> set (runs P (dropWhile P (y # ys)))" using 1(2) by (simp only: list.set insert_iff)
    then show ?thesis
    proof
      assume "w = takeWhile P (y # ys)"
      then show ?thesis using y by (simp add: list_all_iff) (metis set_takeWhileD)
    next
      assume "w \<in> set (runs P (dropWhile P (y # ys)))"
      then show ?thesis by (rule 1(1) [OF Cons])
    qed
  qed
qed

lemma MostDistinctive_step:
  "fold (\<lambda>tok best. if length tok > length best then tok else best) ts b = c \<Longrightarrow>
     (c = b \<and> (\<forall>t \<in> set ts. length t \<le> length b)) \<or>
     (\<exists>pre post. ts = pre @ c # post \<and> length b < length c \<and> (\<forall>t \<in> set pre. length t < length c) \<and> (\<forall>t \<in> set post. length t \<le> length c))"
proof (induction ts arbitrary: b)
  case (Cons t ts)
  show ?case
  proof (cases "length t > length b")
    case False
    then have "fold (\<lambda>tok best. if length tok > length best then tok else best) ts b = c" using Cons.prems by simp
    from Cons.IH [OF this] show ?thesis
    proof
      assume "\<exists>pre post. ts = pre @ c # post \<and> length b < length c \<and> (\<forall>t \<in> set pre. length t < length c) \<and> (\<forall>t \<in> set post. length t \<le> length c)"
      then obtain pre post where "ts = pre @ c # post" "length b < length c" "\<forall>t \<in> set pre. length t < length c" "\<forall>t \<in> set post. length t \<le> length c" by blast
      then show ?thesis using False by (intro disjI2 exI [of _ "t # pre"] exI [of _ post]) auto
    qed (use False in auto)
  next
    case True
    then have "fold (\<lambda>tok best. if length tok > length best then tok else best) ts t = c" using Cons.prems by simp
    from Cons.IH [OF this] show ?thesis
    proof
      assume "\<exists>pre post. ts = pre @ c # post \<and> length t < length c \<and> (\<forall>t \<in> set pre. length t < length c) \<and> (\<forall>t \<in> set post. length t \<le> length c)"
      then obtain pre post where "ts = pre @ c # post" "length t < length c" "\<forall>t \<in> set pre. length t < length c" "\<forall>t \<in> set post. length t \<le> length c" by blast
      then show ?thesis using True by (intro disjI2 exI [of _ "t # pre"] exI [of _ post]) auto
    next
      assume "c = t \<and> (\<forall>u \<in> set ts. length u \<le> length t)"
      then show ?thesis using True by (intro disjI2 exI [of _ "[]"] exI [of _ ts]) auto
    qed
  qed
qed simp

lemma tokens_long: "t \<in> set (tokenizeUncapped U name) \<Longrightarrow> keep_token t"
  by (simp add: tokenize_reference tokens_reference_def first_appearance_set)

lemma Tokenize_take: "Tokenize U name = take MaxKeywordsPerTorrent (tokenizeUncapped U name)"
  by (simp add: Tokenize_def Let_def)

section \<open>Properties\<close>

text \<open>
  C24: the tokenizer.  It returns the first eight of the reference tokens: the distinct words of the
  name in order of appearance, lower-cased, without those shorter than three bytes, the stop words and
  the file extensions.  The keyword a search is made for is the earliest of the longest tokens of the
  query, and empty only when there is no token.
\<close>

theorem tokenize_is_reference:
  "Tokenize U name = take 8 (tokens_reference U name) \<and> TokenizeAll U name = tokens_reference U name \<and>
   (if Tokenize U name = [] then MostDistinctive (Tokenize U name) = []
    else \<exists>pre post. Tokenize U name = pre @ MostDistinctive (Tokenize U name) # post \<and>
           (\<forall>t \<in> set pre. length t < length (MostDistinctive (Tokenize U name))) \<and>
           (\<forall>t \<in> set post. length t \<le> length (MostDistinctive (Tokenize U name))))"
proof -
  have "\<exists>pre post. Tokenize U name = pre @ MostDistinctive (Tokenize U name) # post \<and>
           (\<forall>t \<in> set pre. length t < length (MostDistinctive (Tokenize U name))) \<and>
           (\<forall>t \<in> set post. length t \<le> length (MostDistinctive (Tokenize U name)))" if ne: "Tokenize U name \<noteq> []"
  proof -
    obtain t where "t \<in> set (Tokenize U name)" using ne by (cases "Tokenize U name") auto
    then have "keep_token t" by (auto simp: Tokenize_take dest!: in_set_takeD tokens_long)
    then have "\<not> length t \<le> length ([] :: bytes)" by (auto simp: keep_token_def MinTokenBytes_def)
    then have "\<not> (\<forall>t \<in> set (Tokenize U name). length t \<le> length ([] :: bytes))"
      using \<open>t \<in> set (Tokenize U name)\<close> by blast
    then show ?thesis using MostDistinctive_step [of "Tokenize U name" "[]" "MostDistinctive (Tokenize U name)"]
      unfolding MostDistinctive_def by blast
  qed
  then show ?thesis
    by (simp add: Tokenize_take TokenizeAll_def tokenize_reference MaxKeywordsPerTorrent_def MostDistinctive_def)
qed

text \<open>What is relied on of the Unicode tables: lower-casing a letter or digit gives one, once and for all.\<close>

definition tables_ok :: "unicode \<Rightarrow> bool" where
  "tables_ok U \<longleftrightarrow> (\<forall>r. word_rune U r \<longrightarrow>
     word_rune U (ToLowerRune U r) \<and> ToLowerRune U (ToLowerRune U r) = ToLowerRune U r \<and> is_scalar (ToLowerRune U r))"

lemma token_stable:
  assumes "tables_ok U" and "tok \<in> set (tokenizeUncapped U name)"
  shows "tokenizeUncapped U tok = [tok]"
proof -
  have k: "keep_token tok" by (rule tokens_long [OF assms(2)])
  obtain w where w: "w \<in> set (runs (word_rune U) (rune_values name))" "tok = lower_word U w"
    using assms(2) by (auto simp: tokenize_reference tokens_reference_def first_appearance_set)
  have P: "w \<noteq> []" "list_all (word_rune U) w" using runs_elem [OF w(1)] by auto
  let ?l = "map (ToLowerRune U) w"
  have l: "list_all (word_rune U) ?l" "list_all is_scalar ?l" "map (ToLowerRune U) ?l = ?l"
    using P(2) assms(1) by (auto simp: list_all_iff tables_ok_def)
  have "rune_values tok = ?l" using rune_values_encode [OF l(2)] w(2) by (simp add: lower_word_def comp_def)
  moreover have "runs (word_rune U) ?l = [?l]" using runs_word [of "word_rune U" "hd ?l" "tl ?l" "[]"] l(1) P(1) by (cases w) auto
  moreover have "lower_word U ?l = tok" using l(3) unfolding w(2) lower_word_def by (metis map_map)
  ultimately show ?thesis using k by (simp add: tokenize_reference tokens_reference_def)
qed

text \<open>
  Publishing and searching meet.  A token of a name, used as a query, is its own and only token
  and the keyword the search is made for: whoever searches for it derives exactly the string under
  which it was published.
\<close>

lemma token_is_its_own_query:
  assumes "tables_ok U" and "tok \<in> set (Tokenize U name)"
  shows "Tokenize U tok = [tok] \<and> MostDistinctive (Tokenize U tok) = tok"
proof -
  have "tok \<in> set (tokenizeUncapped U name)" using assms(2) by (auto simp: Tokenize_take dest: in_set_takeD)
  from token_stable [OF assms(1) this] tokens_long [OF this] show ?thesis
    by (auto simp: Tokenize_take MaxKeywordsPerTorrent_def MostDistinctive_def keep_token_def MinTokenBytes_def)
qed

text \<open>The tables restricted to ASCII.\<close>

definition ascii_tables :: unicode where
  "ascii_tables = \<lparr>IsLetter = (\<lambda>r. 65 \<le> r \<and> r \<le> 90 \<or> 97 \<le> r \<and> r \<le> 122), IsDigit = (\<lambda>r. 48 \<le> r \<and> r \<le> 57),
     ToLowerRune = (\<lambda>r. if 65 \<le> r \<and> r \<le> 90 then r + 32 else r)\<rparr>"

lemma ascii_tables_ok: "tables_ok ascii_tables"
  by (auto simp: tables_ok_def ascii_tables_def word_rune_def is_scalar_def)

lemma lab_runes: "rune_values (ascii ''Ab1'') = [65, 98, 49]" by code_simp
lemma lab_codes: "encode_rune 97 = [97]" "encode_rune 98 = [98]" "encode_rune 49 = [49]" "ascii ''Ab1'' = [65, 98, 49]" "ascii ''ab1'' = [97, 98, 49]"
  by (simp_all add: encode_rune_def is_scalar_def byte_of_def ascii_def)
lemma lab_kept: "[97, 98, 49] \<notin> set stopWords" "[97, 98, 49] \<notin> set extensionTokens"
  by (simp_all add: stopWords_def extensionTokens_def ascii_def)

lemma lab_tokens: "Tokenize ascii_tables (ascii ''Ab1'') = [ascii ''ab1'']"
  using lab_runes unfolding lab_codes
  by (simp add: Tokenize_def tokenizeUncapped_def tok_rune_def ascii_tables_def lab_codes flush_def lab_kept MinTokenBytes_def MaxKeywordsPerTorrent_def Let_def)

theorem token_is_its_own_query_witness:
  "Tokenize ascii_tables (ascii ''Ab1'') = [ascii ''ab1''] \<and> Tokenize ascii_tables (ascii ''ab1'') = [ascii ''ab1'']"
proof -
  have "ascii ''ab1'' \<in> set (Tokenize ascii_tables (ascii ''Ab1''))" using lab_tokens by simp
  from token_is_its_own_query [OF ascii_tables_ok this] lab_tokens show ?thesis by blast
qed

theorem tokenize_is_reference_witness:
  "take 8 (tokens_reference ascii_tables (ascii ''Ab1'')) = [ascii ''ab1''] \<and> MostDistinctive (Tokenize ascii_tables (ascii ''Ab1'')) = ascii ''ab1''"
proof -
  have "MostDistinctive [ascii ''ab1''] = ascii ''ab1''" unfolding lab_codes by (simp add: MostDistinctive_def)
  then show ?thesis using tokenize_is_reference [of ascii_tables "ascii ''Ab1''"] lab_tokens by simp
qed

end
