(* ===== verification/Dht_Schema.thy ===== *)
theory Dht_Schema
  imports Token
begin

text \<open>
  The values stored in the DHT (\<^verbatim>\<open>contracts/dhtschema/dhtschema.go\<close>, \<^verbatim>\<open>ppmi.go\<close>).  The third-party
  bencode library is a parameter, bundled in \<open>dht_codec\<close>: one marshaller and one decoder per type, the
  decoder with its limit on the length of a string.  A nil slice is \<open>None\<close>.  The clock is an argument,
  in seconds.
\<close>

section \<open>Keyword values\<close>

definition MaxSaltBytes :: nat where "MaxSaltBytes = 64"
definition MaxValueBytes :: nat where "MaxValueBytes = 1000"

record KeywordHit =
  kh_IH :: bytes
  kh_N :: bytes
  kh_S :: int
  kh_F :: int
  kh_Sz :: int

record KeywordValue =
  kv_Ts :: int
  kv_Hits :: "KeywordHit list option"
  kv_More :: int
  kv_NextPubKey :: bytes

record PPMIValue =
  pp_IH :: bytes
  pp_Commit :: bytes
  pp_Topics :: bytes
  pp_Ts :: int
  pp_NextPk :: bytes

record dht_codec =
  kv_marshal :: "KeywordValue \<Rightarrow> bytes option"
  kv_decode :: "nat \<Rightarrow> bytes \<Rightarrow> KeywordValue option"
  pp_marshal :: "PPMIValue \<Rightarrow> bytes option"
  pp_decode :: "nat \<Rightarrow> bytes \<Rightarrow> PPMIValue option"

datatype schema_error = ErrMarshalValue | ErrValueCap nat | ErrEmptyValue | ErrDecodeValue | ErrEmptyKeyword | ErrSaltCap nat
  | ErrPPMIWidth nat

definition value_of :: "KeywordHit list \<Rightarrow> KeywordValue" where
  "value_of hits = \<lparr>kv_Ts = 0, kv_Hits = Some hits, kv_More = 0, kv_NextPubKey = []\<rparr>"

definition stamp :: "int \<Rightarrow> KeywordValue \<Rightarrow> KeywordValue" where
  "stamp now v = (if kv_Ts v = 0 then v\<lparr>kv_Ts := now\<rparr> else v)"

definition EncodeValue :: "dht_codec \<Rightarrow> int \<Rightarrow> KeywordValue \<Rightarrow> schema_error + bytes" where
  "EncodeValue K now v =
     (let v = stamp now v; v = (if kv_Hits v = None then v\<lparr>kv_Hits := Some []\<rparr> else v) in
      case kv_marshal K v of
        None \<Rightarrow> Inl ErrMarshalValue
      | Some out \<Rightarrow> if length out > MaxValueBytes then Inl (ErrValueCap (length out)) else Inr out)"

definition DecodeValue :: "dht_codec \<Rightarrow> bytes \<Rightarrow> schema_error + KeywordValue" where
  "DecodeValue K payload =
     (if payload = [] then Inl ErrEmptyValue
      else if length payload > MaxValueBytes then Inl (ErrValueCap (length payload))
      else case kv_decode K MaxValueBytes payload of None \<Rightarrow> Inl ErrDecodeValue | Some v \<Rightarrow> Inr v)"

definition EstimateValueSize :: "dht_codec \<Rightarrow> int \<Rightarrow> KeywordValue \<Rightarrow> nat" where
  "EstimateValueSize K now v =
     (case kv_marshal K (stamp now v) of None \<Rightarrow> MaxValueBytes + 1 | Some out \<Rightarrow> length out)"

definition SaltForKeyword :: "bytes \<Rightarrow> schema_error + bytes" where
  "SaltForKeyword keyword =
     (if keyword = [] then Inl ErrEmptyKeyword
      else if length keyword > MaxSaltBytes then Inl (ErrSaltCap (length keyword))
      else Inr keyword)"

text \<open>\<open>fmt\<close>'s \<open>%d\<close>.\<close>

fun dec_nat :: "nat \<Rightarrow> bytes" where
  "dec_nat n = (if n < 10 then [of_nat (48 + n)] else dec_nat (n div 10) @ [of_nat (48 + n mod 10)])"

declare dec_nat.simps [simp del]

definition dec_int :: "int \<Rightarrow> bytes" where
  "dec_int i = (if i < 0 then 45 # dec_nat (nat (- i)) else dec_nat (nat i))"

definition SaltForShard :: "bytes \<Rightarrow> int \<Rightarrow> schema_error + bytes" where
  "SaltForShard keyword shard =
     (if shard = 0 then SaltForKeyword keyword else SaltForKeyword (keyword @ ascii ''#'' @ dec_int shard))"

section \<open>Publisher pointers\<close>

definition PPMISaltSeed :: bytes where "PPMISaltSeed = ascii ''snet.index''"
definition PPMISalt :: "(bytes \<Rightarrow> bytes) \<Rightarrow> bytes" where "PPMISalt hash256 = hash256 PPMISaltSeed"
definition MaxPPMIValueBytes :: nat where "MaxPPMIValueBytes = MaxValueBytes"

definition ppmi_width_error :: "PPMIValue \<Rightarrow> schema_error option" where
  "ppmi_width_error v =
     (if length (pp_IH v) \<noteq> 20 then Some (ErrPPMIWidth (length (pp_IH v)))
      else if length (pp_Commit v) \<noteq> 0 \<and> length (pp_Commit v) \<noteq> 32 then Some (ErrPPMIWidth (length (pp_Commit v)))
      else if length (pp_Topics v) \<noteq> 0 \<and> length (pp_Topics v) \<noteq> 32 then Some (ErrPPMIWidth (length (pp_Topics v)))
      else if length (pp_NextPk v) \<noteq> 0 \<and> length (pp_NextPk v) \<noteq> 32 then Some (ErrPPMIWidth (length (pp_NextPk v)))
      else None)"

definition EncodePPMI :: "dht_codec \<Rightarrow> int \<Rightarrow> PPMIValue \<Rightarrow> schema_error + bytes" where
  "EncodePPMI K now v =
     (case ppmi_width_error v of
        Some e \<Rightarrow> Inl e
      | None \<Rightarrow>
          (let v = (if pp_Ts v = 0 then v\<lparr>pp_Ts := now\<rparr> else v) in
           case pp_marshal K v of
             None \<Rightarrow> Inl ErrMarshalValue
           | Some out \<Rightarrow> if length out > MaxPPMIValueBytes then Inl (ErrValueCap (length out)) else Inr out))"

definition DecodePPMI :: "dht_codec \<Rightarrow> bytes \<Rightarrow> schema_error + PPMIValue" where
  "DecodePPMI K payload =
     (if payload = [] then Inl ErrEmptyValue
      else if length payload > MaxPPMIValueBytes then Inl (ErrValueCap (length payload))
      else case pp_decode K MaxValueBytes payload of
             None \<Rightarrow> Inl ErrDecodeValue
           | Some v \<Rightarrow> (case ppmi_width_error v of Some e \<Rightarrow> Inl e | None \<Rightarrow> Inr v))"

section \<open>Lemmas\<close>

lemma EncodeValue_fits:
  assumes "EstimateValueSize K now (value_of hits) \<le> MaxValueBytes"
  shows "\<exists>out. EncodeValue K now (value_of hits) = Inr out"
  using assms by (auto simp: EstimateValueSize_def EncodeValue_def value_of_def stamp_def Let_def split: option.splits if_splits)

lemma SaltForKeyword_inj: "SaltForKeyword a = Inr s \<Longrightarrow> SaltForKeyword b = Inr s \<Longrightarrow> a = b"
  by (simp add: SaltForKeyword_def split: if_splits)

lemma SaltForKeyword_self: "SaltForKeyword a = Inr s \<Longrightarrow> s = a"
  by (simp add: SaltForKeyword_def split: if_splits)

end
