(* ===== verification/Dht_Aggregate.thy ===== *)
theory Dht_Aggregate
  imports Dht_Schema Snagg_Index Hex
begin

text \<open>
  The aggregate backend (\<^verbatim>\<open>internal/dhtindex/aggregate.go\<close>, \<^verbatim>\<open>aggregate_torrent.go\<close>): a publisher signs
  its keywords as records, packs them into an index file and answers lookups from it.  The code that
  seeds a file and the one that fetches another publisher's are ports, here the list of calls made of
  the first and a function for the second.  \<open>None\<close> is a computation that does not return.
\<close>

section \<open>The backend\<close>

record aggregatePPMI =
  a_priv :: "bytes option"
  a_pub :: bytes
  a_records :: "(bytes \<times> Record) list"
  a_tree :: "bytes option"
  a_fp :: bytes
  a_dirty :: bool
  a_gen :: u64

definition newAggregatePPMI :: "bytes option \<Rightarrow> bytes \<Rightarrow> aggregatePPMI" where
  "newAggregatePPMI priv pub =
     \<lparr>a_priv = priv, a_pub = pub, a_records = [], a_tree = None, a_fp = replicate 32 0, a_dirty = False, a_gen = 0\<rparr>"

definition treeName :: "aggregatePPMI \<Rightarrow> string" where
  "treeName a = ''swartznet-aggregate-'' @ hex_EncodeToString (take 8 (a_pub a)) @ ''.snagg''"

text \<open>\<open>strings.ToLower\<close>, rune by rune.\<close>

definition lower_string :: "unicode \<Rightarrow> bytes \<Rightarrow> bytes" where
  "lower_string U s = concat (map (encode_rune \<circ> ToLowerRune U) (rune_values s))"

definition publish_record :: "crypto \<Rightarrow> unicode \<Rightarrow> bytes \<Rightarrow> bytes \<Rightarrow> 64 word \<Rightarrow> bytes \<Rightarrow> aggregatePPMI \<Rightarrow> aggregatePPMI option" where
  "publish_record C U priv ih now kw a =
     (let kw = lower_string U kw in
      if kw = [] \<or> length kw > MaxKeywordBytes then Some a
      else case SignAndMine C priv (a_pub a) kw ih now 0 of
             None \<Rightarrow> None
           | Some (Inl _) \<Rightarrow> Some a
           | Some (Inr r) \<Rightarrow> Some (a\<lparr>a_records := AList.update (ElementID C r) r (a_records a)\<rparr>))"

fun publish_records :: "crypto \<Rightarrow> unicode \<Rightarrow> bytes \<Rightarrow> bytes \<Rightarrow> 64 word \<Rightarrow> bytes list \<Rightarrow> aggregatePPMI \<Rightarrow> aggregatePPMI option" where
  "publish_records C U priv ih now [] a = Some a"
| "publish_records C U priv ih now (kw # kws) a =
     (case publish_record C U priv ih now kw a of None \<Rightarrow> None | Some a \<Rightarrow> publish_records C U priv ih now kws a)"

definition agg_Publish :: "crypto \<Rightarrow> unicode \<Rightarrow> 64 word \<Rightarrow> bytes list \<Rightarrow> KeywordHit \<Rightarrow> aggregatePPMI \<Rightarrow> aggregatePPMI option" where
  "agg_Publish C U now keywords hit a =
     (case a_priv a of
        None \<Rightarrow> Some a
      | Some priv \<Rightarrow>
          if length (kh_IH hit) \<noteq> 20 then Some a
          else map_option (\<lambda>a. a\<lparr>a_dirty := True\<rparr>) (publish_records C U priv (copy_array 20 (kh_IH hit)) now keywords a))"

definition build_input :: "aggregatePPMI \<Rightarrow> BuildInput" where
  "build_input a = \<lparr>Records = map snd (a_records a), b_PubKey = a_pub a, PrivKey = a_priv a, b_Seq = 1, CreatedTs = 0,
     MinPoWBits = 0, PieceSize = MinPieceSize\<rparr>"

definition rebuildLocked :: "crypto \<Rightarrow> codec \<Rightarrow> u64 \<Rightarrow> aggregatePPMI \<Rightarrow> aggregatePPMI option" where
  "rebuildLocked C K now a =
     (if \<not> a_dirty a then Some a
      else
        let a = a\<lparr>a_dirty := False, a_gen := a_gen a + 1\<rparr> in
        if a_records a = [] \<or> a_priv a = None then Some (a\<lparr>a_tree := None, a_fp := replicate 32 0\<rparr>)
        else case BuildBTree C K now (build_input a) of
               None \<Rightarrow> None
             | Some (Inl _) \<Rightarrow> Some (a\<lparr>a_tree := None, a_fp := replicate 32 0\<rparr>)
             | Some (Inr built) \<Rightarrow> Some (a\<lparr>a_tree := Some (Bytes built), a_fp := Fingerprint built\<rparr>))"

definition agg_Retract :: "crypto \<Rightarrow> codec \<Rightarrow> u64 \<Rightarrow> bytes \<Rightarrow> aggregatePPMI \<Rightarrow> aggregatePPMI option" where
  "agg_Retract C K now ih a =
     (let rest = filter (\<lambda>(i, r). Ih r \<noteq> ih) (a_records a)
      in if length rest \<noteq> length (a_records a) then rebuildLocked C K now (a\<lparr>a_records := rest, a_dirty := True\<rparr>) else Some a)"

section \<open>Distribution\<close>

datatype dist_call = PublishTree string bytes bytes | RetractTree

definition distribute :: "string \<Rightarrow> bytes option \<Rightarrow> bytes \<Rightarrow> dist_call" where
  "distribute name tree fp = (case tree of None \<Rightarrow> RetractTree | Some bytes \<Rightarrow> PublishTree name bytes fp)"

text \<open>
  A refresh releases the lock while it distributes: \<open>mid\<close> is what other callers do meanwhile, \<open>ok\<close>
  whether each call of the publisher succeeds.  The result is the calls made, whether an error is
  returned, and the state.
\<close>

definition agg_Refresh :: "crypto \<Rightarrow> codec \<Rightarrow> u64 \<Rightarrow> bool \<Rightarrow> (nat \<Rightarrow> bool) \<Rightarrow> (aggregatePPMI \<Rightarrow> aggregatePPMI) \<Rightarrow> aggregatePPMI \<Rightarrow>
    (dist_call list \<times> bool \<times> aggregatePPMI) option" where
  "agg_Refresh C K now publishing ok mid a =
     (case rebuildLocked C K now a of
        None \<Rightarrow> None
      | Some a1 \<Rightarrow>
          if \<not> publishing then Some ([], False, a1)
          else
            let call1 = distribute (treeName a1) (a_tree a1) (a_fp a1); a2 = mid a1 in
            if \<not> ok 0 then Some ([call1], True, a2)
            else if a_gen a2 \<noteq> a_gen a1 then Some ([call1, distribute (treeName a1) (a_tree a2) (a_fp a2)], \<not> ok 1, a2)
            else Some ([call1], False, a2))"

section \<open>Lookups\<close>

definition key_hit :: "Record \<Rightarrow> KeywordHit" where
  "key_hit r = \<lparr>kh_IH = Ih r, kh_N = [], kh_S = 0, kh_F = 0, kh_Sz = 0\<rparr>"

definition exactHits :: "crypto \<Rightarrow> codec \<Rightarrow> Tree \<Rightarrow> bytes \<Rightarrow> snagg_error + KeywordHit list" where
  "exactHits C K tree tok =
     (case Find C K tree tok of
        Inl e \<Rightarrow> Inl e
      | Inr found \<Rightarrow> Inr (map key_hit (filter (\<lambda>r. Kw r = tok) found)))"

text \<open>A resolver gives an error, nothing, or a tree.\<close>

definition agg_Lookup :: "crypto \<Rightarrow> codec \<Rightarrow> u64 \<Rightarrow> (bytes \<Rightarrow> unit + Tree option) option \<Rightarrow> bytes \<Rightarrow> bytes \<Rightarrow> aggregatePPMI \<Rightarrow>
    ((snagg_error + KeywordHit list) \<times> aggregatePPMI) option" where
  "agg_Lookup C K now resolver indexerPub tok a =
     (if indexerPub \<noteq> a_pub a then
        (case resolver of
           None \<Rightarrow> Some (Inr [], a)
         | Some resolve \<Rightarrow>
             (case resolve indexerPub of
                Inl _ \<Rightarrow> Some (Inr [], a)
              | Inr None \<Rightarrow> Some (Inr [], a)
              | Inr (Some tree) \<Rightarrow> Some (exactHits C K tree tok, a)))
      else
        case rebuildLocked C K now a of
          None \<Rightarrow> None
        | Some a \<Rightarrow>
            (case a_tree a of
               None \<Rightarrow> Some (Inr [], a)
             | Some treeBytes \<Rightarrow>
                 (case OpenBTree C (BytesPageSource treeBytes MinPieceSize) of
                    Inl e \<Rightarrow> Some (Inl e, a)
                  | Inr tree \<Rightarrow> Some (exactHits C K tree tok, a))))"

definition SnaggPieceLength :: int where "SnaggPieceLength = MinPieceSize"

datatype tree_error = ErrTree snagg_error | ErrCommit

definition OpenVerifiedTree :: "crypto \<Rightarrow> bytes \<Rightarrow> bytes \<Rightarrow> tree_error + Tree" where
  "OpenVerifiedTree C data expectedCommit =
     (case OpenBTree C (BytesPageSource data SnaggPieceLength) of
        Inl e \<Rightarrow> Inl (ErrTree e)
      | Inr tree \<Rightarrow>
          if length expectedCommit = 32 \<and> t_Fingerprint (trailer tree) \<noteq> expectedCommit then Inl ErrCommit else Inr tree)"

definition agg_Status :: "aggregatePPMI \<Rightarrow> bytes \<times> nat \<times> nat" where
  "agg_Status a = (a_pub a, card (Kw ` snd ` set (a_records a)), length (a_records a))"

section \<open>Records of a publisher\<close>

definition signed_record :: "crypto \<Rightarrow> bytes \<Rightarrow> bytes \<Rightarrow> bytes \<Rightarrow> bytes \<Rightarrow> 64 word \<Rightarrow> Record" where
  "signed_record C priv pub kw ih t =
     (let r = \<lparr>Pk = pub, Kw = kw, Ih = ih, T = t, Pow = 0, Sig = replicate 64 0\<rparr>
      in r\<lparr>Sig := copy_array 64 (ed25519_sign C priv (SigMessage r))\<rparr>)"

lemma SignAndMine_free:
  "1 \<le> length kw \<Longrightarrow> length kw \<le> MaxKeywordBytes \<Longrightarrow> SignAndMine C priv pub kw ih t 0 = Some (Inr (signed_record C priv pub kw ih t))"
  by (cases kw) (simp_all add: SignAndMine_def MinePoW_def signed_record_def Let_def)

lemma signed_record_fields [simp]:
  "Pk (signed_record C priv pub kw ih t) = pub" "Kw (signed_record C priv pub kw ih t) = kw"
  "Ih (signed_record C priv pub kw ih t) = ih" "length (Sig (signed_record C priv pub kw ih t)) = 64"
  by (simp_all add: signed_record_def Let_def)

lemma signed_record_verifies: "signs_for C priv pub \<Longrightarrow> Verify C (signed_record C priv pub kw ih t) = None"
  by (simp add: Verify_def signs_for_def signed_record_def Let_def SigMessage_def idPreimage_def)

definition record_ok :: "crypto \<Rightarrow> bytes \<Rightarrow> bytes \<times> Record \<Rightarrow> bool" where
  "record_ok C pub = (\<lambda>(i, r). i = ElementID C r \<and> wf_record r \<and> Pk r = pub \<and> Verify C r = None \<and> 1 \<le> length (Kw r) \<and> length (Kw r) \<le> MaxKeywordBytes)"

text \<open>The file in memory is what the builder makes of the records, unless they changed since.\<close>

definition tree_of :: "crypto \<Rightarrow> codec \<Rightarrow> u64 \<Rightarrow> aggregatePPMI \<Rightarrow> bytes option \<times> bytes" where
  "tree_of C K now a =
     (if a_records a = [] \<or> a_priv a = None then (None, replicate 32 0)
      else case BuildBTree C K now (build_input a) of
             Some (Inr built) \<Rightarrow> (Some (Bytes built), Fingerprint built)
           | _ \<Rightarrow> (None, replicate 32 0))"

definition agg_inv :: "crypto \<Rightarrow> codec \<Rightarrow> aggregatePPMI \<Rightarrow> bool" where
  "agg_inv C K a \<longleftrightarrow> (\<forall>x \<in> set (a_records a). record_ok C (a_pub a) x) \<and> (a_dirty a \<or> (\<exists>now. (a_tree a, a_fp a) = tree_of C K now a))"

definition claims :: "aggregatePPMI \<Rightarrow> (bytes \<times> bytes) set" where
  "claims a = (\<lambda>(i, r). (Kw r, Ih r)) ` set (a_records a)"

text \<open>No two records share an element id unless they have the same identity.\<close>

definition collision_free :: "crypto \<Rightarrow> bool" where
  "collision_free C \<longleftrightarrow> (\<forall>r r'. wf_record r \<and> wf_record r' \<and> ElementID C r = ElementID C r' \<longrightarrow> idPreimage r = idPreimage r')"

lemma set_update_subset: "set (AList.update k v es) \<subseteq> insert (k, v) (set es)"
  by (induction es) auto

lemma set_update_superset: "set es \<subseteq> set (AList.update k v es) \<union> {x. fst x = k} \<and> (k, v) \<in> set (AList.update k v es)"
  by (induction es) auto

lemma claims_update:
  assumes "collision_free C" and "\<forall>x \<in> set (a_records a). record_ok C (a_pub a) x" and "wf_record r"
  shows "claims (a\<lparr>a_records := AList.update (ElementID C r) r (a_records a)\<rparr>) = insert (Kw r, Ih r) (claims a)"
proof -
  let ?p = "\<lambda>(i :: bytes, r :: Record). (Kw r, Ih r)" and ?new = "set (AList.update (ElementID C r) r (a_records a))"
  have same: "?p x = ?p (ElementID C r, r)" if "x \<in> set (a_records a)" and "fst x = ElementID C r" for x
  proof -
    obtain i r' where x: "x = (i, r')" by force
    have "record_ok C (a_pub a) (i, r')" using assms(2) that(1) x by blast
    moreover have "i = ElementID C r" using that(2) x by simp
    ultimately have w: "wf_record r'" and e: "ElementID C r = ElementID C r'" unfolding record_ok_def prod.case by (blast, metis)
    then have "idPreimage r = idPreimage r'" using assms(1,3) unfolding collision_free_def by blast
    then show ?thesis using idPreimage_inj [OF assms(3) w] by (simp add: x)
  qed
  have "?p ` ?new \<subseteq> ?p ` insert (ElementID C r, r) (set (a_records a))" by (intro image_mono set_update_subset)
  moreover have "?p x \<in> ?p ` ?new" if x: "x \<in> insert (ElementID C r, r) (set (a_records a))" for x
  proof (cases "x \<in> ?new")
    case False
    then have "x \<in> set (a_records a)" "fst x = ElementID C r" using set_update_superset [of "a_records a" "ElementID C r" r] x by auto
    then have "?p x = ?p (ElementID C r, r)" by (rule same)
    then show ?thesis using set_update_superset [of "a_records a" "ElementID C r" r] by blast
  qed simp
  ultimately have "?p ` ?new = ?p ` insert (ElementID C r, r) (set (a_records a))" by blast
  then show ?thesis by (simp add: claims_def)
qed

section \<open>Runs\<close>

datatype agg_op = AggPublish "64 word" "bytes list" KeywordHit | AggRetract u64 bytes | AggRebuild u64

fun agg_step :: "crypto \<Rightarrow> codec \<Rightarrow> unicode \<Rightarrow> agg_op \<Rightarrow> aggregatePPMI \<Rightarrow> aggregatePPMI option" where
  "agg_step C K U (AggPublish now kws hit) a = agg_Publish C U now kws hit a"
| "agg_step C K U (AggRetract now ih) a = agg_Retract C K now ih a"
| "agg_step C K U (AggRebuild now) a = rebuildLocked C K now a"

fun agg_run :: "crypto \<Rightarrow> codec \<Rightarrow> unicode \<Rightarrow> agg_op list \<Rightarrow> aggregatePPMI \<Rightarrow> aggregatePPMI option" where
  "agg_run C K U [] a = Some a"
| "agg_run C K U (op # ops) a = (case agg_step C K U op a of None \<Rightarrow> None | Some a \<Rightarrow> agg_run C K U ops a)"

definition good_keyword :: "bytes \<Rightarrow> bool" where
  "good_keyword kw \<longleftrightarrow> kw \<noteq> [] \<and> length kw \<le> MaxKeywordBytes"

fun claims_step :: "unicode \<Rightarrow> agg_op \<Rightarrow> (bytes \<times> bytes) set \<Rightarrow> (bytes \<times> bytes) set" where
  "claims_step U (AggPublish now kws hit) S =
     (if length (kh_IH hit) = 20 then S \<union> {(kw, kh_IH hit) |kw. kw \<in> lower_string U ` set kws \<and> good_keyword kw} else S)"
| "claims_step U (AggRetract now ih) S = S - {(kw, i). i = ih}"
| "claims_step U (AggRebuild now) S = S"

definition agg_sim :: "crypto \<Rightarrow> codec \<Rightarrow> bytes \<Rightarrow> bytes \<Rightarrow> aggregatePPMI \<Rightarrow> (bytes \<times> bytes) set \<Rightarrow> bool" where
  "agg_sim C K priv pub a S \<longleftrightarrow> agg_inv C K a \<and> a_priv a = Some priv \<and> a_pub a = pub \<and> claims a = S"

lemma publish_record_sim:
  assumes "collision_free C" and "signs_for C priv pub" and "length pub = 32" and "length ih = 20"
    and "\<forall>x \<in> set (a_records a). record_ok C pub x" and "a_pub a = pub"
  shows "\<exists>a'. publish_record C U priv ih now kw a = Some a' \<and> (\<forall>x \<in> set (a_records a'). record_ok C pub x) \<and>
    a_pub a' = pub \<and> a_priv a' = a_priv a \<and> a_tree a' = a_tree a \<and> a_fp a' = a_fp a \<and> a_gen a' = a_gen a \<and> a_dirty a' = a_dirty a \<and>
    claims a' = claims a \<union> {(k, ih) |k. k = lower_string U kw \<and> good_keyword k}"
proof (cases "good_keyword (lower_string U kw)")
  case False
  then show ?thesis using assms(5,6) by (auto simp: publish_record_def good_keyword_def)
next
  case True
  let ?k = "lower_string U kw"
  let ?r = "signed_record C priv pub ?k ih now"
  have k: "1 \<le> length ?k" "length ?k \<le> MaxKeywordBytes" using True by (cases ?k; simp add: good_keyword_def)+
  have wf: "wf_record ?r" using assms(3,4) by (simp add: wf_record_def)
  have ok: "record_ok C pub (ElementID C ?r, ?r)" using wf k signed_record_verifies [OF assms(2)] by (simp add: record_ok_def)
  have "publish_record C U priv ih now kw a = Some (a\<lparr>a_records := AList.update (ElementID C ?r) ?r (a_records a)\<rparr>)"
    using True k SignAndMine_free [OF k] assms(6) by (simp add: publish_record_def good_keyword_def Let_def)
  moreover have "claims (a\<lparr>a_records := AList.update (ElementID C ?r) ?r (a_records a)\<rparr>) = insert (?k, ih) (claims a)"
    using claims_update [OF assms(1) _ wf, of a] assms(5,6) by simp
  moreover have "\<forall>x \<in> set (AList.update (ElementID C ?r) ?r (a_records a)). record_ok C pub x"
    using set_update_subset [of "ElementID C ?r" ?r "a_records a"] ok assms(5) by blast
  ultimately show ?thesis using True assms(6) by auto
qed

lemma publish_records_sim:
  assumes "collision_free C" and "signs_for C priv pub" and "length pub = 32" and "length ih = 20"
    and "\<forall>x \<in> set (a_records a). record_ok C pub x" and "a_pub a = pub"
  shows "\<exists>a'. publish_records C U priv ih now kws a = Some a' \<and> (\<forall>x \<in> set (a_records a'). record_ok C pub x) \<and>
    a_pub a' = pub \<and> a_priv a' = a_priv a \<and> a_tree a' = a_tree a \<and> a_fp a' = a_fp a \<and> a_gen a' = a_gen a \<and>
    claims a' = claims a \<union> {(k, ih) |k. k \<in> lower_string U ` set kws \<and> good_keyword k}"
  using assms(5,6)
proof (induction kws arbitrary: a)
  case (Cons kw kws)
  from publish_record_sim [OF assms(1-4) Cons.prems, of U now kw] obtain a1 where a1: "publish_record C U priv ih now kw a = Some a1"
    "\<forall>x \<in> set (a_records a1). record_ok C pub x" "a_pub a1 = pub" "a_priv a1 = a_priv a" "a_tree a1 = a_tree a" "a_fp a1 = a_fp a" "a_gen a1 = a_gen a"
    "claims a1 = claims a \<union> {(k, ih) |k. k = lower_string U kw \<and> good_keyword k}" by blast
  from Cons.IH [OF a1(2,3)] a1 show ?case by auto
qed auto

lemma rebuild_result:
  assumes "\<forall>x \<in> set (a_records a). record_ok C (a_pub a) x" and "a_dirty a"
  shows "\<exists>a'. rebuildLocked C K now a = Some a' \<and> a_records a' = a_records a \<and> a_pub a' = a_pub a \<and> a_priv a' = a_priv a \<and>
    (a_tree a', a_fp a') = tree_of C K now a' \<and> \<not> a_dirty a' \<and> a_gen a' = a_gen a + 1"
proof -
  let ?a = "a\<lparr>a_dirty := False, a_gen := a_gen a + 1\<rparr>"
  have b: "build_input ?a = build_input a" by (simp add: build_input_def)
  have "\<forall>r \<in> set (Records (build_input a)). wf_record r" using assms(1) by (auto simp: build_input_def record_ok_def)
  then obtain res where res: "BuildBTree C K now (build_input a) = Some res" using build_returns by blast
  have same: "build_input (?a\<lparr>a_tree := x, a_fp := y\<rparr>) = build_input a" for x y by (simp add: build_input_def)
  show ?thesis
  proof (cases "a_records a = [] \<or> a_priv a = None")
    case True
    then show ?thesis using assms(2) by (auto simp: rebuildLocked_def tree_of_def Let_def)
  next
    case False
    then show ?thesis using assms(2) res by (cases res) (auto simp: rebuildLocked_def tree_of_def Let_def b same)
  qed
qed

lemma rebuild_inv:
  assumes "agg_inv C K a"
  shows "\<exists>a'. rebuildLocked C K now a = Some a' \<and> agg_inv C K a' \<and> \<not> a_dirty a' \<and> a_records a' = a_records a \<and> a_pub a' = a_pub a \<and> a_priv a' = a_priv a"
proof (cases "a_dirty a")
  case False
  then show ?thesis using assms by (auto simp: rebuildLocked_def)
next
  case True
  then show ?thesis using rebuild_result [OF _ True, of C K now] assms by (auto simp: agg_inv_def)
qed

lemma retract_sim:
  assumes "agg_inv C K a"
  shows "\<exists>a'. agg_Retract C K now ih a = Some a' \<and> agg_inv C K a' \<and> a_pub a' = a_pub a \<and> a_priv a' = a_priv a \<and>
    claims a' = claims a - {(kw, i). i = ih}"
proof (cases "length (filter (\<lambda>(i, r). Ih r \<noteq> ih) (a_records a)) = length (a_records a)")
  case True
  have "\<forall>(i, r) \<in> set (a_records a). Ih r \<noteq> ih"
  proof (rule ccontr)
    assume "\<not> (\<forall>(i, r) \<in> set (a_records a). Ih r \<noteq> ih)"
    then obtain x where "x \<in> set (a_records a)" "\<not> (case x of (i, r) \<Rightarrow> Ih r \<noteq> ih)" by blast
    from length_filter_less [of x "a_records a" "\<lambda>(i, r). Ih r \<noteq> ih"] this True show False by simp
  qed
  then have "claims a - {(kw, i). i = ih} = claims a" by (auto simp: claims_def)
  then show ?thesis using True assms by (simp add: agg_Retract_def)
next
  case False
  let ?rest = "filter (\<lambda>(i, r). Ih r \<noteq> ih) (a_records a)"
  let ?a = "a\<lparr>a_records := ?rest, a_dirty := True\<rparr>"
  have "agg_inv C K ?a" using assms by (auto simp: agg_inv_def)
  from rebuild_inv [OF this, of now] obtain a' where a': "rebuildLocked C K now ?a = Some a'" "agg_inv C K a'" "a_records a' = ?rest" "a_pub a' = a_pub a" "a_priv a' = a_priv a" by auto
  have "claims a' = claims a - {(kw, i). i = ih}" unfolding claims_def a'(3) by auto
  then show ?thesis using a' False by (auto simp: agg_Retract_def Let_def)
qed

lemma agg_step_sim:
  assumes "collision_free C" and "signs_for C priv pub" and "length pub = 32" and "agg_sim C K priv pub a S"
  shows "\<exists>a'. agg_step C K U op a = Some a' \<and> agg_sim C K priv pub a' (claims_step U op S)"
proof (cases op)
  case (AggPublish now kws hit)
  have a: "\<forall>x \<in> set (a_records a). record_ok C pub x" "a_pub a = pub" "a_priv a = Some priv" "claims a = S" using assms(4) by (auto simp: agg_sim_def agg_inv_def)
  show ?thesis
  proof (cases "length (kh_IH hit) = 20")
    case True
    from publish_records_sim [OF assms(1-3) True a(1,2), of U now kws] obtain a' where
      "publish_records C U priv (kh_IH hit) now kws a = Some a'" "\<forall>x \<in> set (a_records a'). record_ok C pub x" "a_pub a' = pub" "a_priv a' = a_priv a"
      "claims a' = claims a \<union> {(k, kh_IH hit) |k. k \<in> lower_string U ` set kws \<and> good_keyword k}" by blast
    then show ?thesis using True a AggPublish by (auto simp: agg_Publish_def agg_sim_def agg_inv_def claims_def)
  qed (use assms(4) a AggPublish in \<open>simp add: agg_Publish_def\<close>)
next
  case (AggRetract now ih)
  then show ?thesis using retract_sim [of C K a now ih] assms(4) by (auto simp: agg_sim_def)
next
  case (AggRebuild now)
  then show ?thesis using rebuild_inv [of C K a now] assms(4) by (auto simp: agg_sim_def claims_def)
qed

lemma agg_run_sim:
  assumes "collision_free C" and "signs_for C priv pub" and "length pub = 32" and "agg_sim C K priv pub a S"
  shows "\<exists>a'. agg_run C K U ops a = Some a' \<and> agg_sim C K priv pub a' (fold (claims_step U) ops S)"
  using assms(4)
proof (induction ops arbitrary: a S)
  case (Cons op ops)
  from agg_step_sim [OF assms(1-3) Cons.prems, of U op] obtain a1 where "agg_step C K U op a = Some a1" "agg_sim C K priv pub a1 (claims_step U op S)" by blast
  with Cons.IH show ?case by auto
qed simp

section \<open>Lookups in a built file\<close>

definition records_encode :: "codec \<Rightarrow> bool" where
  "records_encode K \<longleftrightarrow> (\<forall>r. wf_record r \<and> 1 \<le> length (Kw r) \<and> length (Kw r) \<le> MaxKeywordBytes \<longrightarrow> (\<exists>b. EncodeRecord K r = Inr b))"

lemma exact_pass:
  assumes "\<forall>r \<in> set rs. Verify C r = None" and "t_MinPoWBits tr = 0"
  shows "filter (\<lambda>r. Kw r = tok) (filter (record_passes C tr tok) rs) = filter (\<lambda>r. Kw r = tok) rs"
  using assms by (induction rs) (auto simp: record_passes_def has_prefix_iff)

lemma built_lookup:
  assumes "codec_ok K" and "records_encode K" and "signs_for C priv (a_pub a)" and "length (a_pub a) = 32"
    and "\<forall>x \<in> set (a_records a). record_ok C (a_pub a) x" and "a_priv a = Some priv" and "length (a_records a) < 2 ^ 30"
    and "a_records a \<noteq> []" and "(a_tree a, a_fp a) = tree_of C K now a"
  shows "\<exists>(built :: BuiltTree) t. a_tree a = Some (Bytes built) \<and> a_fp a = Fingerprint built \<and> OpenBTree C (BytesPageSource (Bytes built) MinPieceSize) = Inr t \<and>
    t_Fingerprint (trailer t) = Fingerprint built \<and>
    (\<forall>tok. exactHits C K t tok = Inr (map key_hit (filter (\<lambda>r. Kw r = tok) (sort_key RecordKey (map snd (a_records a))))))"
proof -
  let ?inp = "build_input a"
  have i: "Records ?inp = map snd (a_records a)" "PrivKey ?inp = Some priv" "b_PubKey ?inp = a_pub a" "MinPoWBits ?inp = 0" "PieceSize ?inp = MinPieceSize"
    using assms(6) by (simp_all add: build_input_def)
  have ps: "MinPieceSize = 16384" by (simp add: MinPieceSize_def)
  have rs: "\<forall>r \<in> set (Records ?inp). wf_record r \<and> Verify C r = None \<and> 1 \<le> length (Kw r) \<and> length (Kw r) \<le> MaxKeywordBytes"
    using assms(5) by (auto simp: i record_ok_def)
  then have enc: "encodable K (Records ?inp)" using assms(2) by (auto simp: encodable_def records_encode_def)
  have wf: "\<forall>r \<in> set (Records ?inp). wf_record r" using rs by blast
  have ne: "Records ?inp \<noteq> []" and few: "length (Records ?inp) < 2 ^ 30" using assms(7,8) by (simp_all add: i)
  have size: "16384 \<le> PieceSize ?inp" "PieceSize ?inp \<le> 65293" by (simp_all add: i ps)
  obtain built where b: "BuildBTree C K now ?inp = Some (Inr built)" using BuildBTree_succeeds [OF ne enc wf size few] by blast
  obtain t where t: "OpenBTree C (BytesPageSource (Bytes built) (bt_PieceSize built)) = Inr t" "t_MinPoWBits (trailer t) = MinPoWBits ?inp"
    "t_Fingerprint (trailer t) = Fingerprint built" "bt_PieceSize built = PieceSize ?inp"
    "\<forall>pfx. Find C K t pfx = Inr (filter (record_passes C (trailer t) pfx) (sort_key RecordKey (Records ?inp)))"
    using BuildBTree_correct [OF b assms(1) i(2) _ _ wf few] assms(3,4) by (auto simp: i)
  have "\<forall>r \<in> set (sort_key RecordKey (Records ?inp)). Verify C r = None" using rs by simp
  then have "exactHits C K t tok = Inr (map key_hit (filter (\<lambda>r. Kw r = tok) (sort_key RecordKey (map snd (a_records a)))))" for tok
    using t(2,5) exact_pass [of "sort_key RecordKey (Records ?inp)" C "trailer t" tok] by (simp add: exactHits_def i)
  moreover have "tree_of C K now a = (Some (Bytes built), Fingerprint built)" using b assms(6,8) by (simp add: tree_of_def)
  ultimately have "a_tree a = Some (Bytes built) \<and> a_fp a = Fingerprint built \<and> OpenBTree C (BytesPageSource (Bytes built) MinPieceSize) = Inr t \<and>
    t_Fingerprint (trailer t) = Fingerprint built \<and>
    (\<forall>tok. exactHits C K t tok = Inr (map key_hit (filter (\<lambda>r. Kw r = tok) (sort_key RecordKey (map snd (a_records a))))))"
    using t(1,3,4) assms(9) i(5) by simp
  then show ?thesis by blast
qed

lemma hits_of_claims:
  "kh_IH ` set (map key_hit (filter (\<lambda>r. Kw r = tok) (sort_key RecordKey (map snd (a_records a))))) = {ih. (tok, ih) \<in> claims a}"
  by (force simp: claims_def key_hit_def)

text \<open>Whatever bytes are opened, hits come from records with a valid signature and exactly the keyword.\<close>

lemma hostile_tree_hits:
  assumes "OpenVerifiedTree C data commit = Inr tree" and "exactHits C K tree tok = Inr khs"
  shows "VerifyTrailerSig C (trailer tree) = None \<and> (length commit = 32 \<longrightarrow> t_Fingerprint (trailer tree) = commit) \<and>
    (\<forall>h \<in> set khs. \<exists>r. h = key_hit r \<and> Kw r = tok \<and> Verify C r = None)"
proof -
  have o: "OpenBTree C (BytesPageSource data SnaggPieceLength) = Inr tree" "length commit = 32 \<longrightarrow> t_Fingerprint (trailer tree) = commit"
    using assms(1) by (auto simp: OpenVerifiedTree_def split: sum.splits if_splits)
  obtain rs where rs: "Find C K tree tok = Inr rs" "khs = map key_hit (filter (\<lambda>r. Kw r = tok) rs)"
    using assms(2) by (auto simp: exactHits_def split: sum.splits)
  have "\<forall>r \<in> set rs. record_passes C (trailer tree) tok r"
    using rs(1) by (auto simp: Find_def Let_def bind_res_Inr_iff split: if_splits option.splits)
  then show ?thesis using o OpenBTree_Inr(3) [OF o(1)] rs(2) by (auto simp: record_passes_def)
qed

section \<open>Generations\<close>

lemma rebuild_gen:
  assumes "rebuildLocked C K now a = Some a'"
  shows "a_pub a' = a_pub a \<and> (a_gen a' = a_gen a + 1 \<or> a_gen a' = a_gen a \<and> a_tree a' = a_tree a \<and> a_fp a' = a_fp a)"
  using assms by (auto simp: rebuildLocked_def Let_def split: if_splits option.splits sum.splits)

lemma publish_records_gen:
  assumes "publish_records C U priv ih now kws a = Some a'"
  shows "a_pub a' = a_pub a \<and> a_gen a' = a_gen a \<and> a_tree a' = a_tree a \<and> a_fp a' = a_fp a"
  using assms
proof (induction kws arbitrary: a)
  case (Cons kw kws)
  then obtain a1 where a1: "publish_record C U priv ih now kw a = Some a1" "publish_records C U priv ih now kws a1 = Some a'" by (auto split: option.splits)
  have "a_pub a1 = a_pub a \<and> a_gen a1 = a_gen a \<and> a_tree a1 = a_tree a \<and> a_fp a1 = a_fp a"
    using a1(1) by (auto simp: publish_record_def Let_def split: if_splits option.splits sum.splits)
  then show ?case using Cons.IH [OF a1(2)] by simp
qed simp

lemma step_gen:
  assumes "agg_step C K U op a = Some a'"
  shows "a_pub a' = a_pub a \<and> (a_gen a' = a_gen a + 1 \<or> a_gen a' = a_gen a \<and> a_tree a' = a_tree a \<and> a_fp a' = a_fp a)"
proof (cases op)
  case (AggPublish now kws hit)
  then show ?thesis using assms publish_records_gen by (fastforce simp: agg_Publish_def split: option.splits if_splits)
next
  case (AggRetract now ih)
  then show ?thesis using assms rebuild_gen [of C K now] by (fastforce simp: agg_Retract_def Let_def split: if_splits)
next
  case (AggRebuild now)
  then show ?thesis using assms rebuild_gen by simp
qed

lemma run_gen:
  assumes "agg_run C K U ops a = Some a'"
  shows "a_pub a' = a_pub a \<and> (\<exists>k \<le> length ops. a_gen a' = a_gen a + of_nat k \<and> (k = 0 \<longrightarrow> a_tree a' = a_tree a \<and> a_fp a' = a_fp a))"
  using assms
proof (induction ops arbitrary: a)
  case (Cons op ops)
  obtain a1 where a1: "agg_step C K U op a = Some a1" "agg_run C K U ops a1 = Some a'" using Cons.prems by (auto split: option.splits)
  obtain k where k: "a_pub a' = a_pub a1" "k \<le> length ops" "a_gen a' = a_gen a1 + of_nat k" "k = 0 \<longrightarrow> a_tree a' = a_tree a1 \<and> a_fp a' = a_fp a1"
    using Cons.IH [OF a1(2)] by blast
  from step_gen [OF a1(1)] show ?case
  proof (elim conjE disjE)
    assume "a_pub a1 = a_pub a" "a_gen a1 = a_gen a + 1"
    then show ?thesis using k by (intro conjI exI [of _ "Suc k"]) auto
  next
    assume "a_pub a1 = a_pub a" "a_gen a1 = a_gen a" "a_tree a1 = a_tree a" "a_fp a1 = a_fp a"
    then show ?thesis using k by (intro conjI exI [of _ k]) auto
  qed
qed auto

section \<open>Properties\<close>

text \<open>
  C27: the aggregate backend end to end.  Any run of publications, retractions and rebuilds of a
  publisher returns.  A lookup of a token in its own namespace then returns exactly the infohashes
  that were published under it and not retracted since; and so does, on any other node, the file it
  distributes, opened against the commitment that is distributed with it.
\<close>

theorem aggregate_end_to_end:
  assumes "collision_free C" and "codec_ok K" and "records_encode K" and "signs_for C priv pub" and "length pub = 32"
  shows "\<exists>a. agg_run C K U ops (newAggregatePPMI (Some priv) pub) = Some a \<and>
    (length (a_records a) < 2 ^ 30 \<longrightarrow>
      (\<exists>khs a'. agg_Lookup C K now resolver pub tok a = Some (Inr khs, a') \<and> kh_IH ` set khs = {ih. (tok, ih) \<in> fold (claims_step U) ops {}}) \<and>
      (\<forall>a1 name blob fp. rebuildLocked C K now a = Some a1 \<and> distribute (treeName a1) (a_tree a1) (a_fp a1) = PublishTree name blob fp \<longrightarrow>
        (\<exists>tree khs. OpenVerifiedTree C blob fp = Inr tree \<and> exactHits C K tree tok = Inr khs \<and>
          kh_IH ` set khs = {ih. (tok, ih) \<in> fold (claims_step U) ops {}})))"
proof -
  have "agg_sim C K priv pub (newAggregatePPMI (Some priv) pub) {}"
    by (simp add: agg_sim_def agg_inv_def newAggregatePPMI_def tree_of_def claims_def)
  from agg_run_sim [OF assms(1,4,5) this, of U ops] obtain a where run: "agg_run C K U ops (newAggregatePPMI (Some priv) pub) = Some a"
    and sim: "agg_sim C K priv pub a (fold (claims_step U) ops {})" by blast
  let ?S = "fold (claims_step U) ops {}"
  have a: "agg_inv C K a" "a_priv a = Some priv" "a_pub a = pub" "claims a = ?S" using sim by (auto simp: agg_sim_def)
  from rebuild_inv [OF a(1), of now] obtain a1 where a1: "rebuildLocked C K now a = Some a1" "agg_inv C K a1" "\<not> a_dirty a1" "a_records a1 = a_records a"
    "a_pub a1 = pub" "a_priv a1 = Some priv" using a(2,3) by auto
  obtain now1 where tree: "(a_tree a1, a_fp a1) = tree_of C K now1 a1" using a1(2,3) by (auto simp: agg_inv_def)
  have S: "claims a1 = ?S" using a(4) a1(4) by (simp add: claims_def)
  have main: "(\<exists>khs a'. agg_Lookup C K now resolver pub tok a = Some (Inr khs, a') \<and> kh_IH ` set khs = {ih. (tok, ih) \<in> ?S}) \<and>
      (\<forall>a1 name blob fp. rebuildLocked C K now a = Some a1 \<and> distribute (treeName a1) (a_tree a1) (a_fp a1) = PublishTree name blob fp \<longrightarrow>
        (\<exists>tree khs. OpenVerifiedTree C blob fp = Inr tree \<and> exactHits C K tree tok = Inr khs \<and> kh_IH ` set khs = {ih. (tok, ih) \<in> ?S}))"
    if few: "length (a_records a) < 2 ^ 30"
  proof (cases "a_records a1 = []")
    case True
    then have "a_tree a1 = None" "?S = {}" using tree S by (simp_all add: tree_of_def claims_def)
    then show ?thesis using a1(1) a(3) by (simp add: agg_Lookup_def distribute_def)
  next
    case False
    have ok: "\<forall>x \<in> set (a_records a1). record_ok C (a_pub a1) x" using a1(2) by (simp add: agg_inv_def)
    have "signs_for C priv (a_pub a1)" "length (a_pub a1) = 32" "length (a_records a1) < 2 ^ 30" using few a1(4,5) assms(4,5) by simp_all
    from built_lookup [OF assms(2,3) this(1,2) ok a1(6) this(3) False tree] obtain built :: BuiltTree and t where
      b: "a_tree a1 = Some (Bytes built)" "a_fp a1 = Fingerprint built" "OpenBTree C (BytesPageSource (Bytes built) MinPieceSize) = Inr t"
        "t_Fingerprint (trailer t) = Fingerprint built"
      and all: "\<forall>tok. exactHits C K t tok = Inr (map key_hit (filter (\<lambda>r. Kw r = tok) (sort_key RecordKey (map snd (a_records a1)))))" by blast
    have h: "exactHits C K t tok = Inr (map key_hit (filter (\<lambda>r. Kw r = tok) (sort_key RecordKey (map snd (a_records a1)))))" using all by blast
    have o: "OpenVerifiedTree C (Bytes built) (Fingerprint built) = Inr t" using b by (simp add: OpenVerifiedTree_def SnaggPieceLength_def)
    let ?hs = "map key_hit (filter (\<lambda>r. Kw r = tok) (sort_key RecordKey (map snd (a_records a1))))"
    have hs: "kh_IH ` set ?hs = {ih. (tok, ih) \<in> ?S}" using hits_of_claims [of tok a1] unfolding S .
    have look: "agg_Lookup C K now resolver pub tok a = Some (Inr ?hs, a1)" using a1(1) a(3) b(1,3) h by (simp add: agg_Lookup_def)
    have fetch: "\<exists>tree khs. OpenVerifiedTree C blob fp = Inr tree \<and> exactHits C K tree tok = Inr khs \<and> kh_IH ` set khs = {ih. (tok, ih) \<in> ?S}"
      if "rebuildLocked C K now a = Some a2" "distribute (treeName a2) (a_tree a2) (a_fp a2) = PublishTree name blob fp" for a2 name blob fp
    proof -
      have "a2 = a1" using that(1) a1(1) by simp
      then have "blob = Bytes built" "fp = Fingerprint built" using that(2) b(1,2) by (simp_all add: distribute_def)
      then show ?thesis using o h hs by blast
    qed
    show ?thesis
    proof (intro conjI allI impI)
      show "\<exists>khs a'. agg_Lookup C K now resolver pub tok a = Some (Inr khs, a') \<and> kh_IH ` set khs = {ih. (tok, ih) \<in> ?S}"
        by (intro exI [of _ ?hs] exI [of _ a1] conjI look hs)
    qed (elim conjE, rule fetch)
  qed
  show ?thesis by (rule exI [of _ a], rule conjI, rule run, rule impI, rule main)
qed

text \<open>
  What a refresh leaves distributed.  When a refresh with a publisher returns without an error,
  the last call it made distributes the file, or its absence, that the backend held when it checked
  again after the first call, whatever fewer than \<open>2 ^ 64\<close> operations other callers made in between.
\<close>

lemma refresh_distributes_current:
  assumes "agg_Refresh C K now True ok (\<lambda>a. the (agg_run C K U ops a)) a = Some (calls, False, a2)" and "length ops < 2 ^ 64"
    and "\<And>a1. rebuildLocked C K now a = Some a1 \<Longrightarrow> agg_run C K U ops a1 \<noteq> None"
  shows "calls \<noteq> [] \<and> last calls = distribute (treeName a2) (a_tree a2) (a_fp a2)"
proof -
  obtain a1 where a1: "rebuildLocked C K now a = Some a1" using assms(1) by (auto simp: agg_Refresh_def split: option.splits)
  obtain b where b: "agg_run C K U ops a1 = Some b" using assms(3) [OF a1] by blast
  obtain k where k: "a_pub b = a_pub a1" "k \<le> length ops" "a_gen b = a_gen a1 + of_nat k" "k = 0 \<longrightarrow> a_tree b = a_tree a1 \<and> a_fp b = a_fp a1"
    using run_gen [OF b] by blast
  have name: "treeName b = treeName a1" using k(1) by (simp add: treeName_def)
  have same: "a_tree b = a_tree a1 \<and> a_fp b = a_fp a1" if "a_gen b = a_gen a1"
  proof -
    have "(of_nat k :: u64) = 0" using that k(3) by simp
    moreover have "unat (of_nat k :: u64) = k" using k(2) assms(2) by (simp add: unsigned_of_nat take_bit_nat_eq_self)
    ultimately have "k = 0" by simp
    then show ?thesis using k(4) by simp
  qed
  show ?thesis using assms(1) a1 b name same by (auto simp: agg_Refresh_def Let_def split: if_splits)
qed

section \<open>A concrete publisher\<close>

definition lab_crypto :: crypto where "lab_crypto = toy_crypto\<lparr>sha256 := id\<rparr>"
definition lab_key :: bytes where "lab_key = replicate 32 7"
definition lab_khit :: KeywordHit where "lab_khit = \<lparr>kh_IH = replicate 20 1, kh_N = [], kh_S = 0, kh_F = 0, kh_Sz = 0\<rparr>"
definition lab_agg :: aggregatePPMI where
  "lab_agg = (let r = signed_record lab_crypto lab_key lab_key [97, 98] (replicate 20 1) 5
     in (newAggregatePPMI (Some lab_key) lab_key)\<lparr>a_records := [(ElementID lab_crypto r, r)], a_dirty := True\<rparr>)"

lemma lab_laws: "collision_free lab_crypto" "records_encode toy_codec" "signs_for lab_crypto lab_key lab_key" "length lab_key = 32"
proof -
  show "collision_free lab_crypto" by (simp add: collision_free_def ElementID_def lab_crypto_def)
  show "records_encode toy_codec" using toy_EncodeRecord by (fastforce simp: records_encode_def MaxKeywordBytes_def)
  show "signs_for lab_crypto lab_key lab_key" using toy_signs by (simp add: signs_for_def lab_crypto_def lab_key_def)
  show "length lab_key = 32" by (simp add: lab_key_def)
qed

lemma lab_lower: "lower_string ascii_tables [97, 98] = [97, 98]"
proof -
  have "rune_values [97, 98] = [97, 98]" by code_simp
  then show ?thesis by (simp add: lower_string_def ascii_tables_def encode_rune_def is_scalar_def byte_of_def)
qed

lemma lab_agg_run: "agg_run lab_crypto toy_codec ascii_tables [AggPublish 5 [[97, 98]] lab_khit] (newAggregatePPMI (Some lab_key) lab_key) = Some lab_agg"
  using SignAndMine_free [of "[97, 98]" lab_crypto lab_key lab_key "replicate 20 1" 5]
  by (simp add: agg_Publish_def lab_khit_def publish_record_def lab_lower MaxKeywordBytes_def newAggregatePPMI_def lab_agg_def Let_def)

theorem aggregate_end_to_end_witness:
  "\<exists>khs a'. agg_Lookup lab_crypto toy_codec 9 None lab_key [97, 98] lab_agg = Some (Inr khs, a') \<and> kh_IH ` set khs = {replicate 20 1}"
proof -
  have few: "length (a_records lab_agg) < 2 ^ 30" by (simp add: lab_agg_def Let_def)
  have S: "{ih. ([97, 98], ih) \<in> fold (claims_step ascii_tables) [AggPublish 5 [[97, 98]] lab_khit] {}} = {replicate 20 1}"
    by (simp add: lab_khit_def lab_lower good_keyword_def MaxKeywordBytes_def)
  note all = aggregate_end_to_end [OF lab_laws(1) toy_codec_ok lab_laws(2-4), of ascii_tables "[AggPublish 5 [[97, 98]] lab_khit]" 9 None "[97, 98]"]
  note here = all [unfolded lab_agg_run option.inject simp_thms]
  show ?thesis using conjunct1 [OF mp [OF here few]] unfolding S .
qed

theorem refresh_distributes_current_witness:
  "\<exists>a1. rebuildLocked lab_crypto toy_codec 9 lab_agg = Some a1 \<and>
    (\<exists>calls a2. agg_Refresh lab_crypto toy_codec 9 True (\<lambda>_. True) (\<lambda>a. the (agg_run lab_crypto toy_codec ascii_tables [AggRetract 9 (replicate 20 1)] a)) lab_agg = Some (calls, False, a2) \<and>
       last calls = distribute (treeName a2) (a_tree a2) (a_fp a2))"
proof -
  let ?ops = "[AggRetract 9 (replicate 20 1)]"
  have sim0: "agg_sim lab_crypto toy_codec lab_key lab_key (newAggregatePPMI (Some lab_key) lab_key) {}"
    by (simp add: agg_sim_def agg_inv_def newAggregatePPMI_def tree_of_def claims_def)
  note sim = agg_run_sim [OF lab_laws(1,3,4)]
  obtain S where s: "agg_sim lab_crypto toy_codec lab_key lab_key lab_agg S" using sim [OF sim0, of ascii_tables "[AggPublish 5 [[97, 98]] lab_khit]"] lab_agg_run by auto
  then obtain a1 where a1: "rebuildLocked lab_crypto toy_codec 9 lab_agg = Some a1" and s1: "agg_sim lab_crypto toy_codec lab_key lab_key a1 S"
    using agg_step_sim [OF lab_laws(1,3,4) s, of ascii_tables "AggRebuild 9"] by auto
  obtain a2 where a2: "agg_run lab_crypto toy_codec ascii_tables ?ops a1 = Some a2" using sim [OF s1, of ascii_tables ?ops] by blast
  have r: "\<exists>calls a2. agg_Refresh lab_crypto toy_codec 9 True (\<lambda>_. True) (\<lambda>a. the (agg_run lab_crypto toy_codec ascii_tables ?ops a)) lab_agg = Some (calls, False, a2)"
    using a1 a2 by (auto simp: agg_Refresh_def Let_def simp del: agg_run.simps)
  have ret: "agg_run lab_crypto toy_codec ascii_tables ?ops b \<noteq> None" if "rebuildLocked lab_crypto toy_codec 9 lab_agg = Some b" for b using that a1 a2 by simp
  have n: "length ?ops < 2 ^ 64" by simp
  from r obtain calls b where "agg_Refresh lab_crypto toy_codec 9 True (\<lambda>_. True) (\<lambda>a. the (agg_run lab_crypto toy_codec ascii_tables ?ops a)) lab_agg = Some (calls, False, b)" by blast
  from this refresh_distributes_current [OF this n ret] a1 show ?thesis by blast
qed

end
