(* ===== verification/Dht_Publish.thy ===== *)
theory Dht_Publish
  imports Dht_Schema Atomic_File
begin

text \<open>
  Publishing keywords to the DHT: the manifest (\<^verbatim>\<open>internal/dhtindex/manifest.go\<close>), the per-keyword
  backend (\<^verbatim>\<open>legacy_keyword.go\<close>), its worker (\<^verbatim>\<open>publisher.go\<close>) and the in-process stores
  (\<^verbatim>\<open>memory.go\<close>).  What lies beneath the backend is a record of two operations on a state of any type
  (the \<open>Putter\<close> and \<open>Getter\<close> interfaces); the contract of a reliable one is a locale, which the
  in-process stores satisfy.  Times are in nanoseconds; \<open>None\<close> is the zero time.
\<close>

section \<open>Manifest\<close>

datatype dht_error = ErrSchema schema_error | ErrNotFound | ErrTraversal | ErrZeroNodes | ErrCancelled
  | ErrManifestMkdir | ErrManifestRead | ErrManifestParse | ErrManifestWrite | ErrManifestRename | ErrNoKeyword

record ManifestEntry =
  me_Hits :: "KeywordHit list"
  me_LastPublished :: "int option"
  me_LastError :: "dht_error option"
  me_PublishCount :: int

record Manifest =
  m_path :: string
  m_Entries :: "(bytes \<times> ManifestEntry) list"

definition unix_of :: "int \<Rightarrow> int" where "unix_of now = now div 10 ^ 9"

text \<open>The document may lack the table, and an entry of it may be null.\<close>

type_synonym manifest_doc = "(bytes \<times> ManifestEntry option) list option"

fun drop_null :: "(bytes \<times> ManifestEntry option) list \<Rightarrow> (bytes \<times> ManifestEntry) list" where
  "drop_null [] = []"
| "drop_null ((k, None) # es) = drop_null es"
| "drop_null ((k, Some e) # es) = (k, e) # drop_null es"

definition LoadOrCreateManifest :: "string \<Rightarrow> bool \<Rightarrow> manifest_doc fs \<Rightarrow> dht_error + Manifest" where
  "LoadOrCreateManifest path mkdir_ok fs =
     (if path = [] then Inr \<lparr>m_path = path, m_Entries = []\<rparr>
      else if \<not> mkdir_ok then Inl ErrManifestMkdir
      else case fs path of
             Absent \<Rightarrow> Inr \<lparr>m_path = path, m_Entries = []\<rparr>
           | Unreadable \<Rightarrow> Inl ErrManifestRead
           | Malformed \<Rightarrow> Inl ErrManifestParse
           | Doc d \<Rightarrow> Inr \<lparr>m_path = path, m_Entries = drop_null (case d of None \<Rightarrow> [] | Some es \<Rightarrow> es)\<rparr>)"

definition manifest_Save :: "write_fault option \<Rightarrow> Manifest \<Rightarrow> manifest_doc fs \<Rightarrow> dht_error option \<times> manifest_doc fs" where
  "manifest_Save flt m fs =
     (let tmp = m_path m @ ''.tmp''; doc = Doc (Some (map (\<lambda>(k, e). (k, Some e)) (m_Entries m))) in
      if m_path m = [] then (None, fs)
      else case flt of
             Some WriteFails \<Rightarrow> (Some ErrManifestWrite, fs(tmp := Malformed))
           | Some RenameFails \<Rightarrow> (Some ErrManifestRename, fs(tmp := Absent))
           | None \<Rightarrow> (None, fs(m_path m := doc, tmp := Absent)))"

fun replace_hit :: "KeywordHit \<Rightarrow> KeywordHit list \<Rightarrow> KeywordHit list option" where
  "replace_hit hit [] = None"
| "replace_hit hit (h # hs) =
     (if kh_IH h = kh_IH hit then Some (hit # hs) else map_option ((#) h) (replace_hit hit hs))"

fun evict_to_cap :: "dht_codec \<Rightarrow> int \<Rightarrow> KeywordHit list \<Rightarrow> KeywordHit list" where
  "evict_to_cap K now (h # h' # hs) =
     (if EstimateValueSize K now (value_of (h # h' # hs)) > MaxValueBytes then evict_to_cap K now (h' # hs) else h # h' # hs)"
| "evict_to_cap K now hs = hs"

function fitHitToCap :: "dht_codec \<Rightarrow> int \<Rightarrow> KeywordHit \<Rightarrow> KeywordHit" where
  "fitHitToCap K now h =
     (if length (kh_N h) > 0 \<and> EstimateValueSize K now (value_of [h]) > MaxValueBytes
      then fitHitToCap K now (h\<lparr>kh_N := take (length (kh_N h) * 3 div 4) (kh_N h)\<rparr>) else h)"
  by pat_completeness auto
termination
proof (relation "measure (\<lambda>(K, now, h). length (kh_N h))")
  fix K :: dht_codec and now and h :: KeywordHit
  assume "length (kh_N h) > 0 \<and> EstimateValueSize K now (value_of [h]) > MaxValueBytes"
  moreover have "length (kh_N h) * 3 div 4 < length (kh_N h)" if "length (kh_N h) > 0" using that by linarith
  ultimately show "((K, now, h\<lparr>kh_N := take (length (kh_N h) * 3 div 4) (kh_N h)\<rparr>), (K, now, h)) \<in> measure (\<lambda>(K, now, h). length (kh_N h))"
    by (simp add: min_def)
qed simp

declare fitHitToCap.simps [simp del]

definition entry_of :: "Manifest \<Rightarrow> bytes \<Rightarrow> ManifestEntry" where
  "entry_of m keyword = (case map_of (m_Entries m) keyword of
     Some e \<Rightarrow> e | None \<Rightarrow> \<lparr>me_Hits = [], me_LastPublished = None, me_LastError = None, me_PublishCount = 0\<rparr>)"

definition put_entry :: "bytes \<Rightarrow> ManifestEntry \<Rightarrow> Manifest \<Rightarrow> Manifest" where
  "put_entry keyword e m = m\<lparr>m_Entries := AList.update keyword e (m_Entries m)\<rparr>"

definition AddHit :: "dht_codec \<Rightarrow> int \<Rightarrow> bytes \<Rightarrow> KeywordHit \<Rightarrow> Manifest \<Rightarrow> (dht_error + nat) \<times> Manifest" where
  "AddHit K now keyword hit m =
     (if keyword = [] then (Inl ErrNoKeyword, m)
      else
        let entry = entry_of m keyword;
            hits = (case replace_hit hit (me_Hits entry) of Some hs \<Rightarrow> hs | None \<Rightarrow> me_Hits entry @ [hit]);
            hits = evict_to_cap K (unix_of now) hits;
            hits = (case hits of [h] \<Rightarrow> [fitHitToCap K (unix_of now) h] | _ \<Rightarrow> hits)
        in (Inr (length hits), put_entry keyword (entry\<lparr>me_Hits := hits\<rparr>) m))"

definition RemoveAllHits :: "bytes \<Rightarrow> Manifest \<Rightarrow> nat \<times> Manifest" where
  "RemoveAllHits infohash m =
     (if infohash = [] then (0, m)
      else
        (length (filter (\<lambda>(k, e). list_ex (\<lambda>h. kh_IH h = infohash) (me_Hits e)) (m_Entries m)),
         m\<lparr>m_Entries := filter (\<lambda>(k, e). me_Hits e \<noteq> [])
              (map (\<lambda>(k, e). (k, e\<lparr>me_Hits := filter (\<lambda>h. kh_IH h \<noteq> infohash) (me_Hits e)\<rparr>)) (m_Entries m))\<rparr>))"

definition manifest_Snapshot :: "Manifest \<Rightarrow> (bytes \<times> ManifestEntry) list" where "manifest_Snapshot m = m_Entries m"

definition MarkPublished :: "bytes \<Rightarrow> int \<Rightarrow> Manifest \<Rightarrow> Manifest" where
  "MarkPublished keyword time m =
     (case map_of (m_Entries m) keyword of
        None \<Rightarrow> m
      | Some e \<Rightarrow> put_entry keyword (e\<lparr>me_LastPublished := Some time, me_LastError := None, me_PublishCount := me_PublishCount e + 1\<rparr>) m)"

definition MarkFailed :: "bytes \<Rightarrow> dht_error \<Rightarrow> Manifest \<Rightarrow> Manifest" where
  "MarkFailed keyword err m =
     (case map_of (m_Entries m) keyword of
        None \<Rightarrow> m
      | Some e \<Rightarrow> put_entry keyword (e\<lparr>me_LastError := Some err\<rparr>) m)"

definition manifest_Keywords :: "Manifest \<Rightarrow> bytes list" where
  "manifest_Keywords m = sort (map fst (m_Entries m))"

section \<open>Stores\<close>

record 'w dht_store =
  st_PublicKey :: bytes
  st_Put :: "int \<Rightarrow> bytes \<Rightarrow> KeywordValue \<Rightarrow> 'w \<Rightarrow> dht_error option \<times> 'w"
  st_Get :: "bytes \<Rightarrow> bytes \<Rightarrow> 'w \<Rightarrow> dht_error + KeywordValue"

record storedItem =
  si_value :: KeywordValue
  si_seq :: int

type_synonym mem_store = "(bytes \<times> storedItem) list"

definition mem_target :: "(bytes \<Rightarrow> bytes) \<Rightarrow> bytes \<Rightarrow> bytes \<Rightarrow> bytes" where
  "mem_target hash1 pub salt = hash1 (pub @ salt)"

definition mem_Put :: "dht_codec \<Rightarrow> (bytes \<Rightarrow> bytes) \<Rightarrow> bytes \<Rightarrow> int \<Rightarrow> bytes \<Rightarrow> KeywordValue \<Rightarrow> mem_store \<Rightarrow> dht_error option \<times> mem_store" where
  "mem_Put K hash1 pub now salt v store =
     (case EncodeValue K (unix_of now) v of
        Inl e \<Rightarrow> (Some (ErrSchema e), store)
      | Inr _ \<Rightarrow>
          (let target = mem_target hash1 pub salt;
               prev_seq = (case map_of store target of None \<Rightarrow> 0 | Some it \<Rightarrow> si_seq it)
           in (None, AList.update target \<lparr>si_value = v, si_seq = prev_seq + 1\<rparr> store)))"

definition mem_Get :: "(bytes \<Rightarrow> bytes) \<Rightarrow> bytes \<Rightarrow> bytes \<Rightarrow> mem_store \<Rightarrow> dht_error + KeywordValue" where
  "mem_Get hash1 pub salt store =
     (case map_of store (mem_target hash1 pub salt) of None \<Rightarrow> Inl ErrNotFound | Some it \<Rightarrow> Inr (si_value it))"

definition MemoryStore :: "dht_codec \<Rightarrow> (bytes \<Rightarrow> bytes) \<Rightarrow> bytes \<Rightarrow> mem_store dht_store" where
  "MemoryStore K hash1 pub = \<lparr>st_PublicKey = pub, st_Put = mem_Put K hash1 pub, st_Get = mem_Get hash1\<rparr>"

section \<open>The backend\<close>

record PublisherOptions =
  RefreshInterval :: int
  PutTimeout :: int
  QueueSize :: int
  MinPutInterval :: int

definition DefaultPublisherOptions :: PublisherOptions where
  "DefaultPublisherOptions = \<lparr>RefreshInterval = 3600 * 10 ^ 9, PutTimeout = 30 * 10 ^ 9, QueueSize = 64, MinPutInterval = 55 * 60 * 10 ^ 9\<rparr>"

definition RegtestPublisherOptions :: PublisherOptions where
  "RegtestPublisherOptions = \<lparr>RefreshInterval = 5 * 10 ^ 9, PutTimeout = 5 * 10 ^ 9, QueueSize = 64, MinPutInterval = 100 * 10 ^ 6\<rparr>"

definition throttled :: "int \<Rightarrow> int \<Rightarrow> ManifestEntry \<Rightarrow> bool" where
  "throttled minPutInterval now e \<longleftrightarrow>
     minPutInterval > 0 \<and> (case me_LastPublished e of None \<Rightarrow> False | Some t \<Rightarrow> now - t < minPutInterval)"

definition publishOne :: "'w dht_store \<Rightarrow> PublisherOptions \<Rightarrow> int \<Rightarrow> bytes \<Rightarrow> Manifest \<times> 'w \<Rightarrow> Manifest \<times> 'w" where
  "publishOne D opts now keyword = (\<lambda>(m, w).
     case map_of (manifest_Snapshot m) keyword of
       None \<Rightarrow> (m, w)
     | Some entry \<Rightarrow>
         if throttled (MinPutInterval opts) now entry then (m, w)
         else (case SaltForKeyword keyword of
                 Inl err \<Rightarrow> (MarkFailed keyword (ErrSchema err) m, w)
               | Inr salt \<Rightarrow>
                   (case st_Put D now salt (value_of (me_Hits entry)) w of
                      (Some err, w) \<Rightarrow> (MarkFailed keyword err m, w)
                    | (None, w) \<Rightarrow> (MarkPublished keyword now m, w))))"

definition publish_keyword :: "dht_codec \<Rightarrow> 'w dht_store \<Rightarrow> PublisherOptions \<Rightarrow> int \<Rightarrow> KeywordHit \<Rightarrow> bytes \<Rightarrow> Manifest \<times> 'w \<Rightarrow> Manifest \<times> 'w" where
  "publish_keyword K D opts now hit kw = (\<lambda>(m, w).
     case AddHit K now kw hit m of
       (Inl _, m) \<Rightarrow> (m, w)
     | (Inr _, m) \<Rightarrow> publishOne D opts now kw (m, w))"

definition legacy_Publish :: "dht_codec \<Rightarrow> 'w dht_store \<Rightarrow> PublisherOptions \<Rightarrow> int \<Rightarrow> write_fault option \<Rightarrow> bytes list \<Rightarrow> KeywordHit \<Rightarrow>
    (Manifest \<times> 'w) \<times> manifest_doc fs \<Rightarrow> dht_error option \<times> (Manifest \<times> 'w) \<times> manifest_doc fs" where
  "legacy_Publish K D opts now flt keywords hit = (\<lambda>(x, fs).
     let x = fold (publish_keyword K D opts now hit) keywords x; (err, fs) = manifest_Save flt (fst x) fs
     in (err, x, fs))"

text \<open>A context that is cancelled after some keywords ends the refresh before the save.\<close>

definition legacy_Refresh :: "'w dht_store \<Rightarrow> PublisherOptions \<Rightarrow> int \<Rightarrow> write_fault option \<Rightarrow> nat option \<Rightarrow>
    (Manifest \<times> 'w) \<times> manifest_doc fs \<Rightarrow> dht_error option \<times> (Manifest \<times> 'w) \<times> manifest_doc fs" where
  "legacy_Refresh D opts now flt cancelled = (\<lambda>(x, fs).
     let kws = map fst (manifest_Snapshot (fst x));
         cnt = (case cancelled of None \<Rightarrow> length kws | Some n \<Rightarrow> n);
         x = fold (publishOne D opts now) (take cnt kws) x
     in if cnt < length kws then (Some ErrCancelled, x, fs)
        else let (err, fs) = manifest_Save flt (fst x) fs in (err, x, fs))"

definition legacy_Retract :: "write_fault option \<Rightarrow> bytes \<Rightarrow> Manifest \<times> manifest_doc fs \<Rightarrow> dht_error option \<times> Manifest \<times> manifest_doc fs" where
  "legacy_Retract flt ih = (\<lambda>(m, fs).
     let (touched, m) = RemoveAllHits ih m
     in if touched > 0 then (let (err, fs) = manifest_Save flt m fs in (err, m, fs)) else (None, m, fs))"

definition legacy_Close :: "write_fault option \<Rightarrow> Manifest \<times> manifest_doc fs \<Rightarrow> dht_error option \<times> Manifest \<times> manifest_doc fs" where
  "legacy_Close flt = (\<lambda>(m, fs). let (err, fs) = manifest_Save flt m fs in (err, m, fs))"

definition legacy_Lookup :: "'w dht_store \<Rightarrow> bytes \<Rightarrow> bytes \<Rightarrow> 'w \<Rightarrow> dht_error + KeywordHit list" where
  "legacy_Lookup D indexerPub tok w =
     (case SaltForKeyword tok of
        Inl e \<Rightarrow> Inl (ErrSchema e)
      | Inr salt \<Rightarrow>
          (case st_Get D indexerPub salt w of
             Inl e \<Rightarrow> Inl e
           | Inr v \<Rightarrow> Inr (case kv_Hits v of None \<Rightarrow> [] | Some hs \<Rightarrow> hs)))"

record PublisherKeywordStatus =
  ks_Keyword :: bytes
  ks_HitsCount :: nat
  ks_LastPublished :: "int option"
  ks_PublishCount :: int
  ks_LastError :: "dht_error option"

record PublisherStatus =
  ps_PubKey :: bytes
  ps_TotalKeywords :: nat
  ps_TotalHits :: nat
  ps_Keywords :: "PublisherKeywordStatus list"

definition legacy_Status :: "'w dht_store \<Rightarrow> Manifest \<Rightarrow> PublisherStatus" where
  "legacy_Status D m =
     (let snap = manifest_Snapshot m
      in \<lparr>ps_PubKey = st_PublicKey D, ps_TotalKeywords = length snap,
          ps_TotalHits = sum_list (map (\<lambda>(k, e). length (me_Hits e)) snap),
          ps_Keywords = map (\<lambda>(k, e). \<lparr>ks_Keyword = k, ks_HitsCount = length (me_Hits e),
             ks_LastPublished = me_LastPublished e, ks_PublishCount = me_PublishCount e, ks_LastError = me_LastError e\<rparr>) snap\<rparr>)"

section \<open>The worker\<close>

record PublishTask =
  pt_InfoHash :: bytes
  pt_Name :: bytes
  pt_Seeders :: int
  pt_FileCount :: int
  pt_SizeBytes :: int

definition task_hit :: "PublishTask \<Rightarrow> KeywordHit" where
  "task_hit task = \<lparr>kh_IH = pt_InfoHash task, kh_N = pt_Name task, kh_S = pt_Seeders task, kh_F = pt_FileCount task, kh_Sz = pt_SizeBytes task\<rparr>"

record Publisher =
  pb_opts :: PublisherOptions
  pb_tasks :: "PublishTask list"
  pb_stopped :: bool

definition NewPublisher :: "PublisherOptions \<Rightarrow> Publisher" where
  "NewPublisher opts =
     (let opts = (if RefreshInterval opts \<le> 0 then opts\<lparr>RefreshInterval := 3600 * 10 ^ 9\<rparr> else opts);
          opts = (if QueueSize opts \<le> 0 then opts\<lparr>QueueSize := 64\<rparr> else opts)
      in \<lparr>pb_opts = opts, pb_tasks = [], pb_stopped = False\<rparr>)"

text \<open>A full queue drops the task.\<close>

definition Submit :: "PublishTask \<Rightarrow> Publisher \<Rightarrow> Publisher" where
  "Submit task p =
     (if int (length (pb_tasks p)) < QueueSize (pb_opts p) then p\<lparr>pb_tasks := pb_tasks p @ [task]\<rparr> else p)"

definition handleTask :: "unicode \<Rightarrow> dht_codec \<Rightarrow> 'w dht_store \<Rightarrow> PublisherOptions \<Rightarrow> int \<Rightarrow> write_fault option \<Rightarrow> PublishTask \<Rightarrow>
    (Manifest \<times> 'w) \<times> manifest_doc fs \<Rightarrow> (Manifest \<times> 'w) \<times> manifest_doc fs" where
  "handleTask U K D opts now flt task x =
     (if length (pt_InfoHash task) \<noteq> 20 then x
      else
        let keywords = Tokenize U (pt_Name task)
        in if keywords = [] then x else snd (legacy_Publish K D opts now flt keywords (task_hit task) x))"

text \<open>
  One turn of the worker loop: a stop ends it, else it takes a queued task or, on a tick, refreshes.
  The options of the backend are those of the publisher.
\<close>

datatype turn = TakeTask | Tick "nat option"

definition run_turn :: "unicode \<Rightarrow> dht_codec \<Rightarrow> 'w dht_store \<Rightarrow> int \<Rightarrow> write_fault option \<Rightarrow> turn \<Rightarrow>
    Publisher \<times> (Manifest \<times> 'w) \<times> manifest_doc fs \<Rightarrow> Publisher \<times> (Manifest \<times> 'w) \<times> manifest_doc fs" where
  "run_turn U K D now flt t = (\<lambda>(p, x).
     if pb_stopped p then (p, x)
     else case t of
            TakeTask \<Rightarrow>
              (case pb_tasks p of
                 [] \<Rightarrow> (p, x)
               | task # tasks \<Rightarrow> (p\<lparr>pb_tasks := tasks\<rparr>, handleTask U K D (pb_opts p) now flt task x))
          | Tick cancelled \<Rightarrow> (p, snd (legacy_Refresh D (pb_opts p) now flt cancelled x)))"

section \<open>Fitting an entry\<close>

lemma evict_to_cap_suffix: "\<exists>pre. hs = pre @ evict_to_cap K now hs"
proof (induction K now hs rule: evict_to_cap.induct)
  case (1 K now h h' hs)
  then show ?case by (cases "EstimateValueSize K now (value_of (h # h' # hs)) > MaxValueBytes") (auto intro: exI [of _ "h # _"])
qed simp_all

lemma evict_to_cap_result:
  "hs \<noteq> [] \<Longrightarrow> evict_to_cap K now hs \<noteq> [] \<and> last (evict_to_cap K now hs) = last hs \<and>
    (length (evict_to_cap K now hs) = 1 \<or> EstimateValueSize K now (value_of (evict_to_cap K now hs)) \<le> MaxValueBytes)"
proof (induction K now hs rule: evict_to_cap.induct)
  case (1 K now h h' hs)
  then show ?case by (cases "EstimateValueSize K now (value_of (h # h' # hs)) > MaxValueBytes") auto
qed simp_all

lemma fitHitToCap_result:
  "(EstimateValueSize K now (value_of [fitHitToCap K now h]) \<le> MaxValueBytes \<or> kh_N (fitHitToCap K now h) = []) \<and>
   (\<exists>n. fitHitToCap K now h = h\<lparr>kh_N := take n (kh_N h)\<rparr>)"
proof (induction K now h rule: fitHitToCap.induct)
  case (1 K now h)
  let ?c = "length (kh_N h) > 0 \<and> EstimateValueSize K now (value_of [h]) > MaxValueBytes"
  show ?case
  proof (cases ?c)
    case True
    let ?h = "h\<lparr>kh_N := take (length (kh_N h) * 3 div 4) (kh_N h)\<rparr>"
    have e: "fitHitToCap K now h = fitHitToCap K now ?h" using True by (subst fitHitToCap.simps) simp
    obtain n where "fitHitToCap K now ?h = ?h\<lparr>kh_N := take n (kh_N ?h)\<rparr>" using 1 [OF True] by blast
    then have "fitHitToCap K now h = h\<lparr>kh_N := take (min n (length (kh_N h) * 3 div 4)) (kh_N h)\<rparr>" by (simp add: e)
    moreover have "EstimateValueSize K now (value_of [fitHitToCap K now h]) \<le> MaxValueBytes \<or> kh_N (fitHitToCap K now h) = []"
      using 1 [OF True] unfolding e by blast
    ultimately show ?thesis by blast
  next
    case False
    then have e: "fitHitToCap K now h = h" by (subst fitHitToCap.simps) (simp only: if_False)
    have "\<exists>n. h = h\<lparr>kh_N := take n (kh_N h)\<rparr>" by (rule exI [of _ "length (kh_N h)"]) simp
    then show ?thesis using False unfolding e by (auto simp: not_less)
  qed
qed

text \<open>A hit that fits the cap without its name: the infohash and the numbers.\<close>

definition bare_fits :: "dht_codec \<Rightarrow> int \<Rightarrow> KeywordHit \<Rightarrow> bool" where
  "bare_fits K now h \<longleftrightarrow> EstimateValueSize K now (value_of [h\<lparr>kh_N := []\<rparr>]) \<le> MaxValueBytes"

lemma fitHitToCap_fits:
  assumes "bare_fits K now h"
  shows "EstimateValueSize K now (value_of [fitHitToCap K now h]) \<le> MaxValueBytes \<and> kh_IH (fitHitToCap K now h) = kh_IH h"
proof -
  obtain n where n: "fitHitToCap K now h = h\<lparr>kh_N := take n (kh_N h)\<rparr>" using fitHitToCap_result by blast
  show ?thesis
  proof (cases "kh_N (fitHitToCap K now h) = []")
    case True
    then have "fitHitToCap K now h = h\<lparr>kh_N := []\<rparr>" using n by simp
    then show ?thesis using assms by (simp add: bare_fits_def)
  next
    case False
    then show ?thesis using fitHitToCap_result [of K now h] n by auto
  qed
qed

lemma replace_hit_some:
  assumes "replace_hit hit hs = Some hs'"
  shows "map kh_IH hs' = map kh_IH hs \<and> hit \<in> set hs' \<and> set hs' \<subseteq> insert hit (set hs)"
  using assms by (induction hs arbitrary: hs') (auto split: if_splits)

lemma replace_hit_none: "replace_hit hit hs = None \<Longrightarrow> kh_IH hit \<notin> kh_IH ` set hs"
  by (induction hs) (auto split: if_splits)

section \<open>Manifest operations\<close>

lemma map_of_put_entry [simp]: "map_of (m_Entries (put_entry k e m)) j = (if j = k then Some e else map_of (m_Entries m) j)"
  by (simp add: put_entry_def update_conv')

lemma mark_lookup:
  "map_of (m_Entries (MarkPublished k t m)) j =
     (if j = k then map_option (\<lambda>e. e\<lparr>me_LastPublished := Some t, me_LastError := None, me_PublishCount := me_PublishCount e + 1\<rparr>) (map_of (m_Entries m) k)
      else map_of (m_Entries m) j)"
  "map_of (m_Entries (MarkFailed k err m)) j =
     (if j = k then map_option (\<lambda>e. e\<lparr>me_LastError := Some err\<rparr>) (map_of (m_Entries m) k) else map_of (m_Entries m) j)"
  by (auto simp: MarkPublished_def MarkFailed_def split: option.split)

text \<open>The hits of a keyword after a hit was added to them.\<close>

definition added_hits :: "dht_codec \<Rightarrow> int \<Rightarrow> KeywordHit \<Rightarrow> KeywordHit list \<Rightarrow> KeywordHit list" where
  "added_hits K now hit hs =
     (let hits = evict_to_cap K now (case replace_hit hit hs of Some hs \<Rightarrow> hs | None \<Rightarrow> hs @ [hit])
      in case hits of [h] \<Rightarrow> [fitHitToCap K now h] | _ \<Rightarrow> hits)"

lemma AddHit_split:
  "AddHit K now kw hit m =
     (if kw = [] then (Inl ErrNoKeyword, m)
      else let hits = added_hits K (unix_of now) hit (me_Hits (entry_of m kw))
           in (Inr (length hits), put_entry kw ((entry_of m kw)\<lparr>me_Hits := hits\<rparr>) m))"
  by (simp add: AddHit_def added_hits_def Let_def)

text \<open>Every infohash of the result was there or is the new one; and the result fits the cap.\<close>

lemma added_hits_fit:
  assumes "\<forall>h \<in> insert hit (set hs). bare_fits K now h"
  shows "added_hits K now hit hs \<noteq> [] \<and> EstimateValueSize K now (value_of (added_hits K now hit hs)) \<le> MaxValueBytes"
proof -
  let ?all = "case replace_hit hit hs of Some hs \<Rightarrow> hs | None \<Rightarrow> hs @ [hit]"
  let ?ev = "evict_to_cap K now ?all"
  have "hit \<in> set ?all \<and> set ?all \<subseteq> insert hit (set hs)" using replace_hit_some [of hit hs] by (cases "replace_hit hit hs") auto
  then have ne: "?all \<noteq> []" and sub: "set ?all \<subseteq> insert hit (set hs)" by auto
  note ev = evict_to_cap_result [OF ne, of K now]
  have evsub: "set ?ev \<subseteq> insert hit (set hs)" using evict_to_cap_suffix [of ?all K now] sub by (metis Un_subset_iff set_append)
  show ?thesis
  proof (cases "length ?ev = 1")
    case True
    then obtain h where h: "?ev = [h]" by (auto simp: length_Suc_conv)
    then have "bare_fits K now h" using evsub assms by auto
    from fitHitToCap_fits [OF this] h show ?thesis by (simp add: added_hits_def)
  next
    case False
    then have "added_hits K now hit hs = ?ev" by (auto simp: added_hits_def Let_def split: list.split)
    then show ?thesis using ev False by simp
  qed
qed

lemma added_hits_new:
  assumes "kh_IH hit \<notin> kh_IH ` set hs"
  shows "\<exists>h \<in> set (added_hits K now hit hs). kh_IH h = kh_IH hit"
proof -
  have r: "replace_hit hit hs = None"
  proof (rule ccontr)
    assume "replace_hit hit hs \<noteq> None"
    then obtain hs' where "replace_hit hit hs = Some hs'" by blast
    from replace_hit_some [OF this] have mem: "hit \<in> set hs'" and eq: "map kh_IH hs' = map kh_IH hs" by auto
    from mem have "kh_IH hit \<in> set (map kh_IH hs')" by simp
    then show False using assms unfolding eq by simp
  qed
  let ?ev = "evict_to_cap K now (hs @ [hit])"
  have ev: "?ev \<noteq> []" "last ?ev = hit" using evict_to_cap_result [of "hs @ [hit]" K now] by auto
  show ?thesis
  proof (cases "length ?ev = 1")
    case True
    then have "?ev = [hit]" using ev by (cases ?ev) auto
    then show ?thesis using fitHitToCap_result [of K now hit] r by (auto simp: added_hits_def)
  next
    case False
    then have "added_hits K now hit hs = ?ev" using r by (auto simp: added_hits_def Let_def split: list.split)
    then show ?thesis using ev last_in_set [of ?ev] by auto
  qed
qed

section \<open>A reliable store\<close>

locale reliable_store =
  fixes D :: "'w dht_store" and K :: dht_codec and target :: "bytes \<Rightarrow> bytes \<Rightarrow> bytes"
  assumes put_fits: "EncodeValue K (unix_of now) v = Inr out \<Longrightarrow> \<exists>w'. st_Put D now salt v w = (None, w')"
    and get_put: "st_Put D now salt v w = (None, w') \<Longrightarrow> st_Get D (st_PublicKey D) salt w' = Inr v"
    and get_other: "st_Put D now salt v w = (r, w') \<Longrightarrow> target pub' salt' \<noteq> target (st_PublicKey D) salt \<Longrightarrow> st_Get D pub' salt' w' = st_Get D pub' salt' w"
begin

lemma publishOne_other:
  assumes "publishOne D opts now kw' (m, w) = (m', w')" and "kw' \<noteq> kw" and "target pub kw \<noteq> target (st_PublicKey D) kw'"
  shows "map_of (m_Entries m') kw = map_of (m_Entries m) kw \<and> st_Get D pub kw w' = st_Get D pub kw w"
proof (cases "map_of (m_Entries m) kw'")
  case None
  then show ?thesis using assms(1) by (simp add: publishOne_def manifest_Snapshot_def)
next
  case (Some e)
  consider "throttled (MinPutInterval opts) now e" | err where "\<not> throttled (MinPutInterval opts) now e" "SaltForKeyword kw' = Inl err"
    | salt where "\<not> throttled (MinPutInterval opts) now e" "SaltForKeyword kw' = Inr salt" by (cases "SaltForKeyword kw'") auto
  then show ?thesis
  proof cases
    case 3
    obtain r w1 where p: "st_Put D now salt (value_of (me_Hits e)) w = (r, w1)" by force
    have "salt = kw'" using SaltForKeyword_self [OF 3(2)] .
    then show ?thesis using assms Some 3 p get_other [OF p, of pub kw]
      by (cases r) (auto simp: publishOne_def manifest_Snapshot_def mark_lookup)
  qed (use assms Some in \<open>auto simp: publishOne_def manifest_Snapshot_def mark_lookup\<close>)
qed

lemma publish_keyword_other:
  assumes "publish_keyword K D opts now hit kw' (m, w) = (m', w')" and "kw' \<noteq> kw" and "target pub kw \<noteq> target (st_PublicKey D) kw'"
  shows "map_of (m_Entries m') kw = map_of (m_Entries m) kw \<and> st_Get D pub kw w' = st_Get D pub kw w"
proof (cases "kw' = []")
  case True
  then show ?thesis using assms(1) by (simp add: publish_keyword_def AddHit_split)
next
  case False
  let ?m = "put_entry kw' ((entry_of m kw')\<lparr>me_Hits := added_hits K (unix_of now) hit (me_Hits (entry_of m kw'))\<rparr>) m"
  have "publishOne D opts now kw' (?m, w) = (m', w')" using assms(1) False by (simp add: publish_keyword_def AddHit_split Let_def)
  from publishOne_other [OF this assms(2,3)] assms(2) show ?thesis by simp
qed

lemma publish_all_other:
  assumes "fold (publish_keyword K D opts now hit) kws (m, w) = (m', w')" and "kw \<notin> set kws"
    and "\<forall>kw' \<in> set kws. target pub kw \<noteq> target (st_PublicKey D) kw'"
  shows "map_of (m_Entries m') kw = map_of (m_Entries m) kw \<and> st_Get D pub kw w' = st_Get D pub kw w"
  using assms
proof (induction kws arbitrary: m w)
  case (Cons k kws)
  obtain m1 w1 where s: "publish_keyword K D opts now hit k (m, w) = (m1, w1)" by force
  from publish_keyword_other [OF s, of kw pub] Cons.IH [of m1 w1] Cons.prems s show ?case by auto
qed simp

lemma publish_self:
  assumes "publish_keyword K D opts now hit kw (m, w) = (m', w')" and "SaltForKeyword kw = Inr kw"
    and "\<not> throttled (MinPutInterval opts) now (entry_of m kw)"
    and "\<forall>h \<in> insert hit (set (me_Hits (entry_of m kw))). bare_fits K (unix_of now) h"
  shows "st_Get D (st_PublicKey D) kw w' = Inr (value_of (added_hits K (unix_of now) hit (me_Hits (entry_of m kw))))"
proof -
  let ?hits = "added_hits K (unix_of now) hit (me_Hits (entry_of m kw))"
  let ?e = "(entry_of m kw)\<lparr>me_Hits := ?hits\<rparr>"
  have ne: "kw \<noteq> []" using assms(2) by (auto simp: SaltForKeyword_def)
  have p: "publishOne D opts now kw (put_entry kw ?e m, w) = (m', w')" using assms(1) ne by (simp add: publish_keyword_def AddHit_split Let_def)
  have nt: "\<not> throttled (MinPutInterval opts) now ?e" using assms(3) by (simp add: throttled_def)
  obtain out where "EncodeValue K (unix_of now) (value_of ?hits) = Inr out" using added_hits_fit [OF assms(4)] EncodeValue_fits by blast
  then obtain w1 where w1: "st_Put D now kw (value_of ?hits) w = (None, w1)" using put_fits by blast
  then have "w' = w1" using p nt assms(2) by (simp add: publishOne_def manifest_Snapshot_def)
  then show ?thesis using get_put [OF w1] by simp
qed

lemma published_found:
  assumes "fold (publish_keyword K D opts now hit) kws (m, w) = (m', w')" and "distinct kws" and "kw \<in> set kws"
    and "SaltForKeyword kw = Inr kw" and "\<not> throttled (MinPutInterval opts) now (entry_of m kw)"
    and "\<forall>h \<in> insert hit (set (me_Hits (entry_of m kw))). bare_fits K (unix_of now) h"
    and "\<forall>kw' \<in> set kws - {kw}. target (st_PublicKey D) kw \<noteq> target (st_PublicKey D) kw'"
  shows "legacy_Lookup D (st_PublicKey D) kw w' = Inr (added_hits K (unix_of now) hit (me_Hits (entry_of m kw)))"
proof -
  obtain pre post where k: "kws = pre @ kw # post" using split_list [OF assms(3)] by blast
  obtain m1 w1 where a: "fold (publish_keyword K D opts now hit) pre (m, w) = (m1, w1)" by force
  obtain m2 w2 where b: "publish_keyword K D opts now hit kw (m1, w1) = (m2, w2)" by force
  have c: "fold (publish_keyword K D opts now hit) post (m2, w2) = (m', w')" using assms(1) by (simp add: k a b)
  have "map_of (m_Entries m1) kw = map_of (m_Entries m) kw" using publish_all_other [OF a, of kw "st_PublicKey D"] assms(2,7) by (auto simp: k)
  then have e: "entry_of m1 kw = entry_of m kw" by (simp add: entry_of_def)
  have "st_Get D (st_PublicKey D) kw w2 = Inr (value_of (added_hits K (unix_of now) hit (me_Hits (entry_of m kw))))"
    using publish_self [OF b assms(4)] assms(5,6) e by simp
  moreover have "st_Get D (st_PublicKey D) kw w' = st_Get D (st_PublicKey D) kw w2"
    using publish_all_other [OF c, of kw "st_PublicKey D"] assms(2,7) by (auto simp: k)
  ultimately show ?thesis using assms(4) by (simp add: legacy_Lookup_def value_of_def)
qed

end

lemma map_of_mem: "map_of (AList.update k v m) j = (if j = k then Some v else map_of m j)"
  by (simp add: update_conv')

interpretation mem: reliable_store "MemoryStore K hash1 pub" K "mem_target hash1" for K hash1 pub
proof
  show "\<exists>w'. st_Put (MemoryStore K hash1 pub) now salt v w = (None, w')" if "EncodeValue K (unix_of now) v = Inr out" for now v out salt w
    using that by (simp add: MemoryStore_def mem_Put_def Let_def)
  show "st_Get (MemoryStore K hash1 pub) (st_PublicKey (MemoryStore K hash1 pub)) salt w' = Inr v"
    if "st_Put (MemoryStore K hash1 pub) now salt v w = (None, w')" for now salt v w w'
    using that by (auto simp: MemoryStore_def mem_Put_def mem_Get_def Let_def map_of_mem split: sum.splits)
  show "st_Get (MemoryStore K hash1 pub) pub' salt' w' = st_Get (MemoryStore K hash1 pub) pub' salt' w"
    if "st_Put (MemoryStore K hash1 pub) now salt v w = (r, w')" and "mem_target hash1 pub' salt' \<noteq> mem_target hash1 (st_PublicKey (MemoryStore K hash1 pub)) salt"
    for now salt v w r w' pub' salt'
    using that by (auto simp: MemoryStore_def mem_Put_def mem_Get_def Let_def map_of_mem split: sum.splits)
qed

section \<open>The manifest in every run\<close>

text \<open>
  What is relied on of the encoding: within a window \<open>T\<close> of time stamps of the same width the size does
  not depend on the time stamp, and leaving hits out never makes a value larger.
\<close>

definition value_codec_ok :: "dht_codec \<Rightarrow> int set \<Rightarrow> bool" where
  "value_codec_ok K T \<longleftrightarrow>
     (\<forall>hs a b. a \<in> T \<and> b \<in> T \<longrightarrow> EstimateValueSize K a (value_of hs) = EstimateValueSize K b (value_of hs)) \<and>
     (\<forall>hs P a. a \<in> T \<longrightarrow> EstimateValueSize K a (value_of (filter P hs)) \<le> EstimateValueSize K a (value_of hs))"

datatype manifest_op = OpAddHit int bytes KeywordHit | OpRemoveAll bytes | OpMarkPublished bytes int | OpMarkFailed bytes dht_error

fun manifest_step :: "dht_codec \<Rightarrow> manifest_op \<Rightarrow> Manifest \<Rightarrow> Manifest" where
  "manifest_step K (OpAddHit now kw hit) m = snd (AddHit K now kw hit m)"
| "manifest_step K (OpRemoveAll ih) m = snd (RemoveAllHits ih m)"
| "manifest_step K (OpMarkPublished kw t) m = MarkPublished kw t m"
| "manifest_step K (OpMarkFailed kw err) m = MarkFailed kw err m"

fun op_ok :: "dht_codec \<Rightarrow> int set \<Rightarrow> manifest_op \<Rightarrow> bool" where
  "op_ok K T (OpAddHit now kw hit) \<longleftrightarrow> unix_of now \<in> T \<and> (\<forall>t \<in> T. bare_fits K t hit)"
| "op_ok K T _ \<longleftrightarrow> True"

definition entry_ok :: "dht_codec \<Rightarrow> int set \<Rightarrow> bytes \<times> ManifestEntry \<Rightarrow> bool" where
  "entry_ok K T = (\<lambda>(k, e). k \<noteq> [] \<and> me_Hits e \<noteq> [] \<and> distinct (map kh_IH (me_Hits e)) \<and>
     (\<forall>t \<in> T. EstimateValueSize K t (value_of (me_Hits e)) \<le> MaxValueBytes \<and> (\<forall>h \<in> set (me_Hits e). bare_fits K t h)))"

definition manifest_ok :: "dht_codec \<Rightarrow> int set \<Rightarrow> Manifest \<Rightarrow> bool" where
  "manifest_ok K T m \<longleftrightarrow> distinct (map fst (m_Entries m)) \<and> (\<forall>x \<in> set (m_Entries m). entry_ok K T x)"

lemma distinct_suffix: "xs = pre @ ys \<Longrightarrow> distinct (map f xs) \<Longrightarrow> distinct (map f ys)"
  by simp

lemma bare_name [simp]: "bare_fits K t (h\<lparr>kh_N := n\<rparr>) = bare_fits K t h"
  by (simp add: bare_fits_def)

lemma added_hits_ok:
  assumes "distinct (map kh_IH hs)" and "\<forall>h \<in> insert hit (set hs). bare_fits K t h"
  shows "distinct (map kh_IH (added_hits K now hit hs)) \<and> (\<forall>h \<in> set (added_hits K now hit hs). bare_fits K t h)"
proof -
  let ?all = "case replace_hit hit hs of Some hs \<Rightarrow> hs | None \<Rightarrow> hs @ [hit]"
  let ?ev = "evict_to_cap K now ?all"
  have all: "distinct (map kh_IH ?all)" "\<forall>h \<in> set ?all. bare_fits K t h"
    using assms replace_hit_some [of hit hs] replace_hit_none [of hit hs] by (auto split: option.splits)
  obtain pre where "?all = pre @ ?ev" using evict_to_cap_suffix by blast
  then have ev: "distinct (map kh_IH ?ev)" "\<forall>h \<in> set ?ev. bare_fits K t h" using all distinct_suffix by (blast, metis UnCI set_append)
  show ?thesis
  proof (cases "\<exists>h. ?ev = [h]")
    case True
    then obtain h where h: "?ev = [h]" by blast
    obtain n where "fitHitToCap K now h = h\<lparr>kh_N := take n (kh_N h)\<rparr>" using fitHitToCap_result by blast
    then show ?thesis using ev h by (simp add: added_hits_def)
  next
    case False
    then have "added_hits K now hit hs = ?ev" by (auto simp: added_hits_def Let_def split: list.split)
    then show ?thesis using ev by simp
  qed
qed

lemma manifest_ok_put:
  assumes "manifest_ok K T m" and "entry_ok K T (k, e)"
  shows "manifest_ok K T (put_entry k e m)"
proof -
  have "set (AList.update k e es) \<subseteq> insert (k, e) (set es)" for es by (induction es) auto
  then show ?thesis using assms AList.distinct_update [of "m_Entries m" k e] by (fastforce simp: manifest_ok_def put_entry_def)
qed

lemma manifest_entry: "manifest_ok K T m \<Longrightarrow> map_of (m_Entries m) k = Some e \<Longrightarrow> entry_ok K T (k, e)"
  by (auto simp: manifest_ok_def dest: map_of_SomeD)

lemma AddHit_ok:
  assumes "value_codec_ok K T" and "manifest_ok K T m" and "unix_of now \<in> T" and "\<forall>t \<in> T. bare_fits K t hit"
  shows "manifest_ok K T (snd (AddHit K now kw hit m))"
proof (cases "kw = []")
  case False
  let ?hs = "me_Hits (entry_of m kw)" and ?new = "added_hits K (unix_of now) hit (me_Hits (entry_of m kw))"
  have old: "distinct (map kh_IH ?hs)" "\<forall>t \<in> T. \<forall>h \<in> insert hit (set ?hs). bare_fits K t h"
    using manifest_entry [OF assms(2), of kw] assms(4) by (auto simp: entry_of_def entry_ok_def split: option.splits)
  have new: "distinct (map kh_IH ?new)" "\<forall>t \<in> T. \<forall>h \<in> set ?new. bare_fits K t h"
    using added_hits_ok [OF old(1)] old(2) assms(3) by blast+
  have fit: "?new \<noteq> []" "EstimateValueSize K (unix_of now) (value_of ?new) \<le> MaxValueBytes" using added_hits_fit [of hit ?hs K "unix_of now"] old(2) assms(3) by auto
  then have "\<forall>t \<in> T. EstimateValueSize K t (value_of ?new) \<le> MaxValueBytes" using assms(1,3) unfolding value_codec_ok_def by metis
  then have "entry_ok K T (kw, (entry_of m kw)\<lparr>me_Hits := ?new\<rparr>)" using False new fit(1) by (simp add: entry_ok_def)
  from manifest_ok_put [OF assms(2) this] False show ?thesis by (simp add: AddHit_split Let_def)
qed (use assms in \<open>simp add: AddHit_split\<close>)

lemma Remove_ok:
  assumes "value_codec_ok K T" and "manifest_ok K T m"
  shows "manifest_ok K T (snd (RemoveAllHits ih m))"
proof (cases "ih = []")
  case False
  let ?f = "\<lambda>(k, e). (k, e\<lparr>me_Hits := filter (\<lambda>h. kh_IH h \<noteq> ih) (me_Hits e)\<rparr>)"
  have k: "map fst (map ?f es) = map fst es" for es by (induction es) auto
  have small: "EstimateValueSize K t (value_of (filter P hs)) \<le> EstimateValueSize K t (value_of hs)" if "t \<in> T" for P hs t
    using assms(1) that unfolding value_codec_ok_def by blast
  have one: "entry_ok K T (k, e\<lparr>me_Hits := filter (\<lambda>h. kh_IH h \<noteq> ih) (me_Hits e)\<rparr>)"
    if "entry_ok K T (k, e)" "filter (\<lambda>h. kh_IH h \<noteq> ih) (me_Hits e) \<noteq> []" for k e
  proof -
    have "EstimateValueSize K t (value_of (filter (\<lambda>h. kh_IH h \<noteq> ih) (me_Hits e))) \<le> MaxValueBytes" if "t \<in> T" for t
      using small [OF that, of "\<lambda>h. kh_IH h \<noteq> ih" "me_Hits e"] \<open>entry_ok K T (k, e)\<close> that by (fastforce simp: entry_ok_def)
    then show ?thesis using that by (simp add: entry_ok_def distinct_map_filter)
  qed
  have "\<forall>x \<in> set (filter (\<lambda>(k, e). me_Hits e \<noteq> []) (map ?f (m_Entries m))). entry_ok K T x"
  proof
    fix x
    assume "x \<in> set (filter (\<lambda>(k, e). me_Hits e \<noteq> []) (map ?f (m_Entries m)))"
    then obtain k e where "(k, e) \<in> set (m_Entries m)" "x = (k, e\<lparr>me_Hits := filter (\<lambda>h. kh_IH h \<noteq> ih) (me_Hits e)\<rparr>)"
      "filter (\<lambda>h. kh_IH h \<noteq> ih) (me_Hits e) \<noteq> []" by auto
    then show "entry_ok K T x" using one [of k e] assms(2) by (simp add: manifest_ok_def)
  qed
  moreover have "distinct (map fst (filter (\<lambda>(k, e). me_Hits e \<noteq> []) (map ?f (m_Entries m))))"
  proof -
    have "distinct (map fst (map ?f (m_Entries m)))" unfolding k using assms(2) by (simp add: manifest_ok_def)
    then show ?thesis by (rule distinct_map_filter)
  qed
  ultimately show ?thesis using False by (simp add: RemoveAllHits_def manifest_ok_def)
qed (use assms in \<open>simp add: RemoveAllHits_def\<close>)

lemma mark_ok:
  assumes "manifest_ok K T m"
  shows "manifest_ok K T (MarkPublished kw t m)" and "manifest_ok K T (MarkFailed kw err m)"
  using manifest_entry [OF assms, of kw]
  by (auto simp: MarkPublished_def MarkFailed_def entry_ok_def assms intro!: manifest_ok_put [OF assms] split: option.split)

lemma step_ok: "value_codec_ok K T \<Longrightarrow> op_ok K T op \<Longrightarrow> manifest_ok K T m \<Longrightarrow> manifest_ok K T (manifest_step K op m)"
  by (cases op) (simp_all add: AddHit_ok Remove_ok mark_ok)

lemma RemoveAllHits_absent:
  assumes "ih \<noteq> []" and "(k, e) \<in> set (m_Entries (snd (RemoveAllHits ih m)))"
  shows "ih \<notin> kh_IH ` set (me_Hits e)"
  using assms by (auto simp: RemoveAllHits_def)

section \<open>Properties\<close>



section \<open>Concrete values\<close>

text \<open>A plain encoding: ten bytes of time stamp and header, then infohashes and names.\<close>

definition plain_codec :: dht_codec where
  "plain_codec = \<lparr>kv_marshal = (\<lambda>v. Some (replicate 10 0 @ concat (map (\<lambda>h. kh_IH h @ kh_N h) (case kv_Hits v of None \<Rightarrow> [] | Some hs \<Rightarrow> hs)))),
     kv_decode = (\<lambda>_ _. None), pp_marshal = (\<lambda>_. None), pp_decode = (\<lambda>_ _. None)\<rparr>"

lemma plain_size: "EstimateValueSize plain_codec now (value_of hs) = 10 + sum_list (map (\<lambda>h. length (kh_IH h) + length (kh_N h)) hs)"
  by (simp add: EstimateValueSize_def plain_codec_def value_of_def stamp_def length_concat comp_def)

lemma plain_value_codec_ok: "value_codec_ok plain_codec UNIV"
proof -
  have "sum_list (map f (filter P hs)) \<le> sum_list (map f hs)" for f :: "KeywordHit \<Rightarrow> nat" and P hs by (induction hs) auto
  then show ?thesis by (simp add: value_codec_ok_def plain_size)
qed

definition lab_hit :: "byte \<Rightarrow> nat \<Rightarrow> KeywordHit" where
  "lab_hit b n = \<lparr>kh_IH = replicate 20 b, kh_N = replicate n 97, kh_S = 1, kh_F = 1, kh_Sz = 1\<rparr>"

lemma lab_bare: "bare_fits plain_codec t (lab_hit b n)"
  by (simp add: bare_fits_def plain_size lab_hit_def MaxValueBytes_def)

text \<open>A hit that is refreshed keeps its place, so it can be the oldest, and is then evicted for its own new size.\<close>

lemma refreshed_hit_evicted: "added_hits plain_codec 0 (lab_hit 1 100) [lab_hit 1 0, lab_hit 2 900] = [lab_hit 2 900]"
proof -
  have r: "replace_hit (lab_hit 1 100) [lab_hit 1 0, lab_hit 2 900] = Some [lab_hit 1 100, lab_hit 2 900]" by (simp add: lab_hit_def)
  have "evict_to_cap plain_codec 0 [lab_hit 1 100, lab_hit 2 900] = [lab_hit 2 900]" by (simp add: plain_size MaxValueBytes_def) (simp add: lab_hit_def)
  moreover have "fitHitToCap plain_codec 0 (lab_hit 2 900) = lab_hit 2 900" by (subst fitHitToCap.simps) (simp add: plain_size MaxValueBytes_def lab_hit_def)
  ultimately show ?thesis unfolding added_hits_def r option.case Let_def by (simp only: list.case)
qed


definition lab_task :: PublishTask where
  "lab_task = \<lparr>pt_InfoHash = replicate 20 7, pt_Name = ascii ''Ab1'', pt_Seeders = 1, pt_FileCount = 1, pt_SizeBytes = 1\<rparr>"


end
