(* ===== verification/Bloom.thy ===== *)
theory Bloom
  imports Atomic_File Complex_Main
begin

text \<open>
  The known-good Bloom filter (\<^verbatim>\<open>internal/reputation/bloom.go\<close>) on 64-bit words, with Go's FNV-1a hash
  (\<^verbatim>\<open>hash/fnv\<close>).  An operation that would panic, on an index outside the bit array or a modulus of
  zero, returns \<open>None\<close>.  Sizing uses real logarithms.
\<close>

section \<open>The filter\<close>

record BloomFilter =
  b_bits :: "u64 list"
  b_m :: u64
  b_k :: u64
  b_path :: string

definition BloomDefaultExpectedItems :: int where "BloomDefaultExpectedItems = 1000000"
definition BloomDefaultFalsePositiveRate :: real where "BloomDefaultFalsePositiveRate = 1 / 100"
definition bloomFileMagic :: bytes where "bloomFileMagic = [0x53, 0x42, 0x4C, 0x4D]"
definition bloomFileVersion :: u16 where "bloomFileVersion = 1"
definition maxBloomBits :: u64 where "maxBloomBits = push_bit 31 1"

definition optimalSize :: "int \<Rightarrow> real \<Rightarrow> nat \<times> nat" where
  "optimalSize n p =
     (let mF = - real_of_int n * ln p / (ln 2 * ln 2);
          kF = mF / real_of_int n * ln 2;
          m = nat \<lceil>mF\<rceil>; k = nat \<lceil>kF\<rceil>
      in (if m = 0 then 1 else m, if k = 0 then 1 else k))"

definition NewBloomFilter :: "int \<Rightarrow> real \<Rightarrow> BloomFilter" where
  "NewBloomFilter expectedItems fpRate =
     (let expectedItems = (if expectedItems \<le> 0 then BloomDefaultExpectedItems else expectedItems);
          fpRate = (if fpRate \<le> 0 \<or> fpRate \<ge> 1 then BloomDefaultFalsePositiveRate else fpRate);
          (m, k) = optimalSize expectedItems fpRate
      in \<lparr>b_bits = replicate (unat ((of_nat m + 63 :: u64) div 64)) 0, b_m = of_nat m, b_k = of_nat k, b_path = []\<rparr>)"

section \<open>Hashing\<close>

text \<open>FNV-1a, 64 bits, from a running state.\<close>

definition fnv_offset :: u64 where "fnv_offset = 14695981039346656037"
definition fnv_prime :: u64 where "fnv_prime = 1099511628211"

definition fnv_write :: "u64 \<Rightarrow> bytes \<Rightarrow> u64" where
  "fnv_write h bs = foldl (\<lambda>h b. (h XOR ucast b) * fnv_prime) h bs"

definition indices :: "BloomFilter \<Rightarrow> bytes \<Rightarrow> u64 list option" where
  "indices b input =
     (let h1 = fnv_write fnv_offset input;
          h2 = fnv_write h1 [0xff] OR 1
      in if b_m b = 0 \<and> b_k b \<noteq> 0 then None
         else Some (map (\<lambda>i. (h1 + of_nat i * h2) mod b_m b) [0..<unat (b_k b)]))"

section \<open>Membership\<close>

definition set_index :: "u64 \<Rightarrow> u64 list \<Rightarrow> u64 list option" where
  "set_index idx bs =
     (let w = unat (idx div 64) in
      if w < length bs then Some (bs[w := bs ! w OR push_bit (unat (idx mod 64)) 1]) else None)"

definition test_index :: "u64 \<Rightarrow> u64 list \<Rightarrow> bool option" where
  "test_index idx bs =
     (let w = unat (idx div 64) in
      if w < length bs then Some (bs ! w AND push_bit (unat (idx mod 64)) 1 \<noteq> 0) else None)"

fun set_all :: "u64 list \<Rightarrow> u64 list \<Rightarrow> u64 list option" where
  "set_all [] bs = Some bs"
| "set_all (idx # is) bs = (case set_index idx bs of None \<Rightarrow> None | Some bs' \<Rightarrow> set_all is bs')"

fun test_all :: "u64 list \<Rightarrow> u64 list \<Rightarrow> bool option" where
  "test_all [] bs = Some True"
| "test_all (idx # is) bs =
     (case test_index idx bs of
        None \<Rightarrow> None
      | Some False \<Rightarrow> Some False
      | Some True \<Rightarrow> test_all is bs)"

definition bloom_Add :: "bytes \<Rightarrow> BloomFilter \<Rightarrow> BloomFilter option" where
  "bloom_Add infohash b =
     (case indices b infohash of
        None \<Rightarrow> None
      | Some is \<Rightarrow> map_option (\<lambda>bs. b\<lparr>b_bits := bs\<rparr>) (set_all is (b_bits b)))"

definition bloom_Test :: "bytes \<Rightarrow> BloomFilter \<Rightarrow> bool option" where
  "bloom_Test infohash b =
     (case indices b infohash of None \<Rightarrow> None | Some is \<Rightarrow> test_all is (b_bits b))"

text \<open>\<open>bits.OnesCount64\<close>.\<close>

definition OnesCount64 :: "u64 \<Rightarrow> nat" where
  "OnesCount64 w = length (filter (bit w) [0..<64])"

definition PopulationCount :: "BloomFilter \<Rightarrow> u64" where
  "PopulationCount b = of_nat (sum_list (map OnesCount64 (b_bits b)))"

text \<open>\<open>None\<close> is positive infinity.\<close>

definition EstimatedItems :: "BloomFilter \<Rightarrow> real option" where
  "EstimatedItems b =
     (let m = real (unat (b_m b)); k = real (unat (b_k b)); x = real (unat (PopulationCount b))
      in if x = 0 then Some 0 else if x \<ge> m then None else Some (- m / k * ln (1 - x / m)))"

definition Bits :: "BloomFilter \<Rightarrow> u64" where "Bits b = b_m b"
definition HashFunctions :: "BloomFilter \<Rightarrow> u64" where "HashFunctions b = b_k b"

section \<open>The file\<close>

datatype bloom_error = ErrBloomPath | ErrBloomMkdir | ErrBloomOpen | ErrBloomHeader | ErrBloomMagic | ErrBloomVersion u16
  | ErrBloomParams u64 u64 | ErrBloomCap u64 | ErrBloomBitsLen u64 u64 | ErrBloomBits | ErrBloomK u64

fun read_words :: "nat \<Rightarrow> bytes \<Rightarrow> u64 list option" where
  "read_words 0 r = Some []"
| "read_words (Suc n) r =
     (if length r < 8 then None else map_option ((#) (get_u64 r)) (read_words n (drop 8 r)))"

definition readBloom :: "bytes \<Rightarrow> bloom_error + BloomFilter" where
  "readBloom r =
     (if length r < 24 then Inl ErrBloomHeader
      else
        let version = get_u16 (drop 4 r); k = ucast (get_u16 (drop 6 r)) :: u64; m = get_u64 (drop 8 r); bitsLen = get_u64 (drop 16 r)
        in if take 4 r \<noteq> bloomFileMagic then Inl ErrBloomMagic
           else if version \<noteq> bloomFileVersion then Inl (ErrBloomVersion version)
           else if m = 0 \<or> k = 0 then Inl (ErrBloomParams m k)
           else if m > maxBloomBits then Inl (ErrBloomCap m)
           else if bitsLen \<noteq> (m + 63) div 64 then Inl (ErrBloomBitsLen bitsLen m)
           else case read_words (unat bitsLen) (drop 24 r) of
                  None \<Rightarrow> Inl ErrBloomBits
                | Some ws \<Rightarrow> Inr \<lparr>b_bits = ws, b_m = m, b_k = k, b_path = []\<rparr>)"

definition writeBloom :: "BloomFilter \<Rightarrow> bloom_error + bytes" where
  "writeBloom b =
     (if b_k b > 65535 then Inl (ErrBloomK (b_k b))
      else Inr (bloomFileMagic @ put_u16 bloomFileVersion @ put_u16 (ucast (b_k b)) @ put_u64 (b_m b) @
                put_u64 (of_nat (length (b_bits b))) @ concat (map put_u64 (b_bits b))))"

text \<open>The file system holds raw bytes; a torn file reads as too short.\<close>

definition LoadOrCreateBloom :: "string \<Rightarrow> bool \<Rightarrow> bytes fs \<Rightarrow> bloom_error + BloomFilter" where
  "LoadOrCreateBloom path mkdir_ok fs =
     (if path = [] then Inl ErrBloomPath
      else if \<not> mkdir_ok then Inl ErrBloomMkdir
      else case fs path of
             Absent \<Rightarrow> Inr ((NewBloomFilter 0 0)\<lparr>b_path := path\<rparr>)
           | Unreadable \<Rightarrow> Inl ErrBloomOpen
           | Malformed \<Rightarrow> Inl ErrBloomHeader
           | Doc raw \<Rightarrow> (case readBloom raw of Inl e \<Rightarrow> Inl e | Inr b \<Rightarrow> Inr (b\<lparr>b_path := path\<rparr>)))"

text \<open>A filter that does not encode fails like a failed write.\<close>

definition bloom_Save :: "fault option \<Rightarrow> string \<Rightarrow> BloomFilter \<Rightarrow> bytes fs \<Rightarrow> bool \<times> bytes fs" where
  "bloom_Save flt tmp b fs =
     (case writeBloom b of
        Inl _ \<Rightarrow> if b_path b = [] then (True, fs)
                 else if flt = Some FailCreate then save_file flt tmp (b_path b) [] fs
                 else save_file (Some FailWrite) tmp (b_path b) [] fs
      | Inr raw \<Rightarrow> save_file flt tmp (b_path b) raw fs)"

section \<open>Lemmas\<close>

definition bloom_ok :: "BloomFilter \<Rightarrow> bool" where
  "bloom_ok b \<longleftrightarrow> b_m b \<noteq> 0 \<and> length (b_bits b) = (unat (b_m b) + 63) div 64"

lemma indices_range:
  assumes "bloom_ok b"
  shows "\<exists>is. indices b x = Some is \<and> (\<forall>i \<in> set is. unat (i div 64) < length (b_bits b))"
proof -
  have m: "0 < unat (b_m b)" using assms by (simp add: bloom_ok_def unat_gt_0)
  have "unat ((y mod b_m b) div 64) < length (b_bits b)" for y
  proof -
    have "unat (y mod b_m b) < unat (b_m b)" using m by (simp add: unat_mod)
    then show ?thesis using assms by (simp add: bloom_ok_def unat_div)
  qed
  then show ?thesis using assms by (auto simp: indices_def Let_def bloom_ok_def)
qed

text \<open>Bits as a set: position \<open>i\<close> of the array is set.\<close>

definition has_bit :: "u64 list \<Rightarrow> u64 \<Rightarrow> bool" where
  "has_bit bs i \<longleftrightarrow> bit (bs ! unat (i div 64)) (unat (i mod 64))"

lemma test_has_bit:
  assumes "unat (i div 64) < length bs"
  shows "test_index i bs = Some (has_bit bs i)"
proof -
  have n: "unat (i mod 64) < 64" by (simp add: unat_mod)
  have "(w AND push_bit n 1 \<noteq> 0) = bit w n" if "n < 64" for w :: u64 and n
  proof -
    have "bit (w AND push_bit n 1) i = (i = n \<and> bit w n)" for i using that by (auto simp: bit_simps)
    then show ?thesis by (metis bit_0_eq bot_apply bot_bool_def bit_word_eqI)
  qed
  then show ?thesis using assms n by (simp add: test_index_def has_bit_def Let_def)
qed

lemma set_index_some:
  assumes "unat (i div 64) < length bs"
  shows "\<exists>bs'. set_index i bs = Some bs' \<and> length bs' = length bs \<and> has_bit bs' i \<and> (\<forall>j. unat (j div 64) < length bs \<longrightarrow> has_bit bs j \<longrightarrow> has_bit bs' j)"
proof -
  have n: "unat (i mod 64) < 64" by (simp add: unat_mod)
  then show ?thesis using assms
    by (auto simp: set_index_def has_bit_def Let_def nth_list_update bit_simps)
qed

lemma set_all_some:
  assumes "\<forall>i \<in> set is. unat (i div 64) < length bs"
  shows "\<exists>bs'. set_all is bs = Some bs' \<and> length bs' = length bs \<and> (\<forall>i \<in> set is. has_bit bs' i) \<and>
    (\<forall>j. unat (j div 64) < length bs \<longrightarrow> has_bit bs j \<longrightarrow> has_bit bs' j)"
  using assms
proof (induction "is" arbitrary: bs)
  case (Cons i "is")
  obtain b1 where b1: "set_index i bs = Some b1" "length b1 = length bs" "has_bit b1 i"
    "\<forall>j. unat (j div 64) < length bs \<longrightarrow> has_bit bs j \<longrightarrow> has_bit b1 j" using set_index_some Cons.prems by fastforce
  from Cons.IH [of b1] Cons.prems b1 obtain b2 where "set_all is b1 = Some b2" "length b2 = length b1" "\<forall>i \<in> set is. has_bit b2 i"
    "\<forall>j. unat (j div 64) < length b1 \<longrightarrow> has_bit b1 j \<longrightarrow> has_bit b2 j" by auto
  then show ?case using b1 Cons.prems by auto
qed simp

lemma test_all_iff:
  "\<forall>i \<in> set is. unat (i div 64) < length bs \<Longrightarrow> test_all is bs = Some (\<forall>i \<in> set is. has_bit bs i)"
  by (induction "is") (auto simp: test_has_bit split: bool.split)

lemma bloom_Test_iff:
  assumes "bloom_ok b" and "indices b x = Some is"
  shows "bloom_Test x b = Some (\<forall>i \<in> set is. has_bit (b_bits b) i)"
  using indices_range [OF assms(1), of x] assms(2) by (simp add: bloom_Test_def test_all_iff)

lemma bloom_Add_ok:
  assumes "bloom_ok b"
  shows "\<exists>b'. bloom_Add x b = Some b' \<and> bloom_ok b' \<and> bloom_Test x b' = Some True \<and>
    (\<forall>y. bloom_Test y b = Some True \<longrightarrow> bloom_Test y b' = Some True)"
proof -
  obtain "is" where i: "indices b x = Some is" "\<forall>i \<in> set is. unat (i div 64) < length (b_bits b)" using indices_range [OF assms] by blast
  obtain bs' where s: "set_all is (b_bits b) = Some bs'" "length bs' = length (b_bits b)" "\<forall>i \<in> set is. has_bit bs' i"
    "\<forall>j. unat (j div 64) < length (b_bits b) \<longrightarrow> has_bit (b_bits b) j \<longrightarrow> has_bit bs' j" using set_all_some [OF i(2)] by blast
  let ?b = "b\<lparr>b_bits := bs'\<rparr>"
  have ok: "bloom_ok ?b" using assms s(2) by (simp add: bloom_ok_def)
  have same: "indices ?b y = indices b y" for y by (simp add: indices_def Let_def)
  have "bloom_Test y ?b = Some True" if "bloom_Test y b = Some True" for y
  proof -
    obtain js where j: "indices b y = Some js" "\<forall>i \<in> set js. unat (i div 64) < length (b_bits b)" using indices_range [OF assms] by blast
    show ?thesis using that bloom_Test_iff [OF assms j(1)] bloom_Test_iff [OF ok, of y js] j s(4) same by simp
  qed
  moreover have "bloom_Test x ?b = Some True" using bloom_Test_iff [OF ok, of x "is"] i(1) same s(3) by simp
  ultimately show ?thesis using i(1) s(1) ok by (auto simp: bloom_Add_def)
qed

lemma bloom_Add_shape: "bloom_Add x b = Some b' \<Longrightarrow> b_m b' = b_m b \<and> b_k b' = b_k b \<and> b_path b' = b_path b"
  by (auto simp: bloom_Add_def split: option.splits)

section \<open>Properties\<close>

fun add_all :: "bytes list \<Rightarrow> BloomFilter \<Rightarrow> BloomFilter option" where
  "add_all [] b = Some b"
| "add_all (x # xs) b = (case bloom_Add x b of None \<Rightarrow> None | Some b' \<Rightarrow> add_all xs b')"

text \<open>
  No false negatives.  Adding any infohashes to a well-formed filter never panics and leaves it
  well-formed, and afterwards every one of them, and every one that tested positive before, tests
  positive.
\<close>

lemma bloom_no_false_negatives:
  assumes "bloom_ok b"
  shows "\<exists>b'. add_all xs b = Some b' \<and> bloom_ok b' \<and>
    (\<forall>x. x \<in> set xs \<or> bloom_Test x b = Some True \<longrightarrow> bloom_Test x b' = Some True)"
  using assms
proof (induction xs arbitrary: b)
  case (Cons x xs)
  obtain b1 where b1: "bloom_Add x b = Some b1" "bloom_ok b1" "bloom_Test x b1 = Some True"
    "\<forall>y. bloom_Test y b = Some True \<longrightarrow> bloom_Test y b1 = Some True" using bloom_Add_ok [OF Cons.prems] by blast
  from Cons.IH [OF b1(2)] b1 show ?case by auto
qed simp

theorem bloom_no_false_negatives_witness:
  "bloom_ok \<lparr>b_bits = [0], b_m = 64, b_k = 3, b_path = []\<rparr> \<and>
   (\<exists>b'. add_all [replicate 20 1] \<lparr>b_bits = [0], b_m = 64, b_k = 3, b_path = []\<rparr> = Some b' \<and> bloom_Test (replicate 20 1) b' = Some True)"
proof -
  have ok: "bloom_ok \<lparr>b_bits = [0], b_m = 64, b_k = 3, b_path = []\<rparr>" by (simp add: bloom_ok_def)
  show ?thesis using bloom_no_false_negatives [OF ok, of "[replicate 20 1]"] ok by auto
qed

lemma indices_may_collide: "indices \<lparr>b_bits = [0], b_m = 7, b_k = 2, b_path = []\<rparr> (replicate 20 0) = Some [5, 5]"
  by code_simp

lemma read_words_some: "read_words n r = Some ws \<Longrightarrow> length ws = n"
  by (induction n r arbitrary: ws rule: read_words.induct) (auto split: if_splits)

lemma read_put_words: "read_words (length ws) (concat (map put_u64 ws) @ r) = Some ws"
  by (induction ws) simp_all

lemma words_needed:
  assumes "m \<le> maxBloomBits"
  shows "unat ((m + 63) div 64) = (unat m + 63) div 64"
proof -
  have "unat m \<le> 2 ^ 31" using assms unfolding maxBloomBits_def word_le_nat_alt by (simp add: push_bit_eq_mult)
  then have "unat (m + 63) = unat m + 63" by (subst unat_add_lem [THEN iffD1]) simp_all
  then show ?thesis by (simp add: unat_div)
qed

lemma readBloom_ok:
  assumes "readBloom r = Inr b"
  shows "bloom_ok b \<and> b_m b \<le> maxBloomBits \<and> 0 < b_k b"
proof -
  have b: "b_m b \<noteq> 0" "b_k b \<noteq> 0" "b_m b \<le> maxBloomBits" "read_words (unat ((b_m b + 63) div 64)) (drop 24 r) = Some (b_bits b)"
    using assms by (auto simp: readBloom_def Let_def split: if_splits option.splits)
  then show ?thesis using read_words_some [OF b(4)] words_needed [OF b(3)] by (simp add: bloom_ok_def word_gt_0)
qed

lemma bloom_write_read:
  assumes "bloom_ok b" and "b_m b \<le> maxBloomBits" and "0 < b_k b" and "b_k b \<le> 65535"
  shows "\<exists>raw. writeBloom b = Inr raw \<and> readBloom raw = Inr (b\<lparr>b_path := []\<rparr>)"
proof -
  let ?r = "\<lambda>t. bloomFileMagic @ put_u16 bloomFileVersion @ put_u16 (ucast (b_k b)) @ put_u64 (b_m b) @ put_u64 ((b_m b + 63) div 64) @ t"
  have k: "ucast (ucast (b_k b) :: u16) = b_k b"
  proof -
    have "unat (b_k b) < 2 ^ 16" using assms by (simp add: word_le_nat_alt)
    then have "unat (take_bit 16 (b_k b)) = unat (b_k b)" by (simp add: unsigned_take_bit_eq take_bit_nat_eq_self)
    then have "take_bit 16 (b_k b) = b_k b" by (simp only: unsigned_word_eqI)
    moreover have "ucast (ucast x :: u16) = take_bit 16 x" for x :: u64 by (rule bit_word_eqI) (simp add: bit_simps)
    ultimately show ?thesis by simp
  qed
  have len: "length (b_bits b) = unat ((b_m b + 63) div 64)" using assms(1,2) words_needed [of "b_m b"] by (simp add: bloom_ok_def)
  then have n: "of_nat (length (b_bits b)) = (b_m b + 63) div 64" by simp
  have w: "writeBloom b = Inr (?r (concat (map put_u64 (b_bits b))))" using assms by (simp add: writeBloom_def n not_less)
  have 4: "length bloomFileMagic = 4" by (simp add: bloomFileMagic_def)
  have d: "drop 4 (?r t) = put_u16 bloomFileVersion @ put_u16 (ucast (b_k b)) @ put_u64 (b_m b) @ put_u64 ((b_m b + 63) div 64) @ t"
    "drop 6 (?r t) = put_u16 (ucast (b_k b)) @ put_u64 (b_m b) @ put_u64 ((b_m b + 63) div 64) @ t"
    "drop 8 (?r t) = put_u64 (b_m b) @ put_u64 ((b_m b + 63) div 64) @ t" "drop 16 (?r t) = put_u64 ((b_m b + 63) div 64) @ t"
    "drop 24 (?r t) = t" "take 4 (?r t) = bloomFileMagic" "\<not> length (?r t) < 24" for t
    using 4 by (simp_all add: drop_append)
  have "read_words (unat ((b_m b + 63) div 64)) (concat (map put_u64 (b_bits b))) = Some (b_bits b)"
    using read_put_words [of "b_bits b" "[]"] len by simp
  then have "readBloom (?r (concat (map put_u64 (b_bits b)))) = Inr (b\<lparr>b_path := []\<rparr>)"
    unfolding readBloom_def d Let_def using assms k 4 by (auto simp: bloom_ok_def not_less word_gt_0)
  then show ?thesis using w by blast
qed

text \<open>A filter that can be written, and the file after a save that succeeded.\<close>

definition bloom_storable :: "BloomFilter \<Rightarrow> bool" where
  "bloom_storable b \<longleftrightarrow> bloom_ok b \<and> b_m b \<le> maxBloomBits \<and> 0 < b_k b \<and> b_k b \<le> 65535 \<and> b_path b \<noteq> []"

lemma bloom_saved_reload:
  assumes "bloom_storable b" and "fs tmp = Absent" and "tmp \<noteq> b_path b"
  shows "LoadOrCreateBloom (b_path b) True (snd (bloom_Save None tmp b fs)) = Inr b"
proof -
  obtain raw where "writeBloom b = Inr raw" "readBloom raw = Inr (b\<lparr>b_path := []\<rparr>)"
    using bloom_write_read [of b] assms(1) unfolding bloom_storable_def by blast
  then show ?thesis using assms save_file_result [of fs tmp "b_path b" None raw]
    by (simp add: bloom_storable_def bloom_Save_def LoadOrCreateBloom_def)
qed

text \<open>
  C40: the filter's file.  Whatever bytes are read, they are refused or give a filter on which no
  operation panics; and a well-formed filter within the size limit that was written is read back
  unchanged.
\<close>

theorem bloom_file_safe:
  shows "(\<forall>r b. readBloom r = Inr b \<longrightarrow> bloom_ok b \<and> b_k b \<noteq> 0 \<and> b_m b \<le> maxBloomBits \<and> (\<forall>x. bloom_Add x b \<noteq> None \<and> bloom_Test x b \<noteq> None)) \<and>
    (\<forall>b. bloom_ok b \<and> b_m b \<le> maxBloomBits \<and> 0 < b_k b \<and> b_k b \<le> 65535 \<longrightarrow>
       (\<exists>raw. writeBloom b = Inr raw \<and> readBloom raw = Inr (b\<lparr>b_path := []\<rparr>)))"
proof (intro conjI allI impI)
  fix r b
  assume r: "readBloom r = Inr b"
  then show ok: "bloom_ok b" and "b_k b \<noteq> 0" "b_m b \<le> maxBloomBits" using readBloom_ok by (auto simp: word_gt_0)
  show "bloom_Add x b \<noteq> None" for x using bloom_Add_ok [OF ok, of x] by auto
  show "bloom_Test x b \<noteq> None" for x using indices_range [OF ok, of x] bloom_Test_iff [OF ok, of x] by auto
qed (use bloom_write_read in blast)

text \<open>The default sizing, from \<open>ln 2 \<ge> 1/2\<close> and \<open>ln 100 \<le> 99\<close>.\<close>

lemma ln2_half: "1 / 2 \<le> ln (2::real)"
proof -
  have "ln (2::real) = - ln (1 / 2)" by (simp add: ln_div)
  moreover have "ln (1 / 2 :: real) \<le> 1 / 2 - 1" by (rule ln_le_minus_one) simp
  ultimately show ?thesis by simp
qed

lemma default_filter: "bloom_ok (NewBloomFilter 0 0) \<and> b_m (NewBloomFilter 0 0) \<le> maxBloomBits \<and> 0 < b_k (NewBloomFilter 0 0) \<and> b_k (NewBloomFilter 0 0) \<le> 65535 \<and> b_path (NewBloomFilter 0 0) = []"
proof -
  define mF where "mF = 1000000 * ln 100 / (ln 2 * ln (2::real))"
  define kF where "kF = ln 100 / ln (2::real)"
  have l100: "0 < ln (100::real)" "ln (100::real) \<le> 99" using ln_le_minus_one [of 100] by simp_all
  have l2: "1 / 4 \<le> ln 2 * ln (2::real)" using mult_mono [OF ln2_half ln2_half] ln2_half by simp
  have m: "0 < mF" "mF \<le> 396000000" using l100 l2 by (simp_all add: mF_def divide_le_eq zero_less_mult_iff zero_less_divide_iff)
  have k: "0 < kF" "kF \<le> 198" using l100 ln2_half by (simp_all add: kF_def divide_le_eq zero_less_divide_iff)
  define M where "M = nat \<lceil>mF\<rceil>"
  define K where "K = nat \<lceil>kF\<rceil>"
  have mm: "0 < M" "M \<le> 396000000" unfolding M_def using m by linarith+
  have kk: "0 < K" "K \<le> 198" unfolding K_def using k by linarith+
  have "- real_of_int 1000000 * ln (1 / 100) / (ln 2 * ln 2) = mF" by (simp add: mF_def ln_div)
  moreover have "mF / real_of_int 1000000 * ln 2 = kF" using ln2_half by (simp add: mF_def kF_def)
  ultimately have "optimalSize 1000000 (1 / 100) = (M, K)"
    using mm kk unfolding optimalSize_def Let_def M_def K_def by simp
  then have b: "NewBloomFilter 0 0 = \<lparr>b_bits = replicate (unat ((of_nat M + 63 :: u64) div 64)) 0, b_m = of_nat M, b_k = of_nat K, b_path = []\<rparr>"
    by (simp add: NewBloomFilter_def BloomDefaultExpectedItems_def BloomDefaultFalsePositiveRate_def)
  have um: "unat (of_nat M :: u64) = M" and uk: "unat (of_nat K :: u64) = K"
    using mm kk by (simp_all add: unat_of_nat take_bit_nat_eq_self unsigned_of_nat)
  have cap: "(of_nat M :: u64) \<le> maxBloomBits"
    using mm um by (simp add: word_le_nat_alt maxBloomBits_def push_bit_eq_mult)
  have "(of_nat M :: u64) \<noteq> 0" using um mm by (metis less_numeral_extra(3) unat_0)
  then have "bloom_ok (NewBloomFilter 0 0)" using words_needed [OF cap] um by (simp add: b bloom_ok_def)
  moreover have "0 < (of_nat K :: u64)" "(of_nat K :: u64) \<le> 65535"
    using kk uk by (simp_all add: word_less_nat_alt word_le_nat_alt)
  ultimately show ?thesis using cap by (simp add: b)
qed

theorem bloom_file_safe_witness:
  "\<exists>raw. writeBloom (NewBloomFilter 0 0) = Inr raw \<and> readBloom raw = Inr (NewBloomFilter 0 0)"
proof -
  have "(NewBloomFilter 0 0)\<lparr>b_path := []\<rparr> = NewBloomFilter 0 0" using default_filter by (metis BloomFilter.surjective BloomFilter.update_convs(4))
  then show ?thesis using bloom_file_safe default_filter by metis
qed

end
