(* ===== verification/Hit_Sources.thy ===== *)
theory Hit_Sources
  imports Reputation
begin

text \<open>
  Which indexers returned a hit (\<^verbatim>\<open>internal/reputation/sources.go\<close>): a map bounded by eviction of the
  least recently used entry.  The code keeps a map into a linked list; here it is the list alone, most
  recent first, and a map access is a lookup by infohash.  The keys of an entry are a list without
  repetitions, in the place of a Go map used as a set.
\<close>

type_synonym sourceEntry = "string \<times> PubKeyHex list"

record SourceTracker =
  st_capacity :: int
  st_order :: "sourceEntry list"

definition DefaultSourceCapacity :: int where "DefaultSourceCapacity = 10000"

definition NewSourceTracker :: "int \<Rightarrow> SourceTracker" where
  "NewSourceTracker capacity = \<lparr>st_capacity = (if capacity \<le> 0 then DefaultSourceCapacity else capacity), st_order = []\<rparr>"

function evict_back :: "int \<Rightarrow> 'a list \<Rightarrow> 'a list" where
  "evict_back capacity xs =
     (if int (length xs) > capacity then (if xs = [] then xs else evict_back capacity (butlast xs)) else xs)"
  by pat_completeness auto
termination
  by (relation "measure (length \<circ> snd)") auto

declare evict_back.simps [simp del]

definition move_to_front :: "string \<Rightarrow> PubKeyHex list \<Rightarrow> sourceEntry list \<Rightarrow> sourceEntry list" where
  "move_to_front key pubs es = (key, pubs) # filter (\<lambda>e. fst e \<noteq> key) es"

definition Record :: "string \<Rightarrow> PubKeyHex \<Rightarrow> SourceTracker \<Rightarrow> SourceTracker" where
  "Record infohash pubkey s =
     (if infohash = [] \<or> pubkey = [] then s
      else
        let key = ToLower infohash in
        case map_of (st_order s) key of
          Some pubs \<Rightarrow> s\<lparr>st_order := move_to_front key (List.insert pubkey pubs) (st_order s)\<rparr>
        | None \<Rightarrow> s\<lparr>st_order := evict_back (st_capacity s) ((key, [pubkey]) # st_order s)\<rparr>)"

definition RecordMany :: "string \<Rightarrow> PubKeyHex list \<Rightarrow> SourceTracker \<Rightarrow> SourceTracker" where
  "RecordMany infohash pubkeys s = fold (Record infohash) pubkeys s"

definition Sources :: "string \<Rightarrow> SourceTracker \<Rightarrow> PubKeyHex list \<times> SourceTracker" where
  "Sources infohash s =
     (if infohash = [] then ([], s)
      else
        let key = ToLower infohash in
        case map_of (st_order s) key of
          None \<Rightarrow> ([], s)
        | Some pubs \<Rightarrow> (pubs, s\<lparr>st_order := move_to_front key pubs (st_order s)\<rparr>))"

definition Forget :: "string \<Rightarrow> SourceTracker \<Rightarrow> SourceTracker" where
  "Forget infohash s =
     (if infohash = [] then s
      else
        let key = ToLower infohash in
        case map_of (st_order s) key of
          None \<Rightarrow> s
        | Some pubs \<Rightarrow> s\<lparr>st_order := filter (\<lambda>e. fst e \<noteq> key) (st_order s)\<rparr>)"

definition sources_Len :: "SourceTracker \<Rightarrow> nat" where "sources_Len s = length (st_order s)"

section \<open>Lemmas\<close>

lemma evict_back_take: "capacity \<ge> 0 \<Longrightarrow> evict_back capacity xs = take (nat capacity) xs"
proof (induction capacity xs rule: evict_back.induct)
  case (1 capacity xs)
  show ?case
  proof (cases "int (length xs) > capacity")
    case True
    then have "evict_back capacity xs = evict_back capacity (butlast xs)" using 1(2) by (subst evict_back.simps) auto
    also have "... = take (nat capacity) (butlast xs)" using 1(1) [OF True _ 1(2)] True 1(2) by fastforce
    also have "... = take (nat capacity) xs" using True 1(2) by (intro take_butlast) linarith
    finally show ?thesis .
  qed (simp add: evict_back.simps)
qed

text \<open>What a tracker built by the constructor keeps.\<close>

definition sources_ok :: "SourceTracker \<Rightarrow> bool" where
  "sources_ok s \<longleftrightarrow> 0 < st_capacity s \<and> int (length (st_order s)) \<le> st_capacity s \<and> distinct (map fst (st_order s)) \<and>
     (\<forall>(k, pubs) \<in> set (st_order s). pubs \<noteq> [] \<and> distinct pubs)"

lemma map_of_filter_key: "map_of (filter (\<lambda>e. fst e \<noteq> k) es) j = (if j = k then None else map_of es j)"
  by (induction es) auto

lemma filter_key_length:
  "distinct (map fst es) \<Longrightarrow> map_of es k = Some v \<Longrightarrow> Suc (length (filter (\<lambda>e. fst e \<noteq> k) es)) = length es"
proof (induction es)
  case (Cons e es)
  have "filter (\<lambda>e. fst e \<noteq> fst x) es = es" if "fst x \<notin> fst ` set es" for x :: "'a \<times> 'b"
    using that by (auto simp: filter_id_conv image_iff)
  then show ?case using Cons by (cases "fst e = k") (auto split: if_splits)
qed simp

lemma move_ok:
  assumes "sources_ok s" and "map_of (st_order s) key = Some pubs" and "pubs' \<noteq> []" and "distinct pubs'"
  shows "sources_ok (s\<lparr>st_order := move_to_front key pubs' (st_order s)\<rparr>)"
  using assms filter_key_length [of "st_order s" key pubs]
  by (auto simp: sources_ok_def move_to_front_def distinct_map_filter)

lemma Record_ok:
  assumes "sources_ok s"
  shows "sources_ok (Record infohash pubkey s)"
proof (cases "infohash = [] \<or> pubkey = []")
  case False
  let ?k = "ToLower infohash"
  show ?thesis
  proof (cases "map_of (st_order s) ?k")
    case (Some pubs)
    then have "pubs \<noteq> [] \<and> distinct pubs" using assms by (auto simp: sources_ok_def dest!: map_of_SomeD)
    moreover have "List.insert pubkey pubs \<noteq> []" using set_insert [of pubkey pubs] by fastforce
    ultimately show ?thesis using move_ok [OF assms Some, of "List.insert pubkey pubs"] False Some by (auto simp: Record_def)
  next
    case None
    have "evict_back (st_capacity s) ((?k, [pubkey]) # st_order s) = take (nat (st_capacity s)) ((?k, [pubkey]) # st_order s)"
      using assms by (intro evict_back_take) (simp add: sources_ok_def)
    moreover have "distinct (map fst ((?k, [pubkey]) # st_order s))" using assms None by (simp add: sources_ok_def map_of_eq_None_iff)
    ultimately show ?thesis using assms False None
      by (auto simp: Record_def sources_ok_def take_map [symmetric] distinct_take dest!: in_set_takeD)
  qed
qed (use assms in \<open>auto simp: Record_def\<close>)

lemma held_ok: "sources_ok s \<Longrightarrow> map_of (st_order s) k = Some pubs \<Longrightarrow> pubs \<noteq> [] \<and> distinct pubs"
  by (auto simp: sources_ok_def dest!: map_of_SomeD)

lemma Sources_ok: "sources_ok s \<Longrightarrow> sources_ok (snd (Sources infohash s))"
proof (cases "infohash = [] \<or> map_of (st_order s) (ToLower infohash) = None")
  case False
  assume ok: "sources_ok s"
  from False obtain pubs where p: "map_of (st_order s) (ToLower infohash) = Some pubs" by auto
  from move_ok [OF ok p] held_ok [OF ok p] show ?thesis using False p by (simp add: Sources_def Let_def)
qed (auto simp: Sources_def Let_def)

lemma Forget_ok:
  assumes "sources_ok s"
  shows "sources_ok (Forget infohash s)"
proof -
  have "int (length (filter P (st_order s))) \<le> st_capacity s" for P
    using assms length_filter_le [of P "st_order s"] unfolding sources_ok_def by linarith
  then show ?thesis using assms by (auto simp: Forget_def Let_def sources_ok_def distinct_map_filter split: option.split)
qed

lemma Sources_after_Forget: "fst (Sources infohash (Forget infohash s)) = []"
  by (simp add: Forget_def Sources_def Let_def map_of_filter_key split: option.split)

lemma Sources_twice: "fst (Sources infohash (snd (Sources infohash s))) = fst (Sources infohash s)"
  by (auto simp: Sources_def Let_def move_to_front_def split: option.split)

section \<open>Eviction\<close>

text \<open>A sequence of recorded hits, and the distinct infohashes of it, most recent first.\<close>

definition record_all :: "(string \<times> PubKeyHex) list \<Rightarrow> SourceTracker \<Rightarrow> SourceTracker" where
  "record_all hs s = fold (\<lambda>(ih, pk). Record ih pk) hs s"

definition recency :: "(string \<times> PubKeyHex) list \<Rightarrow> string list" where
  "recency hs = rev (remdups (map (ToLower \<circ> fst) hs))"

lemma recency_snoc: "recency (hs @ [h]) = ToLower (fst h) # filter (\<lambda>k. k \<noteq> ToLower (fst h)) (recency hs)"
proof -
  have r: "remdups (xs @ [x]) = filter (\<lambda>y. y \<noteq> x) (remdups xs) @ [x]" for x :: string and xs
    by (induction xs) auto
  show ?thesis by (simp add: recency_def r rev_filter)
qed

lemma take_filter_hit:
  assumes "distinct xs" and "k \<in> set (take (Suc n) xs)"
  shows "take n (filter (\<lambda>y. y \<noteq> k) xs) = filter (\<lambda>y. y \<noteq> k) (take (Suc n) xs)"
  using assms
proof (induction xs arbitrary: n)
  case (Cons x xs)
  show ?case
  proof (cases "x = k")
    case True
    have f: "filter (\<lambda>y. y \<noteq> k) ys = ys" if "k \<notin> set ys" for ys using that by (induction ys) auto
    have "k \<notin> set xs" using Cons.prems(1) True by simp
    moreover from this have "k \<notin> set (take n xs)" by (auto dest: in_set_takeD)
    ultimately show ?thesis using True f [of xs] f [of "take n xs"] by simp
  next
    case False
    then obtain m where "n = Suc m" using Cons.prems(2) by (cases n) auto
    then show ?thesis using Cons False by simp
  qed
qed simp

lemma take_filter_miss:
  assumes "k \<notin> set (take n xs)"
  shows "take n (filter (\<lambda>y. y \<noteq> k) xs) = take n xs"
  using assms
proof (induction xs arbitrary: n)
  case (Cons x xs)
  then show ?case by (cases n) auto
qed simp

lemma record_keys:
  assumes "sources_ok s" and "ih \<noteq> []" and "pk \<noteq> []" and "map fst (st_order s) = take (nat (st_capacity s)) R" and "distinct R"
  shows "map fst (st_order (Record ih pk s)) = take (nat (st_capacity s)) (ToLower ih # filter (\<lambda>k. k \<noteq> ToLower ih) R)"
proof -
  let ?k = "ToLower ih"
  obtain n where n: "nat (st_capacity s) = Suc n" using assms(1) by (cases "nat (st_capacity s)") (auto simp: sources_ok_def)
  show ?thesis
  proof (cases "map_of (st_order s) ?k")
    case (Some pubs)
    then have "?k \<in> set (take (Suc n) R)" using assms(4) n by (metis map_of_SomeD fst_conv image_eqI list.set_map)
    then have "take n (filter (\<lambda>k. k \<noteq> ?k) R) = filter (\<lambda>k. k \<noteq> ?k) (map fst (st_order s))" using take_filter_hit [OF assms(5)] assms(4) n by simp
    then show ?thesis using assms(2,3) Some n by (simp add: Record_def move_to_front_def filter_map comp_def Let_def)
  next
    case None
    then have miss: "?k \<notin> set (take (Suc n) R)" using assms(4) n by (metis map_of_eq_None_iff list.set_map)
    then have "?k \<notin> set (take n R)" by (metis in_set_takeD take_take min.absorb1 le_add2 plus_1_eq_Suc set_take_subset_set_take subsetD lessI less_imp_le)
    then have "take n (filter (\<lambda>k. k \<noteq> ?k) R) = take n R" by (rule take_filter_miss)
    also have "take n R = map fst (take n (st_order s))" using assms(4) n by (simp add: take_map [symmetric])
    finally have tail: "map fst (take n (st_order s)) = take n (filter (\<lambda>k. k \<noteq> ?k) R)" by simp
    have "0 \<le> st_capacity s" using assms(1) by (simp add: sources_ok_def)
    then have "st_order (Record ih pk s) = (?k, [pk]) # take n (st_order s)"
      using assms(2,3) None n evict_back_take [of "st_capacity s" "(?k, [pk]) # st_order s"] by (simp add: Record_def Let_def)
    with tail n show ?thesis by simp
  qed
qed

lemma record_all_lru:
  assumes "list_all (\<lambda>(ih, pk). ih \<noteq> [] \<and> pk \<noteq> []) hs"
  shows "sources_ok (record_all hs (NewSourceTracker c)) \<and>
    st_capacity (record_all hs (NewSourceTracker c)) = st_capacity (NewSourceTracker c) \<and>
    map fst (st_order (record_all hs (NewSourceTracker c))) = take (nat (st_capacity (NewSourceTracker c))) (recency hs)"
  using assms
proof (induction hs rule: rev_induct)
  case Nil
  show ?case by (simp add: record_all_def NewSourceTracker_def sources_ok_def DefaultSourceCapacity_def recency_def)
next
  case (snoc h hs)
  obtain ih pk where h: "h = (ih, pk)" by force
  let ?s = "record_all hs (NewSourceTracker c)"
  have IH: "sources_ok ?s" "st_capacity ?s = st_capacity (NewSourceTracker c)" "map fst (st_order ?s) = take (nat (st_capacity ?s)) (recency hs)"
    using snoc by auto
  have "record_all (hs @ [h]) (NewSourceTracker c) = Record ih pk ?s" by (simp add: record_all_def h)
  moreover have "st_capacity (Record ih pk ?s) = st_capacity ?s" by (simp add: Record_def Let_def split: option.split)
  moreover have "distinct (recency hs)" by (simp add: recency_def)
  ultimately show ?case using record_keys [OF IH(1) _ _ IH(3)] Record_ok [OF IH(1)] snoc.prems IH(2) by (simp add: h recency_snoc)
qed

section \<open>Attribution\<close>

text \<open>While nothing is evicted, an infohash is attributed to exactly the keys that returned it.\<close>

lemma record_pubs:
  assumes "ih \<noteq> []" and "pk \<noteq> []" and "int (length (st_order s)) < st_capacity s \<or> map_of (st_order s) (ToLower ih) \<noteq> None"
  shows "(case map_of (st_order (Record ih pk s)) k of None \<Rightarrow> {} | Some ps \<Rightarrow> set ps) =
    (if k = ToLower ih then {pk} else {}) \<union> (case map_of (st_order s) k of None \<Rightarrow> {} | Some ps \<Rightarrow> set ps)"
proof (cases "map_of (st_order s) (ToLower ih)")
  case None
  then have "evict_back (st_capacity s) ((ToLower ih, [pk]) # st_order s) = (ToLower ih, [pk]) # st_order s"
    using assms(3) by (simp add: evict_back.simps)
  then show ?thesis using assms(1,2) None by (simp add: Record_def Let_def)
next
  case (Some pubs)
  then show ?thesis using assms(1,2) by (simp add: Record_def Let_def move_to_front_def map_of_filter_key)
qed

lemma record_all_pubs:
  assumes "list_all (\<lambda>(ih, pk). ih \<noteq> [] \<and> pk \<noteq> []) hs" and "int (length (recency hs)) \<le> st_capacity (NewSourceTracker c)"
  shows "(case map_of (st_order (record_all hs (NewSourceTracker c))) k of None \<Rightarrow> {} | Some ps \<Rightarrow> set ps) = {pk. \<exists>ih. (ih, pk) \<in> set hs \<and> ToLower ih = k}"
  using assms
proof (induction hs rule: rev_induct)
  case Nil
  show ?case by (simp add: record_all_def NewSourceTracker_def)
next
  case (snoc h hs)
  obtain ih pk where h: "h = (ih, pk)" by force
  let ?s = "record_all hs (NewSourceTracker c)"
  have len: "length (recency xs) = card (set (map (ToLower \<circ> fst) xs))" for xs :: "(string \<times> PubKeyHex) list"
    by (simp add: recency_def length_remdups_card_conv)
  have "length (recency hs) \<le> length (recency (hs @ [h]))" unfolding len by (intro card_mono) auto
  then have ok: "int (length (recency hs)) \<le> st_capacity (NewSourceTracker c)" using snoc.prems(2) by linarith
  have lru: "st_capacity ?s = st_capacity (NewSourceTracker c)" "map fst (st_order ?s) = recency hs"
    using record_all_lru [of hs c] snoc.prems(1) ok by auto
  have "int (length (st_order ?s)) < st_capacity ?s \<or> map_of (st_order ?s) (ToLower ih) \<noteq> None"
  proof (cases "ToLower ih \<in> set (recency hs)")
    case True
    then show ?thesis using lru(2) by (metis list.set_map map_of_eq_None_iff)
  next
    case False
    have "filter (\<lambda>k. k \<noteq> ToLower ih) (recency hs) = recency hs" using False by (auto simp: filter_id_conv)
    then have "length (recency (hs @ [h])) = Suc (length (recency hs))" by (simp add: recency_snoc h)
    then show ?thesis using lru snoc.prems(2) by (metis le_eq_less_or_eq length_map less_Suc_eq_le not_less_eq_eq of_nat_less_iff of_nat_Suc zless_add1_eq add.commute add1_zle_eq)
  qed
  from record_pubs [OF _ _ this, of pk k] snoc ok show ?case by (auto simp: record_all_def h)
qed

section \<open>Properties\<close>

text \<open>
  Attribution of hits.  After any sequence of recorded hits the tracker holds exactly the most
  recently recorded infohashes, as many as its capacity allows, most recent first; and as long as they
  all fit, an infohash is attributed to exactly the indexers that returned it, in whatever case it was
  written; an infohash that was forgotten is attributed to nobody.
\<close>

lemma sources_lru:
  assumes "list_all (\<lambda>(ih, pk). ih \<noteq> [] \<and> pk \<noteq> []) hs"
  shows "map fst (st_order (record_all hs (NewSourceTracker c))) = take (nat (st_capacity (NewSourceTracker c))) (recency hs) \<and>
    (int (length (recency hs)) \<le> st_capacity (NewSourceTracker c) \<and> ih \<noteq> [] \<longrightarrow>
      set (fst (Sources ih (record_all hs (NewSourceTracker c)))) = {pk. \<exists>ih'. (ih', pk) \<in> set hs \<and> ToLower ih' = ToLower ih}) \<and>
    fst (Sources ih (Forget ih (record_all hs (NewSourceTracker c)))) = []"
proof -
  let ?s = "record_all hs (NewSourceTracker c)"
  have S: "set (fst (Sources ih ?s)) = (case map_of (st_order ?s) (ToLower ih) of None \<Rightarrow> {} | Some ps \<Rightarrow> set ps)" if "ih \<noteq> []"
    using that by (simp add: Sources_def Let_def split: option.split)
  show ?thesis
  proof (intro conjI impI)
    show "map fst (st_order ?s) = take (nat (st_capacity (NewSourceTracker c))) (recency hs)" using record_all_lru [OF assms, of c] by blast
    show "fst (Sources ih (Forget ih ?s)) = []" by (rule Sources_after_Forget)
  next
    assume "int (length (recency hs)) \<le> st_capacity (NewSourceTracker c) \<and> ih \<noteq> []"
    then have fits: "int (length (recency hs)) \<le> st_capacity (NewSourceTracker c)" and ne: "ih \<noteq> []" by blast+
    show "set (fst (Sources ih ?s)) = {pk. \<exists>ih'. (ih', pk) \<in> set hs \<and> ToLower ih' = ToLower ih}"
      unfolding S [OF ne] by (rule record_all_pubs [OF assms fits])
  qed
qed

theorem sources_lru_witness:
  "map fst (st_order (record_all [(''AA'', ''x''), (''bb'', ''y''), (''aa'', ''z'')] (NewSourceTracker 2))) = [''aa'', ''bb''] \<and>
   set (fst (Sources ''Aa'' (record_all [(''AA'', ''x''), (''bb'', ''y''), (''aa'', ''z'')] (NewSourceTracker 2)))) = {''x'', ''z''}"
proof -
  let ?hs = "[(''AA'', ''x''), (''bb'', ''y''), (''aa'', ''z'')]"
  have a: "list_all (\<lambda>(ih, pk). ih \<noteq> [] \<and> pk \<noteq> []) ?hs" by simp
  have r: "recency ?hs = [''aa'', ''bb'']" by code_simp
  have c: "st_capacity (NewSourceTracker 2) = 2" by code_simp
  have "map ToLower [''AA'', ''bb'', ''aa'', ''Aa''] = [''aa'', ''bb'', ''aa'', ''aa'']" by code_simp
  then have l: "ToLower ''AA'' = ''aa''" "ToLower ''bb'' = ''bb''" "ToLower ''aa'' = ''aa''" "ToLower ''Aa'' = ''aa''" by simp_all
  have x: "{pk. \<exists>ih'. (ih', pk) \<in> set ?hs \<and> ToLower ih' = ToLower ''Aa''} = {''x'', ''z''}" (is "?X = _")
  proof (intro subset_antisym subsetI)
    fix pk assume "pk \<in> ?X"
    then obtain ih where "(ih, pk) \<in> set ?hs" and "ToLower ih = ''aa''" unfolding l by blast
    then show "pk \<in> {''x'', ''z''}" by (auto simp: l)
  next
    fix pk assume "pk \<in> {''x'', ''z''}"
    then consider "pk = ''x''" | "pk = ''z''" by blast
    then show "pk \<in> ?X"
    proof cases
      case 1
      then show ?thesis unfolding mem_Collect_eq by (intro exI [of _ "''AA''"]) (simp only: l, simp)
    next
      case 2
      then show ?thesis unfolding mem_Collect_eq by (intro exI [of _ "''aa''"]) (simp only: l, simp)
    qed
  qed
  have fits: "int (length (recency ?hs)) \<le> st_capacity (NewSourceTracker 2) \<and> ''Aa'' \<noteq> []" unfolding r c by simp
  have two: "take (nat 2) [''aa'', ''bb''] = [''aa'', ''bb'']" by simp
  note lru = sources_lru [OF a, of 2 "''Aa''"]
  show ?thesis
  proof (rule conjI)
    show "map fst (st_order (record_all ?hs (NewSourceTracker 2))) = [''aa'', ''bb'']" using conjunct1 [OF lru] unfolding r c two .
    show "set (fst (Sources ''Aa'' (record_all ?hs (NewSourceTracker 2)))) = {''x'', ''z''}"
      using mp [OF conjunct1 [OF conjunct2 [OF lru]] fits] unfolding x .
  qed
qed

end
