(* ===== verification/Trust.thy ===== *)
theory Trust
  imports Hex Atomic_File "HOL-Library.AList" "HOL-Library.Char_ord" "HOL-Library.List_Lexorder"
begin

text \<open>
  The publisher allowlist of \<^verbatim>\<open>internal/trust/trust.go\<close>: a table keyed by the lower-case key in
  hexadecimal, rewritten to its file on every change.  The file holds the list of entries as a
  document; the abstract view of a store is a map from keys to labels.
\<close>

section \<open>The store\<close>

record Entry =
  PubKeyHex :: string
  Label_of :: string

record Store =
  s_path :: string
  s_entries :: "(string \<times> Entry) list"

datatype trust_error = ErrTrustOpen | ErrTrustDecode | ErrTrustPubkey nat | ErrTrustMkdir | ErrTrustWrite

definition validPubKeyHex :: "string \<Rightarrow> bool" where
  "validPubKeyHex s \<longleftrightarrow> length s = 64 \<and> hex_DecodeString s \<noteq> None"

definition load_entry :: "Entry \<Rightarrow> (string \<times> Entry) list \<Rightarrow> (string \<times> Entry) list" where
  "load_entry e es =
     (if \<not> validPubKeyHex (PubKeyHex e) then es
      else let e = e\<lparr>PubKeyHex := ToLower (PubKeyHex e)\<rparr> in AList.update (PubKeyHex e) e es)"

definition LoadOrCreate :: "string \<Rightarrow> Entry list fs \<Rightarrow> trust_error + Store" where
  "LoadOrCreate path fs =
     (let s = \<lparr>s_path = path, s_entries = []\<rparr> in
      if path = [] then Inr s
      else case fs path of
             Absent \<Rightarrow> Inr s
           | Unreadable \<Rightarrow> Inl ErrTrustOpen
           | Malformed \<Rightarrow> Inl ErrTrustDecode
           | Doc raw \<Rightarrow> Inr (s\<lparr>s_entries := fold load_entry raw []\<rparr>))"

definition trust_List :: "Store \<Rightarrow> Entry list" where
  "trust_List s = sort_key PubKeyHex (map snd (s_entries s))"

text \<open>
  The environment of one save: whether the directory can be created, the step that fails, if any, and
  the name of the temporary file.
\<close>

record save_env =
  mkdir_ok :: bool
  save_fault :: "fault option"
  tmp_name :: string

definition trust_save :: "save_env \<Rightarrow> Store \<Rightarrow> Entry list fs \<Rightarrow> trust_error option \<times> Entry list fs" where
  "trust_save env s fs =
     (if s_path s = [] then (None, fs)
      else if \<not> mkdir_ok env then (Some ErrTrustMkdir, fs)
      else
        let (ok, fs') = save_file (save_fault env) (tmp_name env) (s_path s) (trust_List s) fs
        in (if ok then None else Some ErrTrustWrite, fs'))"

definition trust_Add :: "save_env \<Rightarrow> string \<Rightarrow> string \<Rightarrow> Store \<times> Entry list fs \<Rightarrow> trust_error option \<times> Store \<times> Entry list fs" where
  "trust_Add env pubKeyHex label = (\<lambda>(s, fs).
     if \<not> validPubKeyHex pubKeyHex then (Some (ErrTrustPubkey (length pubKeyHex)), s, fs)
     else
       let key = ToLower pubKeyHex;
           s = s\<lparr>s_entries := AList.update key \<lparr>PubKeyHex = key, Label_of = label\<rparr> (s_entries s)\<rparr>;
           (err, fs) = trust_save env s fs
       in (err, s, fs))"

definition trust_Remove :: "save_env \<Rightarrow> string \<Rightarrow> Store \<times> Entry list fs \<Rightarrow> trust_error option \<times> Store \<times> Entry list fs" where
  "trust_Remove env pubKeyHex = (\<lambda>(s, fs).
     let key = ToLower pubKeyHex;
         s = s\<lparr>s_entries := AList.delete key (s_entries s)\<rparr>;
         (err, fs) = trust_save env s fs
     in (err, s, fs))"

definition IsTrusted :: "Store \<Rightarrow> string \<Rightarrow> bool" where
  "IsTrusted s pubKeyHex = (map_of (s_entries s) (ToLower pubKeyHex) \<noteq> None)"

definition trust_Label :: "Store \<Rightarrow> string \<Rightarrow> string" where
  "trust_Label s pubKeyHex = (case map_of (s_entries s) (ToLower pubKeyHex) of Some e \<Rightarrow> Label_of e | None \<Rightarrow> [])"

section \<open>Invariant and abstract view\<close>

definition trust_ok :: "Store \<Rightarrow> bool" where
  "trust_ok s \<longleftrightarrow> distinct (map fst (s_entries s)) \<and>
     (\<forall>(k, e) \<in> set (s_entries s). PubKeyHex e = k \<and> validPubKeyHex k \<and> ToLower k = k)"

definition entries_view :: "(string \<times> Entry) list \<Rightarrow> string \<rightharpoonup> string" where
  "entries_view es k = map_option Label_of (map_of es k)"

definition trust_view :: "Store \<Rightarrow> string \<rightharpoonup> string" where
  "trust_view s = entries_view (s_entries s)"

lemma validPubKeyHex_lower [simp]: "validPubKeyHex (ToLower s) = validPubKeyHex s"
  by (simp add: validPubKeyHex_def)

lemma IsTrusted_view: "IsTrusted s pk \<longleftrightarrow> trust_view s (ToLower pk) \<noteq> None"
  by (simp add: IsTrusted_def trust_view_def entries_view_def)

lemma Label_view: "trust_Label s pk = (case trust_view s (ToLower pk) of Some l \<Rightarrow> l | None \<Rightarrow> [])"
  by (simp add: trust_Label_def trust_view_def entries_view_def split: option.split)

lemma view_update: "entries_view (AList.update k e es) = (entries_view es)(k \<mapsto> Label_of e)"
  by (auto simp: entries_view_def update_conv' fun_eq_iff)

lemma view_delete: "entries_view (AList.delete k es) = (entries_view es)(k := None)"
  by (auto simp: entries_view_def delete_conv' fun_eq_iff)

lemma set_update_entries: "set (AList.update k v es) \<subseteq> insert (k, v) (set es)"
  by (induction es) auto

lemma trust_ok_update:
  assumes "trust_ok s" and "validPubKeyHex k" and "ToLower k = k" and "PubKeyHex e = k"
  shows "trust_ok (s\<lparr>s_entries := AList.update k e (s_entries s)\<rparr>)"
  using assms set_update_entries [of k e "s_entries s"] AList.distinct_update [of "s_entries s" k e]
  by (auto simp: trust_ok_def)

lemma trust_ok_delete:
  assumes "trust_ok s"
  shows "trust_ok (s\<lparr>s_entries := AList.delete k (s_entries s)\<rparr>)"
  using assms AList.distinct_delete [of "s_entries s" k] by (auto simp: trust_ok_def AList.delete_eq)

lemma load_entry_ok:
  assumes "trust_ok (s\<lparr>s_entries := es\<rparr>)"
  shows "trust_ok (s\<lparr>s_entries := load_entry e es\<rparr>)"
  using trust_ok_update [OF assms, of "ToLower (PubKeyHex e)" "e\<lparr>PubKeyHex := ToLower (PubKeyHex e)\<rparr>"] assms
  by (simp add: load_entry_def Let_def)

lemma load_ok:
  assumes "LoadOrCreate path fs = Inr s"
  shows "trust_ok s \<and> s_path s = path"
proof -
  have "trust_ok (s0\<lparr>s_entries := fold load_entry raw es\<rparr>)" if "trust_ok (s0\<lparr>s_entries := es\<rparr>)" for raw es s0
    using that by (induction raw arbitrary: es) (simp_all add: load_entry_ok)
  moreover have "trust_ok (\<lparr>s_path = path, s_entries = []\<rparr>\<lparr>s_entries := []\<rparr>)" by (simp add: trust_ok_def)
  ultimately have ok: "trust_ok (\<lparr>s_path = path, s_entries = []\<rparr>\<lparr>s_entries := fold load_entry raw []\<rparr>)" for raw by blast
  show ?thesis using assms ok [of "[]"] ok by (auto simp: LoadOrCreate_def Let_def split: if_splits disk_file.splits)
qed

section \<open>Loading what was saved\<close>

lemma load_sorted:
  assumes "\<forall>e \<in> set raw. validPubKeyHex (PubKeyHex e) \<and> ToLower (PubKeyHex e) = PubKeyHex e" and "distinct (map PubKeyHex raw)"
  shows "entries_view (fold load_entry raw es) k =
    (if k \<in> PubKeyHex ` set raw then map_option Label_of (map_of (map (\<lambda>e. (PubKeyHex e, e)) raw) k) else entries_view es k)"
  using assms
proof (induction raw arbitrary: es)
  case (Cons e raw)
  have "load_entry e es = AList.update (PubKeyHex e) e es" using Cons.prems(1) by (simp add: load_entry_def)
  then show ?case using Cons by (auto simp: view_update)
qed simp

lemma reload_saved:
  assumes "trust_ok s" and "fs (s_path s) = Doc (trust_List s)" and "s_path s \<noteq> []"
  obtains s' where "LoadOrCreate (s_path s) fs = Inr s'" and "trust_view s' = trust_view s"
proof -
  let ?raw = "trust_List s"
  have es: "map (\<lambda>e. (PubKeyHex e, e)) (map snd (s_entries s)) = s_entries s" using assms(1) by (auto simp: trust_ok_def intro!: map_idI)
  then have keys: "map PubKeyHex (map snd (s_entries s)) = map fst (s_entries s)" using assms(1) by (auto simp: trust_ok_def)
  have S: "set ?raw = snd ` set (s_entries s)" by (simp add: trust_List_def)
  have d: "distinct (map PubKeyHex ?raw)"
  proof -
    have "distinct (map PubKeyHex (map snd (s_entries s)))" unfolding keys using assms(1) by (simp add: trust_ok_def)
    then show ?thesis by (simp only: trust_List_def distinct_map distinct_sort set_sort)
  qed
  have v: "\<forall>e \<in> set ?raw. validPubKeyHex (PubKeyHex e) \<and> ToLower (PubKeyHex e) = PubKeyHex e" using assms(1) S by (auto simp: trust_ok_def)
  have "map_of (map (\<lambda>e. (PubKeyHex e, e)) ?raw) = map_of (s_entries s)"
  proof (rule iffD2 [OF map_of_inject_set])
    have fk: "map fst (map (\<lambda>e. (PubKeyHex e, e)) xs) = map PubKeyHex xs" for xs by (simp add: comp_def)
    show "distinct (map fst (map (\<lambda>e. (PubKeyHex e, e)) ?raw))" unfolding fk by (rule d)
    show "distinct (map fst (s_entries s))" using assms(1) by (simp add: trust_ok_def)
    have "set (map (\<lambda>e. (PubKeyHex e, e)) ?raw) = set (map (\<lambda>e. (PubKeyHex e, e)) (map snd (s_entries s)))" by (simp only: set_map S)
    then show "set (map (\<lambda>e. (PubKeyHex e, e)) ?raw) = set (s_entries s)" unfolding es .
  qed
  moreover have "PubKeyHex ` set ?raw = dom (map_of (s_entries s))" using keys S by (metis dom_map_of_conv_image_fst list.set_map)
  ultimately have "entries_view (fold load_entry ?raw []) = trust_view s"
    unfolding fun_eq_iff load_sorted [OF v d] trust_view_def by (auto simp: entries_view_def domIff)
  then show ?thesis using that assms(2,3) by (simp add: LoadOrCreate_def Let_def trust_view_def)
qed

section \<open>Runs\<close>

text \<open>
  A run of mutations, each with its own environment.  The abstract state is what the store holds in
  memory and what its file holds: a mutation always reaches the memory, and reaches the file exactly
  when it reports no error.
\<close>

datatype trust_op = OpAdd string string | OpRemove string

fun trust_step :: "trust_op \<times> save_env \<Rightarrow> Store \<times> Entry list fs \<Rightarrow> Store \<times> Entry list fs" where
  "trust_step (OpAdd pk label, env) x = snd (trust_Add env pk label x)"
| "trust_step (OpRemove pk, env) x = snd (trust_Remove env pk x)"

definition trust_run :: "(trust_op \<times> save_env) list \<Rightarrow> Store \<times> Entry list fs \<Rightarrow> Store \<times> Entry list fs" where
  "trust_run ops x = fold trust_step ops x"

fun op_abs :: "trust_op \<Rightarrow> (string \<rightharpoonup> string) \<Rightarrow> string \<rightharpoonup> string" where
  "op_abs (OpAdd pk label) m = (if validPubKeyHex pk then m(ToLower pk \<mapsto> label) else m)"
| "op_abs (OpRemove pk) m = m(ToLower pk := None)"

fun op_saves :: "trust_op \<Rightarrow> bool" where
  "op_saves (OpAdd pk label) = validPubKeyHex pk"
| "op_saves (OpRemove pk) = True"

definition env_works :: "save_env \<Rightarrow> bool" where
  "env_works env \<longleftrightarrow> mkdir_ok env \<and> save_fault env = None"

definition abs_step :: "trust_op \<times> save_env \<Rightarrow> (string \<rightharpoonup> string) \<times> (string \<rightharpoonup> string) \<Rightarrow> (string \<rightharpoonup> string) \<times> (string \<rightharpoonup> string)" where
  "abs_step = (\<lambda>(op, env) (mem, disk). (op_abs op mem, if op_saves op \<and> env_works env then op_abs op mem else disk))"

text \<open>The file system holds a file that loads to \<open>disk\<close>, and no file under a temporary name.\<close>

definition on_disk :: "string \<Rightarrow> (string \<rightharpoonup> string) \<Rightarrow> Entry list fs \<Rightarrow> bool" where
  "on_disk path disk fs \<longleftrightarrow> (\<exists>s. LoadOrCreate path fs = Inr s \<and> trust_view s = disk)"

definition tmps_fresh :: "string \<Rightarrow> save_env \<Rightarrow> Entry list fs \<Rightarrow> bool" where
  "tmps_fresh path env fs \<longleftrightarrow> fs (tmp_name env) = Absent \<and> tmp_name env \<noteq> path"

definition trust_sim :: "string \<Rightarrow> Store \<times> Entry list fs \<Rightarrow> (string \<rightharpoonup> string) \<times> (string \<rightharpoonup> string) \<Rightarrow> bool" where
  "trust_sim path x a \<longleftrightarrow> trust_ok (fst x) \<and> s_path (fst x) = path \<and> trust_view (fst x) = fst a \<and> on_disk path (snd a) (snd x)"

lemma trust_save_result:
  assumes "tmps_fresh (s_path s) env fs" and "s_path s \<noteq> []"
  shows "trust_save env s fs =
    (if env_works env then (None, fs(s_path s := Doc (trust_List s)))
     else (Some (if mkdir_ok env then ErrTrustWrite else ErrTrustMkdir), fs))"
  using assms save_file_result [of fs "tmp_name env" "s_path s" "save_fault env" "trust_List s"]
  by (auto simp: trust_save_def tmps_fresh_def env_works_def)

lemma saved_sim:
  assumes "trust_ok s" and "path = s_path s" and "tmps_fresh path env fs" and "path \<noteq> []" and "on_disk path disk fs" and "trust_view s = mem"
  shows "trust_sim path (s, snd (trust_save env s fs)) (mem, if env_works env then mem else disk)"
proof (cases "env_works env")
  case True
  then have fs: "snd (trust_save env s fs) = fs(path := Doc (trust_List s))" using trust_save_result assms(2-4) by simp
  obtain s' where "LoadOrCreate path (fs(path := Doc (trust_List s))) = Inr s'" "trust_view s' = trust_view s"
    using reload_saved [OF assms(1), of "fs(path := Doc (trust_List s))"] assms(2,4) by auto
  then show ?thesis using True fs assms(1,2,6) by (auto simp: trust_sim_def on_disk_def)
next
  case False
  then show ?thesis using trust_save_result [of s env fs] assms by (simp add: trust_sim_def)
qed

lemma step_split:
  "trust_step (OpAdd pk label, env) (s, fs) =
     (if validPubKeyHex pk then
        let s' = s\<lparr>s_entries := AList.update (ToLower pk) \<lparr>PubKeyHex = ToLower pk, Label_of = label\<rparr> (s_entries s)\<rparr>
        in (s', snd (trust_save env s' fs)) else (s, fs))"
  "trust_step (OpRemove pk, env) (s, fs) =
     (let s' = s\<lparr>s_entries := AList.delete (ToLower pk) (s_entries s)\<rparr> in (s', snd (trust_save env s' fs)))"
  by (simp_all add: trust_Add_def trust_Remove_def Let_def case_prod_unfold)

lemma step_sim:
  assumes "trust_sim path (s, fs) a" and "tmps_fresh path env fs" and "path \<noteq> []"
  shows "trust_sim path (trust_step (op, env) (s, fs)) (abs_step (op, env) a)"
proof -
  obtain mem disk where a: "a = (mem, disk)" by force
  have s: "trust_ok s" "path = s_path s" "trust_view s = mem" "on_disk path disk fs" using assms(1) by (auto simp: trust_sim_def a)
  show ?thesis
  proof (cases op)
    case (OpAdd pk label)
    let ?s = "s\<lparr>s_entries := AList.update (ToLower pk) \<lparr>PubKeyHex = ToLower pk, Label_of = label\<rparr> (s_entries s)\<rparr>"
    have v: "trust_view ?s = mem(ToLower pk \<mapsto> label)" using s(3) by (simp add: trust_view_def view_update)
    show ?thesis
    proof (cases "validPubKeyHex pk")
      case True
      have "trust_ok ?s" using True s(1) by (intro trust_ok_update) auto
      from saved_sim [OF this _ assms(2,3) s(4) v] True s(2) show ?thesis
        unfolding OpAdd step_split a abs_step_def Let_def by (simp split: if_splits)
    qed (use assms(1) in \<open>simp add: OpAdd step_split a abs_step_def del: trust_step.simps\<close>)
  next
    case (OpRemove pk)
    let ?s = "s\<lparr>s_entries := AList.delete (ToLower pk) (s_entries s)\<rparr>"
    have v: "trust_view ?s = mem(ToLower pk := None)" using s(3) by (simp add: trust_view_def view_delete)
    from saved_sim [OF trust_ok_delete [OF s(1)] _ assms(2,3) s(4) v] s(2) show ?thesis
      unfolding OpRemove step_split a abs_step_def Let_def by (simp split: if_splits)
  qed
qed

text \<open>A step leaves every other file alone, so names that are free stay free.\<close>

lemma step_fs:
  assumes "tmps_fresh (s_path s) env fs"
  shows "q \<noteq> s_path s \<Longrightarrow> snd (trust_step (op, env) (s, fs)) q = fs q"
proof -
  have "snd (trust_save env s' fs) q = fs q" if "s_path s' = s_path s" "q \<noteq> s_path s" for s'
    using trust_save_result [of s' env fs] assms that by (cases "s_path s = []") (auto simp: trust_save_def)
  then show "q \<noteq> s_path s \<Longrightarrow> ?thesis" by (cases op) (auto simp: step_split Let_def simp del: trust_step.simps)
qed

definition envs_fresh :: "string \<Rightarrow> (trust_op \<times> save_env) list \<Rightarrow> Entry list fs \<Rightarrow> bool" where
  "envs_fresh path ops fs \<longleftrightarrow> list_all (\<lambda>(op, env). tmps_fresh path env fs) ops"

lemma run_sim:
  assumes "trust_sim path x a" and "envs_fresh path ops (snd x)" and "path \<noteq> []"
  shows "trust_sim path (trust_run ops x) (fold abs_step ops a)"
  using assms
proof (induction ops arbitrary: x a)
  case Nil
  then show ?case by (simp add: trust_run_def)
next
  case (Cons oe ops)
  obtain op env where oe: "oe = (op, env)" by force
  obtain s fs where x: "x = (s, fs)" by force
  have f: "tmps_fresh path env fs" and p: "s_path s = path" using Cons.prems(1,2) by (auto simp: envs_fresh_def oe x trust_sim_def)
  have "envs_fresh path ops (snd (trust_step oe x))"
    using Cons.prems(2) step_fs [of s env fs _ op] f p by (auto simp: envs_fresh_def list_all_iff tmps_fresh_def oe x)
  with Cons.IH [OF step_sim [OF Cons.prems(1) [unfolded x] f Cons.prems(3), of op, folded oe x]] Cons.prems(3)
  show ?case by (simp add: trust_run_def oe x)
qed

section \<open>Properties\<close>

text \<open>
  C22: the trust list and its file.  A store loaded from a file and taken through any sequence of
  additions and removals, with any saves failing at any step, answers as the abstract map does,
  whatever the case of the key it is asked for; and the file, loaded again, gives the map as it was
  after the last mutation that reported success.  A key that is not 64 hexadecimal digits changes
  nothing.
\<close>

theorem trust_refines_map:
  assumes "LoadOrCreate path fs = Inr s0" and "path \<noteq> []" and "envs_fresh path ops fs"
    and "trust_run ops (s0, fs) = (s, fs')" and "fold abs_step ops (trust_view s0, trust_view s0) = (mem, disk)"
  shows "(\<forall>pk. IsTrusted s pk = (mem (ToLower pk) \<noteq> None) \<and> trust_Label s pk = (case mem (ToLower pk) of Some l \<Rightarrow> l | None \<Rightarrow> [])) \<and>
    (\<exists>s'. LoadOrCreate path fs' = Inr s' \<and> trust_view s' = disk)"
proof -
  have "trust_sim path (s0, fs) (trust_view s0, trust_view s0)" using assms(1) load_ok by (auto simp: trust_sim_def on_disk_def)
  from run_sim [OF this _ assms(2), of ops] assms(3-5) have "trust_sim path (s, fs') (mem, disk)" by simp
  then show ?thesis by (auto simp: trust_sim_def on_disk_def IsTrusted_view Label_view)
qed

text \<open>
  A crash during a save of the trust list.  Whatever state of the file system the crash leaves,
  and whichever step of the save had failed before, the file loads, and gives either the list it held
  before the save or exactly the list that was being saved.
\<close>

lemma trust_crash_safe:
  assumes "LoadOrCreate (s_path s) fs = Inr s0" and "trust_ok s" and "s_path s \<noteq> []" and "tmps_fresh (s_path s) env fs"
    and "crashed \<in> set (save_states (save_fault env) (tmp_name env) (s_path s) (trust_List s) fs)"
  shows "\<exists>s'. LoadOrCreate (s_path s) crashed = Inr s' \<and> (trust_view s' = trust_view s0 \<or> trust_view s' = trust_view s)"
proof -
  from save_states_atomic [OF _ _ assms(5)] assms(4)
  consider "crashed (s_path s) = fs (s_path s)" | "crashed (s_path s) = Doc (trust_List s)" by (auto simp: tmps_fresh_def)
  then show ?thesis
  proof cases
    case 1
    then have "LoadOrCreate (s_path s) crashed = LoadOrCreate (s_path s) fs" by (simp add: LoadOrCreate_def Let_def)
    then show ?thesis using assms(1) by auto
  next
    case 2
    from reload_saved [OF assms(2), of crashed] 2 assms(3) show ?thesis by metis
  qed
qed

section \<open>Concrete runs\<close>

definition lab_key :: string where "lab_key = replicate 62 CHR ''0'' @ ''aB''"
definition lab_ops :: "(trust_op \<times> save_env) list" where
  "lab_ops = [(OpAdd lab_key ''ann'', \<lparr>mkdir_ok = True, save_fault = None, tmp_name = ''t1''\<rparr>),
              (OpAdd ''zz'' ''bad'', \<lparr>mkdir_ok = True, save_fault = None, tmp_name = ''t2''\<rparr>),
              (OpRemove lab_key, \<lparr>mkdir_ok = True, save_fault = Some FailRename, tmp_name = ''t3''\<rparr>)]"
definition lab_fs :: "Entry list fs" where "lab_fs = (\<lambda>_. Absent)"
definition lab_store :: Store where "lab_store = \<lparr>s_path = ''trust.json'', s_entries = []\<rparr>"

lemma lab_key_valid: "validPubKeyHex lab_key" by code_simp
lemma lab_zz_invalid: "\<not> validPubKeyHex ''zz''" by code_simp

theorem trust_refines_map_witness:
  "\<not> IsTrusted (fst (trust_run lab_ops (lab_store, lab_fs))) lab_key \<and>
   (\<exists>s'. LoadOrCreate ''trust.json'' (snd (trust_run lab_ops (lab_store, lab_fs))) = Inr s' \<and> trust_view s' = [ToLower lab_key \<mapsto> ''ann''])"
proof -
  let ?r = "trust_run lab_ops (lab_store, lab_fs)"
  have l: "LoadOrCreate ''trust.json'' lab_fs = Inr lab_store" by (simp add: LoadOrCreate_def lab_fs_def lab_store_def)
  have f: "envs_fresh ''trust.json'' lab_ops lab_fs" by (simp add: envs_fresh_def lab_ops_def tmps_fresh_def lab_fs_def)
  have v: "trust_view lab_store = Map.empty" by (simp add: trust_view_def entries_view_def lab_store_def fun_eq_iff)
  have a: "fold abs_step lab_ops (trust_view lab_store, trust_view lab_store) = (Map.empty, [ToLower lab_key \<mapsto> ''ann''])"
    by (simp add: lab_ops_def abs_step_def env_works_def lab_key_valid lab_zz_invalid v fun_upd_idem)
  from trust_refines_map [OF l _ f _ a, of "fst ?r" "snd ?r"] show ?thesis by simp
qed

theorem trust_crash_safe_witness:
  "\<exists>s'. LoadOrCreate ''trust.json'' (lab_fs(''t1'' := Malformed)) = Inr s' \<and> trust_view s' = Map.empty"
proof -
  let ?env = "\<lparr>mkdir_ok = True, save_fault = None, tmp_name = ''t1''\<rparr>"
  have l: "LoadOrCreate (s_path lab_store) lab_fs = Inr lab_store" by (simp add: LoadOrCreate_def lab_fs_def lab_store_def)
  have v: "trust_view lab_store = Map.empty" by (simp add: trust_view_def entries_view_def lab_store_def fun_eq_iff)
  have o: "trust_ok lab_store" by (simp add: trust_ok_def lab_store_def)
  have f: "tmps_fresh (s_path lab_store) ?env lab_fs" by (simp add: tmps_fresh_def lab_fs_def lab_store_def)
  have "lab_fs(''t1'' := Malformed) \<in> set (save_states (save_fault ?env) (tmp_name ?env) (s_path lab_store) (trust_List lab_store) lab_fs)"
    by (simp add: save_states_def Let_def)
  moreover have p: "s_path lab_store = ''trust.json''" by (simp add: lab_store_def)
  ultimately show ?thesis using trust_crash_safe [OF l o _ f, of "lab_fs(''t1'' := Malformed)"] unfolding p v by simp
qed

end
