(* ===== verification/Feedback.thy ===== *)
theory Feedback
  imports Bloom Hit_Sources Trust
begin

text \<open>
  User feedback on search hits, from the daemon's entry points to the tables and their files:
  \<^verbatim>\<open>internal/engine/reputation.go\<close> and \<open>Confirm\<close>, \<open>Flag\<close> of \<^verbatim>\<open>internal/daemon/confirm_flag.go\<close>.  The
  state is the engine's four spam-resistance fields, each \<open>None\<close> when off, and the files of the two
  that a checkpoint writes.  \<open>None\<close> as a result stands for a panic.
\<close>

section \<open>State\<close>

record RepEngine =
  e_bloom :: "BloomFilter option"
  e_tracker :: "Tracker option"
  e_sources :: SourceTracker
  e_trust :: "Store option"
  e_trustFailed :: bool
  bloom_fs :: "bytes fs"
  rep_fs :: "(Reputation.PubKeyHex \<times> Counters) list fs"

record SpamConfig =
  BloomPath :: string
  ReputationPath :: string
  SeedListPath :: string
  TrustPath :: string

text \<open>What the outside contributes to a load: the clock, whether directories can be made, two more files.\<close>

record load_env =
  l_now :: int
  bloom_mkdir :: bool
  rep_mkdir :: bool
  seed_fs :: "SeedList fs"
  trust_fs :: "Entry list fs"

definition loadSpamResistance :: "SpamConfig \<Rightarrow> load_env \<Rightarrow> RepEngine \<Rightarrow> RepEngine" where
  "loadSpamResistance cfg env e =
     (let e = (if BloomPath cfg = [] then e
               else case LoadOrCreateBloom (BloomPath cfg) (bloom_mkdir env) (bloom_fs e) of
                      Inl _ \<Rightarrow> e
                    | Inr bloom \<Rightarrow> e\<lparr>e_bloom := Some bloom\<rparr>);
          e = (if ReputationPath cfg = [] then e
               else case LoadOrCreateTracker (ReputationPath cfg) (rep_mkdir env) (rep_fs e) of
                      Inl _ \<Rightarrow> e
                    | Inr tracker \<Rightarrow>
                        let tracker = (if SeedListPath cfg = [] then tracker
                                       else snd (snd (LoadSeedList (l_now env) (SeedListPath cfg) (seed_fs env) tracker)))
                        in e\<lparr>e_tracker := Some tracker\<rparr>)
      in if TrustPath cfg = [] then e
         else case LoadOrCreate (TrustPath cfg) (trust_fs env) of
                Inl _ \<Rightarrow> e\<lparr>e_trustFailed := True\<rparr>
              | Inr store \<Rightarrow> e\<lparr>e_trust := Some store\<rparr>)"

record ckpt_env =
  c_now :: int
  bloom_fault :: "fault option"
  bloom_tmp :: string
  rep_fault :: "fault option"
  rep_tmp :: string

definition Checkpoint :: "ckpt_env \<Rightarrow> RepEngine \<Rightarrow> RepEngine" where
  "Checkpoint env e =
     (let e = (case e_bloom e of
                 None \<Rightarrow> e
               | Some bloom \<Rightarrow> e\<lparr>bloom_fs := snd (bloom_Save (bloom_fault env) (bloom_tmp env) bloom (bloom_fs e))\<rparr>)
      in case e_tracker e of
           None \<Rightarrow> e
         | Some tracker \<Rightarrow> e\<lparr>rep_fs := snd (tracker_Save (rep_fault env) (rep_tmp env) tracker (rep_fs e))\<rparr>)"

section \<open>The shared paths\<close>

definition ConfirmHit :: "ckpt_env \<Rightarrow> bytes \<Rightarrow> string \<Rightarrow> RepEngine \<Rightarrow> ((nat \<times> bool) \<times> RepEngine) option" where
  "ConfirmHit env ih ihHex e =
     (case e_bloom e of
        None \<Rightarrow> Some ((0, False), e)
      | Some bloom \<Rightarrow>
          (case bloom_Add ih bloom of
             None \<Rightarrow> None
           | Some bloom \<Rightarrow>
               let e = e\<lparr>e_bloom := Some bloom\<rparr>;
                   (confirmed, e) =
                     (case e_tracker e of
                        None \<Rightarrow> (0, e)
                      | Some tracker \<Rightarrow>
                          let (pks, sources) = Sources ihHex (e_sources e); e = e\<lparr>e_sources := sources\<rparr>
                          in if pks \<noteq> [] then (length pks, e\<lparr>e_tracker := Some (RecordConfirmed (c_now env) pks tracker)\<rparr>)
                             else (0, e))
               in Some ((confirmed, True), Checkpoint env e)))"

datatype attribution = NoAttribution | Targeted | TrustedExempt | TrustUnavailable | Unattributed

record FlagResult =
  Flagged :: nat
  Attribution :: attribution

definition FlagHit :: "ckpt_env \<Rightarrow> string \<Rightarrow> RepEngine \<Rightarrow> (FlagResult \<times> bool) \<times> RepEngine" where
  "FlagHit env ihHex e =
     (case e_tracker e of
        None \<Rightarrow> ((\<lparr>Flagged = 0, Attribution = NoAttribution\<rparr>, False), e)
      | Some tracker \<Rightarrow>
          if e_trustFailed e then ((\<lparr>Flagged = 0, Attribution = TrustUnavailable\<rparr>, True), e)
          else
            let (pks, sources) = Sources ihHex (e_sources e); e = e\<lparr>e_sources := sources\<rparr>
            in if pks = [] then ((\<lparr>Flagged = 0, Attribution = Unattributed\<rparr>, True), e)
               else
                 let trusted = (\<lambda>pk. case e_trust e of None \<Rightarrow> False | Some store \<Rightarrow> IsTrusted store pk);
                     demote = filter (\<lambda>pk. \<not> trusted pk) pks;
                     trustedSkipped = list_ex trusted pks;
                     e = (if demote \<noteq> [] then e\<lparr>e_tracker := Some (RecordFlagged (c_now env) demote tracker)\<rparr> else e);
                     e = Checkpoint env (e\<lparr>e_sources := Forget ihHex (e_sources e)\<rparr>)
                 in ((\<lparr>Flagged = length demote,
                       Attribution = (if demote = [] \<and> trustedSkipped then TrustedExempt else Targeted)\<rparr>, True), e))"

datatype api_error = ErrBadInfohash | ErrBloomNotConfigured | ErrTrackerNotConfigured

definition decodeInfohash :: "string \<Rightarrow> api_error + bytes" where
  "decodeInfohash ihHex =
     (case hex_DecodeString ihHex of
        None \<Rightarrow> Inl ErrBadInfohash
      | Some b \<Rightarrow> if length b \<noteq> 20 then Inl ErrBadInfohash else Inr (copy_array 20 b))"

definition daemon_Confirm :: "ckpt_env \<Rightarrow> string \<Rightarrow> RepEngine \<Rightarrow> ((api_error + string \<times> nat) \<times> RepEngine) option" where
  "daemon_Confirm env ihHex e =
     (case decodeInfohash ihHex of
        Inl err \<Rightarrow> Some (Inl err, e)
      | Inr ih \<Rightarrow>
          (case ConfirmHit env ih ihHex e of
             None \<Rightarrow> None
           | Some ((confirmed, ok), e) \<Rightarrow>
               Some (if ok then Inr (ihHex, confirmed) else Inl ErrBloomNotConfigured, e)))"

definition daemon_Flag :: "ckpt_env \<Rightarrow> string \<Rightarrow> RepEngine \<Rightarrow> (api_error + string \<times> FlagResult) \<times> RepEngine" where
  "daemon_Flag env ihHex e =
     (case decodeInfohash ihHex of
        Inl err \<Rightarrow> (Inl err, e)
      | Inr _ \<Rightarrow>
          (let ((res, ok), e) = FlagHit env ihHex e
           in (if ok then Inr (ihHex, res) else Inl ErrTrackerNotConfigured, e)))"

section \<open>What an operation does to the counters\<close>

record tally =
  returned :: int
  confirmed :: int
  flagged :: int
  seeded :: "int option"

definition tally_of :: "Tracker \<Rightarrow> Reputation.PubKeyHex \<Rightarrow> tally" where
  "tally_of t pk = (case map_of (Records t) pk of
     None \<Rightarrow> \<lparr>returned = 0, confirmed = 0, flagged = 0, seeded = None\<rparr>
   | Some r \<Rightarrow> \<lparr>returned = HitsReturned r, confirmed = HitsConfirmed r, flagged = HitsFlagged r, seeded = SeededAt r\<rparr>)"

definition one_if :: "bool \<Rightarrow> int" where "one_if b = (if b then 1 else 0)"

lemma tally_eqI: "returned a = returned b \<Longrightarrow> confirmed a = confirmed b \<Longrightarrow> flagged a = flagged b \<Longrightarrow> seeded a = seeded b \<Longrightarrow> a = (b :: tally)"
  by (cases a, cases b) simp

lemma tally_flag_one: "tally_of (flag_one now pk t) q = (tally_of t q)\<lparr>flagged := flagged (tally_of t q) + one_if (q = pk)\<rparr>"
  by (rule tally_eqI) (auto simp: tally_of_def flag_one_def put_record_def touch_def one_if_def Let_def split: option.split)

lemma tally_confirm_one: "tally_of (confirm_one now pk t) q = (tally_of t q)\<lparr>confirmed := confirmed (tally_of t q) + one_if (q = pk)\<rparr>"
  by (rule tally_eqI) (auto simp: tally_of_def confirm_one_def put_record_def touch_def one_if_def Let_def split: option.split)

lemma tally_flagged:
  "distinct pks \<Longrightarrow> tally_of (RecordFlagged now pks t) q = (tally_of t q)\<lparr>flagged := flagged (tally_of t q) + one_if (q \<in> set pks)\<rparr>"
proof (induction pks arbitrary: t)
  case (Cons pk pks)
  then have "tally_of (RecordFlagged now pks (flag_one now pk t)) q =
    (tally_of (flag_one now pk t) q)\<lparr>flagged := flagged (tally_of (flag_one now pk t) q) + one_if (q \<in> set pks)\<rparr>" by simp
  then show ?case using Cons.prems by (auto simp: RecordFlagged_def tally_flag_one one_if_def)
qed (simp add: RecordFlagged_def one_if_def)

lemma tally_confirmed:
  "distinct pks \<Longrightarrow> tally_of (RecordConfirmed now pks t) q = (tally_of t q)\<lparr>confirmed := confirmed (tally_of t q) + one_if (q \<in> set pks)\<rparr>"
proof (induction pks arbitrary: t)
  case (Cons pk pks)
  then have "tally_of (RecordConfirmed now pks (confirm_one now pk t)) q =
    (tally_of (confirm_one now pk t) q)\<lparr>confirmed := confirmed (tally_of (confirm_one now pk t) q) + one_if (q \<in> set pks)\<rparr>" by simp
  then show ?case using Cons.prems by (auto simp: RecordConfirmed_def tally_confirm_one one_if_def)
qed (simp add: RecordConfirmed_def one_if_def)

lemma put_path: "t_path (put_record pk r t) = t_path t"
  by (simp add: put_record_def)

lemma record_path [simp]: "t_path (RecordFlagged now pks t) = t_path t" "t_path (RecordConfirmed now pks t) = t_path t"
proof -
  show "t_path (RecordFlagged now pks t) = t_path t"
    unfolding RecordFlagged_def by (induction pks arbitrary: t) (simp_all add: flag_one_def put_path Let_def)
  show "t_path (RecordConfirmed now pks t) = t_path t"
    unfolding RecordConfirmed_def by (induction pks arbitrary: t) (simp_all add: confirm_one_def put_path Let_def)
qed

lemma Checkpoint_fields [simp]:
  "e_bloom (Checkpoint env e) = e_bloom e" "e_tracker (Checkpoint env e) = e_tracker e" "e_sources (Checkpoint env e) = e_sources e"
  "e_trust (Checkpoint env e) = e_trust e" "e_trustFailed (Checkpoint env e) = e_trustFailed e"
  by (simp_all add: Checkpoint_def Let_def split: option.split)

lemma Sources_distinct: "sources_ok s \<Longrightarrow> distinct (fst (Sources ih s))"
  by (auto simp: Sources_def Let_def split: option.split dest: held_ok)

section \<open>Whom a flag reaches\<close>

definition exempt :: "RepEngine \<Rightarrow> Reputation.PubKeyHex \<Rightarrow> bool" where
  "exempt e pk \<longleftrightarrow> (case e_trust e of None \<Rightarrow> False | Some store \<Rightarrow> IsTrusted store pk)"

definition attributed :: "RepEngine \<Rightarrow> string \<Rightarrow> Reputation.PubKeyHex list" where
  "attributed e ihHex = fst (Sources ihHex (e_sources e))"

definition demotable :: "RepEngine \<Rightarrow> string \<Rightarrow> Reputation.PubKeyHex list" where
  "demotable e ihHex =
     (if e_trustFailed e \<or> decodeInfohash ihHex = Inl ErrBadInfohash then []
      else filter (\<lambda>pk. \<not> exempt e pk) (attributed e ihHex))"

lemma decode_cases: "decodeInfohash ihHex = Inl ErrBadInfohash \<or> (\<exists>ih. decodeInfohash ihHex = Inr ih)"
  by (auto simp: decodeInfohash_def split: option.split)

lemma Forget_Sources: "Sources ih (Forget ih (snd (Sources ih s))) = ([], Forget ih (snd (Sources ih s)))"
  by (auto simp: Forget_def Sources_def Let_def map_of_filter_key move_to_front_def split: option.split)

lemma Sources_again: "attributed (e\<lparr>e_sources := snd (Sources ih (e_sources e))\<rparr>) ih = attributed e ih"
  using Sources_twice by (simp add: attributed_def)

lemma flag_cases:
  assumes "e_tracker e = Some t" and "decodeInfohash ihHex = Inr ih" and "\<not> e_trustFailed e"
  shows "e_tracker (snd (daemon_Flag env ihHex e)) = Some (if demotable e ihHex = [] then t else RecordFlagged (c_now env) (demotable e ihHex) t)"
    and "attributed (snd (daemon_Flag env ihHex e)) ihHex = []"
    and "e_bloom (snd (daemon_Flag env ihHex e)) = e_bloom e \<and> e_trust (snd (daemon_Flag env ihHex e)) = e_trust e \<and> e_trustFailed (snd (daemon_Flag env ihHex e)) = e_trustFailed e"
    and "\<exists>r. fst (daemon_Flag env ihHex e) = Inr (ihHex, r) \<and> Flagged r = length (demotable e ihHex)"
proof -
  obtain pks ss where S: "Sources ihHex (e_sources e) = (pks, ss)" by force
  have d: "demotable e ihHex = filter (\<lambda>pk. \<not> exempt e pk) pks" using assms by (simp add: demotable_def attributed_def S)
  have x: "exempt e = (\<lambda>pk. case e_trust e of None \<Rightarrow> False | Some store \<Rightarrow> IsTrusted store pk)" by (simp add: exempt_def fun_eq_iff)
  note F = daemon_Flag_def FlagHit_def S assms d x Let_def
  show "e_tracker (snd (daemon_Flag env ihHex e)) = Some (if demotable e ihHex = [] then t else RecordFlagged (c_now env) (demotable e ihHex) t)"
    by (cases "pks = []") (simp_all add: F)
  show "e_bloom (snd (daemon_Flag env ihHex e)) = e_bloom e \<and> e_trust (snd (daemon_Flag env ihHex e)) = e_trust e \<and> e_trustFailed (snd (daemon_Flag env ihHex e)) = e_trustFailed e"
    by (cases "pks = []") (simp_all add: F)
  show "\<exists>r. fst (daemon_Flag env ihHex e) = Inr (ihHex, r) \<and> Flagged r = length (demotable e ihHex)"
    by (cases "pks = []") (simp_all add: F)
  show "attributed (snd (daemon_Flag env ihHex e)) ihHex = []"
    using Forget_Sources [of ihHex "e_sources e"] Sources_twice [of ihHex "e_sources e"]
    by (cases "pks = []") (simp_all add: F attributed_def)
qed

text \<open>A call that reaches nobody: a malformed infohash, or a trust list that could not be loaded.\<close>

lemma flag_inert:
  assumes "decodeInfohash ihHex = Inl ErrBadInfohash \<or> e_trustFailed e"
  shows "snd (daemon_Flag env ihHex e) = e"
  using assms decode_cases [of ihHex] by (auto simp: daemon_Flag_def FlagHit_def Let_def split: option.split)

lemma flag_nobody:
  assumes "demotable e ihHex = []"
  shows "e_tracker (snd (daemon_Flag env ihHex e)) = e_tracker e"
proof (cases "e_tracker e = None \<or> decodeInfohash ihHex = Inl ErrBadInfohash \<or> e_trustFailed e")
  case True
  then show ?thesis using flag_inert [of ihHex e env] decode_cases [of ihHex] by (auto simp: daemon_Flag_def FlagHit_def)
next
  case False
  then show ?thesis using flag_cases(1) [of e _ ihHex _ env] decode_cases [of ihHex] assms by auto
qed

lemma flag_tally:
  assumes "e_tracker e = Some t" and "sources_ok (e_sources e)"
  shows "\<exists>t'. e_tracker (snd (daemon_Flag env ihHex e)) = Some t' \<and> t_path t' = t_path t \<and>
    (\<forall>pk. tally_of t' pk = (tally_of t pk)\<lparr>flagged := flagged (tally_of t pk) + one_if (pk \<in> set (demotable e ihHex))\<rparr>)"
proof (cases "demotable e ihHex = []")
  case True
  then show ?thesis using flag_nobody [OF True, of env] assms(1) by (simp add: one_if_def)
next
  case False
  then obtain ih where "decodeInfohash ihHex = Inr ih" "\<not> e_trustFailed e" using decode_cases [of ihHex] by (auto simp: demotable_def split: if_splits)
  then have "e_tracker (snd (daemon_Flag env ihHex e)) = Some (RecordFlagged (c_now env) (demotable e ihHex) t)" using flag_cases(1) assms(1) False by simp
  moreover have "distinct (demotable e ihHex)" using Sources_distinct [OF assms(2)] by (simp add: demotable_def attributed_def)
  ultimately show ?thesis by (simp add: tally_flagged)
qed

lemma flag_spent:
  assumes "e_tracker e = Some t"
  shows "demotable (snd (daemon_Flag env ihHex e)) ihHex = []"
proof (cases "decodeInfohash ihHex = Inl ErrBadInfohash \<or> e_trustFailed e")
  case True
  then show ?thesis using flag_inert [OF True] by (auto simp: demotable_def)
next
  case False
  then show ?thesis using flag_cases(2) [OF assms] decode_cases [of ihHex] by (auto simp: demotable_def)
qed

section \<open>Confirming\<close>

lemma confirm_cases:
  assumes "e_bloom e = Some b" and "bloom_Add ih b = Some b'" and "decodeInfohash ihHex = Inr ih"
  shows "\<exists>n e1. daemon_Confirm env ihHex e = Some (Inr (ihHex, n), Checkpoint env e1) \<and> e_bloom e1 = Some b' \<and>
    bloom_fs e1 = bloom_fs e \<and> rep_fs e1 = rep_fs e \<and> e_trust e1 = e_trust e \<and> e_trustFailed e1 = e_trustFailed e \<and>
    e_sources e1 = (if e_tracker e = None then e_sources e else snd (Sources ihHex (e_sources e))) \<and>
    e_tracker e1 = map_option (RecordConfirmed (c_now env) (attributed e ihHex)) (e_tracker e)"
proof -
  have nobody: "RecordConfirmed now [] t = t" for now t by (simp add: RecordConfirmed_def)
  show ?thesis
  proof (cases "e_tracker e")
    case None
    then show ?thesis using assms by (auto simp: daemon_Confirm_def ConfirmHit_def Let_def)
  next
    case (Some t)
    obtain pks ss where S: "Sources ihHex (e_sources e) = (pks, ss)" by force
    show ?thesis
    proof (cases "pks = []")
      case True
      then show ?thesis using assms Some nobody
        by (intro exI [of _ 0] exI [of _ "e\<lparr>e_bloom := Some b', e_sources := ss\<rparr>"])
          (simp add: daemon_Confirm_def ConfirmHit_def Let_def S attributed_def)
    next
      case False
      then show ?thesis using assms Some
        by (intro exI [of _ "length pks"] exI [of _ "e\<lparr>e_bloom := Some b', e_sources := ss, e_tracker := Some (RecordConfirmed (c_now env) pks t)\<rparr>"])
          (simp add: daemon_Confirm_def ConfirmHit_def Let_def S attributed_def)
    qed
  qed
qed

lemma Checkpoint_bloom_fs:
  "e_bloom e = Some b \<Longrightarrow> bloom_fs (Checkpoint env e) = snd (bloom_Save (bloom_fault env) (bloom_tmp env) b (bloom_fs e))"
  by (simp add: Checkpoint_def Let_def split: option.split)

section \<open>Properties\<close>

text \<open>
  C20: flagging a hit.  A flag adds exactly one flag to each indexer the hit is attributed to that is
  not trusted and touches no other counter of anybody: trusted publishers, indexers that did not
  return the hit, and, when the infohash is malformed or the trust list failed to load, everybody.  It
  reports the number of indexers it demoted.  The same flag repeated demotes nobody.
\<close>

theorem flag_reaches_attributed:
  assumes "e_tracker e = Some t" and "sources_ok (e_sources e)"
  shows "\<exists>t'. e_tracker (snd (daemon_Flag env ihHex e)) = Some t' \<and>
    (\<forall>pk. tally_of t' pk = (tally_of t pk)\<lparr>flagged := flagged (tally_of t pk) + one_if (pk \<in> set (demotable e ihHex))\<rparr>) \<and>
    (case fst (daemon_Flag env ihHex e) of
       Inl err \<Rightarrow> err = ErrBadInfohash \<and> demotable e ihHex = []
     | Inr (ih, r) \<Rightarrow> ih = ihHex \<and> Flagged r = length (demotable e ihHex)) \<and>
    e_tracker (snd (daemon_Flag env' ihHex (snd (daemon_Flag env ihHex e)))) = Some t'"
proof -
  obtain t' where t': "e_tracker (snd (daemon_Flag env ihHex e)) = Some t'"
    "\<forall>pk. tally_of t' pk = (tally_of t pk)\<lparr>flagged := flagged (tally_of t pk) + one_if (pk \<in> set (demotable e ihHex))\<rparr>"
    using flag_tally [OF assms, of env ihHex] by blast
  have "e_tracker (snd (daemon_Flag env' ihHex (snd (daemon_Flag env ihHex e)))) = Some t'"
    using flag_nobody [OF flag_spent [OF assms(1)], of env'] t'(1) by simp
  moreover have "case fst (daemon_Flag env ihHex e) of
       Inl err \<Rightarrow> err = ErrBadInfohash \<and> demotable e ihHex = []
     | Inr (ih, r) \<Rightarrow> ih = ihHex \<and> Flagged r = length (demotable e ihHex)"
  proof (cases "decodeInfohash ihHex = Inl ErrBadInfohash \<or> e_trustFailed e")
    case True
    then show ?thesis using assms(1) decode_cases [of ihHex] by (auto simp: daemon_Flag_def FlagHit_def demotable_def)
  next
    case False
    then show ?thesis using flag_cases(4) [OF assms(1), of ihHex _ env] decode_cases [of ihHex] by auto
  qed
  ultimately show ?thesis using t' by blast
qed

text \<open>
  C21: confirming a hit.  With a storable filter and a save that succeeds, a confirmation does not
  panic; the infohash tests positive from then on, as does everything that did before, also in the
  filter loaded from the file after a restart; and exactly the indexers the hit is attributed to gain
  one confirmation each.
\<close>

theorem confirm_is_kept:
  assumes "e_bloom e = Some b" and "bloom_storable b" and "decodeInfohash ihHex = Inr ih" and "sources_ok (e_sources e)"
    and "bloom_fault env = None" and "bloom_fs e (bloom_tmp env) = Absent" and "bloom_tmp env \<noteq> b_path b"
  shows "\<exists>n e' b'. daemon_Confirm env ihHex e = Some (Inr (ihHex, n), e') \<and> e_bloom e' = Some b' \<and>
    LoadOrCreateBloom (b_path b) True (bloom_fs e') = Inr b' \<and> bloom_Test ih b' = Some True \<and>
    (\<forall>x. bloom_Test x b = Some True \<longrightarrow> bloom_Test x b' = Some True) \<and>
    (\<forall>t. e_tracker e = Some t \<longrightarrow> (\<exists>t'. e_tracker e' = Some t' \<and>
       (\<forall>pk. tally_of t' pk = (tally_of t pk)\<lparr>confirmed := confirmed (tally_of t pk) + one_if (pk \<in> set (attributed e ihHex))\<rparr>)))"
proof -
  have "bloom_ok b" using assms(2) by (simp add: bloom_storable_def)
  then obtain b' where b': "bloom_Add ih b = Some b'" "bloom_ok b'" "bloom_Test ih b' = Some True"
    "\<forall>x. bloom_Test x b = Some True \<longrightarrow> bloom_Test x b' = Some True" using bloom_Add_ok by blast
  from bloom_Add_shape [OF b'(1)] have sh: "b_m b' = b_m b" "b_k b' = b_k b" "b_path b' = b_path b" by auto
  with b'(2) assms(2) have "bloom_storable b'" by (simp add: bloom_storable_def)
  from bloom_saved_reload [OF this, of "bloom_fs e" "bloom_tmp env"] assms(6,7) sh(3)
  have saved: "LoadOrCreateBloom (b_path b) True (snd (bloom_Save None (bloom_tmp env) b' (bloom_fs e))) = Inr b'" by simp
  obtain n e1 where c: "daemon_Confirm env ihHex e = Some (Inr (ihHex, n), Checkpoint env e1)" "e_bloom e1 = Some b'" "bloom_fs e1 = bloom_fs e"
    "e_tracker e1 = map_option (RecordConfirmed (c_now env) (attributed e ihHex)) (e_tracker e)"
    using confirm_cases [OF assms(1) b'(1) assms(3), of env] by blast
  have "distinct (attributed e ihHex)" using Sources_distinct [OF assms(4)] by (simp add: attributed_def)
  then have tal: "\<forall>t. e_tracker e = Some t \<longrightarrow> (\<exists>t'. e_tracker (Checkpoint env e1) = Some t' \<and>
       (\<forall>pk. tally_of t' pk = (tally_of t pk)\<lparr>confirmed := confirmed (tally_of t pk) + one_if (pk \<in> set (attributed e ihHex))\<rparr>))"
    using c(4) by (simp add: tally_confirmed)
  show ?thesis
    by (intro exI [of _ n] exI [of _ "Checkpoint env e1"] exI [of _ b'] conjI)
      (use c saved b' tal Checkpoint_bloom_fs [OF c(2), of env] assms(5) in simp_all)
qed

text \<open>
  Failing closed.  When a trust list is configured and its file cannot be read or parsed, the
  engine that is loaded refuses to demote: every flag leaves the whole state unchanged and, if a
  tracker is there and the infohash is well formed, reports that the trust list is unavailable.
\<close>

lemma trust_fails_closed:
  assumes "TrustPath cfg \<noteq> []" and "trust_fs lenv (TrustPath cfg) \<in> {Unreadable, Malformed}" and "loadSpamResistance cfg lenv e = e'"
  shows "snd (daemon_Flag env ihHex e') = e' \<and>
    (e_tracker e' \<noteq> None \<and> decodeInfohash ihHex \<noteq> Inl ErrBadInfohash \<longrightarrow>
      fst (daemon_Flag env ihHex e') = Inr (ihHex, \<lparr>Flagged = 0, Attribution = TrustUnavailable\<rparr>))"
proof -
  have "\<exists>err. LoadOrCreate (TrustPath cfg) (trust_fs lenv) = Inl err" using assms(1,2) by (auto simp: LoadOrCreate_def)
  then have "e_trustFailed e'" using assms(1,3) by (auto simp: loadSpamResistance_def Let_def)
  then show ?thesis using flag_inert decode_cases [of ihHex] by (auto simp: daemon_Flag_def FlagHit_def)
qed

section \<open>Concrete runs\<close>

definition fb_ih :: string where "fb_ih = replicate 40 CHR ''a''"
definition fb_bloom :: BloomFilter where "fb_bloom = \<lparr>b_bits = [0], b_m = 64, b_k = 3, b_path = ''bloom''\<rparr>"
definition fb_store :: Store where "fb_store = \<lparr>s_path = [], s_entries = [(''t'', \<lparr>PubKeyHex = ''t'', Label_of = []\<rparr>)]\<rparr>"
definition fb_engine :: RepEngine where
  "fb_engine = \<lparr>e_bloom = Some fb_bloom, e_tracker = Some NewTracker, e_sources = RecordMany fb_ih [''p'', ''t''] (NewSourceTracker 0),
     e_trust = Some fb_store, e_trustFailed = False, bloom_fs = (\<lambda>_. Absent), rep_fs = (\<lambda>_. Absent)\<rparr>"
definition fb_env :: ckpt_env where
  "fb_env = \<lparr>c_now = 1, bloom_fault = None, bloom_tmp = ''bloom.tmp-1'', rep_fault = None, rep_tmp = ''rep.tmp-1''\<rparr>"

lemma fb_sources: "sources_ok (e_sources fb_engine)"
proof -
  have "sources_ok (NewSourceTracker 0)" by (simp add: sources_ok_def NewSourceTracker_def DefaultSourceCapacity_def)
  then show ?thesis by (simp add: fb_engine_def RecordMany_def Record_ok)
qed

lemma fb_tracker: "e_tracker fb_engine = Some NewTracker" by (simp add: fb_engine_def)

lemma fb_decode: "decodeInfohash fb_ih = Inr (replicate 20 0xAA)" by code_simp

lemma fb_attributed: "attributed fb_engine fb_ih = [''t'', ''p'']" by code_simp

lemma fb_demotable: "demotable fb_engine fb_ih = [''p'']" by code_simp

theorem flag_reaches_attributed_witness:
  "\<exists>t'. e_tracker (snd (daemon_Flag fb_env fb_ih fb_engine)) = Some t' \<and> flagged (tally_of t' ''p'') = 1 \<and> flagged (tally_of t' ''t'') = 0"
proof -
  have "flagged (tally_of NewTracker pk) = 0" for pk by (simp add: tally_of_def NewTracker_def)
  then show ?thesis using flag_reaches_attributed [OF fb_tracker fb_sources, of fb_env fb_ih fb_env]
    by (auto simp: fb_demotable one_if_def)
qed

theorem confirm_is_kept_witness:
  "\<exists>n e' b'. daemon_Confirm fb_env fb_ih fb_engine = Some (Inr (fb_ih, n), e') \<and>
     LoadOrCreateBloom ''bloom'' True (bloom_fs e') = Inr b' \<and> bloom_Test (replicate 20 0xAA) b' = Some True"
proof -
  have b: "e_bloom fb_engine = Some fb_bloom" by (simp add: fb_engine_def)
  have s: "bloom_storable fb_bloom" by (simp add: bloom_storable_def bloom_ok_def fb_bloom_def maxBloomBits_def)
  have p: "b_path fb_bloom = ''bloom''" by (simp add: fb_bloom_def)
  have f: "bloom_fault fb_env = None" "bloom_fs fb_engine (bloom_tmp fb_env) = Absent" "bloom_tmp fb_env \<noteq> b_path fb_bloom"
    by (simp_all add: fb_env_def fb_engine_def fb_bloom_def)
  show ?thesis using confirm_is_kept [OF b s fb_decode fb_sources f] unfolding p by blast
qed

theorem trust_fails_closed_witness:
  "let lenv = \<lparr>l_now = 1, bloom_mkdir = True, rep_mkdir = True, seed_fs = (\<lambda>_. Absent), trust_fs = (\<lambda>_. Malformed)\<rparr>;
       cfg = \<lparr>BloomPath = [], ReputationPath = [], SeedListPath = [], TrustPath = ''trust.json''\<rparr>;
       e' = loadSpamResistance cfg lenv fb_engine
   in e_tracker e' \<noteq> None \<and> fst (daemon_Flag fb_env fb_ih e') = Inr (fb_ih, \<lparr>Flagged = 0, Attribution = TrustUnavailable\<rparr>)"
proof -
  let ?lenv = "\<lparr>l_now = 1, bloom_mkdir = True, rep_mkdir = True, seed_fs = (\<lambda>_. Absent), trust_fs = (\<lambda>_. Malformed)\<rparr>"
  let ?cfg = "\<lparr>BloomPath = [], ReputationPath = [], SeedListPath = [], TrustPath = ''trust.json''\<rparr>"
  have "e_tracker (loadSpamResistance ?cfg ?lenv fb_engine) = Some NewTracker"
    by (simp add: loadSpamResistance_def LoadOrCreate_def fb_engine_def)
  then show ?thesis using trust_fails_closed [OF _ _ refl, of ?cfg ?lenv fb_env fb_ih fb_engine] fb_decode by simp
qed

end
