(* ===== verification/Dht_Lookup.thy ===== *)
theory Dht_Lookup
  imports Dht_Publish Feedback
begin

text \<open>
  Searching the DHT (\<^verbatim>\<open>internal/dhtindex/lookup.go\<close>, and the merge of \<^verbatim>\<open>composite.go\<close>): the set of known
  indexers, a query to all of them and the ranking of what they return.  The tracker, the filter and the
  attribution table are the engine's (theory \<^verbatim>\<open>Feedback\<close>); a flag says whether each is attached.  The
  backend is an argument.  The goroutines answer in any order: a function that permutes the indexers.
\<close>

section \<open>Indexers\<close>

record IndexerInfo =
  ii_PubKey :: bytes
  ii_Label :: string
  ii_AddedAt :: int
  ii_Auto :: bool

definition maxAutoIndexers :: nat where "maxAutoIndexers = 128"

record Lookup =
  lk_indexers :: "(bytes \<times> IndexerInfo) list"
  lk_tracker :: bool
  lk_bloom :: bool
  lk_sources :: bool
  lk_minScore :: real

definition NewLookup :: Lookup where
  "NewLookup = \<lparr>lk_indexers = [], lk_tracker = False, lk_bloom = False, lk_sources = False, lk_minScore = 0\<rparr>"

text \<open>The scan for the oldest automatic entry, with the number of them.\<close>

definition scan_auto :: "bytes \<times> IndexerInfo \<Rightarrow> nat \<times> (bytes \<times> int) option \<Rightarrow> nat \<times> (bytes \<times> int) option" where
  "scan_auto = (\<lambda>(k, info) (autoCount, oldest).
     if \<not> ii_Auto info then (autoCount, oldest)
     else (autoCount + 1,
           case oldest of
             None \<Rightarrow> Some (k, ii_AddedAt info)
           | Some (ok, t) \<Rightarrow> if ii_AddedAt info < t then Some (k, ii_AddedAt info) else oldest))"

definition evictOldestAutoIfFullLocked :: "Lookup \<Rightarrow> Lookup" where
  "evictOldestAutoIfFullLocked l =
     (let (autoCount, oldest) = fold scan_auto (lk_indexers l) (0, None)
      in case oldest of
           None \<Rightarrow> l
         | Some (k, t) \<Rightarrow> if autoCount \<ge> maxAutoIndexers then l\<lparr>lk_indexers := AList.delete k (lk_indexers l)\<rparr> else l)"

definition addIndexerLocked :: "int \<Rightarrow> bytes \<Rightarrow> string \<Rightarrow> bool \<Rightarrow> Lookup \<Rightarrow> Lookup" where
  "addIndexerLocked now pubkey label isAuto l =
     (case map_of (lk_indexers l) pubkey of
        Some existing \<Rightarrow>
          if \<not> isAuto then l\<lparr>lk_indexers := AList.update pubkey (existing\<lparr>ii_Label := label, ii_Auto := False\<rparr>) (lk_indexers l)\<rparr> else l
      | None \<Rightarrow>
          let l = (if isAuto then evictOldestAutoIfFullLocked l else l)
          in l\<lparr>lk_indexers := AList.update pubkey \<lparr>ii_PubKey = pubkey, ii_Label = label, ii_AddedAt = now, ii_Auto = isAuto\<rparr> (lk_indexers l)\<rparr>)"

definition AddIndexer :: "int \<Rightarrow> bytes \<Rightarrow> string \<Rightarrow> Lookup \<Rightarrow> Lookup" where
  "AddIndexer now pubkey label l = addIndexerLocked now pubkey label False l"

definition AddIndexerHex :: "int \<Rightarrow> string \<Rightarrow> string \<Rightarrow> Lookup \<Rightarrow> bool \<times> Lookup" where
  "AddIndexerHex now hexKey label l =
     (if length hexKey \<noteq> 64 then (False, l)
      else case hex_DecodeString hexKey of
             None \<Rightarrow> (False, l)
           | Some raw \<Rightarrow> (True, AddIndexer now (copy_array 32 raw) label l))"

definition RemoveIndexer :: "bytes \<Rightarrow> Lookup \<Rightarrow> Lookup" where
  "RemoveIndexer pubkey l = l\<lparr>lk_indexers := AList.delete pubkey (lk_indexers l)\<rparr>"

definition Indexers :: "Lookup \<Rightarrow> IndexerInfo list" where "Indexers l = map snd (lk_indexers l)"

definition NotePublisherSeen :: "int \<Rightarrow> bytes \<Rightarrow> Lookup \<Rightarrow> Lookup" where
  "NotePublisherSeen now pubkey l = addIndexerLocked now pubkey [] True l"

section \<open>Merging answers\<close>

record LookupHit =
  lh_InfoHash :: string
  lh_Name :: bytes
  lh_Seeders :: int
  lh_Size :: int
  lh_Files :: int
  lh_Sources :: "string list"
  lh_Score :: real
  lh_BloomHit :: bool

record LookupResponse =
  IndexersAsked :: nat
  IndexersResponded :: nat
  lr_Hits :: "LookupHit list"

record merge_state =
  ms_merged :: "(string \<times> LookupHit) list"
  ms_sources :: "(string \<times> bytes list) list"
  ms_seen :: "string list"

text \<open>The entry of an infohash after one more report of it.\<close>

definition merged_hit :: "string \<Rightarrow> string \<Rightarrow> KeywordHit \<Rightarrow> LookupHit option \<Rightarrow> LookupHit" where
  "merged_hit ih label h old =
     (let lh = (case old of
                  None \<Rightarrow> \<lparr>lh_InfoHash = ih, lh_Name = kh_N h, lh_Seeders = kh_S h, lh_Size = kh_Sz h, lh_Files = kh_F h,
                           lh_Sources = [], lh_Score = 0, lh_BloomHit = False\<rparr>
                | Some lh \<Rightarrow>
                    lh\<lparr>lh_Name := (if lh_Name lh = [] \<and> kh_N h \<noteq> [] then kh_N h else lh_Name lh),
                       lh_Seeders := (if kh_S h > lh_Seeders lh then kh_S h else lh_Seeders lh),
                       lh_Size := (if lh_Size lh = 0 \<and> kh_Sz h > 0 then kh_Sz h else lh_Size lh),
                       lh_Files := (if lh_Files lh = 0 \<and> kh_F h > 0 then kh_F h else lh_Files lh)\<rparr>)
      in lh\<lparr>lh_Sources := lh_Sources lh @ [label]\<rparr>)"

definition merge_one :: "BloomFilter option \<Rightarrow> IndexerInfo \<Rightarrow> string \<Rightarrow> KeywordHit \<Rightarrow> merge_state \<Rightarrow> merge_state option" where
  "merge_one bloom info label h s =
     (let ih = hex_EncodeToString (kh_IH h) in
      if length ih \<noteq> 40 then Some s
      else if ih \<in> set (ms_seen s) then Some s
      else
        let lh = merged_hit ih label h (map_of (ms_merged s) ih);
            pks = (case map_of (ms_sources s) ih of None \<Rightarrow> [] | Some pks \<Rightarrow> pks)
        in case (case bloom of None \<Rightarrow> Some False | Some b \<Rightarrow> bloom_Test (kh_IH h) b) of
             None \<Rightarrow> None
           | Some good \<Rightarrow>
               Some (s\<lparr>ms_seen := ih # ms_seen s,
                       ms_merged := AList.update ih (if good then lh\<lparr>lh_BloomHit := True\<rparr> else lh) (ms_merged s),
                       ms_sources := AList.update ih (pks @ [ii_PubKey info]) (ms_sources s)\<rparr>))"

fun merge_hits :: "BloomFilter option \<Rightarrow> IndexerInfo \<Rightarrow> string \<Rightarrow> KeywordHit list \<Rightarrow> merge_state \<Rightarrow> merge_state option" where
  "merge_hits bloom info label [] s = Some s"
| "merge_hits bloom info label (h # hs) s =
     (case merge_one bloom info label h s of None \<Rightarrow> None | Some s \<Rightarrow> merge_hits bloom info label hs s)"

definition source_label :: "IndexerInfo \<Rightarrow> string" where
  "source_label info = (if ii_Label info = [] then take 16 (hex_EncodeToString (ii_PubKey info)) else ii_Label info)"

text \<open>One answer; the set of infohashes already seen is the indexer's own.\<close>

fun merge_answers :: "BloomFilter option \<Rightarrow> (IndexerInfo \<times> KeywordHit list) list \<Rightarrow> merge_state \<Rightarrow> merge_state option" where
  "merge_answers bloom [] s = Some s"
| "merge_answers bloom ((info, hs) # rs) s =
     (case merge_hits bloom info (source_label info) hs (s\<lparr>ms_seen := []\<rparr>) of
        None \<Rightarrow> None
      | Some s \<Rightarrow> merge_answers bloom rs s)"

definition scoreLookupHit :: "int \<Rightarrow> LookupHit \<Rightarrow> bytes list \<Rightarrow> Tracker option \<Rightarrow> real" where
  "scoreLookupHit now lh sources tracker =
     (if sources = [] then 0
      else
        let total = sum_list (map (\<lambda>pk. case tracker of Some t \<Rightarrow> Score now t (PubKey pk) | None \<Rightarrow> 1 / 2) sources);
            score = total / real (length sources);
            bonus = 5 / 100 * real (length sources - 1);
            score = (if bonus > 0 then score + (if bonus > 2 / 10 then 2 / 10 else bonus) else score);
            score = (if lh_BloomHit lh then score + 25 / 100 else score);
            score = (if score > 1 then 1 else score)
        in if score < 0 then 0 else score)"

section \<open>The query\<close>

text \<open>The order of the result, as a sort key.  Hits that tie in all four fields stay in the order of the merge.\<close>

definition hit_rank :: "LookupHit \<Rightarrow> bool \<times> real \<times> int \<times> bytes" where
  "hit_rank h = (\<not> lh_BloomHit h, - lh_Score h, - int (length (lh_Sources h)), lh_Name h)"

definition asked :: "int \<Rightarrow> Lookup \<Rightarrow> Tracker option \<Rightarrow> IndexerInfo list" where
  "asked now l tracker =
     (case tracker of
        None \<Rightarrow> Indexers l
      | Some t \<Rightarrow>
          if lk_minScore l > 0 then filter (\<lambda>i. Threshold now t (PubKey (ii_PubKey i)) (lk_minScore l)) (Indexers l)
          else Indexers l)"

definition answers_of :: "(bytes \<Rightarrow> dht_error + KeywordHit list) \<Rightarrow> IndexerInfo list \<Rightarrow> (IndexerInfo \<times> KeywordHit list) list" where
  "answers_of backend is = concat (map (\<lambda>i. case backend (ii_PubKey i) of Inl _ \<Rightarrow> [] | Inr hs \<Rightarrow> [(i, hs)]) is)"

definition note_answers :: "int \<Rightarrow> (IndexerInfo \<times> KeywordHit list) list \<Rightarrow> Tracker \<Rightarrow> Tracker" where
  "note_answers now answers t = fold (\<lambda>(i, hs). RecordReturned now (PubKey (ii_PubKey i)) (int (length hs))) answers t"

text \<open>
  A query changes the tracker and the attribution table of the engine.  \<open>None\<close> is a panic, \<open>Inl\<close> the
  error for a query without tokens.
\<close>

definition Query :: "unicode \<Rightarrow> int \<Rightarrow> (bytes \<Rightarrow> bytes \<Rightarrow> dht_error + KeywordHit list) \<Rightarrow> (IndexerInfo list \<Rightarrow> IndexerInfo list) \<Rightarrow>
    bytes \<Rightarrow> Lookup \<Rightarrow> RepEngine \<Rightarrow> ((unit + LookupResponse) \<times> RepEngine) option" where
  "Query U now backend arrive query l e =
     (let keyword = MostDistinctive (Tokenize U query) in
      if keyword = [] then Some (Inl (), e)
      else
        let tracker = (if lk_tracker l then e_tracker e else None);
            bloom = (if lk_bloom l then e_bloom e else None);
            indexers = asked now l tracker
        in if indexers = [] then Some (Inr \<lparr>IndexersAsked = 0, IndexersResponded = 0, lr_Hits = []\<rparr>, e)
           else
             let answers = answers_of (\<lambda>pk. backend pk keyword) (arrive indexers) in
             case merge_answers bloom answers \<lparr>ms_merged = [], ms_sources = [], ms_seen = []\<rparr> of
               None \<Rightarrow> None
             | Some s \<Rightarrow>
                 let tracker = map_option (note_answers now answers) tracker;
                     e = (case tracker of None \<Rightarrow> e | Some t \<Rightarrow> e\<lparr>e_tracker := Some t\<rparr>);
                     hits = map (\<lambda>(ih, lh). lh\<lparr>lh_Score := scoreLookupHit now lh (case map_of (ms_sources s) ih of None \<Rightarrow> [] | Some pks \<Rightarrow> pks) tracker\<rparr>) (ms_merged s);
                     e = (if lk_sources l then e\<lparr>e_sources := fold (\<lambda>(ih, pks). RecordMany ih (map PubKey pks)) (ms_sources s) (e_sources e)\<rparr> else e)
                 in Some (Inr \<lparr>IndexersAsked = length indexers, IndexersResponded = length answers, lr_Hits = sort_key hit_rank hits\<rparr>, e))"

section \<open>Two backends\<close>

fun keep_new :: "bytes list \<Rightarrow> KeywordHit list \<Rightarrow> KeywordHit list" where
  "keep_new seen [] = []"
| "keep_new seen (h # hs) = (if kh_IH h \<in> set seen then keep_new seen hs else h # keep_new (kh_IH h # seen) hs)"

definition composite_Lookup :: "(bytes \<Rightarrow> bytes \<Rightarrow> dht_error + KeywordHit list) \<Rightarrow> (bytes \<Rightarrow> bytes \<Rightarrow> dht_error + KeywordHit list) \<Rightarrow>
    bytes \<Rightarrow> bytes \<Rightarrow> dht_error + KeywordHit list" where
  "composite_Lookup primary secondary pub tok =
     (case (primary pub tok, secondary pub tok) of
        (Inl perr, Inl _) \<Rightarrow> Inl perr
      | (p, s) \<Rightarrow>
          (let hits = (\<lambda>r. case r of Inl _ \<Rightarrow> [] | Inr hs \<Rightarrow> hs) in Inr (keep_new [] (hits p @ hits s))))"

section \<open>The indexer set\<close>

datatype indexer_op = OpAdd int bytes string | OpSeen int bytes | OpRemove bytes

fun indexer_step :: "indexer_op \<Rightarrow> Lookup \<Rightarrow> Lookup" where
  "indexer_step (OpAdd now pk label) l = AddIndexer now pk label l"
| "indexer_step (OpSeen now pk) l = NotePublisherSeen now pk l"
| "indexer_step (OpRemove pk) l = RemoveIndexer pk l"

definition automatic :: "Lookup \<Rightarrow> (bytes \<times> IndexerInfo) list" where
  "automatic l = filter (\<lambda>(k, info). ii_Auto info) (lk_indexers l)"

definition lookup_ok :: "Lookup \<Rightarrow> bool" where
  "lookup_ok l \<longleftrightarrow> distinct (map fst (lk_indexers l)) \<and> (\<forall>(k, info) \<in> set (lk_indexers l). ii_PubKey info = k) \<and>
     length (automatic l) \<le> maxAutoIndexers"

text \<open>The scan counts the automatic entries and finds one of the oldest.\<close>

lemma scan_auto_spec:
  "fold scan_auto xs (n, old) = (m, found) \<Longrightarrow>
   m = n + length (filter (\<lambda>(k, info). ii_Auto info) xs) \<and>
   (found = None \<longleftrightarrow> old = None \<and> filter (\<lambda>(k, info). ii_Auto info) xs = []) \<and>
   (\<forall>k t. found = Some (k, t) \<longrightarrow>
      (old = Some (k, t) \<or> (\<exists>info. (k, info) \<in> set xs \<and> ii_Auto info \<and> ii_AddedAt info = t)) \<and>
      (\<forall>k' t'. old = Some (k', t') \<longrightarrow> t \<le> t') \<and>
      (\<forall>(k', info) \<in> set xs. ii_Auto info \<longrightarrow> t \<le> ii_AddedAt info))"
proof (induction xs arbitrary: n old)
  case Nil
  then show ?case by auto
next
  case (Cons x xs)
  obtain k info where x: "x = (k, info)" by force
  obtain n' old' where s: "scan_auto x (n, old) = (n', old')" by force
  from Cons.prems have "fold scan_auto xs (n', old') = (m, found)" by (simp add: s)
  note IH = Cons.IH [OF this]
  show ?case
  proof (cases "ii_Auto info")
    case False
    then have "n' = n" "old' = old" using s by (auto simp: scan_auto_def x)
    then show ?thesis using IH False by (auto simp: x)
  next
    case True
    then have n': "n' = n + 1" and old': "old' = (case old of None \<Rightarrow> Some (k, ii_AddedAt info)
      | Some (ok, t) \<Rightarrow> if ii_AddedAt info < t then Some (k, ii_AddedAt info) else old)"
      using s by (auto simp: scan_auto_def x)
    obtain k1 t1 where o: "old' = Some (k1, t1)" using old' by (cases old') (auto split: option.splits if_splits)
    have "t1 \<le> ii_AddedAt info" "\<forall>k' t'. old = Some (k', t') \<longrightarrow> t1 \<le> t'"
      "(k1, t1) = (k, ii_AddedAt info) \<or> old = Some (k1, t1)"
      using old' o by (auto split: option.splits if_splits prod.splits)
    then show ?thesis using IH True n' o by (fastforce simp: x)
  qed
qed

lemma evict_auto:
  obtains "length (automatic l) < maxAutoIndexers" and "evictOldestAutoIfFullLocked l = l"
  | k info where "length (automatic l) \<ge> maxAutoIndexers" and "(k, info) \<in> set (automatic l)"
      and "\<forall>(k', info') \<in> set (automatic l). ii_AddedAt info \<le> ii_AddedAt info'"
      and "evictOldestAutoIfFullLocked l = l\<lparr>lk_indexers := AList.delete k (lk_indexers l)\<rparr>"
proof -
  obtain m found where f: "fold scan_auto (lk_indexers l) (0, None) = (m, found)" by force
  note S = scan_auto_spec [OF f]
  have m: "m = length (automatic l)" using S by (simp add: automatic_def)
  show thesis
  proof (cases "m \<ge> maxAutoIndexers")
    case False
    then show thesis using that(1) f m by (simp add: evictOldestAutoIfFullLocked_def split: option.split)
  next
    case True
    then have "found \<noteq> None" using S m by (auto simp: automatic_def maxAutoIndexers_def)
    then obtain k t where k: "found = Some (k, t)" by auto
    then obtain info where "(k, info) \<in> set (lk_indexers l)" "ii_Auto info" "ii_AddedAt info = t" using S by auto
    then show thesis using that(2) [of k info] True m f k S by (auto simp: automatic_def evictOldestAutoIfFullLocked_def)
  qed
qed

lemma update_fresh: "map_of al k = None \<Longrightarrow> AList.update k v al = al @ [(k, v)]"
  by (induction al) (auto split: if_splits)

lemma filter_update_le: "\<not> P (k, v) \<Longrightarrow> length (filter P (AList.update k v al)) \<le> length (filter P al)"
  by (induction al) auto

lemma delete_filter: "AList.delete k al = filter (\<lambda>e. fst e \<noteq> k) al"
  by (induction al) auto

lemma map_of_delete: "map_of (AList.delete k al) j = (if j = k then None else map_of al j)"
  by (simp add: delete_conv')

lemma delete_shorter:
  assumes "distinct (map fst al)" and "(k, v) \<in> set (filter P al)"
  shows "Suc (length (filter P (AList.delete k al))) = length (filter P al)"
proof -
  have "distinct (map fst (filter P al))" using assms(1) by (rule distinct_map_filter)
  moreover from this have "map_of (filter P al) k = Some v" using assms(2) by (rule map_of_is_SomeI)
  ultimately have "Suc (length (filter (\<lambda>e. fst e \<noteq> k) (filter P al))) = length (filter P al)" by (rule filter_key_length)
  then show ?thesis by (simp add: delete_filter conj_commute)
qed

definition keys_ok :: "Lookup \<Rightarrow> bool" where
  "keys_ok l \<longleftrightarrow> distinct (map fst (lk_indexers l)) \<and> (\<forall>(k, info) \<in> set (lk_indexers l). ii_PubKey info = k)"

lemma keys_ok_delete: "keys_ok l \<Longrightarrow> keys_ok (l\<lparr>lk_indexers := AList.delete k (lk_indexers l)\<rparr>)"
  by (auto simp: keys_ok_def delete_filter distinct_map_filter)

lemma keys_ok_update: "keys_ok l \<Longrightarrow> ii_PubKey info = k \<Longrightarrow> keys_ok (l\<lparr>lk_indexers := AList.update k info (lk_indexers l)\<rparr>)"
  using set_update_entries [of k info "lk_indexers l"] by (auto simp: keys_ok_def distinct_update)

lemma lookup_ok_keys: "lookup_ok l \<longleftrightarrow> keys_ok l \<and> length (automatic l) \<le> maxAutoIndexers"
  by (simp add: lookup_ok_def keys_ok_def)

lemma known_key: "keys_ok l \<Longrightarrow> map_of (lk_indexers l) k = Some info \<Longrightarrow> ii_PubKey info = k"
  by (auto simp: keys_ok_def dest: map_of_SomeD)

text \<open>The entries an operator added.\<close>

definition explicit :: "Lookup \<Rightarrow> bytes set" where
  "explicit l = {k. \<exists>info. map_of (lk_indexers l) k = Some info \<and> \<not> ii_Auto info}"

text \<open>Room for one more automatic entry, made at the cost of automatic entries only.\<close>

lemma evict_room:
  assumes "lookup_ok l"
  shows "keys_ok (evictOldestAutoIfFullLocked l)"
    and "length (automatic (evictOldestAutoIfFullLocked l)) < maxAutoIndexers"
    and "map_of (lk_indexers l) k = None \<Longrightarrow> map_of (lk_indexers (evictOldestAutoIfFullLocked l)) k = None"
    and "explicit (evictOldestAutoIfFullLocked l) = explicit l"
proof -
  have k: "keys_ok l" and n: "length (automatic l) \<le> maxAutoIndexers" using assms by (simp_all add: lookup_ok_keys)
  consider "length (automatic l) < maxAutoIndexers" "evictOldestAutoIfFullLocked l = l"
    | j info where "(j, info) \<in> set (automatic l)" "evictOldestAutoIfFullLocked l = l\<lparr>lk_indexers := AList.delete j (lk_indexers l)\<rparr>"
    by (rule evict_auto [of l]) blast+
  then have "keys_ok (evictOldestAutoIfFullLocked l) \<and> length (automatic (evictOldestAutoIfFullLocked l)) < maxAutoIndexers \<and>
    (map_of (lk_indexers l) k = None \<longrightarrow> map_of (lk_indexers (evictOldestAutoIfFullLocked l)) k = None) \<and>
    explicit (evictOldestAutoIfFullLocked l) = explicit l"
  proof cases
    case 1
    then show ?thesis using k by simp
  next
    case (2 j info)
    have "Suc (length (filter (\<lambda>(k, info). ii_Auto info) (AList.delete j (lk_indexers l)))) = length (automatic l)"
      using delete_shorter [of "lk_indexers l" j info "\<lambda>(k, info). ii_Auto info"] k 2(1) by (simp add: automatic_def keys_ok_def)
    moreover have "map_of (lk_indexers l) j = Some info" "ii_Auto info"
      using 2(1) k by (auto simp: automatic_def keys_ok_def intro: map_of_is_SomeI)
    ultimately show ?thesis using 2(2) n keys_ok_delete [OF k, of j] by (auto simp: automatic_def map_of_delete explicit_def)
  qed
  then show "keys_ok (evictOldestAutoIfFullLocked l)" "length (automatic (evictOldestAutoIfFullLocked l)) < maxAutoIndexers"
    "map_of (lk_indexers l) k = None \<Longrightarrow> map_of (lk_indexers (evictOldestAutoIfFullLocked l)) k = None"
    "explicit (evictOldestAutoIfFullLocked l) = explicit l" by blast+
qed

text \<open>A new automatic entry is appended to what the eviction leaves.\<close>

lemma seen_cases:
  assumes "lookup_ok l"
  obtains "map_of (lk_indexers l) pk \<noteq> None" and "NotePublisherSeen now pk l = l"
  | "map_of (lk_indexers l) pk = None" and "NotePublisherSeen now pk l = (evictOldestAutoIfFullLocked l)\<lparr>lk_indexers :=
      lk_indexers (evictOldestAutoIfFullLocked l) @ [(pk, \<lparr>ii_PubKey = pk, ii_Label = [], ii_AddedAt = now, ii_Auto = True\<rparr>)]\<rparr>"
proof (cases "map_of (lk_indexers l) pk")
  case (Some info)
  then show thesis using that(1) by (simp add: NotePublisherSeen_def addIndexerLocked_def)
next
  case None
  then show thesis using that(2) evict_room(3) [OF assms None] by (simp add: NotePublisherSeen_def addIndexerLocked_def Let_def update_fresh)
qed

lemma add_auto_ok:
  assumes "lookup_ok l"
  shows "lookup_ok (NotePublisherSeen now pk l)"
proof (cases rule: seen_cases [OF assms, of pk now])
  case 2
  then show ?thesis using evict_room(1,2) [OF assms] evict_room(3) [OF assms 2(1)]
    by (auto simp: lookup_ok_def keys_ok_def automatic_def map_of_eq_None_iff)
qed (use assms in simp)

lemma explicit_seen:
  assumes "lookup_ok l"
  shows "explicit (NotePublisherSeen now pk l) = explicit l"
proof (cases rule: seen_cases [OF assms, of pk now])
  case 2
  then show ?thesis using evict_room(3) [OF assms 2(1)] unfolding evict_room(4) [OF assms, symmetric]
    by (auto simp: explicit_def map_add_def split: option.splits)
qed simp

lemma add_explicit_ok:
  assumes "lookup_ok l"
  shows "lookup_ok (AddIndexer now pk label l)"
proof -
  have k: "keys_ok l" and n: "length (automatic l) \<le> maxAutoIndexers" using assms by (simp_all add: lookup_ok_keys)
  have step: "lookup_ok (l\<lparr>lk_indexers := AList.update pk info (lk_indexers l)\<rparr>)" if "ii_PubKey info = pk" "\<not> ii_Auto info" for info
    using keys_ok_update [OF k that(1)] filter_update_le [of "\<lambda>(k, info). ii_Auto info" pk info "lk_indexers l"] n that(2)
    by (simp add: lookup_ok_keys automatic_def)
  show ?thesis
  proof (cases "map_of (lk_indexers l) pk")
    case None
    then show ?thesis using step by (simp add: AddIndexer_def addIndexerLocked_def)
  next
    case (Some info)
    then show ?thesis using step known_key [OF k Some] by (simp add: AddIndexer_def addIndexerLocked_def)
  qed
qed

lemma remove_ok:
  assumes "lookup_ok l"
  shows "lookup_ok (RemoveIndexer pk l)"
proof -
  have "length (filter P (AList.delete pk al)) \<le> length (filter P al)" for P and al :: "(bytes \<times> IndexerInfo) list"
    by (induction al) auto
  then have "length (automatic (RemoveIndexer pk l)) \<le> length (automatic l)" by (simp add: automatic_def RemoveIndexer_def)
  then show ?thesis using assms keys_ok_delete [of l pk] by (simp add: lookup_ok_keys RemoveIndexer_def)
qed

lemma indexer_step_ok: "lookup_ok l \<Longrightarrow> lookup_ok (indexer_step op l)"
  by (cases op) (simp_all add: add_auto_ok add_explicit_ok remove_ok)

lemma indexer_run_ok: "lookup_ok l \<Longrightarrow> lookup_ok (fold indexer_step ops l)"
  by (induction ops arbitrary: l) (simp_all add: indexer_step_ok)

lemma NewLookup_ok: "lookup_ok NewLookup"
  by (simp add: lookup_ok_def NewLookup_def automatic_def)

text \<open>Nothing but a removal takes an operator's entry away.\<close>

fun explicit_after :: "indexer_op \<Rightarrow> bytes set \<Rightarrow> bytes set" where
  "explicit_after (OpAdd now pk label) E = insert pk E"
| "explicit_after (OpSeen now pk) E = E"
| "explicit_after (OpRemove pk) E = E - {pk}"

lemma explicit_step: "lookup_ok l \<Longrightarrow> explicit (indexer_step op l) = explicit_after op (explicit l)"
proof (cases op)
  case (OpAdd now pk label)
  then show ?thesis by (auto simp: explicit_def AddIndexer_def addIndexerLocked_def split: option.split if_splits)
next
  case (OpRemove pk)
  then show ?thesis by (auto simp: explicit_def RemoveIndexer_def map_of_delete)
qed (simp add: explicit_seen)

lemma explicit_run: "lookup_ok l \<Longrightarrow> explicit (fold indexer_step ops l) = fold explicit_after ops (explicit l)"
  by (induction ops arbitrary: l) (simp_all add: indexer_step_ok explicit_step)

section \<open>Merged answers\<close>

definition returned_ihs :: "KeywordHit list \<Rightarrow> string set" where
  "returned_ihs hs = {hex_EncodeToString (kh_IH h) |h. h \<in> set hs \<and> length (kh_IH h) = 20}"

definition merge_src :: "merge_state \<Rightarrow> string \<Rightarrow> bytes list" where
  "merge_src s ih = (case map_of (ms_sources s) ih of None \<Rightarrow> [] | Some pks \<Rightarrow> pks)"

definition known_good :: "BloomFilter option \<Rightarrow> bytes \<Rightarrow> bool" where
  "known_good bloom ih = (case bloom of None \<Rightarrow> False | Some b \<Rightarrow> bloom_Test ih b = Some True)"

definition entry_ok :: "BloomFilter option \<Rightarrow> merge_state \<Rightarrow> string \<times> LookupHit \<Rightarrow> bool" where
  "entry_ok bloom s = (\<lambda>(ih, lh). lh_InfoHash lh = ih \<and> length (lh_Sources lh) = length (merge_src s ih) \<and>
     (\<exists>raw. ih = hex_EncodeToString raw \<and> lh_BloomHit lh = known_good bloom raw))"

definition merge_ok :: "BloomFilter option \<Rightarrow> merge_state \<Rightarrow> bool" where
  "merge_ok bloom s \<longleftrightarrow> map fst (ms_merged s) = map fst (ms_sources s) \<and> distinct (map fst (ms_merged s)) \<and>
     (\<forall>ih lh. map_of (ms_merged s) ih = Some lh \<longrightarrow> entry_ok bloom s (ih, lh)) \<and> (\<forall>ih. map_of (ms_sources s) ih \<noteq> Some [])"

definition bloom_usable :: "BloomFilter option \<Rightarrow> bool" where
  "bloom_usable bloom \<longleftrightarrow> (\<forall>b. bloom = Some b \<longrightarrow> bloom_ok b)"

lemma returned_ihs_simps [simp]:
  "returned_ihs [] = {}"
  "returned_ihs (h # hs) = (if length (kh_IH h) = 20 then insert (hex_EncodeToString (kh_IH h)) (returned_ihs hs) else returned_ihs hs)"
  by (auto simp: returned_ihs_def)

lemma bloom_Test_total: "bloom_ok b \<Longrightarrow> \<exists>r. bloom_Test x b = Some r"
  using bloom_Test_iff [of b x] indices_range [of b x] by blast

lemma bloom_usable_test:
  "bloom_usable bloom \<Longrightarrow> (case bloom of None \<Rightarrow> Some False | Some b \<Rightarrow> bloom_Test x b) = Some (known_good bloom x)"
proof (cases bloom)
  case (Some b)
  assume "bloom_usable bloom"
  then obtain r where "bloom_Test x b = Some r" using bloom_Test_total [of b x] Some by (auto simp: bloom_usable_def)
  then show ?thesis by (simp add: known_good_def Some)
qed (simp add: known_good_def)

lemma merged_hit_fields:
  "lh_InfoHash (merged_hit ih label h old) = (case old of None \<Rightarrow> ih | Some lh \<Rightarrow> lh_InfoHash lh)"
  "length (lh_Sources (merged_hit ih label h old)) = Suc (case old of None \<Rightarrow> 0 | Some lh \<Rightarrow> length (lh_Sources lh))"
  "lh_BloomHit (merged_hit ih label h old) = (case old of None \<Rightarrow> False | Some lh \<Rightarrow> lh_BloomHit lh)"
  by (simp_all add: merged_hit_def split: option.split)

lemma same_keys: "map fst xs = map fst ys \<Longrightarrow> map_of xs k = None \<longleftrightarrow> map_of ys k = None"
  by (metis map_of_eq_None_iff list.set_map)

lemma merge_one_fresh:
  assumes ok: "merge_ok bloom s" and b: "bloom_usable bloom" and len: "length (kh_IH h) = 20" and new: "hex_EncodeToString (kh_IH h) \<notin> set (ms_seen s)"
  shows "\<exists>s'. merge_one bloom info label h s = Some s' \<and> merge_ok bloom s' \<and> ms_seen s' = hex_EncodeToString (kh_IH h) # ms_seen s \<and>
    (\<forall>ih. merge_src s' ih = merge_src s ih @ (if ih = hex_EncodeToString (kh_IH h) then [ii_PubKey info] else []))"
proof -
  let ?ih = "hex_EncodeToString (kh_IH h)"
  define lh where "lh = merged_hit ?ih label h (map_of (ms_merged s) ?ih)"
  define lh' where "lh' = (if known_good bloom (kh_IH h) then lh\<lparr>lh_BloomHit := True\<rparr> else lh)"
  define s' where "s' = s\<lparr>ms_seen := ?ih # ms_seen s, ms_merged := AList.update ?ih lh' (ms_merged s),
    ms_sources := AList.update ?ih (merge_src s ?ih @ [ii_PubKey info]) (ms_sources s)\<rparr>"
  have run: "merge_one bloom info label h s = Some s'"
    using len new bloom_usable_test [OF b, of "kh_IH h"] by (simp add: merge_one_def s'_def lh'_def lh_def merge_src_def Let_def)
  have src: "merge_src s' ih = merge_src s ih @ (if ih = ?ih then [ii_PubKey info] else [])" for ih
    by (simp add: merge_src_def s'_def)
  have keys: "map_of (ms_merged s) ?ih = None \<longleftrightarrow> map_of (ms_sources s) ?ih = None" using ok by (intro same_keys) (simp add: merge_ok_def)
  have old: "entry_ok bloom s (ih, l)" if "map_of (ms_merged s) ih = Some l" for ih l using ok that unfolding merge_ok_def by blast
  have "entry_ok bloom s' (?ih, lh')"
  proof (cases "map_of (ms_merged s) ?ih")
    case None
    then have "merge_src s ?ih = []" using keys by (simp add: merge_src_def)
    then show ?thesis using src None by (auto simp: entry_ok_def lh'_def lh_def merged_hit_fields)
  next
    case (Some l)
    from old [OF Some] show ?thesis using src Some by (auto simp: entry_ok_def lh'_def lh_def merged_hit_fields)
  qed
  moreover have "entry_ok bloom s' (ih, l)" if "ih \<noteq> ?ih" "map_of (ms_merged s) ih = Some l" for ih l
    using old [OF that(2)] that(1) src by (simp add: entry_ok_def)
  ultimately have entries: "entry_ok bloom s' (ih, l)" if "map_of (ms_merged s') ih = Some l" for ih l
    using that by (auto simp: s'_def split: if_splits)
  have same: "map fst (ms_merged s) = map fst (ms_sources s)" and dist: "distinct (map fst (ms_merged s))"
    and ne: "map_of (ms_sources s) ih \<noteq> Some []" for ih using ok unfolding merge_ok_def by blast+
  have k: "map fst (ms_merged s') = map fst (ms_sources s')" unfolding s'_def by (simp add: update_keys same del: list.set_map)
  have d: "distinct (map fst (ms_merged s'))" unfolding s'_def using dist by (simp add: distinct_update)
  have n: "map_of (ms_sources s') ih \<noteq> Some []" for ih using ne [of ih] by (simp add: s'_def)
  have "merge_ok bloom s'" unfolding merge_ok_def using k d n entries by blast
  moreover have "ms_seen s' = ?ih # ms_seen s" by (simp add: s'_def)
  ultimately show ?thesis using run src by blast
qed

lemma merge_hits_spec:
  assumes "merge_ok bloom s" and "bloom_usable bloom"
  shows "\<exists>s'. merge_hits bloom info label hs s = Some s' \<and> merge_ok bloom s' \<and>
    (\<forall>ih. merge_src s' ih = merge_src s ih @ (if ih \<in> returned_ihs hs - set (ms_seen s) then [ii_PubKey info] else []))"
  using assms(1)
proof (induction hs arbitrary: s)
  case (Cons h hs)
  show ?case
  proof (cases "length (kh_IH h) = 20 \<and> hex_EncodeToString (kh_IH h) \<notin> set (ms_seen s)")
    case False
    then have skip: "merge_one bloom info label h s = Some s" by (auto simp: merge_one_def Let_def)
    have "ih \<in> returned_ihs (h # hs) - set (ms_seen s) \<longleftrightarrow> ih \<in> returned_ihs hs - set (ms_seen s)" for ih using False by auto
    then show ?thesis using Cons.IH [OF Cons.prems] skip by (simp del: returned_ihs_simps)
  next
    case True
    then obtain s1 where s1: "merge_one bloom info label h s = Some s1" "merge_ok bloom s1" "ms_seen s1 = hex_EncodeToString (kh_IH h) # ms_seen s"
      "\<forall>ih. merge_src s1 ih = merge_src s ih @ (if ih = hex_EncodeToString (kh_IH h) then [ii_PubKey info] else [])"
      using merge_one_fresh [OF Cons.prems assms(2)] by blast
    obtain s' where s': "merge_hits bloom info label hs s1 = Some s'" "merge_ok bloom s'"
      "\<forall>ih. merge_src s' ih = merge_src s1 ih @ (if ih \<in> returned_ihs hs - set (ms_seen s1) then [ii_PubKey info] else [])"
      using Cons.IH [OF s1(2)] by blast
    have "merge_src s' ih = merge_src s ih @ (if ih \<in> returned_ihs (h # hs) - set (ms_seen s) then [ii_PubKey info] else [])" for ih
      using True s1(3,4) s'(3) by auto
    then show ?thesis using s1(1) s'(1,2) by simp
  qed
qed simp

lemma merge_answers_spec:
  assumes "merge_ok bloom s" and "bloom_usable bloom"
  shows "\<exists>s'. merge_answers bloom rs s = Some s' \<and> merge_ok bloom s' \<and>
    (\<forall>ih. merge_src s' ih = merge_src s ih @ map (ii_PubKey \<circ> fst) (filter (\<lambda>(i, hs). ih \<in> returned_ihs hs) rs))"
  using assms(1)
proof (induction rs arbitrary: s)
  case (Cons r rs)
  obtain info hs where r: "r = (info, hs)" by force
  let ?s = "s\<lparr>ms_seen := []\<rparr>"
  have same: "merge_src ?s = merge_src s" by (simp add: merge_src_def fun_eq_iff)
  have "merge_ok bloom ?s" using Cons.prems same by (auto simp: merge_ok_def entry_ok_def)
  then obtain s1 where s1: "merge_hits bloom info (source_label info) hs ?s = Some s1" "merge_ok bloom s1"
    "\<forall>ih. merge_src s1 ih = merge_src ?s ih @ (if ih \<in> returned_ihs hs - set (ms_seen ?s) then [ii_PubKey info] else [])"
    using merge_hits_spec [OF _ assms(2)] by blast
  obtain s' where s': "merge_answers bloom rs s1 = Some s'" "merge_ok bloom s'"
    "\<forall>ih. merge_src s' ih = merge_src s1 ih @ map (ii_PubKey \<circ> fst) (filter (\<lambda>(i, hs). ih \<in> returned_ihs hs) rs)"
    using Cons.IH [OF s1(2)] by blast
  have "merge_src s' ih = merge_src s ih @ map (ii_PubKey \<circ> fst) (filter (\<lambda>(i, hs). ih \<in> returned_ihs hs) (r # rs))" for ih
    using s1(3) s'(3) same by (simp add: r)
  then show ?case using s1(1) s'(1,2) by (simp add: r)
qed simp

section \<open>A query\<close>

definition attached_tracker :: "Lookup \<Rightarrow> RepEngine \<Rightarrow> Tracker option" where
  "attached_tracker l e = (if lk_tracker l then e_tracker e else None)"

definition attached_bloom :: "Lookup \<Rightarrow> RepEngine \<Rightarrow> BloomFilter option" where
  "attached_bloom l e = (if lk_bloom l then e_bloom e else None)"

text \<open>The keys of the indexers a query asks, and of those among them that report an infohash.\<close>

definition queried :: "int \<Rightarrow> Lookup \<Rightarrow> RepEngine \<Rightarrow> bytes set" where
  "queried now l e = {pk \<in> fst ` set (lk_indexers l).
     \<forall>t. attached_tracker l e = Some t \<and> lk_minScore l > 0 \<longrightarrow> Threshold now t (PubKey pk) (lk_minScore l)}"

definition reporters :: "(bytes \<Rightarrow> dht_error + KeywordHit list) \<Rightarrow> bytes set \<Rightarrow> string \<Rightarrow> bytes set" where
  "reporters backend A ih = {pk \<in> A. \<exists>hs. backend pk = Inr hs \<and> ih \<in> returned_ihs hs}"

lemma Indexers_keys: "keys_ok l \<Longrightarrow> map ii_PubKey (Indexers l) = map fst (lk_indexers l)"
  by (auto simp: Indexers_def keys_ok_def)

lemma asked_filter:
  "asked now l t = filter (\<lambda>i. \<forall>t'. t = Some t' \<and> lk_minScore l > 0 \<longrightarrow> Threshold now t' (PubKey (ii_PubKey i)) (lk_minScore l)) (Indexers l)"
  by (auto simp: asked_def split: option.split)

lemma asked_keys:
  assumes "keys_ok l"
  shows "distinct (map ii_PubKey (asked now l (attached_tracker l e)))" and "ii_PubKey ` set (asked now l (attached_tracker l e)) = queried now l e"
proof -
  have "distinct (map ii_PubKey (Indexers l))" using assms by (simp add: Indexers_keys) (simp add: keys_ok_def)
  then show "distinct (map ii_PubKey (asked now l (attached_tracker l e)))" unfolding asked_filter by (rule distinct_map_filter)
  have "fst ` set (lk_indexers l) = ii_PubKey ` set (Indexers l)" using Indexers_keys [OF assms] by (metis list.set_map)
  then show "ii_PubKey ` set (asked now l (attached_tracker l e)) = queried now l e"
    unfolding asked_filter queried_def by auto
qed

lemma answers_pks:
  "map (ii_PubKey \<circ> fst) (filter (\<lambda>(i, hs). Q hs) (answers_of backend is)) =
   map ii_PubKey (filter (\<lambda>i. \<exists>hs. backend (ii_PubKey i) = Inr hs \<and> Q hs) is)"
  by (induction "is") (auto simp: answers_of_def split: sum.split)

lemma reporters_list:
  assumes "distinct (map ii_PubKey is)" and "ii_PubKey ` set is = A"
  shows "distinct (map (ii_PubKey \<circ> fst) (filter (\<lambda>(i, hs). ih \<in> returned_ihs hs) (answers_of backend is)))"
    and "set (map (ii_PubKey \<circ> fst) (filter (\<lambda>(i, hs). ih \<in> returned_ihs hs) (answers_of backend is))) = reporters backend A ih"
  unfolding answers_pks using assms by (auto simp: reporters_def distinct_map_filter)

text \<open>What a query with a keyword returns, and what it leaves behind.\<close>

definition response_of :: "int \<Rightarrow> Lookup \<Rightarrow> RepEngine \<Rightarrow> merge_state \<Rightarrow> (IndexerInfo \<times> KeywordHit list) list \<Rightarrow> LookupResponse" where
  "response_of now l e s answers = \<lparr>IndexersAsked = card (queried now l e), IndexersResponded = length answers,
     lr_Hits = sort_key hit_rank (map (\<lambda>(ih, lh). lh\<lparr>lh_Score := scoreLookupHit now lh (merge_src s ih)
       (map_option (note_answers now answers) (attached_tracker l e))\<rparr>) (ms_merged s))\<rparr>"

definition engine_after :: "int \<Rightarrow> Lookup \<Rightarrow> RepEngine \<Rightarrow> merge_state \<Rightarrow> (IndexerInfo \<times> KeywordHit list) list \<Rightarrow> RepEngine" where
  "engine_after now l e s answers =
     e\<lparr>e_tracker := (case attached_tracker l e of None \<Rightarrow> e_tracker e | Some t \<Rightarrow> Some (note_answers now answers t)),
       e_sources := (if lk_sources l then fold (\<lambda>(ih, pks). RecordMany ih (map PubKey pks)) (ms_sources s) (e_sources e) else e_sources e)\<rparr>"

lemma Query_result:
  assumes "lookup_ok l" and "\<forall>xs. mset (arrive xs) = mset xs" and "bloom_usable (attached_bloom l e)"
    and "MostDistinctive (Tokenize U query) = kw" and "kw \<noteq> []"
  obtains s answers where
    "Query U now backend arrive query l e = Some (Inr (response_of now l e s answers), engine_after now l e s answers)"
    and "merge_ok (attached_bloom l e) s"
    and "\<And>ih. distinct (merge_src s ih) \<and> set (merge_src s ih) = reporters (\<lambda>pk. backend pk kw) (queried now l e) ih"
    and "length answers = card {pk \<in> queried now l e. \<exists>hs. backend pk kw = Inr hs}"
proof -
  let ?t = "attached_tracker l e" and ?b = "attached_bloom l e" and ?s0 = "\<lparr>ms_merged = [], ms_sources = [], ms_seen = []\<rparr>"
  have k: "keys_ok l" using assms(1) by (simp add: lookup_ok_keys)
  define xs where "xs = asked now l ?t"
  define answers where "answers = answers_of (\<lambda>pk. backend pk kw) (arrive xs)"
  have perm: "mset (arrive xs) = mset xs" using assms(2) by blast
  have "mset (map ii_PubKey (arrive xs)) = mset (map ii_PubKey xs)" using perm by simp
  then have d: "distinct (map ii_PubKey (arrive xs))" using mset_eq_imp_distinct_iff asked_keys(1) [OF k, of now e] unfolding xs_def by blast
  have A: "ii_PubKey ` set (arrive xs) = queried now l e"
    using asked_keys(2) [OF k, of now e] mset_eq_setD [OF perm] by (simp add: xs_def)
  have n: "length xs = card (queried now l e)"
    using asked_keys [OF k, of now e] by (metis xs_def distinct_card length_map list.set_map)
  have "merge_ok ?b ?s0" by (simp add: merge_ok_def)
  then obtain s where s: "merge_answers ?b answers ?s0 = Some s" "merge_ok ?b s"
    "\<forall>ih. merge_src s ih = merge_src ?s0 ih @ map (ii_PubKey \<circ> fst) (filter (\<lambda>(i, hs). ih \<in> returned_ihs hs) answers)"
    using merge_answers_spec [OF _ assms(3)] by blast
  have src: "merge_src s ih = map (ii_PubKey \<circ> fst) (filter (\<lambda>(i, hs). ih \<in> returned_ihs hs) answers)" for ih
    using s(3) by (simp add: merge_src_def)
  have rep: "distinct (merge_src s ih) \<and> set (merge_src s ih) = reporters (\<lambda>pk. backend pk kw) (queried now l e) ih" for ih
    using reporters_list [OF d A] unfolding src answers_def by blast
  have "map (ii_PubKey \<circ> fst) answers = map ii_PubKey (filter (\<lambda>i. \<exists>hs. backend (ii_PubKey i) kw = Inr hs) (arrive xs))"
    using answers_pks [of "\<lambda>_. True"] by (simp add: answers_def)
  then have "length answers = card (set (map ii_PubKey (filter (\<lambda>i. \<exists>hs. backend (ii_PubKey i) kw = Inr hs) (arrive xs))))"
    using d by (metis distinct_card distinct_map_filter length_map)
  also have "set (map ii_PubKey (filter (\<lambda>i. \<exists>hs. backend (ii_PubKey i) kw = Inr hs) (arrive xs))) = {pk \<in> queried now l e. \<exists>hs. backend pk kw = Inr hs}"
    unfolding A [symmetric] by auto
  finally have resp: "length answers = card {pk \<in> queried now l e. \<exists>hs. backend pk kw = Inr hs}" .
  have query: "Query U now backend arrive query l e = Some (Inr (response_of now l e s answers), engine_after now l e s answers)"
  proof (cases "xs = []")
    case True
    then have e: "arrive xs = []" using perm by simp
    then have "answers = []" by (simp add: answers_def answers_of_def)
    moreover from this have "s = ?s0" using s(1) by simp
    ultimately show ?thesis using True n assms(4,5) by (simp add: Query_def Let_def xs_def [unfolded attached_tracker_def, symmetric] attached_tracker_def note_answers_def response_of_def engine_after_def split: option.split)
  next
    case False
    then show ?thesis using n s(1) assms(4,5)
      by (simp add: Query_def Let_def xs_def attached_tracker_def attached_bloom_def answers_def merge_src_def response_of_def engine_after_def split: option.split)
  qed
  show thesis by (rule that [of s answers]) (rule query s(2) rep resp)+
qed

lemma score_lookup_range: "0 \<le> scoreLookupHit now lh ss t \<and> scoreLookupHit now lh ss t \<le> 1"
  by (auto simp: scoreLookupHit_def Let_def)

section \<open>Blame\<close>

text \<open>Recording adds to what an infohash is attributed to, and attributes nothing else.\<close>

definition pubs_of :: "SourceTracker \<Rightarrow> string \<Rightarrow> Reputation.PubKeyHex set" where
  "pubs_of s k = (case map_of (st_order s) k of None \<Rightarrow> {} | Some pubs \<Rightarrow> set pubs)"

lemma map_of_take: "map_of (take n xs) k = Some v \<Longrightarrow> map_of xs k = Some v"
  by (induction xs arbitrary: n) (auto simp: take_Cons split: nat.splits if_splits)

lemma pubs_Record:
  assumes "sources_ok s"
  shows "pubs_of (Record ih pk s) k \<subseteq> pubs_of s k \<union> (if k = ToLower ih then {pk} else {})"
proof (cases "ih = [] \<or> pk = [] \<or> map_of (st_order s) (ToLower ih) \<noteq> None")
  case True
  then show ?thesis by (auto simp: Record_def pubs_of_def Let_def move_to_front_def map_of_filter_key split: option.splits)
next
  case False
  let ?new = "(ToLower ih, [pk]) # st_order s"
  have R: "Record ih pk s = s\<lparr>st_order := take (nat (st_capacity s)) ?new\<rparr>"
    using False assms evict_back_take [of "st_capacity s" ?new] by (simp add: Record_def Let_def sources_ok_def)
  show ?thesis
  proof (cases "map_of (take (nat (st_capacity s)) ?new) k")
    case (Some v)
    then have "map_of ?new k = Some v" by (rule map_of_take)
    then show ?thesis using R Some by (auto simp: pubs_of_def split: if_splits)
  qed (simp add: R pubs_of_def)
qed

lemma pubs_RecordMany:
  assumes "sources_ok s"
  shows "sources_ok (RecordMany ih pks s) \<and> pubs_of (RecordMany ih pks s) k \<subseteq> pubs_of s k \<union> (if k = ToLower ih then set pks else {})"
  using assms
proof (induction pks arbitrary: s)
  case (Cons pk pks)
  from Cons.IH [OF Record_ok [OF Cons.prems]] pubs_Record [OF Cons.prems, of ih pk k]
  show ?case by (fastforce simp: RecordMany_def split: if_splits)
qed (simp add: RecordMany_def)

lemma pubs_record_table:
  assumes "sources_ok s"
  shows "sources_ok (fold (\<lambda>(ih, pks). RecordMany ih (map PubKey pks)) tbl s) \<and>
    pubs_of (fold (\<lambda>(ih, pks). RecordMany ih (map PubKey pks)) tbl s) k \<subseteq> pubs_of s k \<union> {PubKey pk |ih pks pk. (ih, pks) \<in> set tbl \<and> ToLower ih = k \<and> pk \<in> set pks}"
  using assms
proof (induction tbl arbitrary: s)
  case (Cons x tbl)
  obtain ih pks where x: "x = (ih, pks)" by force
  note one = pubs_RecordMany [OF Cons.prems, of ih "map PubKey pks" k]
  from Cons.IH [OF conjunct1 [OF one]] one show ?case unfolding x by (auto split: if_splits) blast+
qed simp

text \<open>A session of searches and of the user's verdicts on what they found.\<close>

record search =
  q_clock :: int
  q_backend :: "bytes \<Rightarrow> bytes \<Rightarrow> dht_error + KeywordHit list"
  q_arrive :: "IndexerInfo list \<Rightarrow> IndexerInfo list"
  q_text :: bytes
  q_lookup :: Lookup

datatype verdict_op = OpQuery search | OpConfirm ckpt_env string | OpFlag ckpt_env string

fun verdict_step :: "unicode \<Rightarrow> verdict_op \<Rightarrow> RepEngine \<Rightarrow> RepEngine option" where
  "verdict_step U (OpQuery q) e = map_option snd (Query U (q_clock q) (q_backend q) (q_arrive q) (q_text q) (q_lookup q) e)"
| "verdict_step U (OpConfirm env ihHex) e = map_option snd (daemon_Confirm env ihHex e)"
| "verdict_step U (OpFlag env ihHex) e = Some (snd (daemon_Flag env ihHex e))"

fun verdict_run :: "unicode \<Rightarrow> verdict_op list \<Rightarrow> RepEngine \<Rightarrow> RepEngine option" where
  "verdict_run U [] e = Some e"
| "verdict_run U (op # ops) e = (case verdict_step U op e of None \<Rightarrow> None | Some e \<Rightarrow> verdict_run U ops e)"

text \<open>That an indexer, known by its key in hex, answered a search with an infohash.\<close>

definition gave :: "unicode \<Rightarrow> verdict_op \<Rightarrow> string \<Rightarrow> Reputation.PubKeyHex \<Rightarrow> bool" where
  "gave U op ih q = (case op of
     OpQuery s \<Rightarrow> \<exists>pk hs. q = PubKey pk \<and> q_backend s pk (MostDistinctive (Tokenize U (q_text s))) = Inr hs \<and> ih \<in> returned_ihs hs
   | _ \<Rightarrow> False)"

fun verdict_ok :: "verdict_op \<Rightarrow> bool" where
  "verdict_ok (OpQuery s) \<longleftrightarrow> lookup_ok (q_lookup s) \<and> (\<forall>xs. mset (q_arrive s xs) = mset xs)"
| "verdict_ok _ \<longleftrightarrow> True"

definition eng_ok :: "RepEngine \<Rightarrow> bool" where
  "eng_ok e \<longleftrightarrow> sources_ok (e_sources e) \<and> bloom_usable (e_bloom e)"

lemma pubs_Sources: "pubs_of (snd (Sources ih s)) k = pubs_of s k"
  by (auto simp: Sources_def pubs_of_def Let_def move_to_front_def map_of_filter_key split: option.split)

lemma pubs_Forget: "pubs_of (Forget ih s) k \<subseteq> pubs_of s k"
  by (auto simp: Forget_def pubs_of_def Let_def map_of_filter_key split: option.split)

lemma attributed_pubs: "ih \<noteq> [] \<Longrightarrow> set (attributed e ih) = pubs_of (e_sources e) (ToLower ih)"
  by (simp add: attributed_def Sources_def pubs_of_def Let_def split: option.split)

lemma attributed_empty: "attributed e [] = []"
  by (simp add: attributed_def Sources_def)

lemma flag_table:
  "e_sources (snd (daemon_Flag env ihHex e)) \<in> {e_sources e, snd (Sources ihHex (e_sources e)), Forget ihHex (snd (Sources ihHex (e_sources e)))}"
  by (auto simp: daemon_Flag_def FlagHit_def Let_def split: sum.split option.split prod.splits)

lemma flag_keeps: "e_bloom (snd (daemon_Flag env ihHex e)) = e_bloom e" "e_trust (snd (daemon_Flag env ihHex e)) = e_trust e"
  by (auto simp: daemon_Flag_def FlagHit_def Let_def split: sum.split option.split prod.splits)

lemma tally_returned: "flagged (tally_of (RecordReturned now pk n t) q) = flagged (tally_of t q)"
  by (auto simp: tally_of_def RecordReturned_def put_record_def touch_def Let_def split: option.split)

lemma note_answers_flags: "flagged (tally_of (note_answers now answers t) q) = flagged (tally_of t q)"
  unfolding note_answers_def by (induction answers arbitrary: t) (auto simp: tally_returned)

definition flags_on :: "RepEngine \<Rightarrow> Reputation.PubKeyHex \<Rightarrow> int" where
  "flags_on e q = (case e_tracker e of None \<Rightarrow> 0 | Some t \<Rightarrow> flagged (tally_of t q))"

text \<open>One step: what it may attribute, whom it may flag, what it leaves alone.\<close>

definition step_spec :: "unicode \<Rightarrow> verdict_op \<Rightarrow> RepEngine \<Rightarrow> RepEngine \<Rightarrow> bool" where
  "step_spec U op e e' \<longleftrightarrow> eng_ok e' \<and> e_trust e' = e_trust e \<and>
     (\<forall>k. pubs_of (e_sources e') k \<subseteq> pubs_of (e_sources e) k \<union> {q. gave U op k q}) \<and>
     (\<forall>q. flags_on e' q = flags_on e q + one_if (\<exists>env ih. op = OpFlag env ih \<and> q \<in> set (demotable e ih) \<and> e_tracker e \<noteq> None))"

lemma step_spec_same: "eng_ok e \<Longrightarrow> (\<And>env ih. op \<noteq> OpFlag env ih) \<Longrightarrow> step_spec U op e e"
  by (simp add: step_spec_def one_if_def)

lemma step_specI:
  assumes "eng_ok e'" and "e_trust e' = e_trust e" and "\<And>k. pubs_of (e_sources e') k \<subseteq> pubs_of (e_sources e) k \<union> {q. gave U op k q}"
    and "\<And>q. flags_on e' q = flags_on e q" and "\<And>env ih. op \<noteq> OpFlag env ih"
  shows "step_spec U op e e'"
  using assms by (simp add: step_spec_def one_if_def)

lemma confirm_step:
  assumes "eng_ok e"
  shows "\<exists>e'. verdict_step U (OpConfirm env ihHex) e = Some e' \<and> step_spec U (OpConfirm env ihHex) e e'"
proof (cases "e_bloom e = None \<or> decodeInfohash ihHex = Inl ErrBadInfohash")
  case True
  then have "verdict_step U (OpConfirm env ihHex) e = Some e"
    using decode_cases [of ihHex] by (auto simp: daemon_Confirm_def ConfirmHit_def)
  then show ?thesis using step_spec_same [OF assms, of "OpConfirm env ihHex" U] by blast
next
  case False
  then obtain b ih where b: "e_bloom e = Some b" and ih: "decodeInfohash ihHex = Inr ih" using decode_cases [of ihHex] by auto
  then have "bloom_ok b" using assms by (simp add: eng_ok_def bloom_usable_def)
  then obtain b' where b': "bloom_Add ih b = Some b'" "bloom_ok b'" using bloom_Add_ok by blast
  obtain n e1 where e1: "daemon_Confirm env ihHex e = Some (Inr (ihHex, n), Checkpoint env e1)" "e_bloom e1 = Some b'" "e_trust e1 = e_trust e"
    "e_sources e1 = (if e_tracker e = None then e_sources e else snd (Sources ihHex (e_sources e)))"
    "e_tracker e1 = map_option (RecordConfirmed (c_now env) (attributed e ihHex)) (e_tracker e)"
    using confirm_cases [OF b b'(1) ih, of env] by blast
  have "sources_ok (e_sources e)" using assms by (simp add: eng_ok_def)
  moreover from this have "distinct (attributed e ihHex)" by (simp add: attributed_def Sources_distinct)
  ultimately have "step_spec U (OpConfirm env ihHex) e (Checkpoint env e1)"
    using e1(2-5) b'(2) Sources_ok [of "e_sources e" ihHex]
    by (intro step_specI) (simp_all add: eng_ok_def bloom_usable_def pubs_Sources flags_on_def tally_confirmed split: option.split)
  then show ?thesis using e1(1) by simp
qed

lemma flag_step:
  assumes "eng_ok e"
  shows "step_spec U (OpFlag env ihHex) e (snd (daemon_Flag env ihHex e))"
proof -
  let ?e = "snd (daemon_Flag env ihHex e)"
  have ok: "sources_ok (e_sources e)" using assms by (simp add: eng_ok_def)
  have pubs: "pubs_of (e_sources ?e) k \<subseteq> pubs_of (e_sources e) k" for k
    using flag_table [of env ihHex e] pubs_Forget [of ihHex "snd (Sources ihHex (e_sources e))" k] by (auto simp: pubs_Sources)
  have ok': "sources_ok (e_sources ?e)" using flag_table [of env ihHex e] ok Sources_ok [OF ok, of ihHex] Forget_ok [of "snd (Sources ihHex (e_sources e))" ihHex] by auto
  have flags: "flags_on ?e q = flags_on e q + one_if (q \<in> set (demotable e ihHex) \<and> e_tracker e \<noteq> None)" for q
  proof (cases "e_tracker e")
    case None
    then have "e_tracker ?e = None" by (auto simp: daemon_Flag_def FlagHit_def split: sum.split)
    then show ?thesis by (simp add: None flags_on_def one_if_def)
  next
    case (Some t)
    then show ?thesis using flag_tally [OF Some ok, of env ihHex] by (auto simp: flags_on_def)
  qed
  show ?thesis unfolding step_spec_def using pubs ok' flags flag_keeps [of env ihHex e] assms by (auto simp: eng_ok_def)
qed

lemma query_step:
  assumes "eng_ok e" and "lookup_ok l" and "\<forall>xs. mset (arrive xs) = mset xs"
    and op: "op = OpQuery \<lparr>q_clock = now, q_backend = backend, q_arrive = arrive, q_text = query, q_lookup = l\<rparr>"
  shows "\<exists>r e'. Query U now backend arrive query l e = Some (r, e') \<and> step_spec U op e e'"
proof (cases "MostDistinctive (Tokenize U query) = []")
  case True
  then show ?thesis using step_spec_same [OF assms(1), of op U] op by (simp add: Query_def)
next
  case False
  let ?kw = "MostDistinctive (Tokenize U query)"
  have ok: "sources_ok (e_sources e)" and bl: "bloom_usable (attached_bloom l e)" "bloom_usable (e_bloom e)"
    using assms(1) by (simp_all add: eng_ok_def attached_bloom_def) (simp add: bloom_usable_def)
  obtain s answers where q: "Query U now backend arrive query l e = Some (Inr (response_of now l e s answers), engine_after now l e s answers)"
    and m: "merge_ok (attached_bloom l e) s"
    and rep: "\<And>ih. distinct (merge_src s ih) \<and> set (merge_src s ih) = reporters (\<lambda>pk. backend pk ?kw) (queried now l e) ih"
    using that by (rule Query_result [OF assms(2,3) bl(1) refl False, of now backend])
  let ?e = "engine_after now l e s answers"
  have flags: "flags_on ?e q = flags_on e q" for q
    by (simp add: flags_on_def engine_after_def attached_tracker_def note_answers_flags split: option.split)
  have given: "gave U op k (PubKey pk)" if "(ih, pks) \<in> set (ms_sources s)" "ToLower ih = k" "pk \<in> set pks" for ih pks k pk
  proof -
    have d: "distinct (map fst (ms_sources s))" and same: "map fst (ms_merged s) = map fst (ms_sources s)" using m unfolding merge_ok_def by metis+
    have "merge_src s ih = pks" using d that(1) by (simp add: merge_src_def)
    then have pk: "pk \<in> reporters (\<lambda>pk. backend pk ?kw) (queried now l e) ih" using rep [of ih] that(3) by simp
    then obtain hs where "backend pk ?kw = Inr hs" "ih \<in> returned_ihs hs" by (auto simp: reporters_def)
    moreover from this(2) have "k = ih" using that(2) by (auto simp: returned_ihs_def)
    ultimately show ?thesis by (auto simp: gave_def op)
  qed
  have pubs: "pubs_of (e_sources ?e) k \<subseteq> pubs_of (e_sources e) k \<union> {q. gave U op k q}" for k
  proof (cases "lk_sources l")
    case True
    have "{PubKey pk |ih pks pk. (ih, pks) \<in> set (ms_sources s) \<and> ToLower ih = k \<and> pk \<in> set pks} \<subseteq> {q. gave U op k q}" using given by blast
    then show ?thesis using conjunct2 [OF pubs_record_table [OF ok, of "ms_sources s" k]] True by (simp add: engine_after_def) blast
  qed (simp add: engine_after_def)
  have "eng_ok ?e" using conjunct1 [OF pubs_record_table [OF ok, of "ms_sources s"]] ok bl(2) by (simp add: eng_ok_def engine_after_def)
  then have "step_spec U op e ?e" using pubs flags by (intro step_specI) (simp_all add: op engine_after_def)
  then show ?thesis using q by blast
qed

lemma verdict_step_spec:
  assumes "eng_ok e" and "verdict_ok op"
  shows "\<exists>e'. verdict_step U op e = Some e' \<and> step_spec U op e e'"
proof (cases op)
  case (OpQuery q)
  then have "op = OpQuery \<lparr>q_clock = q_clock q, q_backend = q_backend q, q_arrive = q_arrive q, q_text = q_text q, q_lookup = q_lookup q\<rparr>" by simp
  from query_step [OF assms(1) _ _ this, of U] show ?thesis using assms(2) by (auto simp: OpQuery)
next
  case (OpConfirm env ih)
  then show ?thesis using confirm_step [OF assms(1)] by simp
next
  case (OpFlag env ih)
  then show ?thesis using flag_step [OF assms(1)] by simp
qed

lemma exempt_trust: "e_trust e' = e_trust e \<Longrightarrow> exempt e' q = exempt e q"
  by (simp add: exempt_def)

text \<open>Every flag on an indexer follows from an answer of its own: either one given earlier or one already on record.\<close>

lemma blame_run:
  assumes "eng_ok e" and "list_all verdict_ok ops"
  shows "\<exists>e'. verdict_run U ops e = Some e' \<and> (exempt e q \<longrightarrow> flags_on e' q = flags_on e q) \<and>
    (flags_on e' q > flags_on e q \<longrightarrow> (\<exists>ops1 env ih ops2. ops = ops1 @ OpFlag env ih # ops2 \<and> ih \<noteq> [] \<and>
       (q \<in> pubs_of (e_sources e) (ToLower ih) \<or> (\<exists>op \<in> set ops1. gave U op (ToLower ih) q))))"
  using assms
proof (induction ops arbitrary: e)
  case (Cons op ops)
  obtain e1 where e1: "verdict_step U op e = Some e1" "step_spec U op e e1" using verdict_step_spec Cons.prems by fastforce
  then have ok: "eng_ok e1" and tr: "e_trust e1 = e_trust e" and pubs: "\<And>k. pubs_of (e_sources e1) k \<subseteq> pubs_of (e_sources e) k \<union> {q. gave U op k q}"
    and fl: "flags_on e1 q = flags_on e q + one_if (\<exists>env ih. op = OpFlag env ih \<and> q \<in> set (demotable e ih) \<and> e_tracker e \<noteq> None)"
    unfolding step_spec_def by blast+
  have oks: "list_all verdict_ok ops" using Cons.prems(2) by simp
  obtain e' where e': "verdict_run U ops e1 = Some e'" "exempt e1 q \<longrightarrow> flags_on e' q = flags_on e1 q"
    "flags_on e' q > flags_on e1 q \<longrightarrow> (\<exists>ops1 env ih ops2. ops = ops1 @ OpFlag env ih # ops2 \<and> ih \<noteq> [] \<and>
       (q \<in> pubs_of (e_sources e1) (ToLower ih) \<or> (\<exists>op \<in> set ops1. gave U op (ToLower ih) q)))" using Cons.IH [OF ok oks] by blast
  have run: "verdict_run U (op # ops) e = Some e'" using e1(1) e'(1) by simp
  show ?case
  proof (intro exI [of _ e'] conjI impI)
    show "verdict_run U (op # ops) e = Some e'" by (rule run)
    assume x: "exempt e q"
    then have "q \<notin> set (demotable e ih)" for ih by (simp add: demotable_def)
    then show "flags_on e' q = flags_on e q" using fl e'(2) x exempt_trust [OF tr, of q] by (simp add: one_if_def)
  next
    assume more: "flags_on e' q > flags_on e q"
    show "\<exists>ops1 env ih ops2. op # ops = ops1 @ OpFlag env ih # ops2 \<and> ih \<noteq> [] \<and>
       (q \<in> pubs_of (e_sources e) (ToLower ih) \<or> (\<exists>op \<in> set ops1. gave U op (ToLower ih) q))"
    proof (cases "flags_on e' q > flags_on e1 q")
      case True
      then obtain ops1 env ih ops2 where o: "ops = ops1 @ OpFlag env ih # ops2" "ih \<noteq> []"
        "q \<in> pubs_of (e_sources e1) (ToLower ih) \<or> (\<exists>op \<in> set ops1. gave U op (ToLower ih) q)" using e'(3) by blast
      then show ?thesis using pubs [of "ToLower ih"]
        by (intro exI [of _ "op # ops1"] exI [of _ env] exI [of _ ih] exI [of _ ops2]) auto
    next
      case False
      then have "\<exists>env ih. op = OpFlag env ih \<and> q \<in> set (demotable e ih) \<and> e_tracker e \<noteq> None" using more fl by (auto simp: one_if_def split: if_splits)
      then obtain env ih where op: "op = OpFlag env ih" "q \<in> set (demotable e ih)" by blast
      then have q: "q \<in> set (attributed e ih)" by (auto simp: demotable_def split: if_splits)
      then have "ih \<noteq> []" using attributed_empty [of e] by (metis empty_iff list.set(1))
      then show ?thesis using op(1) q attributed_pubs [of ih e]
        by (intro exI [of _ "[]"] exI [of _ env] exI [of _ ih] exI [of _ ops]) auto
    qed
  qed
qed simp

section \<open>Properties\<close>

text \<open>
  C28: the indexer set.  In every sequence of additions, sightings of publishers and removals, starting
  from an empty set, the indexers never exceed 128 more than those an operator added, so peers that
  gossip fresh keys cannot grow the fan-out of a query; and the operator's entries are exactly those
  added and not removed since: no sighting displaces one or demotes it.
\<close>

theorem indexers_bounded:
  "length (Indexers (fold indexer_step ops NewLookup)) \<le> maxAutoIndexers + card (fold explicit_after ops {}) \<and>
   explicit (fold indexer_step ops NewLookup) = fold explicit_after ops {} \<and>
   distinct (map ii_PubKey (Indexers (fold indexer_step ops NewLookup)))"
proof -
  let ?l = "fold indexer_step ops NewLookup" and ?auto = "\<lambda>(k, info). ii_Auto info"
  have ok: "lookup_ok ?l" by (rule indexer_run_ok [OF NewLookup_ok])
  then have d: "distinct (map fst (lk_indexers ?l))" and k: "keys_ok ?l" and n: "length (filter ?auto (lk_indexers ?l)) \<le> maxAutoIndexers"
    by (simp_all add: lookup_ok_keys keys_ok_def automatic_def)
  have x: "explicit ?l = fold explicit_after ops {}" using explicit_run [OF NewLookup_ok, of ops] by (simp add: explicit_def NewLookup_def)
  have "set (map fst (filter (Not \<circ> ?auto) (lk_indexers ?l))) = explicit ?l" using d by (force simp: explicit_def)
  then have "length (filter (Not \<circ> ?auto) (lk_indexers ?l)) = card (explicit ?l)"
    using distinct_map_filter [OF d, of "Not \<circ> ?auto"] by (metis distinct_card length_map)
  then have "length (Indexers ?l) \<le> maxAutoIndexers + card (explicit ?l)"
    using sum_length_filter_compl [of ?auto "lk_indexers ?l"] n by (simp add: Indexers_def comp_def)
  then show ?thesis using x Indexers_keys [OF k] d by simp
qed


text \<open>
  C30: blame.  In every session of searches, confirmations and flags that starts with an empty attribution
  table and a sound filter, no operation panics; an indexer gains a flag only if the user flagged an
  infohash that this very indexer had returned to an earlier search; and one on the trust list never does.
\<close>

theorem blame_is_earned:
  assumes "e_sources e = NewSourceTracker c" and "bloom_usable (e_bloom e)" and "list_all verdict_ok ops"
  shows "\<exists>e'. verdict_run U ops e = Some e' \<and> (exempt e q \<longrightarrow> flags_on e' q = flags_on e q) \<and>
    (flags_on e' q > flags_on e q \<longrightarrow>
      (\<exists>ops1 env ih ops2. ops = ops1 @ OpFlag env ih # ops2 \<and> (\<exists>op \<in> set ops1. gave U op (ToLower ih) q)))"
proof -
  have "sources_ok (NewSourceTracker c)" by (simp add: NewSourceTracker_def sources_ok_def DefaultSourceCapacity_def)
  then have "eng_ok e" using assms(1,2) by (simp add: eng_ok_def)
  moreover have "pubs_of (e_sources e) k = {}" for k by (simp add: assms(1) pubs_of_def NewSourceTracker_def)
  ultimately show ?thesis using blame_run [OF _ assms(3), of e U q] by fastforce
qed

section \<open>Witnesses\<close>

definition lab_indexers :: Lookup where
  "lab_indexers = NewLookup\<lparr>lk_indexers := [([1], \<lparr>ii_PubKey = [1], ii_Label = ''a'', ii_AddedAt = 0, ii_Auto = False\<rparr>),
     ([2], \<lparr>ii_PubKey = [2], ii_Label = [], ii_AddedAt = 1, ii_Auto = True\<rparr>)], lk_tracker := True, lk_sources := True\<rparr>"

text \<open>Two indexers report the same infohash, the first of them twice.\<close>

definition lab_backend :: "bytes \<Rightarrow> bytes \<Rightarrow> dht_error + KeywordHit list" where
  "lab_backend pk kw = Inr (if pk = [1] then [lab_hit 1 0, lab_hit 1 3] else [lab_hit 1 5])"

definition lab_engine :: RepEngine where
  "lab_engine = fb_engine\<lparr>e_sources := NewSourceTracker 0, e_bloom := None\<rparr>"

lemma lab_indexers_ok: "lookup_ok lab_indexers"
  by (simp add: lookup_ok_def lab_indexers_def NewLookup_def automatic_def maxAutoIndexers_def)

lemma lab_queried: "queried 0 lab_indexers e = {[1], [2]}"
  by (auto simp: queried_def lab_indexers_def NewLookup_def)

lemma lab_reporters:
  "reporters (\<lambda>pk. lab_backend pk kw) {[1], [2]} ih = (if ih = hex_EncodeToString (replicate 20 1) then {[1], [2]} else {})"
  by (auto simp: reporters_def lab_backend_def lab_hit_def)

lemma lab_distinctive: "MostDistinctive (Tokenize ascii_tables (ascii ''Ab1'')) = ascii ''ab1''" "ascii ''ab1'' \<noteq> []"
  unfolding lab_tokens unfolding lab_codes by (simp_all add: MostDistinctive_def)


definition lab_session :: "verdict_op list" where
  "lab_session = [OpQuery \<lparr>q_clock = 0, q_backend = lab_backend, q_arrive = rev, q_text = ascii ''Ab1'', q_lookup = lab_indexers\<rparr>,
     OpFlag fb_env (hex_EncodeToString (replicate 20 1))]"

theorem blame_is_earned_witness:
  "\<exists>e'. verdict_run ascii_tables lab_session lab_engine = Some e' \<and> flags_on e' ''t'' = flags_on lab_engine ''t''"
proof -
  have s: "e_sources lab_engine = NewSourceTracker 0" and b: "bloom_usable (e_bloom lab_engine)" by (simp_all add: lab_engine_def bloom_usable_def)
  have o: "list_all verdict_ok lab_session" by (simp add: lab_session_def lab_indexers_ok)
  have "ToLower ''t'' = ''t''" by code_simp
  then have "exempt lab_engine ''t''" by (simp add: exempt_def lab_engine_def fb_engine_def IsTrusted_def fb_store_def)
  then show ?thesis using blame_is_earned [OF s b o, of ascii_tables "''t''"] by blast
qed

end
