(* ===== verification/Dht_Crawl.thy ===== *)
theory Dht_Crawl
  imports Prelude
begin

text \<open>
  The crawler of the DHT (\<^verbatim>\<open>internal/dhtindex/crawler.go\<close>, \<^verbatim>\<open>sample.go\<close>): a bounded walk that asks each
  node it reaches for infohashes and neighbours.  Every goroutine is a small state machine and every
  step of one of them, up to the next lock or channel operation, is a transition; they interleave
  freely.  What a node answers is a relation, the rendering of a UDP address as a string an argument.
\<close>

section \<open>Samples\<close>

record UdpAddr =
  udp_IP :: "bytes option"
  udp_Port :: nat

record NodeInfo =
  ni_ID :: bytes
  ni_UDP :: "UdpAddr option"

record SampleInfohashesResult =
  Samples :: "bytes list"
  Interval :: int
  Num :: int
  Nodes :: "NodeInfo list"

text \<open>A reply of the server: the \<^verbatim>\<open>r\<close> dictionary with its optional fields.\<close>

record reply =
  r_Samples :: "bytes list option"
  r_Interval :: "int option"
  r_Num :: "int option"
  r_Nodes :: "NodeInfo list"
  r_Nodes6 :: "NodeInfo list"

datatype sample_error = ErrNilServer | ErrNilAddr | ErrQuery | ErrNoReply

definition SampleInfohashes :: "(string \<Rightarrow> bytes \<Rightarrow> unit + reply option) option \<Rightarrow> string option \<Rightarrow> bytes \<Rightarrow>
    sample_error + SampleInfohashesResult" where
  "SampleInfohashes server addr target =
     (case server of
        None \<Rightarrow> Inl ErrNilServer
      | Some query \<Rightarrow>
          (case addr of
             None \<Rightarrow> Inl ErrNilAddr
           | Some a \<Rightarrow>
               (case query a target of
                  Inl _ \<Rightarrow> Inl ErrQuery
                | Inr None \<Rightarrow> Inl ErrNoReply
                | Inr (Some r) \<Rightarrow>
                    Inr \<lparr>Samples = (case r_Samples r of None \<Rightarrow> [] | Some xs \<Rightarrow> xs),
                         Interval = (case r_Interval r of None \<Rightarrow> 0 | Some i \<Rightarrow> i),
                         Num = (case r_Num r of None \<Rightarrow> 0 | Some n \<Rightarrow> n),
                         Nodes = r_Nodes r @ r_Nodes6 r\<rparr>)))"

section \<open>The crawler\<close>

record CrawlNode =
  cn_Addr :: "string option"
  cn_ID :: bytes

definition key :: "CrawlNode \<Rightarrow> string" where
  "key n = (case cn_Addr n of None \<Rightarrow> [] | Some a \<Rightarrow> a)"

record CrawlOptions =
  Workers :: int
  MaxFrontier :: int
  MaxInfohashes :: int
  PerQuery :: int

definition withDefaults :: "CrawlOptions \<Rightarrow> CrawlOptions" where
  "withDefaults opt =
     (let opt = (if Workers opt < 1 then opt\<lparr>Workers := 4\<rparr> else opt);
          opt = (if MaxFrontier opt < 1 then opt\<lparr>MaxFrontier := 4096\<rparr> else opt)
      in if PerQuery opt \<le> 0 then opt\<lparr>PerQuery := 8 * 10 ^ 9\<rparr> else opt)"

record CrawlStats =
  NodesSampled :: nat
  NodesErrored :: nat
  InfohashesSeen :: nat

record Crawler =
  opts :: CrawlOptions
  queued :: "string list"
  seenIH :: "bytes list"
  sampled :: nat
  errored :: nat
  sunk :: "bytes list"

text \<open>\<open>sunk\<close> is what the sink received; the sets are lists without repetitions.\<close>

definition newCrawler :: "CrawlOptions \<Rightarrow> Crawler" where
  "newCrawler opt = \<lparr>opts = withDefaults opt, queued = [], seenIH = [], sampled = 0, errored = 0, sunk = []\<rparr>"

definition tryEnqueue :: "string \<Rightarrow> Crawler \<Rightarrow> bool \<times> Crawler" where
  "tryEnqueue k c =
     (if k = [] then (False, c)
      else if MaxInfohashes (opts c) > 0 \<and> int (length (seenIH c)) \<ge> MaxInfohashes (opts c) then (False, c)
      else if int (length (queued c)) \<ge> MaxFrontier (opts c) then (False, c)
      else if k \<in> set (queued c) then (False, c)
      else (True, c\<lparr>queued := k # queued c\<rparr>))"

text \<open>The sink gets the infohash just after the lock is given up; the list keeps what it gets, newest first.\<close>

definition emit :: "bytes \<Rightarrow> Crawler \<Rightarrow> Crawler" where
  "emit ih c =
     (if ih \<in> set (seenIH c) then c
      else if MaxInfohashes (opts c) > 0 \<and> int (length (seenIH c)) \<ge> MaxInfohashes (opts c) then c
      else c\<lparr>seenIH := ih # seenIH c, sunk := ih # sunk c\<rparr>)"

definition recordSampled :: "Crawler \<Rightarrow> Crawler" where "recordSampled c = c\<lparr>sampled := sampled c + 1\<rparr>"
definition recordErr :: "Crawler \<Rightarrow> Crawler" where "recordErr c = c\<lparr>errored := errored c + 1\<rparr>"

definition snapshot :: "Crawler \<Rightarrow> CrawlStats" where
  "snapshot c = \<lparr>NodesSampled = sampled c, NodesErrored = errored c, InfohashesSeen = length (seenIH c)\<rparr>"

definition toCrawlNode :: "(UdpAddr \<Rightarrow> string) \<Rightarrow> NodeInfo \<Rightarrow> CrawlNode option" where
  "toCrawlNode render ni =
     (case ni_UDP ni of
        None \<Rightarrow> None
      | Some udp \<Rightarrow> if udp_IP udp = None \<or> udp_Port udp = 0 then None else Some \<lparr>cn_Addr = Some (render udp), cn_ID = ni_ID ni\<rparr>)"

section \<open>The goroutines\<close>

datatype action = Emit bytes | Enqueue CrawlNode

text \<open>
  The caller enqueues the seeds; a visit waits for a slot of the semaphore, then samples, then works
  through the answer and releases the slot.
\<close>

datatype goroutine = Seeding "CrawlNode list" | Waiting CrawlNode | Sampling CrawlNode | Working "action list"

record crawl =
  crawler :: Crawler
  goroutines :: "goroutine list"
  cancelled :: bool

fun holds_slot :: "goroutine \<Rightarrow> bool" where
  "holds_slot (Seeding ns) = False"
| "holds_slot (Waiting n) = False"
| "holds_slot (Sampling n) = True"
| "holds_slot (Working as) = True"

definition busy :: "goroutine list \<Rightarrow> nat" where "busy gs = length (filter holds_slot gs)"

definition answer_actions :: "(UdpAddr \<Rightarrow> string) \<Rightarrow> SampleInfohashesResult \<Rightarrow> action list" where
  "answer_actions render res = map Emit (Samples res) @ map Enqueue (List.map_filter (toCrawlNode render) (Nodes res))"

definition spawned :: "bool \<Rightarrow> CrawlNode \<Rightarrow> goroutine list" where "spawned ok n = (if ok then [Waiting n] else [])"

inductive crawl_step :: "(UdpAddr \<Rightarrow> string) \<Rightarrow> (string \<Rightarrow> SampleInfohashesResult option \<Rightarrow> bool) \<Rightarrow> crawl \<Rightarrow> crawl \<Rightarrow> bool"
  for render :: "UdpAddr \<Rightarrow> string" and answers :: "string \<Rightarrow> SampleInfohashesResult option \<Rightarrow> bool" where
  seed: "goroutines s = xs @ Seeding (n # ns) # ys \<Longrightarrow> tryEnqueue (key n) (crawler s) = (ok, c) \<Longrightarrow>
     crawl_step render answers s (s\<lparr>crawler := c, goroutines := xs @ Seeding ns # ys @ spawned ok n\<rparr>)"
| seeded: "goroutines s = xs @ Seeding [] # ys \<Longrightarrow> crawl_step render answers s (s\<lparr>goroutines := xs @ ys\<rparr>)"
| start: "goroutines s = xs @ Waiting n # ys \<Longrightarrow> int (busy (goroutines s)) < Workers (opts (crawler s)) \<Longrightarrow>
     crawl_step render answers s (s\<lparr>goroutines := (if cancelled s then xs @ ys else xs @ Sampling n # ys)\<rparr>)"
| give_up: "goroutines s = xs @ Waiting n # ys \<Longrightarrow> cancelled s \<Longrightarrow> crawl_step render answers s (s\<lparr>goroutines := xs @ ys\<rparr>)"
| sample_fails: "goroutines s = xs @ Sampling n # ys \<Longrightarrow> answers (key n) None \<Longrightarrow>
     crawl_step render answers s (s\<lparr>crawler := recordErr (crawler s), goroutines := xs @ ys\<rparr>)"
| sample_answers: "goroutines s = xs @ Sampling n # ys \<Longrightarrow> answers (key n) (Some res) \<Longrightarrow>
     crawl_step render answers s (s\<lparr>crawler := recordSampled (crawler s), goroutines := xs @ Working (answer_actions render res) # ys\<rparr>)"
| emits: "goroutines s = xs @ Working (Emit ih # as) # ys \<Longrightarrow>
     crawl_step render answers s (s\<lparr>crawler := emit ih (crawler s), goroutines := xs @ Working as # ys\<rparr>)"
| enqueues: "goroutines s = xs @ Working (Enqueue n # as) # ys \<Longrightarrow> tryEnqueue (key n) (crawler s) = (ok, c) \<Longrightarrow>
     crawl_step render answers s (s\<lparr>crawler := c, goroutines := xs @ Working as # ys @ spawned ok n\<rparr>)"
| finishes: "goroutines s = xs @ Working [] # ys \<Longrightarrow> crawl_step render answers s (s\<lparr>goroutines := xs @ ys\<rparr>)"
| cancels: "\<not> cancelled s \<Longrightarrow> crawl_step render answers s (s\<lparr>cancelled := True\<rparr>)"

text \<open>A pass starts with the seeds and ends when no goroutine is left; then it returns the counts.\<close>

definition CrawlOnce :: "CrawlNode list \<Rightarrow> Crawler \<Rightarrow> crawl" where
  "CrawlOnce seeds c = \<lparr>crawler = c, goroutines = [Seeding seeds], cancelled = False\<rparr>"

definition returns :: "crawl \<Rightarrow> CrawlStats option" where
  "returns s = (if goroutines s = [] then Some (snapshot (crawler s)) else None)"

section \<open>Invariant\<close>

lemma tryEnqueue_cases:
  assumes "tryEnqueue k c = (ok, c')"
  obtains "\<not> ok" and "c' = c"
  | "ok" and "c' = c\<lparr>queued := k # queued c\<rparr>" and "k \<noteq> []" and "k \<notin> set (queued c)" and "int (length (queued c)) < MaxFrontier (opts c)"
  using assms by (auto simp: tryEnqueue_def split: if_splits)

definition capped :: "Crawler \<Rightarrow> bool" where
  "capped c \<longleftrightarrow> distinct (queued c) \<and> int (length (queued c)) \<le> MaxFrontier (opts c) \<and> distinct (seenIH c) \<and> sunk c = seenIH c \<and>
     (MaxInfohashes (opts c) > 0 \<longrightarrow> int (length (seenIH c)) \<le> MaxInfohashes (opts c)) \<and> 1 \<le> Workers (opts c)"

lemma newCrawler_capped: "capped (newCrawler opt)"
  by (simp add: capped_def newCrawler_def withDefaults_def Let_def)

lemma tryEnqueue_capped: "tryEnqueue k c = (ok, c') \<Longrightarrow> capped c \<Longrightarrow> capped c'"
  by (erule tryEnqueue_cases) (auto simp: capped_def)

lemma emit_capped: "capped c \<Longrightarrow> capped (emit ih c)"
  by (auto simp: capped_def emit_def)

lemma record_capped: "capped (recordSampled c) = capped c" "capped (recordErr c) = capped c"
  by (simp_all add: capped_def recordSampled_def recordErr_def)

lemma keeps_opts [simp]:
  "opts (emit ih c) = opts c" "opts (recordSampled c) = opts c" "opts (recordErr c) = opts c"
  "queued (emit ih c) = queued c" "queued (recordSampled c) = queued c" "queued (recordErr c) = queued c"
  "seenIH (recordSampled c) = seenIH c" "seenIH (recordErr c) = seenIH c"
  "sampled (emit ih c) = sampled c" "errored (emit ih c) = errored c"
  by (simp_all add: emit_def recordSampled_def recordErr_def)

lemma tryEnqueue_opts: "tryEnqueue k c = (ok, c') \<Longrightarrow> opts c' = opts c \<and> seenIH c' = seenIH c \<and> sampled c' = sampled c \<and> errored c' = errored c"
  by (erule tryEnqueue_cases) auto

text \<open>The visits not yet sampled.\<close>

fun unsampled :: "goroutine \<Rightarrow> string list" where
  "unsampled (Waiting n) = [key n]"
| "unsampled (Sampling n) = [key n]"
| "unsampled g = []"

definition to_sample :: "crawl \<Rightarrow> string list" where "to_sample s = concat (map unsampled (goroutines s))"

definition crawl_inv :: "crawl \<Rightarrow> bool" where
  "crawl_inv s \<longleftrightarrow> capped (crawler s) \<and> int (busy (goroutines s)) \<le> Workers (opts (crawler s)) \<and>
     distinct (to_sample s) \<and> set (to_sample s) \<subseteq> set (queued (crawler s)) \<and>
     sampled (crawler s) + errored (crawler s) + length (to_sample s) \<le> length (queued (crawler s))"

lemma busy_simps [simp]: "busy (xs @ ys) = busy xs + busy ys" "busy (g # gs) = (if holds_slot g then Suc (busy gs) else busy gs)" "busy [] = 0"
  "busy (spawned ok n) = 0"
  by (simp_all add: busy_def spawned_def)

lemma crawl_step_inv: "crawl_step render answers s s' \<Longrightarrow> crawl_inv s \<Longrightarrow> crawl_inv s'"
proof (induction rule: crawl_step.induct)
  case (seed s xs n ns ys ok c)
  from seed(2) show ?case
  proof (cases rule: tryEnqueue_cases)
    case 1
    then show ?thesis using seed(1,3) by (simp add: crawl_inv_def to_sample_def spawned_def)
  next
    case 2
    then show ?thesis using seed(1,3) tryEnqueue_capped [OF seed(2)] by (auto simp: crawl_inv_def to_sample_def spawned_def)
  qed
next
  case (enqueues s xs n as ys ok c)
  from enqueues(2) show ?case
  proof (cases rule: tryEnqueue_cases)
    case 1
    then show ?thesis using enqueues(1,3) by (simp add: crawl_inv_def to_sample_def spawned_def)
  next
    case 2
    then show ?thesis using enqueues(1,3) tryEnqueue_capped [OF enqueues(2)] by (auto simp: crawl_inv_def to_sample_def spawned_def)
  qed
next
  case (start s xs n ys)
  then show ?case by (auto simp: crawl_inv_def to_sample_def)
next
  case (sample_answers s xs n ys res)
  then show ?case by (auto simp: crawl_inv_def to_sample_def capped_def recordSampled_def)
next
  case (sample_fails s xs n ys)
  then show ?case by (auto simp: crawl_inv_def to_sample_def capped_def recordErr_def)
next
  case (emits s xs ih as ys)
  then show ?case by (simp add: crawl_inv_def to_sample_def emit_capped)
qed (auto simp: crawl_inv_def to_sample_def)

section \<open>Termination\<close>

fun visits_ahead :: "goroutine \<Rightarrow> nat" where
  "visits_ahead (Waiting n) = 2"
| "visits_ahead (Sampling n) = 1"
| "visits_ahead g = 0"

fun work :: "goroutine \<Rightarrow> nat" where
  "work (Seeding ns) = Suc (length ns)"
| "work (Working as) = Suc (length as)"
| "work g = 0"

definition crawl_measure :: "crawl \<Rightarrow> nat \<times> nat \<times> nat" where
  "crawl_measure s = (nat (MaxFrontier (opts (crawler s))) - length (queued (crawler s)) + (if cancelled s then 0 else 1),
     sum_list (map visits_ahead (goroutines s)), sum_list (map work (goroutines s)))"

abbreviation smaller :: "((nat \<times> nat \<times> nat) \<times> (nat \<times> nat \<times> nat)) set" where
  "smaller \<equiv> less_than <*lex*> less_than <*lex*> less_than"

lemma crawl_step_smaller: "crawl_step render answers s s' \<Longrightarrow> (crawl_measure s', crawl_measure s) \<in> smaller"
proof (induction rule: crawl_step.induct)
  case (seed s xs n ns ys ok c)
  from seed(2) show ?case
    by (cases rule: tryEnqueue_cases) (use seed(1) in \<open>auto simp: crawl_measure_def spawned_def\<close>)
next
  case (enqueues s xs n as ys ok c)
  from enqueues(2) show ?case
    by (cases rule: tryEnqueue_cases) (use enqueues(1) in \<open>auto simp: crawl_measure_def spawned_def\<close>)
qed (auto simp: crawl_measure_def)

text \<open>Unless nothing is left to do, some goroutine can move: one that waits can start, or another holds the slot.\<close>

lemma slot_holder: "0 < busy gs \<Longrightarrow> \<exists>xs g ys. gs = xs @ g # ys \<and> holds_slot g"
  by (metis busy_def filter_False length_greater_0_conv split_list)

lemma crawl_progress:
  assumes "crawl_inv s" and "\<forall>a. \<exists>r. answers a r" and "goroutines s \<noteq> []"
  shows "\<exists>s'. crawl_step render answers s s' \<and> goroutines s' \<noteq> goroutines s"
proof -
  have moves: "\<exists>s'. crawl_step render answers s s' \<and> goroutines s' \<noteq> goroutines s" if g: "goroutines s = xs @ g # ys" and "holds_slot g" for xs g ys
  proof (cases g)
    case (Sampling n)
    obtain r where r: "answers (key n) r" using assms(2) by blast
    show ?thesis
    proof (cases r)
      case None
      then show ?thesis using sample_fails [of s xs n ys answers render] r g Sampling by fastforce
    next
      case (Some res)
      then show ?thesis using sample_answers [of s xs n ys answers res render] r g Sampling by fastforce
    qed
  next
    case (Working as)
    show ?thesis
    proof (cases as)
      case Nil
      then show ?thesis using finishes [of s xs ys render answers] g Working by fastforce
    next
      case (Cons act as')
      show ?thesis
      proof (cases act)
        case (Emit ih)
        then show ?thesis using emits [of s xs ih as' ys render answers] g Working Cons by fastforce
      next
        case (Enqueue n)
        obtain ok c where "tryEnqueue (key n) (crawler s) = (ok, c)" by force
        then show ?thesis using enqueues [of s xs n as' ys ok c render answers] g Working Cons Enqueue by fastforce
      qed
    qed
  qed (use that in simp_all)
  show ?thesis
  proof (cases "0 < busy (goroutines s)")
    case True
    then show ?thesis using slot_holder moves by meson
  next
    case False
    obtain g gs where g: "goroutines s = g # gs" using assms(3) by (cases "goroutines s") auto
    with False have idle: "\<not> holds_slot g" by (auto split: if_splits)
    show ?thesis
    proof (cases g)
      case (Seeding ns)
      show ?thesis
      proof (cases ns)
        case Nil
        then show ?thesis using seeded [of s "[]" gs render answers] g Seeding by fastforce
      next
        case (Cons n ns')
        obtain ok c where "tryEnqueue (key n) (crawler s) = (ok, c)" by force
        then show ?thesis using seed [of s "[]" n ns' gs ok c render answers] g Seeding Cons by fastforce
      qed
    next
      case (Waiting n)
      have "int (busy (goroutines s)) < Workers (opts (crawler s))" using assms(1) False by (simp add: crawl_inv_def capped_def)
      from start [of s "[]" n gs render answers, OF _ this] g Waiting
      have "crawl_step render answers s (s\<lparr>goroutines := (if cancelled s then gs else Sampling n # gs)\<rparr>)" by (cases "cancelled s") simp_all
      moreover have "goroutines (s\<lparr>goroutines := (if cancelled s then gs else Sampling n # gs)\<rparr>) \<noteq> goroutines s" using g Waiting by (cases "cancelled s") auto
      ultimately show ?thesis by blast
    qed (use idle in simp_all)
  qed
qed

lemma CrawlOnce_inv: "crawl_inv (CrawlOnce seeds (newCrawler opt))"
  using newCrawler_capped [of opt] by (simp add: crawl_inv_def CrawlOnce_def to_sample_def capped_def) (simp add: newCrawler_def)

lemma crawl_reach_inv:
  "(crawl_step render answers)\<^sup>*\<^sup>* s s' \<Longrightarrow> crawl_inv s \<Longrightarrow> crawl_inv s' \<and> opts (crawler s') = opts (crawler s)"
proof (induction rule: rtranclp_induct)
  case (step t u)
  have "opts (crawler u) = opts (crawler t)" using step.hyps(2) by (induction rule: crawl_step.induct) (auto dest: tryEnqueue_opts)
  then show ?case using step crawl_step_inv by auto
qed simp

section \<open>Completeness\<close>

text \<open>
  The nodes a crawl should reach, and the infohashes it should find, when every node answers always in
  the same way.
\<close>

inductive_set discovered :: "(UdpAddr \<Rightarrow> string) \<Rightarrow> (string \<Rightarrow> SampleInfohashesResult option) \<Rightarrow> CrawlNode list \<Rightarrow> string set"
  for render and net and seeds where
  from_seed: "n \<in> set seeds \<Longrightarrow> key n \<noteq> [] \<Longrightarrow> key n \<in> discovered render net seeds"
| from_node: "k \<in> discovered render net seeds \<Longrightarrow> net k = Some res \<Longrightarrow> ni \<in> set (Nodes res) \<Longrightarrow> toCrawlNode render ni = Some n \<Longrightarrow>
    key n \<noteq> [] \<Longrightarrow> key n \<in> discovered render net seeds"

definition found :: "(UdpAddr \<Rightarrow> string) \<Rightarrow> (string \<Rightarrow> SampleInfohashesResult option) \<Rightarrow> CrawlNode list \<Rightarrow> bytes set" where
  "found render net seeds = {ih. \<exists>k res. k \<in> discovered render net seeds \<and> net k = Some res \<and> ih \<in> set (Samples res)}"

fun todo :: "goroutine \<Rightarrow> action list" where
  "todo (Seeding ns) = map Enqueue ns"
| "todo (Working as) = as"
| "todo g = []"

definition pend :: "crawl \<Rightarrow> action set" where "pend s = (\<Union>g \<in> set (goroutines s). set (todo g))"

fun happened :: "Crawler \<Rightarrow> action \<Rightarrow> bool" where
  "happened c (Emit ih) = (ih \<in> set (seenIH c))"
| "happened c (Enqueue n) = (key n = [] \<or> key n \<in> set (queued c))"

fun due :: "string set \<Rightarrow> bytes set \<Rightarrow> action \<Rightarrow> bool" where
  "due D F (Emit ih) = (ih \<in> F)"
| "due D F (Enqueue n) = (key n = [] \<or> key n \<in> D)"

lemma todo_spawned [simp]: "(\<Union>g \<in> set (spawned ok n). set (todo g)) = {}" "concat (map unsampled (spawned ok n)) = (if ok then [key n] else [])"
  by (simp_all add: spawned_def)

lemma answer_due:
  assumes "k \<in> discovered render net seeds" and "net k = Some res" and "a \<in> set (answer_actions render res)"
  shows "due (discovered render net seeds) (found render net seeds) a"
proof (cases a)
  case (Emit ih)
  then have "ih \<in> set (Samples res)" using assms(3) by (auto simp: answer_actions_def)
  then show ?thesis using Emit assms by (auto simp: found_def)
next
  case (Enqueue n)
  then obtain ni where "ni \<in> set (Nodes res)" "toCrawlNode render ni = Some n" using assms(3) by (auto simp: answer_actions_def List.map_filter_def)
  then show ?thesis using Enqueue assms discovered.from_node by fastforce
qed

text \<open>Nothing but what is due is ever queued, seen or still to do.\<close>

definition sound_crawl :: "string set \<Rightarrow> bytes set \<Rightarrow> crawl \<Rightarrow> bool" where
  "sound_crawl D F s \<longleftrightarrow> set (queued (crawler s)) \<subseteq> D \<and> set (seenIH (crawler s)) \<subseteq> F \<and> set (to_sample s) \<subseteq> D \<and> (\<forall>a \<in> pend s. due D F a)"

lemma sound_step:
  assumes "crawl_step render (\<lambda>a r. r = net a) s s'"
    and "sound_crawl (discovered render net seeds) (found render net seeds) s"
  shows "sound_crawl (discovered render net seeds) (found render net seeds) s'"
  using assms
proof (induction rule: crawl_step.induct)
  case (seed s xs n ns ys ok c)
  from seed(2) show ?case
    by (cases rule: tryEnqueue_cases) (use seed(1,3) in \<open>auto simp: sound_crawl_def pend_def to_sample_def\<close>)
next
  case (enqueues s xs n as ys ok c)
  from enqueues(2) show ?case
    by (cases rule: tryEnqueue_cases) (use enqueues(1,3) in \<open>auto simp: sound_crawl_def pend_def to_sample_def\<close>)
next
  case (sample_answers s xs n ys res)
  have "key n \<in> discovered render net seeds" using sample_answers(1,3) by (auto simp: sound_crawl_def to_sample_def)
  then have "due (discovered render net seeds) (found render net seeds) a" if "a \<in> set (answer_actions render res)" for a
    using answer_due that sample_answers(2) by metis
  then show ?case using sample_answers(1,3) by (auto simp: sound_crawl_def pend_def to_sample_def)
next
  case (emits s xs ih as ys)
  have "set (seenIH (emit ih (crawler s))) \<subseteq> insert ih (set (seenIH (crawler s)))" by (auto simp: emit_def)
  then show ?case using emits by (auto simp: sound_crawl_def pend_def to_sample_def)
qed (auto simp: sound_crawl_def pend_def to_sample_def)

text \<open>While no limit is hit, everything due has happened or is still to do.\<close>

definition unlimited :: "crawl \<Rightarrow> bool" where
  "unlimited s \<longleftrightarrow> \<not> cancelled s \<and> MaxInfohashes (opts (crawler s)) \<le> 0 \<and> int (length (queued (crawler s))) < MaxFrontier (opts (crawler s))"

definition full_crawl :: "(UdpAddr \<Rightarrow> string) \<Rightarrow> (string \<Rightarrow> SampleInfohashesResult option) \<Rightarrow> CrawlNode list \<Rightarrow> crawl \<Rightarrow> bool" where
  "full_crawl render net seeds s \<longleftrightarrow>
     (\<forall>a \<in> Enqueue ` set seeds. happened (crawler s) a \<or> a \<in> pend s) \<and>
     (\<forall>k \<in> set (queued (crawler s)). k \<in> set (to_sample s) \<or>
        (\<forall>res. net k = Some res \<longrightarrow> (\<forall>a \<in> set (answer_actions render res). happened (crawler s) a \<or> a \<in> pend s))) \<and>
     sampled (crawler s) + errored (crawler s) + length (to_sample s) = length (queued (crawler s))"

lemma unlimited_back: "crawl_step render answers s s' \<Longrightarrow> unlimited s' \<Longrightarrow> unlimited s"
proof (induction rule: crawl_step.induct)
  case (seed s xs n ns ys ok c)
  from seed(2) show ?case by (cases rule: tryEnqueue_cases) (use seed(1,3) in \<open>auto simp: unlimited_def\<close>)
next
  case (enqueues s xs n as ys ok c)
  from enqueues(2) show ?case by (cases rule: tryEnqueue_cases) (use enqueues(1,3) in \<open>auto simp: unlimited_def\<close>)
qed (auto simp: unlimited_def)

text \<open>An action that is carried out happens, and what happened stays so.\<close>

lemma enqueue_happens:
  assumes "tryEnqueue (key n) (crawler s) = (ok, c)" and "unlimited s"
  shows "happened c (Enqueue n)" and "happened (crawler s) a \<Longrightarrow> happened c a"
proof -
  show "happened c (Enqueue n)" using assms by (auto simp: tryEnqueue_def unlimited_def split: if_splits)
  show "happened (crawler s) a \<Longrightarrow> happened c a" using assms(1) by (cases a) (auto simp: tryEnqueue_def split: if_splits)
qed

lemma emit_happens:
  assumes "unlimited s"
  shows "happened (emit ih (crawler s)) (Emit ih)" and "happened (crawler s) a \<Longrightarrow> happened (emit ih (crawler s)) a"
proof -
  show "happened (emit ih (crawler s)) (Emit ih)" using assms by (auto simp: emit_def unlimited_def)
  show "happened (crawler s) a \<Longrightarrow> happened (emit ih (crawler s)) a" by (cases a) (auto simp: emit_def)
qed

lemma full_transfer:
  assumes "full_crawl render net seeds s"
    and "\<And>a. happened (crawler s) a \<Longrightarrow> happened (crawler s') a"
    and "\<And>a. a \<in> pend s \<Longrightarrow> happened (crawler s') a \<or> a \<in> pend s'"
    and "\<And>k. k \<in> set (queued (crawler s')) \<Longrightarrow> k \<in> set (to_sample s') \<or> k \<in> set (queued (crawler s)) \<and> k \<notin> set (to_sample s) \<or>
       (\<forall>res. net k = Some res \<longrightarrow> set (answer_actions render res) \<subseteq> pend s')"
    and "sampled (crawler s') + errored (crawler s') + length (to_sample s') = length (queued (crawler s'))"
  shows "full_crawl render net seeds s'"
  unfolding full_crawl_def
proof (intro conjI ballI)
  fix a assume "a \<in> Enqueue ` set seeds"
  then have "happened (crawler s) a \<or> a \<in> pend s" using assms(1) unfolding full_crawl_def by blast
  then show "happened (crawler s') a \<or> a \<in> pend s'" using assms(2,3) by blast
next
  fix k assume k: "k \<in> set (queued (crawler s'))"
  show "k \<in> set (to_sample s') \<or> (\<forall>res. net k = Some res \<longrightarrow> (\<forall>a \<in> set (answer_actions render res). happened (crawler s') a \<or> a \<in> pend s'))"
  proof (cases "k \<in> set (queued (crawler s)) \<and> k \<notin> set (to_sample s)")
    case True
    then show ?thesis using assms(1) assms(2,3) unfolding full_crawl_def by blast
  next
    case False
    then show ?thesis using assms(4) [OF k] by blast
  qed
qed (rule assms(5))

lemma full_count: "full_crawl render net seeds s \<Longrightarrow> sampled (crawler s) + errored (crawler s) + length (to_sample s) = length (queued (crawler s))"
  by (simp add: full_crawl_def)

lemma full_step:
  assumes "crawl_step render (\<lambda>a r. r = net a) s s'" and "unlimited s'" and "full_crawl render net seeds s"
  shows "full_crawl render net seeds s'"
proof -
  have u: "unlimited s" using unlimited_back assms(1,2) by blast
  note full = assms(3) and count = full_count [OF assms(3)]
  from assms(1) show ?thesis
  proof (cases rule: crawl_step.cases)
    case (seed xs n ns ys ok c)
    from seed(3) show ?thesis
    proof (cases rule: tryEnqueue_cases)
      case 1
      then show ?thesis
        by (intro full_transfer [OF full]) (use seed count enqueue_happens [OF seed(3) u] in \<open>auto simp: pend_def to_sample_def\<close>)
    next
      case 2
      then show ?thesis
        by (intro full_transfer [OF full]) (use seed count enqueue_happens [OF seed(3) u] in \<open>auto simp: pend_def to_sample_def\<close>)
    qed
  next
    case (enqueues xs n as ys ok c)
    from enqueues(3) show ?thesis
    proof (cases rule: tryEnqueue_cases)
      case 1
      then show ?thesis
        by (intro full_transfer [OF full]) (use enqueues count enqueue_happens [OF enqueues(3) u] in \<open>auto simp: pend_def to_sample_def\<close>)
    next
      case 2
      then show ?thesis
        by (intro full_transfer [OF full]) (use enqueues count enqueue_happens [OF enqueues(3) u] in \<open>auto simp: pend_def to_sample_def\<close>)
    qed
  next
    case (emits xs ih as ys)
    then show ?thesis
      by (intro full_transfer [OF full]) (use count emit_happens(1) [OF u, of ih] emit_happens(2) [OF u, where ih = ih] in \<open>auto simp: pend_def to_sample_def\<close>)
  next
    case (seeded xs ys)
    then show ?thesis by (intro full_transfer [OF full]) (use count in \<open>auto simp: pend_def to_sample_def\<close>)
  next
    case (start xs n ys)
    then show ?thesis using u by (intro full_transfer [OF full]) (use count in \<open>auto simp: pend_def to_sample_def unlimited_def\<close>)
  next
    case (give_up xs n ys)
    then show ?thesis using u by (simp add: unlimited_def)
  next
    case (sample_fails xs n ys)
    have h: "happened (recordErr (crawler s)) a = happened (crawler s) a" for a by (cases a) simp_all
    from sample_fails show ?thesis
      by (intro full_transfer [OF full]) (use count h in \<open>auto simp: pend_def to_sample_def recordErr_def\<close>)
  next
    case (sample_answers xs n ys res)
    have h: "happened (recordSampled (crawler s)) a = happened (crawler s) a" for a by (cases a) simp_all
    from sample_answers show ?thesis
      by (intro full_transfer [OF full]) (use count h in \<open>auto simp: pend_def to_sample_def recordSampled_def\<close>)
  next
    case (finishes xs ys)
    then show ?thesis by (intro full_transfer [OF full]) (use count in \<open>auto simp: pend_def to_sample_def\<close>)
  next
    case cancels
    then show ?thesis using assms(2) by (simp add: unlimited_def)
  qed
qed

section \<open>Properties\<close>


text \<open>
  C32: a crawl is complete.  When every node answers always in the same way, a pass that returns without
  having been cancelled, with no limit on infohashes and without filling its frontier, has queried
  exactly the nodes that can be discovered from the seeds, each once, and has handed to the sink
  exactly the infohashes they volunteered, in whatever order the goroutines ran.
\<close>

theorem crawl_complete:
  assumes "(crawl_step render (\<lambda>a r. r = net a))\<^sup>*\<^sup>* (CrawlOnce seeds (newCrawler opt)) s" and "returns s = Some stats" and "unlimited s"
  shows "set (queued (crawler s)) = discovered render net seeds \<and> NodesSampled stats + NodesErrored stats = card (discovered render net seeds) \<and>
    set (sunk (crawler s)) = found render net seeds \<and> InfohashesSeen stats = card (found render net seeds)"
proof -
  let ?D = "discovered render net seeds" and ?F = "found render net seeds" and ?start = "CrawlOnce seeds (newCrawler opt)"
  have start: "sound_crawl ?D ?F ?start \<and> full_crawl render net seeds ?start"
    using discovered.from_seed by (fastforce simp: sound_crawl_def full_crawl_def CrawlOnce_def newCrawler_def pend_def to_sample_def)
  have "sound_crawl ?D ?F s \<and> (unlimited s \<longrightarrow> full_crawl render net seeds s)" using assms(1)
  proof (induction rule: rtranclp_induct)
    case base
    then show ?case using start by blast
  next
    case (step t u)
    then show ?case using sound_step full_step unlimited_back by blast
  qed
  then have sound: "sound_crawl ?D ?F s" and full: "full_crawl render net seeds s" using assms(3) by auto
  have over: "goroutines s = []" and st: "stats = snapshot (crawler s)" using assms(2) by (auto simp: returns_def split: if_splits)
  then have drained: "pend s = {}" "to_sample s = []" by (simp_all add: pend_def to_sample_def)
  have did: "happened (crawler s) a" if "k \<in> set (queued (crawler s))" "net k = Some res" "a \<in> set (answer_actions render res)" for k res a
  proof -
    have "k \<in> set (to_sample s) \<or> happened (crawler s) a \<or> a \<in> pend s" using full that unfolding full_crawl_def by blast
    moreover have "a \<notin> pend s" "k \<notin> set (to_sample s)" unfolding drained by simp_all
    ultimately show ?thesis by blast
  qed
  have sub: "set (queued (crawler s)) \<subseteq> ?D" "set (seenIH (crawler s)) \<subseteq> ?F" using sound by (simp_all add: sound_crawl_def)
  have queued: "k \<in> set (queued (crawler s))" if "k \<in> ?D" for k using that
  proof induction
    case (from_seed n)
    then have "happened (crawler s) (Enqueue n)" using full unfolding full_crawl_def drained by auto
    then show ?case using from_seed by simp
  next
    case (from_node k res ni n)
    then have "Enqueue n \<in> set (answer_actions render res)" by (force simp: answer_actions_def List.map_filter_def)
    then show ?case using did [OF from_node.IH from_node.hyps(2)] from_node.hyps(5) by fastforce
  qed
  have seen: "ih \<in> set (seenIH (crawler s))" if given: "ih \<in> ?F" for ih
  proof -
    obtain k res where "k \<in> ?D" "net k = Some res" "ih \<in> set (Samples res)" using given by (auto simp: found_def)
    then show ?thesis using did [OF queued] by (fastforce simp: answer_actions_def)
  qed
  have inv: "capped (crawler s)" using crawl_reach_inv [OF assms(1) CrawlOnce_inv] by (simp add: crawl_inv_def)
  have Q: "set (queued (crawler s)) = ?D" and S: "set (seenIH (crawler s)) = ?F" using sub queued seen by blast+
  have "sampled (crawler s) + errored (crawler s) = card ?D" "length (seenIH (crawler s)) = card ?F"
    using full_count [OF full] drained inv distinct_card [of "queued (crawler s)"] distinct_card [of "seenIH (crawler s)"] Q S by (simp_all add: capped_def)
  then show ?thesis using Q S inv by (simp add: st snapshot_def capped_def)
qed

section \<open>Witnesses\<close>

text \<open>A network of one node that volunteers one infohash and names itself.\<close>

definition lone_net :: "string \<Rightarrow> SampleInfohashesResult option" where
  "lone_net a = (if a = ''x'' then Some \<lparr>Samples = [[1]], Interval = 0, Num = 1, Nodes = [\<lparr>ni_ID = [], ni_UDP = Some \<lparr>udp_IP = Some [127], udp_Port = 1\<rparr>\<rparr>]\<rparr> else None)"

definition lone_seed :: CrawlNode where "lone_seed = \<lparr>cn_Addr = Some ''x'', cn_ID = []\<rparr>"
definition lone_opts :: CrawlOptions where "lone_opts = \<lparr>Workers = 0, MaxFrontier = 0, MaxInfohashes = 0, PerQuery = 0\<rparr>"


definition lone_state :: "string list \<Rightarrow> bytes list \<Rightarrow> nat \<Rightarrow> goroutine list \<Rightarrow> crawl" where
  "lone_state q ihs n gs = \<lparr>crawler = \<lparr>opts = withDefaults lone_opts, queued = q, seenIH = ihs, sampled = n, errored = 0, sunk = ihs\<rparr>, goroutines = gs, cancelled = False\<rparr>"

lemma lone_run:
  "(crawl_step (\<lambda>_. ''x'') (\<lambda>a r. r = lone_net a))\<^sup>*\<^sup>* (CrawlOnce [lone_seed] (newCrawler lone_opts)) (lone_state [''x''] [[1]] 1 [])"
proof -
  let ?step = "crawl_step (\<lambda>_. ''x'') (\<lambda>a r. r = lone_net a)"
  have k: "key lone_seed = ''x''" by (simp add: key_def lone_seed_def)
  have o: "withDefaults lone_opts = \<lparr>Workers = 4, MaxFrontier = 4096, MaxInfohashes = 0, PerQuery = 8 * 10 ^ 9\<rparr>" by (simp add: withDefaults_def lone_opts_def)
  have acts: "answer_actions (\<lambda>_. ''x'') (the (lone_net ''x'')) = [Emit [1], Enqueue lone_seed]"
    by (simp add: answer_actions_def lone_net_def toCrawlNode_def List.map_filter_def lone_seed_def)
  note L = lone_state_def o
  have start: "CrawlOnce [lone_seed] (newCrawler lone_opts) = lone_state [] [] 0 [Seeding [lone_seed]]" by (simp add: CrawlOnce_def newCrawler_def lone_state_def)
  have s1: "?step (lone_state [] [] 0 [Seeding [lone_seed]]) (lone_state [''x''] [] 0 [Seeding [], Waiting lone_seed])"
    using crawl_step.seed [of "lone_state [] [] 0 [Seeding [lone_seed]]" "[]" lone_seed "[]" "[]" True _ "\<lambda>_. ''x''" "\<lambda>a r. r = lone_net a"]
    by (simp add: L k tryEnqueue_def spawned_def)
  have s2: "?step (lone_state [''x''] [] 0 [Seeding [], Waiting lone_seed]) (lone_state [''x''] [] 0 [Waiting lone_seed])"
    using crawl_step.seeded [of "lone_state [''x''] [] 0 [Seeding [], Waiting lone_seed]" "[]" "[Waiting lone_seed]" "\<lambda>_. ''x''" "\<lambda>a r. r = lone_net a"] by (simp add: L)
  have s3: "?step (lone_state [''x''] [] 0 [Waiting lone_seed]) (lone_state [''x''] [] 0 [Sampling lone_seed])"
    using crawl_step.start [of "lone_state [''x''] [] 0 [Waiting lone_seed]" "[]" lone_seed "[]" "\<lambda>_. ''x''" "\<lambda>a r. r = lone_net a"] by (simp add: L)
  have s4: "?step (lone_state [''x''] [] 0 [Sampling lone_seed]) (lone_state [''x''] [] 1 [Working [Emit [1], Enqueue lone_seed]])"
    using crawl_step.sample_answers [of "lone_state [''x''] [] 0 [Sampling lone_seed]" "[]" lone_seed "[]" "\<lambda>a r. r = lone_net a" "the (lone_net ''x'')" "\<lambda>_. ''x''"]
    unfolding acts by (simp add: L k recordSampled_def) (simp add: lone_net_def)
  have s5: "?step (lone_state [''x''] [] 1 [Working [Emit [1], Enqueue lone_seed]]) (lone_state [''x''] [[1]] 1 [Working [Enqueue lone_seed]])"
    using crawl_step.emits [of "lone_state [''x''] [] 1 [Working [Emit [1], Enqueue lone_seed]]" "[]" "[1]" "[Enqueue lone_seed]" "[]" "\<lambda>_. ''x''" "\<lambda>a r. r = lone_net a"]
    by (simp add: L emit_def)
  have s6: "?step (lone_state [''x''] [[1]] 1 [Working [Enqueue lone_seed]]) (lone_state [''x''] [[1]] 1 [Working []])"
    using crawl_step.enqueues [of "lone_state [''x''] [[1]] 1 [Working [Enqueue lone_seed]]" "[]" lone_seed "[]" "[]" False _ "\<lambda>_. ''x''" "\<lambda>a r. r = lone_net a"]
    by (simp add: L k tryEnqueue_def spawned_def)
  have s7: "?step (lone_state [''x''] [[1]] 1 [Working []]) (lone_state [''x''] [[1]] 1 [])"
    using crawl_step.finishes [of "lone_state [''x''] [[1]] 1 [Working []]" "[]" "[]" "\<lambda>_. ''x''" "\<lambda>a r. r = lone_net a"] by (simp add: L)
  note more = rtranclp.rtrancl_into_rtrancl [where r = ?step]
  show ?thesis unfolding start by (rule more [OF more [OF more [OF more [OF more [OF more [OF r_into_rtranclp [where r = ?step, OF s1] s2] s3] s4] s5] s6] s7])
qed

theorem crawl_complete_witness: "discovered (\<lambda>_. ''x'') lone_net [lone_seed] = {''x''} \<and> found (\<lambda>_. ''x'') lone_net [lone_seed] = {[1]}"
proof -
  have "unlimited (lone_state [''x''] [[1]] 1 [])" by (simp add: unlimited_def lone_state_def withDefaults_def lone_opts_def)
  moreover have "returns (lone_state [''x''] [[1]] 1 []) = Some \<lparr>NodesSampled = 1, NodesErrored = 0, InfohashesSeen = 1\<rparr>"
    by (simp add: returns_def lone_state_def snapshot_def)
  ultimately show ?thesis using crawl_complete [OF lone_run] by (simp add: lone_state_def)
qed

end
