(* ===== verification/Download_Queue.thy ===== *)
theory Download_Queue
  imports Complex_Main Hex
begin

text \<open>
  The download queue of the torrent engine: \<^verbatim>\<open>internal/engine/queue.go\<close>, \<^verbatim>\<open>handle.go\<close>, \<^verbatim>\<open>files.go\<close> and
  the operations of \<^verbatim>\<open>engine.go\<close> that pause, resume and remove a torrent.  Of the BitTorrent library a
  handle carries what this code reads and sets: whether the metadata is there, the file priorities, the
  bytes missing, whether data may be downloaded and uploaded.  Goroutines are pending tasks; each runs
  as one step, except that a task that has checked the paused flag runs on as a second step.
\<close>

section \<open>Handles\<close>

datatype PiecePriority = PriorityNone | PriorityNormal | PriorityHigh | PriorityReadahead | PriorityNext | PriorityNow

record TorrentFile =
  f_Path :: string
  f_DisplayPath :: string
  f_Length :: int
  f_BytesCompleted :: int
  f_Priority :: PiecePriority

text \<open>\<open>h_id\<close> stands for the pointer: a torrent that is removed and added again has a new handle.\<close>

record Handle =
  h_id :: nat
  h_InfoHash :: bytes
  paused :: bool
  is_queued :: bool
  indexing :: bool
  companion :: bool
  queueOrder :: int
  signedBy :: string
  t_Info :: bool
  t_Files :: "TorrentFile list"
  t_BytesMissing :: int
  t_Download :: bool
  t_Upload :: bool

datatype task = AutoDownload nat | Activate nat | ActivateChecked nat | WatchCompletion nat | PromoteQueued

record Queue =
  q_handles :: "Handle list"
  maxActiveDownloads :: int
  nextQueueOrder :: int
  q_closed :: bool
  q_tasks :: "task list"
  q_fresh :: nat

definition handle_of :: "nat \<Rightarrow> Queue \<Rightarrow> Handle option" where
  "handle_of i e = find (\<lambda>h. h_id h = i) (q_handles e)"

definition with_handle :: "nat \<Rightarrow> (Handle \<Rightarrow> Handle) \<Rightarrow> Queue \<Rightarrow> Queue" where
  "with_handle i f e = e\<lparr>q_handles := map (\<lambda>h. if h_id h = i then f h else h) (q_handles e)\<rparr>"

definition spawn :: "task list \<Rightarrow> Queue \<Rightarrow> Queue" where "spawn ts e = e\<lparr>q_tasks := q_tasks e @ ts\<rparr>"

definition set_priorities :: "PiecePriority \<Rightarrow> Handle \<Rightarrow> Handle" where
  "set_priorities p h = h\<lparr>t_Files := map (\<lambda>f. f\<lparr>f_Priority := p\<rparr>) (t_Files h)\<rparr>"

definition setSignedByIfEmpty :: "string \<Rightarrow> Handle \<Rightarrow> bool \<times> Handle" where
  "setSignedByIfEmpty v h = (if signedBy h \<noteq> [] then (False, h) else (True, h\<lparr>signedBy := v\<rparr>))"

section \<open>Slots\<close>

definition isActive :: "Handle \<Rightarrow> bool" where
  "isActive h =
     (if paused h \<or> is_queued h then False
      else if \<not> t_Info h then True
      else if t_BytesMissing h \<le> 0 then False
      else list_ex (\<lambda>f. f_Priority f \<noteq> PriorityNone) (t_Files h))"

definition countActive :: "Queue \<Rightarrow> int" where "countActive e = int (length (filter isActive (q_handles e)))"

definition activated :: "Handle \<Rightarrow> Handle" where
  "activated h =
     (let h = h\<lparr>t_Download := True, is_queued := False\<rparr>
      in if \<not> t_Info h then h else set_priorities PriorityNormal h)"

definition activateDownload :: "nat \<Rightarrow> Queue \<Rightarrow> Queue" where
  "activateDownload i e = with_handle i (\<lambda>h. if paused h then h else activated h) e"

definition put_in_queue :: "Handle \<Rightarrow> Handle" where
  "put_in_queue h =
     (let h = h\<lparr>is_queued := True, t_Download := False\<rparr>
      in if t_Info h then set_priorities PriorityNone h else h)"

text \<open>After the check of the paused flag, under the promotion lock.\<close>

definition queueOrActivate_locked :: "nat \<Rightarrow> Queue \<Rightarrow> Queue" where
  "queueOrActivate_locked i e =
     (if maxActiveDownloads e = 0 \<or> countActive e < maxActiveDownloads e then activateDownload i e
      else with_handle i put_in_queue e)"

definition queueOrActivate :: "nat \<Rightarrow> Queue \<Rightarrow> Queue" where
  "queueOrActivate i e =
     (case handle_of i e of
        None \<Rightarrow> e
      | Some h \<Rightarrow> if paused h then e else queueOrActivate_locked i e)"

fun promote_loop :: "int \<Rightarrow> nat list \<Rightarrow> int \<Rightarrow> Queue \<Rightarrow> Queue" where
  "promote_loop cap [] active e = e"
| "promote_loop cap (i # is) active e =
     (if active \<ge> cap then e
      else case handle_of i e of
             None \<Rightarrow> promote_loop cap is active e
           | Some h \<Rightarrow>
               if is_queued h \<and> \<not> paused h then
                 let e = activateDownload i e
                 in promote_loop cap is (case handle_of i e of Some h \<Rightarrow> if isActive h then active + 1 else active | None \<Rightarrow> active) e
               else promote_loop cap is active e)"

definition promoteQueued :: "Queue \<Rightarrow> Queue" where
  "promoteQueued e =
     (let handles = map h_id (sort_key queueOrder (q_handles e)) in
      if maxActiveDownloads e = 0 then
        fold (\<lambda>i e. case handle_of i e of None \<Rightarrow> e | Some h \<Rightarrow> if is_queued h then activateDownload i e else e) handles e
      else promote_loop (maxActiveDownloads e) handles (countActive e) e)"

definition SetMaxActiveDownloads :: "int \<Rightarrow> Queue \<Rightarrow> Queue" where
  "SetMaxActiveDownloads n e = promoteQueued (e\<lparr>maxActiveDownloads := (if n < 0 then 0 else n)\<rparr>)"

section \<open>Operations\<close>

datatype engine_error = ErrInvalidInfohash | ErrNoTorrent | ErrNoMetadata | ErrFileIndex | ErrPriority

definition by_hash :: "bytes \<Rightarrow> Queue \<Rightarrow> Handle option" where
  "by_hash ih e = find (\<lambda>h. h_InfoHash h = ih) (q_handles e)"

definition handleByHex :: "string \<Rightarrow> Queue \<Rightarrow> engine_error + Handle" where
  "handleByHex ihHex e =
     (case hex_DecodeString ihHex of
        None \<Rightarrow> Inl ErrInvalidInfohash
      | Some ih \<Rightarrow>
          if length ihHex \<noteq> 40 then Inl ErrInvalidInfohash
          else case by_hash ih e of None \<Rightarrow> Inl ErrNoTorrent | Some h \<Rightarrow> Inr h)"

text \<open>An entry of the session that is restored: its flags and its place in the queue.\<close>

record restored =
  rs_Indexing :: bool
  rs_SignedBy :: string
  rs_QueueOrder :: int

text \<open>The library's part of a new handle: no file is wanted until the engine says so.\<close>

definition new_handle :: "nat \<Rightarrow> bytes \<Rightarrow> bool \<Rightarrow> bool \<Rightarrow> Handle" where
  "new_handle i ih is_paused is_companion = \<lparr>h_id = i, h_InfoHash = ih, paused = is_paused, is_queued = False, indexing = \<not> is_companion,
     companion = is_companion, queueOrder = 0, signedBy = [], t_Info = False, t_Files = [], t_BytesMissing = 0, t_Download = True, t_Upload = True\<rparr>"

definition registerLockedRestore :: "bytes \<Rightarrow> bool \<Rightarrow> restored option \<Rightarrow> bool \<Rightarrow> Queue \<Rightarrow> (Handle \<times> bool) \<times> Queue" where
  "registerLockedRestore ih is_paused restore is_companion e =
     (case by_hash ih e of
        Some h \<Rightarrow> ((h, True), e)
      | None \<Rightarrow>
          let i = q_fresh e;
              h = new_handle i ih is_paused is_companion;
              (h, e) = (case restore of
                 Some r \<Rightarrow> (h\<lparr>indexing := rs_Indexing r, signedBy := rs_SignedBy r, queueOrder := rs_QueueOrder r\<rparr>,
                            if nextQueueOrder e < rs_QueueOrder r then e\<lparr>nextQueueOrder := rs_QueueOrder r\<rparr> else e)
               | None \<Rightarrow> (h\<lparr>queueOrder := nextQueueOrder e + 1\<rparr>, e\<lparr>nextQueueOrder := nextQueueOrder e + 1\<rparr>))
          in ((h, False), spawn [AutoDownload i, WatchCompletion i] (e\<lparr>q_handles := q_handles e @ [h], q_fresh := i + 1\<rparr>)))"

definition PauseTorrent :: "string \<Rightarrow> Queue \<Rightarrow> engine_error option \<times> Queue" where
  "PauseTorrent ihHex e =
     (case handleByHex ihHex e of
        Inl err \<Rightarrow> (Some err, e)
      | Inr h \<Rightarrow>
          if paused h then (None, e)
          else (None, spawn [PromoteQueued] (with_handle (h_id h) (\<lambda>h. h\<lparr>paused := True, t_Download := False, t_Upload := False\<rparr>) e)))"

definition ResumeTorrent :: "string \<Rightarrow> Queue \<Rightarrow> engine_error option \<times> Queue" where
  "ResumeTorrent ihHex e =
     (case handleByHex ihHex e of
        Inl err \<Rightarrow> (Some err, e)
      | Inr h \<Rightarrow>
          if \<not> paused h then (None, e)
          else (None, spawn [Activate (h_id h)] (with_handle (h_id h) (\<lambda>h. h\<lparr>paused := False, t_Download := True, t_Upload := True\<rparr>) e)))"

definition RemoveTorrent :: "string \<Rightarrow> Queue \<Rightarrow> engine_error option \<times> Queue" where
  "RemoveTorrent ihHex e =
     (case handleByHex ihHex e of
        Inl err \<Rightarrow> (Some err, e)
      | Inr h \<Rightarrow> (None, spawn [PromoteQueued] (e\<lparr>q_handles := filter (\<lambda>k. h_id k \<noteq> h_id h) (q_handles e)\<rparr>)))"

definition parsePriority :: "string \<Rightarrow> PiecePriority option" where
  "parsePriority s =
     (if s = ''none'' then Some PriorityNone
      else if s = ''normal'' \<or> s = [] then Some PriorityNormal
      else if s = ''high'' then Some PriorityHigh
      else None)"

definition priorityLabel :: "PiecePriority \<Rightarrow> string" where
  "priorityLabel p = (case p of PriorityNone \<Rightarrow> ''none'' | PriorityHigh \<Rightarrow> ''high'' | _ \<Rightarrow> ''normal'')"

record FileSnapshot =
  Index :: nat
  Path :: string
  DisplayPath :: string
  Length :: int
  BytesCompleted :: int
  Progress :: rat
  Priority :: string

definition file_snapshot :: "nat \<times> TorrentFile \<Rightarrow> FileSnapshot" where
  "file_snapshot = (\<lambda>(i, f).
     \<lparr>Index = i, Path = f_Path f, DisplayPath = f_DisplayPath f, Length = f_Length f, BytesCompleted = f_BytesCompleted f,
      Progress = (if f_Length f > 0 then (let p = of_int (f_BytesCompleted f) / of_int (f_Length f) in if p > 1 then 1 else p) else 0),
      Priority = priorityLabel (f_Priority f)\<rparr>)"

definition TorrentFiles :: "string \<Rightarrow> Queue \<Rightarrow> engine_error + FileSnapshot list" where
  "TorrentFiles ihHex e =
     (case handleByHex ihHex e of
        Inl err \<Rightarrow> Inl err
      | Inr h \<Rightarrow> Inr (if \<not> t_Info h then [] else map file_snapshot (enumerate 0 (t_Files h))))"

definition SetFilePriority :: "string \<Rightarrow> int \<Rightarrow> string \<Rightarrow> Queue \<Rightarrow> engine_error option \<times> Queue" where
  "SetFilePriority ihHex index priority e =
     (case handleByHex ihHex e of
        Inl err \<Rightarrow> (Some err, e)
      | Inr h \<Rightarrow>
          if \<not> t_Info h then (Some ErrNoMetadata, e)
          else if index < 0 \<or> index \<ge> int (length (t_Files h)) then (Some ErrFileIndex, e)
          else (case parsePriority priority of
                  None \<Rightarrow> (Some ErrPriority, e)
                | Some p \<Rightarrow>
                    (None, spawn [PromoteQueued]
                       (with_handle (h_id h) (\<lambda>h. h\<lparr>t_Files := (t_Files h)[nat index := (t_Files h ! nat index)\<lparr>f_Priority := p\<rparr>]\<rparr>) e))))"

definition QueueMoveToFront :: "string \<Rightarrow> Queue \<Rightarrow> engine_error option \<times> Queue" where
  "QueueMoveToFront ihHex e =
     (case handleByHex ihHex e of
        Inl err \<Rightarrow> (Some err, e)
      | Inr h \<Rightarrow>
          let m = fold (\<lambda>other m. if queueOrder other < m then queueOrder other else m) (q_handles e) (queueOrder h)
          in (None, spawn [PromoteQueued] (with_handle (h_id h) (\<lambda>h. h\<lparr>queueOrder := m - 1\<rparr>) e)))"

definition QueueMoveToBack :: "string \<Rightarrow> Queue \<Rightarrow> engine_error option \<times> Queue" where
  "QueueMoveToBack ihHex e =
     (case handleByHex ihHex e of
        Inl err \<Rightarrow> (Some err, e)
      | Inr h \<Rightarrow>
          let m = fold (\<lambda>other m. if queueOrder other > m then queueOrder other else m) (q_handles e) (queueOrder h)
          in (None, with_handle (h_id h) (\<lambda>h. h\<lparr>queueOrder := m + 1\<rparr>) e))"

section \<open>Runs\<close>

text \<open>One step of a pending task; \<open>None\<close> while it waits.\<close>

definition run_task :: "task \<Rightarrow> Queue \<Rightarrow> Queue option" where
  "run_task t e =
     (case t of
        AutoDownload i \<Rightarrow>
          (case handle_of i e of
             None \<Rightarrow> Some e
           | Some h \<Rightarrow> if \<not> t_Info h then None else if q_closed e then Some e else Some (spawn [Activate i] e))
      | Activate i \<Rightarrow>
          (case handle_of i e of
             None \<Rightarrow> Some e
           | Some h \<Rightarrow> Some (if paused h then e else spawn [ActivateChecked i] e))
      | ActivateChecked i \<Rightarrow> Some (queueOrActivate_locked i e)
      | WatchCompletion i \<Rightarrow>
          (case handle_of i e of
             None \<Rightarrow> Some e
           | Some h \<Rightarrow> if t_Info h \<and> t_BytesMissing h \<le> 0 then Some (spawn [PromoteQueued] e) else None)
      | PromoteQueued \<Rightarrow> Some (promoteQueued e))"

datatype queue_op = OpAdd bytes bool "restored option" bool | OpPause string | OpResume string | OpRemove string | OpSetMax int
  | OpSetPriority string int string | OpToFront string | OpToBack string | OpMetadata nat "TorrentFile list" int | OpProgress nat int
  | OpTask nat | OpClose

text \<open>Metadata arrives once; then no file is wanted yet.\<close>

definition metadata :: "TorrentFile list \<Rightarrow> int \<Rightarrow> Handle \<Rightarrow> Handle" where
  "metadata fs missing h =
     (if t_Info h then h else set_priorities PriorityNone (h\<lparr>t_Info := True, t_Files := fs, t_BytesMissing := missing\<rparr>))"

definition add_torrent :: "bytes \<Rightarrow> bool \<Rightarrow> restored option \<Rightarrow> bool \<Rightarrow> Queue \<Rightarrow> Queue" where
  "add_torrent ih is_paused restore is_companion e =
     (let ((h, existed), e) = registerLockedRestore ih is_paused restore is_companion e
      in if \<not> existed \<and> is_paused then with_handle (h_id h) (\<lambda>h. h\<lparr>t_Download := False, t_Upload := False\<rparr>) e else e)"

fun queue_step :: "queue_op \<Rightarrow> Queue \<Rightarrow> Queue" where
  "queue_step (OpAdd ih p r c) e = add_torrent ih p r c e"
| "queue_step (OpPause ih) e = snd (PauseTorrent ih e)"
| "queue_step (OpResume ih) e = snd (ResumeTorrent ih e)"
| "queue_step (OpRemove ih) e = snd (RemoveTorrent ih e)"
| "queue_step (OpSetMax n) e = SetMaxActiveDownloads n e"
| "queue_step (OpSetPriority ih i p) e = snd (SetFilePriority ih i p e)"
| "queue_step (OpToFront ih) e = snd (QueueMoveToFront ih e)"
| "queue_step (OpToBack ih) e = snd (QueueMoveToBack ih e)"
| "queue_step (OpMetadata i fs m) e = with_handle i (metadata fs m) e"
| "queue_step (OpProgress i m) e = with_handle i (\<lambda>h. h\<lparr>t_BytesMissing := m\<rparr>) e"
| "queue_step (OpTask k) e =
     (if k < length (q_tasks e)
      then (case run_task (q_tasks e ! k) (e\<lparr>q_tasks := take k (q_tasks e) @ drop (Suc k) (q_tasks e)\<rparr>) of None \<Rightarrow> e | Some e \<Rightarrow> e)
      else e)"
| "queue_step OpClose e = e\<lparr>q_closed := True\<rparr>"

definition empty_queue :: "int \<Rightarrow> Queue" where
  "empty_queue n = \<lparr>q_handles = [], maxActiveDownloads = n, nextQueueOrder = 0, q_closed = False, q_tasks = [], q_fresh = 0\<rparr>"

section \<open>Promotion\<close>

definition eligible :: "Handle \<Rightarrow> bool" where "eligible h \<longleftrightarrow> is_queued h \<and> \<not> paused h"

definition ids_ok :: "Queue \<Rightarrow> bool" where
  "ids_ok e \<longleftrightarrow> distinct (map h_id (q_handles e)) \<and> (\<forall>h \<in> set (q_handles e). h_id h < q_fresh e)"

lemma activated_fields [simp]:
  "h_id (activated h) = h_id h" "is_queued (activated h) = False" "paused (activated h) = paused h" "queueOrder (activated h) = queueOrder h"
  "h_InfoHash (activated h) = h_InfoHash h"
  "h_id (put_in_queue h) = h_id h" "is_queued (put_in_queue h)" "t_Download (put_in_queue h) = False" "h_InfoHash (put_in_queue h) = h_InfoHash h"
  "paused (put_in_queue h) = paused h"
  by (simp_all add: activated_def put_in_queue_def set_priorities_def Let_def)

lemma handle_of_Some: "ids_ok e \<Longrightarrow> handle_of i e = Some h \<longleftrightarrow> h \<in> set (q_handles e) \<and> h_id h = i"
  unfolding handle_of_def ids_ok_def
proof (induction "q_handles e" arbitrary: e)
  case (Cons k ks)
  have "ks = q_handles (e\<lparr>q_handles := ks\<rparr>)" by simp
  from Cons.hyps(1) [OF this] Cons.prems Cons.hyps(2) [symmetric] show ?case by (auto simp: image_iff)
qed auto

lemma handle_of_None: "handle_of i e = None \<longleftrightarrow> i \<notin> h_id ` set (q_handles e)"
  by (auto simp: handle_of_def find_None_iff)

lemma with_handle_fields [simp]:
  "q_tasks (with_handle i f e) = q_tasks e" "maxActiveDownloads (with_handle i f e) = maxActiveDownloads e" "q_fresh (with_handle i f e) = q_fresh e"
  by (simp_all add: with_handle_def)

lemma with_handle_ids:
  assumes "\<And>h. h_id (f h) = h_id h"
  shows "map h_id (q_handles (with_handle i f e)) = map h_id (q_handles e)" and "ids_ok (with_handle i f e) = ids_ok e"
proof -
  show m: "map h_id (q_handles (with_handle i f e)) = map h_id (q_handles e)" using assms by (simp add: with_handle_def)
  have I: "ids_ok e' \<longleftrightarrow> distinct (map h_id (q_handles e')) \<and> (\<forall>j \<in> set (map h_id (q_handles e')). j < q_fresh e')" for e' by (simp add: ids_ok_def)
  show "ids_ok (with_handle i f e) = ids_ok e" by (simp only: I m with_handle_fields)
qed

text \<open>Changing the one handle of an identifier changes the count by what that handle contributes.\<close>

lemma count_with_handle:
  assumes "ids_ok e" and "h \<in> set (q_handles e)" and "h_id h = i"
  shows "countActive (with_handle i f e) = countActive e - (if isActive h then 1 else 0) + (if isActive (f h) then 1 else 0)"
proof -
  have one: "int (length (filter isActive (map (\<lambda>k. if h_id k = i then f k else k) hs))) =
    int (length (filter isActive hs)) - (if isActive h then 1 else 0) + (if isActive (f h) then 1 else 0)"
    if "distinct (map h_id hs)" "h \<in> set hs" for hs
    using that
  proof (induction hs)
    case (Cons k ks)
    show ?case
    proof (cases "k = h")
      case True
      then have "map (\<lambda>k. if h_id k = i then f k else k) ks = ks" using Cons.prems(1) assms(3) by (auto simp: image_iff intro!: map_idI)
      then show ?thesis using True assms(3) by simp
    next
      case False
      then have "h \<in> set ks" "h_id k \<noteq> i" using Cons.prems assms(3) by auto
      then show ?thesis using Cons.IH Cons.prems(1) by (simp split: if_splits)
    qed
  qed simp
  show ?thesis using one assms(1,2) by (simp add: countActive_def with_handle_def ids_ok_def)
qed

lemma activate_eligible:
  assumes "ids_ok e" and "handle_of i e = Some h" and "eligible h"
  shows "ids_ok (activateDownload i e)" and "handle_of i (activateDownload i e) = Some (activated h)"
    and "countActive (activateDownload i e) = countActive e + (if isActive (activated h) then 1 else 0)"
    and "activateDownload i e = with_handle i activated e"
proof -
  have h: "h \<in> set (q_handles e)" "h_id h = i" using assms(1,2) by (simp_all add: handle_of_Some)
  have same: "k = h" if "k \<in> set (q_handles e)" "h_id k = i" for k using that h assms(1) by (auto simp: ids_ok_def dest: inj_onD [OF distinct_map [THEN iffD1, THEN conjunct2]])
  show eq: "activateDownload i e = with_handle i activated e"
    unfolding activateDownload_def with_handle_def using same assms(3) by (intro arg_cong [where f = "\<lambda>hs. e\<lparr>q_handles := hs\<rparr>"] map_cong) (auto simp: eligible_def)
  show ok: "ids_ok (activateDownload i e)" unfolding eq using assms(1) by (simp add: with_handle_ids)
  show "countActive (activateDownload i e) = countActive e + (if isActive (activated h) then 1 else 0)"
    unfolding eq using count_with_handle [OF assms(1) h] assms(3) by (simp add: isActive_def eligible_def)
  have "activated h \<in> set (q_handles (activateDownload i e))" unfolding eq using h by (force simp: with_handle_def)
  then show "handle_of i (activateDownload i e) = Some (activated h)" using handle_of_Some [OF ok] h(2) by simp
qed

definition promoted :: "nat set \<Rightarrow> Handle \<Rightarrow> Handle" where
  "promoted I h = (if h_id h \<in> I \<and> eligible h then activated h else h)"

lemma unique_handle: "ids_ok e \<Longrightarrow> h \<in> set (q_handles e) \<Longrightarrow> k \<in> set (q_handles e) \<Longrightarrow> h_id h = h_id k \<Longrightarrow> h = k"
  by (metis handle_of_Some option.inject)

lemma promoted_id [simp]: "h_id (promoted I h) = h_id h"
  by (simp add: promoted_def)

lemma promote_loop_prefix:
  assumes "ids_ok e" and "distinct is" and "active = countActive e"
  shows "\<exists>k. q_handles (promote_loop cap is active e) = map (promoted (set (take k is))) (q_handles e) \<and>
    (k = length is \<or> countActive (promote_loop cap is active e) \<ge> cap) \<and>
    countActive (promote_loop cap is active e) \<le> max cap (countActive e) \<and>
    q_tasks (promote_loop cap is active e) = q_tasks e \<and> q_fresh (promote_loop cap is active e) = q_fresh e"
  using assms
proof (induction "is" arbitrary: active e)
  case Nil
  show ?case by (intro exI [of _ 0]) (simp add: promoted_def)
next
  case (Cons i "is")
  show ?case
  proof (cases "active \<ge> cap")
    case True
    then show ?thesis using Cons.prems(3) by (intro exI [of _ 0]) (simp add: promoted_def)
  next
    case False
    show ?thesis
    proof (cases "\<exists>h. handle_of i e = Some h \<and> eligible h")
      case True
      then obtain h where h: "handle_of i e = Some h" "eligible h" by blast
      define e1 where "e1 = activateDownload i e"
      define a1 where "a1 = (if isActive (activated h) then active + 1 else active)"
      note A = activate_eligible [OF Cons.prems(1) h, folded e1_def]
      have cnt: "a1 = countActive e1" using A(3) Cons.prems(3) by (simp add: a1_def)
      have run: "promote_loop cap (i # is) active e = promote_loop cap is a1 e1"
        using False h A(2) by (simp add: eligible_def a1_def e1_def Let_def)
      obtain k where k: "q_handles (promote_loop cap is a1 e1) = map (promoted (set (take k is))) (q_handles e1)"
        "k = length is \<or> countActive (promote_loop cap is a1 e1) \<ge> cap" "countActive (promote_loop cap is a1 e1) \<le> max cap (countActive e1)"
        "q_tasks (promote_loop cap is a1 e1) = q_tasks e1" "q_fresh (promote_loop cap is a1 e1) = q_fresh e1"
        using Cons.IH [OF A(1) _ cnt] Cons.prems(2) by auto
      have "promoted (set (take k is)) (if h_id g = i then activated g else g) = promoted (set (take (Suc k) (i # is))) g" if "g \<in> set (q_handles e)" for g
      proof (cases "h_id g = i")
        case True
        then have "g = h" using that h(1) unique_handle [OF Cons.prems(1)] handle_of_Some [OF Cons.prems(1)] by metis
        then show ?thesis using True h(2) by (simp add: promoted_def eligible_def)
      qed (simp add: promoted_def)
      then have "q_handles (promote_loop cap is a1 e1) = map (promoted (set (take (Suc k) (i # is)))) (q_handles e)"
        unfolding k(1) by (simp add: A(4) with_handle_def)
      moreover have "max cap (countActive e1) = max cap (countActive e)" using False Cons.prems(3) cnt by (simp add: a1_def split: if_splits)
      ultimately show ?thesis unfolding run using k(2-5) A(4) by (intro exI [of _ "Suc k"]) simp
    next
      case no: False
      then have run: "promote_loop cap (i # is) active e = promote_loop cap is active e"
        using False by (auto simp: eligible_def split: option.split)
      obtain k where k: "q_handles (promote_loop cap is active e) = map (promoted (set (take k is))) (q_handles e)"
        "k = length is \<or> countActive (promote_loop cap is active e) \<ge> cap" "countActive (promote_loop cap is active e) \<le> max cap (countActive e)"
        "q_tasks (promote_loop cap is active e) = q_tasks e" "q_fresh (promote_loop cap is active e) = q_fresh e"
        using Cons.IH [OF Cons.prems(1) _ Cons.prems(3)] Cons.prems(2) by auto
      have "promoted (set (take k is)) g = promoted (set (take (Suc k) (i # is))) g" if "g \<in> set (q_handles e)" for g
        using no that handle_of_Some [OF Cons.prems(1)] by (auto simp: promoted_def)
      then have "q_handles (promote_loop cap is active e) = map (promoted (set (take (Suc k) (i # is)))) (q_handles e)"
        unfolding k(1) by simp
      then show ?thesis unfolding run using k(2-5) by (intro exI [of _ "Suc k"]) simp
    qed
  qed
qed

text \<open>The first of a list that is sorted comes before every later one.\<close>

lemma sorted_prefix:
  assumes "sorted (map f xs)" and "distinct (map g xs)" and "x \<in> set xs" and "y \<in> set xs" and "f x < f y" and "g y \<in> set (take k (map g xs))"
  shows "g x \<in> set (take k (map g xs))"
proof -
  obtain i j where i: "i < length xs" "xs ! i = x" and j: "j < length xs" "xs ! j = y" using assms(3,4) by (metis in_set_conv_nth)
  have "i < j"
  proof (rule ccontr)
    assume "\<not> i < j"
    then have "f y \<le> f x" using sorted_nth_mono [OF assms(1), of j i] i j by simp
    then show False using assms(5) by simp
  qed
  obtain m where m: "m < k" "m < length xs" "g (xs ! m) = g y" using assms(6) by (auto simp: in_set_conv_nth)
  have "map g xs ! m = map g xs ! j" using m j by simp
  then have "m = j" using nth_eq_iff_index_eq [OF assms(2)] m(2) j(1) by (metis length_map)
  then have "take k (map g xs) ! i = g x" "i < length (take k (map g xs))" using \<open>i < j\<close> m i by simp_all
  then show ?thesis by (metis nth_mem)
qed

section \<open>The gate\<close>

definition deciding :: "Queue \<Rightarrow> nat set" where
  "deciding e = {i. Activate i \<in> set (q_tasks e) \<or> ActivateChecked i \<in> set (q_tasks e)}"

text \<open>A torrent that waits in the queue and is not paused may download only while a goroutine is about to decide on it.\<close>

definition gated :: "nat set \<Rightarrow> Handle \<Rightarrow> bool" where
  "gated I h \<longleftrightarrow> (eligible h \<and> t_Download h \<longrightarrow> h_id h \<in> I)"

definition gate_inv :: "Queue \<Rightarrow> bool" where
  "gate_inv e \<longleftrightarrow> ids_ok e \<and> (\<forall>h \<in> set (q_handles e). gated (deciding e) h)"

lemma gated_mono: "gated I h \<Longrightarrow> I \<subseteq> J \<Longrightarrow> gated J h"
  by (auto simp: gated_def)

lemma gated_activated [simp]: "gated I (activated h)" "gated I (put_in_queue h)"
  by (simp_all add: gated_def eligible_def)

lemma deciding_spawn: "deciding e \<subseteq> deciding (spawn ts e)"
  by (auto simp: deciding_def spawn_def)

lemma gate_spawn: "gate_inv e \<Longrightarrow> gate_inv (spawn ts e)"
  using deciding_spawn [of e ts] by (auto simp: gate_inv_def ids_ok_def spawn_def intro: gated_mono)

lemma gate_with:
  assumes "gate_inv e" and "\<And>h. h_id (f h) = h_id h" and "\<And>h. gated (deciding e) h \<Longrightarrow> gated (deciding e) (f h)"
  shows "gate_inv (with_handle i f e)"
proof -
  have "deciding (with_handle i f e) = deciding e" by (simp add: deciding_def)
  then show ?thesis using assms with_handle_ids(2) [of f i e] by (auto simp: gate_inv_def with_handle_def)
qed

lemma gate_activate: "gate_inv e \<Longrightarrow> gate_inv (activateDownload i e)"
  unfolding activateDownload_def by (rule gate_with) auto

lemma gate_config: "gate_inv (e\<lparr>maxActiveDownloads := n\<rparr>) = gate_inv e" "gate_inv (e\<lparr>q_closed := b\<rparr>) = gate_inv e"
  by (simp_all add: gate_inv_def ids_ok_def deciding_def)

lemma gate_promote:
  assumes "gate_inv e"
  shows "gate_inv (promoteQueued e)"
proof (cases "maxActiveDownloads e = 0")
  case True
  have "gate_inv (fold (\<lambda>i e. case handle_of i e of None \<Rightarrow> e | Some h \<Rightarrow> if is_queued h then activateDownload i e else e) is e)" for "is"
    using assms by (induction "is" arbitrary: e) (auto simp: gate_activate split: option.split)
  then show ?thesis using True by (simp add: promoteQueued_def Let_def)
next
  case False
  let ?is = "map h_id (sort_key queueOrder (q_handles e))"
  have "distinct ?is" using assms by (auto simp: gate_inv_def ids_ok_def distinct_map)
  then obtain k where k: "q_handles (promoteQueued e) = map (promoted (set (take k ?is))) (q_handles e)"
    "q_tasks (promoteQueued e) = q_tasks e" "q_fresh (promoteQueued e) = q_fresh e"
    using promote_loop_prefix [of e ?is "countActive e" "maxActiveDownloads e"] assms False by (auto simp: gate_inv_def promoteQueued_def Let_def)
  have "gated I (promoted J h)" if "gated I h" for I J h using that by (simp add: promoted_def)
  then show ?thesis using assms k by (auto simp: gate_inv_def ids_ok_def deciding_def comp_def)
qed

fun decides :: "task \<Rightarrow> nat set" where
  "decides (Activate i) = {i}"
| "decides (ActivateChecked i) = {i}"
| "decides t = {}"

lemma gate_unless:
  assumes "ids_ok e" and "\<forall>h \<in> set (q_handles e). h_id h \<noteq> i \<longrightarrow> gated (deciding e) h"
    and "\<And>h. h_id (f h) = h_id h" and "\<And>h. h \<in> set (q_handles e) \<Longrightarrow> h_id h = i \<Longrightarrow> gated (deciding e) (f h)"
  shows "gate_inv (with_handle i f e)"
proof -
  have "deciding (with_handle i f e) = deciding e" by (simp add: deciding_def)
  then show ?thesis using assms with_handle_ids(2) [of f i e] by (auto simp: gate_inv_def with_handle_def)
qed

lemma gate_task:
  assumes inv: "gate_inv e" and k: "k < length (q_tasks e)"
  shows "gate_inv (queue_step (OpTask k) e)"
proof (cases "run_task (q_tasks e ! k) (e\<lparr>q_tasks := take k (q_tasks e) @ drop (Suc k) (q_tasks e)\<rparr>)")
  case None
  then show ?thesis using inv k by simp
next
  case (Some e2)
  define t where "t = q_tasks e ! k"
  define e1 where "e1 = e\<lparr>q_tasks := take k (q_tasks e) @ drop (Suc k) (q_tasks e)\<rparr>"
  have ts: "q_tasks e1 = take k (q_tasks e) @ drop (Suc k) (q_tasks e)" by (simp add: e1_def)
  have "q_tasks e = take k (q_tasks e) @ t # drop (Suc k) (q_tasks e)" unfolding t_def by (rule id_take_nth_drop [OF k])
  from arg_cong [OF this, of set] have "set (q_tasks e) = insert t (set (q_tasks e1))" unfolding ts by simp
  then have d: "deciding e \<subseteq> deciding e1 \<union> decides t" unfolding deciding_def by (cases t) auto
  have hs: "q_handles e1 = q_handles e" by (simp add: e1_def)
  have ids: "ids_ok e1" using inv by (simp add: gate_inv_def ids_ok_def e1_def)
  have rest: "\<forall>h \<in> set (q_handles e1). h_id h \<notin> decides t \<longrightarrow> gated (deciding e1) h" using inv d by (auto simp: gate_inv_def gated_def hs)
  have idle: "gate_inv e1" if "decides t = {}" using rest ids that by (simp add: gate_inv_def)
  have "gate_inv e2"
  proof (cases t)
    case (AutoDownload i)
    then show ?thesis using Some idle gate_spawn [of e1 "[Activate i]"] by (auto simp: run_task_def t_def [symmetric] e1_def [symmetric] split: option.splits if_splits)
  next
    case (WatchCompletion i)
    then show ?thesis using Some idle gate_spawn [of e1 "[PromoteQueued]"] by (auto simp: run_task_def t_def [symmetric] e1_def [symmetric] split: option.splits if_splits)
  next
    case PromoteQueued
    then show ?thesis using Some idle gate_promote by (auto simp: run_task_def t_def [symmetric] e1_def [symmetric])
  next
    case (Activate i)
    show ?thesis
    proof (cases "handle_of i e1")
      case None
      then have "\<forall>h \<in> set (q_handles e1). h_id h \<noteq> i" by (auto simp: handle_of_None)
      then show ?thesis using None Some Activate rest ids by (simp add: run_task_def t_def [symmetric] e1_def [symmetric] gate_inv_def)
    next
      case (Some h)
      then have h: "g = h" if "g \<in> set (q_handles e1)" "h_id g = i" for g using that ids handle_of_Some [OF ids] unique_handle [OF ids] by metis
      show ?thesis
      proof (cases "paused h")
        case True
        then have "gate_inv e1" using rest ids h Activate by (fastforce simp: gate_inv_def gated_def eligible_def)
        then show ?thesis using \<open>run_task _ _ = Some e2\<close> Some True Activate by (simp add: run_task_def t_def [symmetric] e1_def [symmetric])
      next
        case False
        then have e2: "e2 = spawn [ActivateChecked i] e1" using \<open>run_task _ _ = Some e2\<close> Some Activate by (simp add: run_task_def t_def [symmetric] e1_def [symmetric])
        have "deciding e2 = insert i (deciding e1)" by (auto simp: e2 deciding_def spawn_def)
        then show ?thesis using rest ids Activate by (auto simp: e2 gate_inv_def ids_ok_def spawn_def gated_def)
      qed
    qed
  next
    case (ActivateChecked i)
    have e2: "e2 = queueOrActivate_locked i e1" using Some ActivateChecked by (simp add: run_task_def t_def [symmetric] e1_def [symmetric])
    have "gate_inv (activateDownload i e1)" "gate_inv (with_handle i put_in_queue e1)" unfolding activateDownload_def
      by (rule gate_unless; use ids rest ActivateChecked in \<open>auto simp: gated_def eligible_def\<close>)+
    then show ?thesis by (simp add: e2 queueOrActivate_locked_def)
  qed
  then show ?thesis using Some k by simp
qed

lemma by_hash_Some: "by_hash ih e = Some h \<Longrightarrow> h \<in> set (q_handles e)"
  by (auto simp: by_hash_def find_Some_iff)

lemma handleByHex_member: "handleByHex ihHex e = Inr h \<Longrightarrow> h \<in> set (q_handles e)"
  by (auto simp: handleByHex_def by_hash_Some split: option.splits if_splits)

lemma gate_add:
  assumes "gate_inv e"
  shows "gate_inv (add_torrent ih p r c e)"
proof (cases "by_hash ih e")
  case (Some h)
  then show ?thesis using assms by (simp add: add_torrent_def registerLockedRestore_def)
next
  case None
  have new: "gate_inv (spawn ts (e\<lparr>nextQueueOrder := m, q_handles := q_handles e @ [h], q_fresh := Suc (q_fresh e)\<rparr>))"
    "gate_inv (spawn ts (e\<lparr>q_handles := q_handles e @ [h], q_fresh := Suc (q_fresh e)\<rparr>))"
    if "h_id h = q_fresh e" "\<not> is_queued h" for h m ts
    by (intro gate_spawn; use assms that in \<open>fastforce simp: gate_inv_def ids_ok_def deciding_def gated_def eligible_def\<close>)+
  have "gate_inv (snd (registerLockedRestore ih p r c e))" using None by (auto simp: registerLockedRestore_def Let_def new_handle_def new split: option.split)
  moreover have "gated I (h\<lparr>t_Download := False, t_Upload := False\<rparr>)" for I h by (simp add: gated_def eligible_def)
  ultimately show ?thesis by (auto simp: add_torrent_def split: prod.split intro!: gate_with)
qed

lemma gate_same:
  assumes "gate_inv e" and "\<And>h. h_id (f h) = h_id h \<and> is_queued (f h) = is_queued h \<and> paused (f h) = paused h \<and> t_Download (f h) = t_Download h"
  shows "gate_inv (with_handle i f e)"
  using assms(1) by (rule gate_with) (use assms(2) in \<open>simp_all add: gated_def eligible_def\<close>)

lemma gate_step: "gate_inv e \<Longrightarrow> gate_inv (queue_step op e)"
proof (cases op)
  case (OpTask k)
  assume "gate_inv e"
  then show ?thesis using gate_task [of e k] by (cases "k < length (q_tasks e)") (simp_all add: OpTask)
next
  case (OpResume ihHex)
  assume inv: "gate_inv e"
  show ?thesis
  proof (cases "handleByHex ihHex e")
    case (Inr h)
    let ?e = "with_handle (h_id h) (\<lambda>h. h\<lparr>paused := False, t_Download := True, t_Upload := True\<rparr>) e"
    have ids: "ids_ok ?e" using inv with_handle_ids(2) [of "\<lambda>h. h\<lparr>paused := False, t_Download := True, t_Upload := True\<rparr>" "h_id h" e] by (simp add: gate_inv_def)
    have "deciding (spawn [Activate (h_id h)] ?e) = insert (h_id h) (deciding e)" by (auto simp: deciding_def spawn_def)
    then have "gate_inv (spawn [Activate (h_id h)] ?e)" using inv ids by (auto simp: gate_inv_def ids_ok_def spawn_def with_handle_def gated_def)
    then show ?thesis using inv Inr by (simp add: OpResume ResumeTorrent_def)
  qed (use inv in \<open>simp add: OpResume ResumeTorrent_def\<close>)
next
  case (OpPause ihHex)
  assume "gate_inv e"
  then show ?thesis by (auto simp: OpPause PauseTorrent_def gated_def eligible_def intro!: gate_spawn gate_with split: sum.split)
next
  case (OpRemove ihHex)
  assume "gate_inv e"
  moreover have "gate_inv (e\<lparr>q_handles := filter P (q_handles e)\<rparr>)" if "gate_inv e" for P
    using that by (auto simp: gate_inv_def ids_ok_def deciding_def distinct_map_filter)
  ultimately show ?thesis by (auto simp: OpRemove RemoveTorrent_def intro!: gate_spawn split: sum.split)
next
  case (OpSetPriority ihHex i p)
  assume "gate_inv e"
  then show ?thesis by (auto simp: OpSetPriority SetFilePriority_def intro!: gate_spawn gate_same split: sum.split option.split)
next
  case (OpToFront ihHex)
  assume "gate_inv e"
  then show ?thesis by (auto simp: OpToFront QueueMoveToFront_def Let_def intro!: gate_spawn gate_same split: sum.split)
next
  case (OpToBack ihHex)
  assume "gate_inv e"
  then show ?thesis by (auto simp: OpToBack QueueMoveToBack_def Let_def intro!: gate_same split: sum.split)
qed (auto simp: gate_add SetMaxActiveDownloads_def gate_promote gate_config metadata_def set_priorities_def intro!: gate_same split: if_splits)

lemma gate_run: "gate_inv (fold queue_step ops (empty_queue n))"
proof -
  have "gate_inv (fold queue_step ops e)" if "gate_inv e" for e using that by (induction ops arbitrary: e) (simp_all add: gate_step)
  then show ?thesis by (simp add: gate_inv_def ids_ok_def empty_queue_def)
qed

section \<open>Properties\<close>

text \<open>
  C34: promotion.  In every reachable state with a cap, a promotion pass takes torrents off the queue in
  order: what it promotes is a set closed under coming earlier, everything else is left as it was; it
  stops only when no queued torrent is left that may run, or the cap is reached; and neither it nor the
  activation of a torrent brings the number of active torrents above the cap.
\<close>

theorem promotion_fifo:
  assumes "e = fold queue_step ops (empty_queue n)" and "0 < maxActiveDownloads e"
  shows "\<exists>I. q_handles (promoteQueued e) = map (promoted I) (q_handles e) \<and>
    (\<forall>x \<in> set (q_handles e). \<forall>y \<in> set (q_handles e). queueOrder x < queueOrder y \<and> h_id y \<in> I \<longrightarrow> h_id x \<in> I) \<and>
    ((\<forall>h \<in> set (q_handles (promoteQueued e)). \<not> eligible h) \<or> maxActiveDownloads e \<le> countActive (promoteQueued e)) \<and>
    countActive (promoteQueued e) \<le> max (maxActiveDownloads e) (countActive e) \<and>
    countActive (queueOrActivate i e) \<le> max (maxActiveDownloads e) (countActive e)"
proof -
  let ?hs = "sort_key queueOrder (q_handles e)"
  have ids: "ids_ok e" using gate_run [of ops n] by (simp add: gate_inv_def assms(1))
  then have d: "distinct (map h_id ?hs)" by (auto simp: ids_ok_def distinct_map)
  have run: "promoteQueued e = promote_loop (maxActiveDownloads e) (map h_id ?hs) (countActive e) e" using assms(2) by (simp add: promoteQueued_def Let_def)
  obtain k where k: "q_handles (promoteQueued e) = map (promoted (set (take k (map h_id ?hs)))) (q_handles e)"
    "k = length (map h_id ?hs) \<or> countActive (promoteQueued e) \<ge> maxActiveDownloads e"
    "countActive (promoteQueued e) \<le> max (maxActiveDownloads e) (countActive e)"
    using promote_loop_prefix [OF ids d refl, of "maxActiveDownloads e"] unfolding run by blast
  have fifo: "\<forall>x \<in> set (q_handles e). \<forall>y \<in> set (q_handles e). queueOrder x < queueOrder y \<and> h_id y \<in> set (take k (map h_id ?hs)) \<longrightarrow> h_id x \<in> set (take k (map h_id ?hs))"
    using sorted_prefix [OF sorted_sort_key d] by simp
  have "\<forall>h \<in> set (q_handles (promoteQueued e)). \<not> eligible h" if "k = length (map h_id ?hs)"
    unfolding k(1) that by (auto simp: promoted_def eligible_def)
  moreover have "countActive (queueOrActivate i e) \<le> max (maxActiveDownloads e) (countActive e)"
  proof (cases "handle_of i e")
    case (Some h)
    then have h: "h \<in> set (q_handles e)" "h_id h = i" by (simp_all add: handle_of_Some [OF ids])
    show ?thesis using assms(2) Some count_with_handle [OF ids h, of put_in_queue] count_with_handle [OF ids h, of "\<lambda>h. if paused h then h else activated h"]
      by (auto simp: queueOrActivate_def queueOrActivate_locked_def activateDownload_def isActive_def)
  qed (simp add: queueOrActivate_def)
  ultimately show ?thesis using k fifo by blast
qed


section \<open>Concrete runs\<close>

definition lab_torrent :: string where "lab_torrent = hex_EncodeToString (replicate 20 1)"

definition lab_file :: TorrentFile where
  "lab_file = \<lparr>f_Path = ''a'', f_DisplayPath = ''a'', f_Length = 1, f_BytesCompleted = 0, f_Priority = PriorityNone\<rparr>"

text \<open>
  One torrent under a cap of one is paused and resumed.  When it is resumed it counts itself as active,
  so it is queued behind itself, and nothing promotes it: no torrent runs, and no task is left but the
  watch for a completion that cannot come.
\<close>

definition lab_download :: "queue_op list" where
  "lab_download = [OpAdd (replicate 20 1) False None False, OpMetadata 0 [lab_file] 1, OpTask 0, OpTask 1, OpTask 1]"

lemma pause_resume_strands:
  "let e = fold queue_step (lab_download @ [OpPause lab_torrent, OpTask 1, OpResume lab_torrent, OpTask 1, OpTask 1]) (empty_queue 1)
   in map eligible (q_handles e) = [True] \<and> countActive e = 0 \<and> maxActiveDownloads e = 1 \<and> q_tasks e = [WatchCompletion 0]"
  by code_simp

text \<open>A second torrent is queued behind the first, then paused and resumed.\<close>

definition lab_second :: string where "lab_second = hex_EncodeToString (replicate 20 2)"

definition lab_waiting :: "queue_op list" where
  "lab_waiting = lab_download @ [OpAdd (replicate 20 2) False None False, OpMetadata 1 [lab_file] 1, OpTask 1, OpTask 2, OpTask 2]"

lemma lab_waits: "map eligible (q_handles (fold queue_step lab_waiting (empty_queue 1))) = [False, True]" by code_simp

theorem promotion_fifo_witness:
  "let e = fold queue_step lab_waiting (empty_queue 1)
   in \<exists>I. q_handles (promoteQueued e) = map (promoted I) (q_handles e) \<and> countActive (promoteQueued e) \<le> 1"
proof -
  have "0 < maxActiveDownloads (fold queue_step lab_waiting (empty_queue 1))" by code_simp
  from promotion_fifo [OF refl this, of 0]
  obtain I where I: "q_handles (promoteQueued (fold queue_step lab_waiting (empty_queue 1))) = map (promoted I) (q_handles (fold queue_step lab_waiting (empty_queue 1)))"
    "countActive (promoteQueued (fold queue_step lab_waiting (empty_queue 1))) \<le>
     max (maxActiveDownloads (fold queue_step lab_waiting (empty_queue 1))) (countActive (fold queue_step lab_waiting (empty_queue 1)))" by blast
  have "max (maxActiveDownloads (fold queue_step lab_waiting (empty_queue 1))) (countActive (fold queue_step lab_waiting (empty_queue 1))) = 1" by code_simp
  with I show ?thesis by (auto simp: Let_def)
qed


end
