(* ===== verification/Session_Store.thy ===== *)
theory Session_Store
  imports Atomic_File Download_Queue "HOL-Library.List_Lexorder" "HOL-Library.Char_ord" "HOL-Library.Product_Lexorder" "HOL-Library.AList"
begin

text \<open>
  The persistent set of torrents: \<^verbatim>\<open>internal/engine/session.go\<close>, and how adding, pausing and removing a
  torrent use it (\<^verbatim>\<open>add.go\<close>, \<^verbatim>\<open>engine.go\<close>).  The session file is the document it holds; the copies of
  the torrent files are files of their own.
\<close>

section \<open>The session\<close>

record sessionEntry =
  InfoHash :: string
  AddedVia :: string
  MagnetURI :: string
  TorrentFile_name :: string
  Paused :: bool
  Indexing :: bool
  QueueOrder :: int
  SignedBy :: string
  DataPath :: string
  ContentName :: string

text \<open>A file without content, or one with a version and rows.\<close>

datatype session_doc = EmptyFile | SessionFile int "sessionEntry list"

record session =
  s_path :: string
  s_torrentsDir :: string
  s_entries :: "(string \<times> sessionEntry) list"

datatype session_error = ErrMkdir | ErrReadSession | ErrDecodeSession | ErrSaveSession | ErrWriteCopy

definition newMemorySession :: session where
  "newMemorySession = \<lparr>s_path = [], s_torrentsDir = [], s_entries = []\<rparr>"

definition load_row :: "sessionEntry \<Rightarrow> (string \<times> sessionEntry) list \<Rightarrow> (string \<times> sessionEntry) list" where
  "load_row ent es = (if length (InfoHash ent) \<noteq> 40 then es else AList.update (InfoHash ent) ent es)"

text \<open>The directories are joined with the separator; a session may come with an error.\<close>

definition loadSession :: "string \<Rightarrow> bool \<Rightarrow> session_doc fs \<Rightarrow> session option \<times> session_error option" where
  "loadSession dataDir mkdir_ok fs =
     (if dataDir = [] then (Some newMemorySession, None)
      else
        let s = \<lparr>s_path = dataDir @ ''/session.json'', s_torrentsDir = dataDir @ ''/torrents'', s_entries = []\<rparr> in
        if \<not> mkdir_ok then (None, Some ErrMkdir)
        else case fs (s_path s) of
               Absent \<Rightarrow> (Some s, None)
             | Doc EmptyFile \<Rightarrow> (Some s, None)
             | Unreadable \<Rightarrow> (Some s, Some ErrReadSession)
             | Malformed \<Rightarrow> (Some s, Some ErrDecodeSession)
             | Doc (SessionFile v rows) \<Rightarrow> (Some (s\<lparr>s_entries := fold load_row rows (s_entries s)\<rparr>), None))"

definition row_key :: "sessionEntry \<Rightarrow> int \<times> string" where "row_key ent = (QueueOrder ent, InfoHash ent)"

definition session_list :: "session \<Rightarrow> sessionEntry list" where
  "session_list s = sort_key row_key (map snd (s_entries s))"

definition saveLocked :: "write_fault option \<Rightarrow> session \<times> session_doc fs \<Rightarrow> session_error option \<times> session \<times> session_doc fs" where
  "saveLocked flt = (\<lambda>(s, fs).
     if s_path s = [] then (None, s, fs)
     else let (ok, fs) = save_fixed flt (s_path s) (SessionFile 1 (session_list s)) fs
          in (if ok then None else Some ErrSaveSession, s, fs))"

text \<open>The zero value of an entry, as a lookup of a missing key gives it.\<close>

definition zero_entry :: sessionEntry where
  "zero_entry = \<lparr>InfoHash = [], AddedVia = [], MagnetURI = [], TorrentFile_name = [], Paused = False, Indexing = False, QueueOrder = 0,
     SignedBy = [], DataPath = [], ContentName = []\<rparr>"

definition session_update :: "write_fault option \<Rightarrow> string \<Rightarrow> (sessionEntry \<Rightarrow> sessionEntry) \<Rightarrow> session \<times> session_doc fs \<Rightarrow>
    session_error option \<times> session \<times> session_doc fs" where
  "session_update flt infoHash mut = (\<lambda>(s, fs).
     let ent = (case map_of (s_entries s) infoHash of None \<Rightarrow> zero_entry | Some ent \<Rightarrow> ent)
     in saveLocked flt (s\<lparr>s_entries := AList.update infoHash (mut (ent\<lparr>InfoHash := infoHash\<rparr>)) (s_entries s)\<rparr>, fs))"

definition updateExisting :: "write_fault option \<Rightarrow> string \<Rightarrow> (sessionEntry \<Rightarrow> sessionEntry) \<Rightarrow> session \<times> session_doc fs \<Rightarrow>
    bool \<times> session_error option \<times> session \<times> session_doc fs" where
  "updateExisting flt infoHash mut = (\<lambda>(s, fs).
     case map_of (s_entries s) infoHash of
       None \<Rightarrow> (False, None, s, fs)
     | Some ent \<Rightarrow> (True, saveLocked flt (s\<lparr>s_entries := AList.update infoHash (mut ent) (s_entries s)\<rparr>, fs)))"

definition updateGuarded :: "write_fault option \<Rightarrow> string \<Rightarrow> bool \<Rightarrow> (sessionEntry \<Rightarrow> sessionEntry) \<Rightarrow> session \<times> session_doc fs \<Rightarrow>
    bool \<times> session_error option \<times> session \<times> session_doc fs" where
  "updateGuarded flt infoHash abort mut x =
     (if abort then (False, None, x) else (True, session_update flt infoHash mut x))"

text \<open>Removing also deletes the copy of the torrent file, when there is one.\<close>

definition copy_path :: "session \<Rightarrow> string \<Rightarrow> string" where "copy_path s name = s_torrentsDir s @ ''/'' @ name"

definition session_remove :: "write_fault option \<Rightarrow> string \<Rightarrow> session \<times> session_doc fs \<Rightarrow> bytes fs \<Rightarrow>
    session_error option \<times> (session \<times> session_doc fs) \<times> bytes fs" where
  "session_remove flt infoHash = (\<lambda>(s, fs) copies.
     let (err, s', fs) = saveLocked flt (s\<lparr>s_entries := AList.delete infoHash (s_entries s)\<rparr>, fs);
         copies = (case map_of (s_entries s) infoHash of
                     Some ent \<Rightarrow> if TorrentFile_name ent \<noteq> [] \<and> s_torrentsDir s \<noteq> [] then copies(copy_path s (TorrentFile_name ent) := Absent) else copies
                   | None \<Rightarrow> copies)
     in (err, (s', fs), copies))"

definition writeTorrentCopy :: "write_fault option \<Rightarrow> string \<Rightarrow> bytes \<Rightarrow> session \<Rightarrow> bytes fs \<Rightarrow> (session_error + string) \<times> bytes fs" where
  "writeTorrentCopy flt infoHash raw s copies =
     (if s_torrentsDir s = [] then (Inr [], copies)
      else
        let name = infoHash @ ''.torrent'';
            (ok, copies) = save_fixed flt (copy_path s name) raw copies
        in (if ok then Inr name else Inl ErrWriteCopy, copies))"

section \<open>The engine and the session\<close>

text \<open>What is still to run of an operation after it has given up the engine's lock.\<close>

datatype stask =
    is_PersistAdd: PersistAdd nat string string string
  | PersistState nat
  | WriteCopy nat bytes
  | UpgradeSigned nat string bytes
  | UpgradeCopy nat
  | is_Drop: DropHandle nat
  | SessionRemove string

record SessionEngine =
  se_queue :: Queue
  se_gone :: "Handle list"
  se_removed :: "nat list"
  se_session :: session
  se_fs :: "session_doc fs"
  se_copies :: "bytes fs"
  se_tasks :: "stask list"

definition InfoHashHex :: "Handle \<Rightarrow> string" where "InfoHashHex h = hex_EncodeToString (h_InfoHash h)"

definition handle_ptr :: "nat \<Rightarrow> SessionEngine \<Rightarrow> Handle option" where
  "handle_ptr i e = find (\<lambda>h. h_id h = i) (q_handles (se_queue e) @ se_gone e)"

definition isRemoved :: "nat \<Rightarrow> SessionEngine \<Rightarrow> bool" where "isRemoved i e \<longleftrightarrow> i \<in> set (se_removed e)"

definition persist_add_entry :: "Handle \<Rightarrow> string \<Rightarrow> string \<Rightarrow> string \<Rightarrow> sessionEntry \<Rightarrow> sessionEntry" where
  "persist_add_entry h via magnetURI torrentFile ent =
     (let ent = ent\<lparr>AddedVia := via\<rparr>;
          ent = (if magnetURI \<noteq> [] then ent\<lparr>MagnetURI := magnetURI\<rparr> else ent);
          ent = (if torrentFile \<noteq> [] then ent\<lparr>TorrentFile_name := torrentFile\<rparr> else ent);
          ent = ent\<lparr>Indexing := indexing h, Paused := paused h, QueueOrder := queueOrder h\<rparr>
      in if signedBy h \<noteq> [] then ent\<lparr>SignedBy := signedBy h\<rparr> else ent)"

definition persistAdd :: "write_fault option \<Rightarrow> nat \<Rightarrow> string \<Rightarrow> string \<Rightarrow> string \<Rightarrow> SessionEngine \<Rightarrow> SessionEngine" where
  "persistAdd flt i via magnetURI torrentFile e =
     (case handle_ptr i e of
        None \<Rightarrow> e
      | Some h \<Rightarrow>
          (let (_, _, s, fs) = updateGuarded flt (InfoHashHex h) (isRemoved i e) (persist_add_entry h via magnetURI torrentFile) (se_session e, se_fs e)
           in e\<lparr>se_session := s, se_fs := fs\<rparr>))"

definition persistState :: "write_fault option \<Rightarrow> nat \<Rightarrow> SessionEngine \<Rightarrow> SessionEngine" where
  "persistState flt i e =
     (case handle_ptr i e of
        None \<Rightarrow> e
      | Some h \<Rightarrow>
          (let (_, _, s, fs) = updateExisting flt (InfoHashHex h) (\<lambda>ent. ent\<lparr>Paused := paused h, Indexing := indexing h, QueueOrder := queueOrder h\<rparr>) (se_session e, se_fs e)
           in e\<lparr>se_session := s, se_fs := fs\<rparr>))"

text \<open>Once the metadata of a magnet is there; \<open>raw\<close> is the metainfo the library marshals.\<close>

definition upgradeMagnetSession :: "write_fault option \<Rightarrow> write_fault option \<Rightarrow> nat \<Rightarrow> bytes \<Rightarrow> SessionEngine \<Rightarrow> SessionEngine" where
  "upgradeMagnetSession copy_flt flt i raw e =
     (case handle_ptr i e of
        None \<Rightarrow> e
      | Some h \<Rightarrow>
          if isRemoved i e then e
          else if (case find (\<lambda>ent. InfoHash ent = InfoHashHex h) (session_list (se_session e)) of
                     None \<Rightarrow> False
                   | Some ent \<Rightarrow> TorrentFile_name ent \<noteq> [] \<or> AddedVia ent = ''file'' \<or> AddedVia ent = ''metainfo'') then e
          else
            (case writeTorrentCopy copy_flt (InfoHashHex h) raw (se_session e) (se_copies e) of
               (Inl _, copies) \<Rightarrow> e\<lparr>se_copies := copies\<rparr>
             | (Inr name, copies) \<Rightarrow>
                 if name = [] then e\<lparr>se_copies := copies\<rparr>
                 else
                   let (existed, _, s, fs) = updateExisting flt (InfoHashHex h) (\<lambda>ent. ent\<lparr>TorrentFile_name := name\<rparr>) (se_session e, se_fs e);
                       copies = (if existed then copies else copies(copy_path s name := Absent))
                   in e\<lparr>se_session := s, se_fs := fs, se_copies := copies\<rparr>))"

section \<open>Restoring\<close>

text \<open>
  \<^verbatim>\<open>restore.go\<close>.  What the code takes from the BitTorrent library and the bencode layer: the strict
  check of a metainfo and loading it (its infohash),
  whether a specification can be built and the info dictionary decoded, the infohash a magnet is added
  under, and whether the client takes the torrent.
\<close>

record Library =
  lib_strict :: "bytes \<Rightarrow> bytes option"
  lib_load :: "bytes \<Rightarrow> bytes option"
  lib_spec :: "bytes \<Rightarrow> bool"
  lib_info :: "bytes \<Rightarrow> bool"
  lib_add :: "bytes \<Rightarrow> bool"
  lib_magnet :: "string \<Rightarrow> bytes option"

datatype restore_error = ErrUnsafeName | ErrReadCopy | ErrLoadCopy | ErrCopyMismatch | ErrSpec | ErrInfo | ErrClient | ErrBadHash

definition filepath_Base :: "string \<Rightarrow> string" where
  "filepath_Base path =
     (if path = [] then ''.''
      else let path = rev (dropWhile (\<lambda>c. c = CHR ''/'') (rev path))
           in if path = [] then ''/'' else rev (takeWhile (\<lambda>c. c \<noteq> CHR ''/'') (rev path)))"

text \<open>The torrent the client gives for an entry, as its infohash.\<close>

definition restore_torrent :: "Library \<Rightarrow> session \<Rightarrow> bytes fs \<Rightarrow> sessionEntry \<Rightarrow> restore_error + bytes" where
  "restore_torrent lib s copies ent =
     (if TorrentFile_name ent \<noteq> [] \<and> s_torrentsDir s \<noteq> [] then
        if TorrentFile_name ent \<noteq> filepath_Base (TorrentFile_name ent) \<or> TorrentFile_name ent = ''.'' \<or> TorrentFile_name ent = ''..'' then Inl ErrUnsafeName
        else (case copies (copy_path s (TorrentFile_name ent)) of
                Absent \<Rightarrow> Inl ErrReadCopy
              | Unreadable \<Rightarrow> Inl ErrReadCopy
              | Malformed \<Rightarrow> Inl ErrLoadCopy
              | Doc raw \<Rightarrow>
                  (case lib_load lib raw of
                     None \<Rightarrow> Inl ErrLoadCopy
                   | Some ih \<Rightarrow>
                       if hex_EncodeToString ih \<noteq> InfoHash ent then Inl ErrCopyMismatch
                       else if DataPath ent \<noteq> [] \<and> \<not> lib_spec lib raw then Inl ErrSpec
                       else if DataPath ent \<noteq> [] \<and> ContentName ent = [] \<and> \<not> lib_info lib raw then Inl ErrInfo
                       else if \<not> lib_add lib raw then Inl ErrClient
                       else Inr ih))
      else if MagnetURI ent \<noteq> [] then (case lib_magnet lib (MagnetURI ent) of None \<Rightarrow> Inl ErrClient | Some ih \<Rightarrow> Inr ih)
      else (case hex_DecodeString (InfoHash ent) of
              None \<Rightarrow> Inl ErrBadHash
            | Some ih \<Rightarrow> if length (InfoHash ent) \<noteq> 40 then Inl ErrBadHash else Inr ih))"

definition restoreEntry :: "Library \<Rightarrow> sessionEntry \<Rightarrow> SessionEngine \<Rightarrow> restore_error option \<times> SessionEngine" where
  "restoreEntry lib ent e =
     (case restore_torrent lib (se_session e) (se_copies e) ent of
        Inl err \<Rightarrow> (Some err, e)
      | Inr ih \<Rightarrow>
          let ((h, existed), q) = registerLockedRestore ih (Paused ent)
                (Some \<lparr>rs_Indexing = Indexing ent, rs_SignedBy = SignedBy ent, rs_QueueOrder = QueueOrder ent\<rparr>) False (se_queue e)
          in if existed then (None, e\<lparr>se_queue := q\<rparr>)
             else
               let q = (if Paused ent then with_handle (h_id h) (\<lambda>h. h\<lparr>t_Download := False, t_Upload := False\<rparr>) q else q);
                   ts = (if AddedVia ent \<noteq> ''file'' \<and> AddedVia ent \<noteq> ''metainfo'' then [UpgradeCopy (h_id h)] else [])
               in (None, e\<lparr>se_queue := q, se_tasks := se_tasks e @ ts\<rparr>))"

definition RestoreSession :: "Library \<Rightarrow> SessionEngine \<Rightarrow> SessionEngine" where
  "RestoreSession lib e = fold (\<lambda>ent e. snd (restoreEntry lib ent e)) (session_list (se_session e)) e"

section \<open>A restart\<close>

text \<open>What a session of this program holds: one row per infohash, under its lower-case hex form.\<close>

definition entry_ok :: "Library \<Rightarrow> sessionEntry \<Rightarrow> bool" where
  "entry_ok lib ent \<longleftrightarrow> (\<exists>ih. length ih = 20 \<and> InfoHash ent = hex_EncodeToString ih \<and> (MagnetURI ent \<noteq> [] \<longrightarrow> lib_magnet lib (MagnetURI ent) = Some ih))"

definition session_ok :: "Library \<Rightarrow> session \<Rightarrow> bool" where
  "session_ok lib s \<longleftrightarrow> distinct (map fst (s_entries s)) \<and> (\<forall>(k, ent) \<in> set (s_entries s). InfoHash ent = k \<and> entry_ok lib ent)"

definition row_state :: "sessionEntry \<Rightarrow> string \<times> bool \<times> bool \<times> string \<times> int \<times> bool" where
  "row_state ent = (InfoHash ent, Paused ent, Indexing ent, SignedBy ent, QueueOrder ent, \<not> Paused ent)"

definition handle_state :: "Handle \<Rightarrow> string \<times> bool \<times> bool \<times> string \<times> int \<times> bool" where
  "handle_state h = (InfoHashHex h, paused h, indexing h, signedBy h, queueOrder h, t_Download h)"

definition fresh_engine :: "int \<Rightarrow> session \<Rightarrow> session_doc fs \<Rightarrow> bytes fs \<Rightarrow> SessionEngine" where
  "fresh_engine n s fs copies = \<lparr>se_queue = empty_queue n, se_gone = [], se_removed = [], se_session = s, se_fs = fs, se_copies = copies, se_tasks = []\<rparr>"

lemma update_new: "k \<notin> fst ` set es \<Longrightarrow> AList.update k v es = es @ [(k, v)]"
  by (induction es) auto

lemma load_rows:
  assumes "distinct (map InfoHash rows)" and "\<And>ent. ent \<in> set rows \<Longrightarrow> length (InfoHash ent) = 40" and "\<And>ent. ent \<in> set rows \<Longrightarrow> InfoHash ent \<notin> fst ` set es"
  shows "fold load_row rows es = es @ map (\<lambda>ent. (InfoHash ent, ent)) rows"
  using assms
proof (induction rows arbitrary: es)
  case (Cons a rows)
  have "fold load_row rows (es @ [(InfoHash a, a)]) = (es @ [(InfoHash a, a)]) @ map (\<lambda>ent. (InfoHash ent, ent)) rows"
    using Cons.prems by (intro Cons.IH) (auto, metis imageI)
  moreover have "load_row a es = es @ [(InfoHash a, a)]" using Cons.prems by (simp add: load_row_def update_new)
  ultimately show ?case by simp
qed simp

lemma session_rows:
  assumes "session_ok lib s"
  shows "set (session_list s) = snd ` set (s_entries s)" and "distinct (map InfoHash (session_list s))"
    and "\<And>ent. ent \<in> set (session_list s) \<Longrightarrow> entry_ok lib ent \<and> length (InfoHash ent) = 40"
proof -
  have k: "map InfoHash (map snd (s_entries s)) = map fst (s_entries s)" using assms by (auto simp: session_ok_def)
  have "mset (map InfoHash (session_list s)) = mset (map fst (s_entries s))" unfolding session_list_def k [symmetric] mset_map mset_sort ..
  then show "distinct (map InfoHash (session_list s))" using assms by (metis session_ok_def mset_eq_imp_distinct_iff)
  show eq: "set (session_list s) = snd ` set (s_entries s)" by (simp add: session_list_def)
  show "entry_ok lib ent \<and> length (InfoHash ent) = 40" if "ent \<in> set (session_list s)" for ent
    using that assms by (fastforce simp: eq session_ok_def entry_ok_def length_hex)
qed

text \<open>A saved session is read back as the rows in order; a failed save leaves the file.\<close>

definition session_of :: "string \<Rightarrow> (string \<times> sessionEntry) list \<Rightarrow> session" where
  "session_of dataDir es = \<lparr>s_path = dataDir @ ''/session.json'', s_torrentsDir = dataDir @ ''/torrents'', s_entries = es\<rparr>"

lemma save_load:
  assumes "session_ok lib s" and "s = session_of dataDir es" and "dataDir \<noteq> []"
  shows "loadSession dataDir True (snd (snd (saveLocked flt (s, fs)))) =
      (if flt = None then (Some (session_of dataDir (map (\<lambda>ent. (InfoHash ent, ent)) (session_list s))), None) else loadSession dataDir True fs)"
    and "fst (saveLocked flt (s, fs)) = None \<longleftrightarrow> flt = None"
proof -
  have rows: "fold load_row (session_list s) [] = map (\<lambda>ent. (InfoHash ent, ent)) (session_list s)"
    using load_rows [of "session_list s" "[]"] session_rows [OF assms(1)] by simp
  have p: "snd (snd (saveLocked flt (s, fs))) (s_path s) = (if flt = None then Doc (SessionFile 1 (session_list s)) else fs (s_path s))"
    using save_fixed_path [of flt "s_path s" "SessionFile 1 (session_list s)" fs] assms(2)
    by (simp add: saveLocked_def session_of_def case_prod_beta Let_def)
  show "loadSession dataDir True (snd (snd (saveLocked flt (s, fs)))) =
      (if flt = None then (Some (session_of dataDir (map (\<lambda>ent. (InfoHash ent, ent)) (session_list s))), None) else loadSession dataDir True fs)"
    using p rows assms(2,3) by (simp add: loadSession_def session_of_def Let_def)
  show "fst (saveLocked flt (s, fs)) = None \<longleftrightarrow> flt = None"
    using assms(2) by (auto simp: saveLocked_def session_of_def save_fixed_def split: option.split write_fault.split)
qed

lemma session_list_of: "session_list (session_of dataDir (map (\<lambda>ent. (InfoHash ent, ent)) (session_list s))) = session_list s"
proof -
  have "map snd (map (\<lambda>ent. (InfoHash ent, ent)) xs) = xs" for xs :: "sessionEntry list" by (simp add: comp_def)
  moreover have "sort_key row_key (session_list s) = session_list s" by (rule sort_key_id_if_sorted) (simp add: session_list_def)
  ultimately show ?thesis by (simp add: session_list_def session_of_def)
qed

text \<open>Restoring a row gives one new handle with the row's state, the others are left.\<close>

lemma restored_hash: "entry_ok lib ent \<Longrightarrow> restore_torrent lib s copies ent = Inr ih \<Longrightarrow> hex_EncodeToString ih = InfoHash ent"
  by (auto simp: restore_torrent_def entry_ok_def split: if_splits disk_file.splits option.splits)

lemma restore_row:
  assumes "ids_ok (se_queue e)" and "restore_torrent lib (se_session e) (se_copies e) ent = Inr ih" and "entry_ok lib ent"
    and "InfoHash ent \<notin> InfoHashHex ` set (q_handles (se_queue e))"
  shows "\<exists>h. q_handles (se_queue (snd (restoreEntry lib ent e))) = q_handles (se_queue e) @ [h] \<and> h_id h = q_fresh (se_queue e) \<and> handle_state h = row_state ent"
    and "q_fresh (se_queue (snd (restoreEntry lib ent e))) = Suc (q_fresh (se_queue e))"
proof -
  have hex: "hex_EncodeToString ih = InfoHash ent" using restored_hash assms(2,3) by blast
  have new: "by_hash ih (se_queue e) = None" using assms(4) hex by (force simp: by_hash_def find_None_iff InfoHashHex_def)
  have "\<forall>k \<in> set (q_handles (se_queue e)). h_id k \<noteq> q_fresh (se_queue e)" using assms(1) by (auto simp: ids_ok_def)
  then have keep: "map (\<lambda>k. if h_id k = q_fresh (se_queue e) then f k else k) (q_handles (se_queue e)) = q_handles (se_queue e)" for f
    by (intro map_idI) auto
  note defs = restoreEntry_def registerLockedRestore_def Let_def spawn_def new_handle_def with_handle_def handle_state_def row_state_def InfoHashHex_def
  show "\<exists>h. q_handles (se_queue (snd (restoreEntry lib ent e))) = q_handles (se_queue e) @ [h] \<and> h_id h = q_fresh (se_queue e) \<and> handle_state h = row_state ent"
    using assms(2) new keep hex by (simp add: defs)
  show "q_fresh (se_queue (snd (restoreEntry lib ent e))) = Suc (q_fresh (se_queue e))" using assms(2) new by (simp add: defs)
qed

lemma restore_rest [simp]:
  "se_session (snd (restoreEntry lib ent e)) = se_session e" "se_copies (snd (restoreEntry lib ent e)) = se_copies e" "se_fs (snd (restoreEntry lib ent e)) = se_fs e"
  by (simp_all add: restoreEntry_def Let_def split: sum.split prod.split)

lemma restore_error: "restore_torrent lib (se_session e) (se_copies e) ent = Inl err \<Longrightarrow> restoreEntry lib ent e = (Some err, e)"
  by (simp add: restoreEntry_def)

abbreviation restorable :: "Library \<Rightarrow> session \<Rightarrow> bytes fs \<Rightarrow> sessionEntry \<Rightarrow> bool" where
  "restorable lib s copies ent \<equiv> \<not> isl (restore_torrent lib s copies ent)"

lemma restore_rows:
  assumes "ids_ok (se_queue e)" and "distinct (map InfoHash rows)" and "\<forall>ent \<in> set rows. entry_ok lib ent \<and> InfoHash ent \<notin> InfoHashHex ` set (q_handles (se_queue e))"
  shows "map handle_state (q_handles (se_queue (fold (\<lambda>ent e. snd (restoreEntry lib ent e)) rows e))) =
    map handle_state (q_handles (se_queue e)) @ map row_state (filter (restorable lib (se_session e) (se_copies e)) rows)"
  using assms
proof (induction rows arbitrary: e)
  case (Cons ent rows)
  show ?case
  proof (cases "restore_torrent lib (se_session e) (se_copies e) ent")
    case (Inl err)
    then show ?thesis using Cons.IH [of e] Cons.prems restore_error [OF Inl] by simp
  next
    case (Inr ih)
    let ?e = "snd (restoreEntry lib ent e)"
    have new: "entry_ok lib ent" "InfoHash ent \<notin> InfoHashHex ` set (q_handles (se_queue e))" using Cons.prems(3) by auto
    obtain h where h: "q_handles (se_queue ?e) = q_handles (se_queue e) @ [h]" "h_id h = q_fresh (se_queue e)" "handle_state h = row_state ent"
      using restore_row(1) [OF Cons.prems(1) Inr new] by blast
    have "InfoHashHex h = InfoHash ent" using h(3) by (simp add: handle_state_def row_state_def)
    then have "\<forall>x \<in> set rows. entry_ok lib x \<and> InfoHash x \<notin> InfoHashHex ` set (q_handles (se_queue ?e))"
      using Cons.prems(2,3) h(1) by (auto simp: image_iff)
    moreover have "ids_ok (se_queue ?e)" using Cons.prems(1) h(1,2) restore_row(2) [OF Cons.prems(1) Inr new] by (fastforce simp: ids_ok_def)
    ultimately show ?thesis using Cons.IH [of ?e] Cons.prems(2) h Inr by simp
  qed
qed simp


end
