(* ===== verification/Session_Runs.thy ===== *)
theory Session_Runs
  imports Session_Store
begin

text \<open>
  How adding, pausing, moving and removing a torrent go on after the engine's lock is given up
  (\<^verbatim>\<open>add.go\<close>, \<^verbatim>\<open>engine.go\<close>, \<^verbatim>\<open>queue.go\<close> of \<^verbatim>\<open>internal/engine\<close>): each further access to the session is a
  pending task, and the tasks run in any order that the code allows.  The ten-minute limit of the
  metadata wait, which only gives up, is left out.
\<close>

section \<open>Operations\<close>

datatype add_error = ErrMagnetURI | ErrZeroHash | ErrClosed | ErrLoadTorrent | ErrClientAdd

definition later :: "stask list \<Rightarrow> SessionEngine \<Rightarrow> SessionEngine" where "later ts e = e\<lparr>se_tasks := se_tasks e @ ts\<rparr>"

definition registerLocked :: "bytes \<Rightarrow> SessionEngine \<Rightarrow> (Handle \<times> bool) \<times> SessionEngine" where
  "registerLocked ih e = (let (r, q) = registerLockedRestore ih False None False (se_queue e) in (r, e\<lparr>se_queue := q\<rparr>))"

definition AddMagnet :: "Library \<Rightarrow> string \<Rightarrow> SessionEngine \<Rightarrow> add_error option \<times> SessionEngine" where
  "AddMagnet lib uri e =
     (case lib_magnet lib uri of
        None \<Rightarrow> (Some ErrMagnetURI, e)
      | Some ih \<Rightarrow>
          if ih = replicate 20 0 then (Some ErrZeroHash, e)
          else if q_closed (se_queue e) then (Some ErrClosed, e)
          else let ((h, existed), e) = registerLocked ih e
               in (None, if existed then e else later [PersistAdd (h_id h) ''magnet'' uri []] e))"

definition AddInfoHash :: "bytes \<Rightarrow> SessionEngine \<Rightarrow> add_error option \<times> SessionEngine" where
  "AddInfoHash ih e =
     (if ih = replicate 20 0 then (Some ErrZeroHash, e)
      else if q_closed (se_queue e) then (Some ErrClosed, e)
      else let ((h, existed), e) = registerLocked ih e
           in (None, if existed then e else later [PersistAdd (h_id h) ''infohash'' [] []] e))"

definition parseTorrentBytes :: "Library \<Rightarrow> bytes \<Rightarrow> bytes option" where
  "parseTorrentBytes lib raw =
     (case lib_strict lib raw of
        None \<Rightarrow> None
      | Some view \<Rightarrow>
          (case lib_load lib raw of
             None \<Rightarrow> None
           | Some ih \<Rightarrow> if hex_EncodeToString ih \<noteq> hex_EncodeToString view then None else Some ih))"

text \<open>\<open>signer\<close> is what the verification of the signature gives, empty when there is none.\<close>

definition AddTorrentBytes :: "Library \<Rightarrow> string \<Rightarrow> bytes \<Rightarrow> SessionEngine \<Rightarrow> add_error option \<times> SessionEngine" where
  "AddTorrentBytes lib signer raw e =
     (case parseTorrentBytes lib raw of
        None \<Rightarrow> (Some ErrLoadTorrent, e)
      | Some ih \<Rightarrow>
          if q_closed (se_queue e) then (Some ErrClosed, e)
          else if \<not> lib_add lib raw then (Some ErrClientAdd, e)
          else
            let ((h, existed), e) = registerLocked ih e;
                sign = (\<lambda>e. e\<lparr>se_queue := with_handle (h_id h) (\<lambda>h. h\<lparr>signedBy := signer\<rparr>) (se_queue e)\<rparr>)
            in (None,
                if \<not> existed then later [WriteCopy (h_id h) raw] (if signer \<noteq> [] then sign e else e)
                else if signer = [] \<or> \<not> fst (setSignedByIfEmpty signer h) then e
                else later [UpgradeSigned (h_id h) signer raw] (sign e)))"

text \<open>Pausing and resuming: the queue's operation, then the row.  A move in the queue does not write it.\<close>

definition persisting :: "(string \<Rightarrow> Queue \<Rightarrow> engine_error option \<times> Queue) \<Rightarrow> (Handle \<Rightarrow> bool) \<Rightarrow> string \<Rightarrow> SessionEngine \<Rightarrow> SessionEngine" where
  "persisting op changes ihHex e =
     (let e2 = e\<lparr>se_queue := snd (op ihHex (se_queue e))\<rparr> in
      case handleByHex ihHex (se_queue e) of
        Inl _ \<Rightarrow> e2
      | Inr h \<Rightarrow> if changes h then later [PersistState (h_id h)] e2 else e2)"

text \<open>Up to the write of the row; the document that is indexed when it is switched on is left out.\<close>

definition SetTorrentIndexing :: "bool \<Rightarrow> string \<Rightarrow> Queue \<Rightarrow> engine_error option \<times> Queue" where
  "SetTorrentIndexing enabled ihHex q =
     (case handleByHex ihHex q of
        Inl err \<Rightarrow> (Some err, q)
      | Inr h \<Rightarrow> (None, with_handle (h_id h) (\<lambda>h. h\<lparr>indexing := enabled\<rparr>) q))"

text \<open>\<open>Engine.RemoveTorrent\<close> up to the drop, its deletion from the engine's map, and its end.\<close>

definition mark_removed :: "string \<Rightarrow> SessionEngine \<Rightarrow> engine_error option \<times> SessionEngine" where
  "mark_removed ihHex e =
     (case handleByHex ihHex (se_queue e) of
        Inl err \<Rightarrow> (Some err, e)
      | Inr h \<Rightarrow> (None, later [DropHandle (h_id h)] (e\<lparr>se_removed := h_id h # se_removed e\<rparr>)))"

definition drop_handle :: "nat \<Rightarrow> SessionEngine \<Rightarrow> SessionEngine" where
  "drop_handle i e =
     (case handle_ptr i e of
        None \<Rightarrow> e
      | Some h \<Rightarrow>
          let q = se_queue e; same = (\<lambda>k. h_InfoHash k = h_InfoHash h)
          in later [SessionRemove (InfoHashHex h)]
               (e\<lparr>se_queue := q\<lparr>q_handles := filter (\<lambda>k. \<not> same k) (q_handles q)\<rparr>, se_gone := filter same (q_handles q) @ se_gone e\<rparr>))"

definition finish_remove :: "write_fault option \<Rightarrow> string \<Rightarrow> SessionEngine \<Rightarrow> SessionEngine" where
  "finish_remove flt ihHex e =
     (let (_, (s, fs), copies) = session_remove flt ihHex (se_session e, se_fs e) (se_copies e)
      in e\<lparr>se_session := s, se_fs := fs, se_copies := copies, se_queue := spawn [PromoteQueued] (se_queue e)\<rparr>)"

definition upgradeSignedBy_copy :: "write_fault option \<Rightarrow> write_fault option \<Rightarrow> nat \<Rightarrow> string \<Rightarrow> bytes \<Rightarrow> SessionEngine \<Rightarrow> SessionEngine" where
  "upgradeSignedBy_copy copy_flt flt i signer raw e =
     (case handle_ptr i e of
        None \<Rightarrow> e
      | Some h \<Rightarrow>
          let (res, copies) = writeTorrentCopy copy_flt (InfoHashHex h) raw (se_session e) (se_copies e);
              tname = (case res of Inl _ \<Rightarrow> [] | Inr name \<Rightarrow> name);
              (_, _, s, fs) = updateExisting flt (InfoHashHex h)
                (\<lambda>ent. let ent = ent\<lparr>SignedBy := signer\<rparr> in if tname \<noteq> [] then ent\<lparr>TorrentFile_name := tname\<rparr> else ent) (se_session e, se_fs e)
          in e\<lparr>se_session := s, se_fs := fs, se_copies := copies\<rparr>)"

section \<open>Steps\<close>

text \<open>\<open>raw\<close> is the metainfo the library marshals; \<open>None\<close> while the task waits.\<close>

fun run_stask :: "write_fault option \<Rightarrow> write_fault option \<Rightarrow> bytes \<Rightarrow> stask \<Rightarrow> SessionEngine \<Rightarrow> SessionEngine option" where
  "run_stask copy_flt flt raw (PersistAdd i via uri tname) e =
     (let e = persistAdd flt i via uri tname e
      in Some (if via = ''magnet'' \<or> via = ''infohash'' then later [UpgradeCopy i] e else e))"
| "run_stask copy_flt flt raw (PersistState i) e = Some (persistState flt i e)"
| "run_stask copy_flt flt raw (WriteCopy i body) e =
     Some (case handle_ptr i e of
             None \<Rightarrow> e
           | Some h \<Rightarrow>
               let (res, copies) = writeTorrentCopy copy_flt (InfoHashHex h) body (se_session e) (se_copies e)
               in later [PersistAdd i ''file'' [] (case res of Inl _ \<Rightarrow> [] | Inr name \<Rightarrow> name)] (e\<lparr>se_copies := copies\<rparr>))"
| "run_stask copy_flt flt raw (UpgradeSigned i signer body) e = Some (upgradeSignedBy_copy copy_flt flt i signer body e)"
| "run_stask copy_flt flt raw (UpgradeCopy i) e =
     (case handle_ptr i e of
        None \<Rightarrow> Some e
      | Some h \<Rightarrow> if t_Info h \<or> isRemoved i e \<or> q_closed (se_queue e) then
                     Some (if t_Info h then upgradeMagnetSession copy_flt flt i raw e else e)
                   else None)"
| "run_stask copy_flt flt raw (DropHandle i) e = Some (drop_handle i e)"
| "run_stask copy_flt flt raw (SessionRemove ihHex) e = Some (finish_remove flt ihHex e)"

text \<open>The queue's own steps that neither add nor remove a torrent nor touch the session.\<close>

fun queue_only :: "queue_op \<Rightarrow> bool" where
  "queue_only (OpSetMax n) = True"
| "queue_only (OpSetPriority ih i p) = True"
| "queue_only (OpMetadata i fs m) = True"
| "queue_only (OpProgress i m) = True"
| "queue_only (OpTask k) = True"
| "queue_only OpClose = True"
| "queue_only (OpToFront ih) = True"
| "queue_only (OpToBack ih) = True"
| "queue_only _ = False"

datatype session_op = SAddMagnet string | SAddInfoHash bytes | SAddBytes string bytes | SPause string | SResume string | SIndexing bool string
  | SRemove string | SQueue queue_op | SRun nat "write_fault option" "write_fault option" bytes

fun session_step :: "Library \<Rightarrow> session_op \<Rightarrow> SessionEngine \<Rightarrow> SessionEngine" where
  "session_step lib (SAddMagnet uri) e = snd (AddMagnet lib uri e)"
| "session_step lib (SAddInfoHash ih) e = snd (AddInfoHash ih e)"
| "session_step lib (SAddBytes signer raw) e = snd (AddTorrentBytes lib signer raw e)"
| "session_step lib (SPause ihHex) e = persisting PauseTorrent (\<lambda>h. \<not> paused h) ihHex e"
| "session_step lib (SResume ihHex) e = persisting ResumeTorrent paused ihHex e"
| "session_step lib (SIndexing enabled ihHex) e = persisting (SetTorrentIndexing enabled) (\<lambda>h. True) ihHex e"
| "session_step lib (SRemove ihHex) e = snd (mark_removed ihHex e)"
| "session_step lib (SQueue op) e = (if queue_only op then e\<lparr>se_queue := queue_step op (se_queue e)\<rparr> else e)"
| "session_step lib (SRun k copy_flt flt raw) e =
     (if k < length (se_tasks e)
      then (case run_stask copy_flt flt raw (se_tasks e ! k) (e\<lparr>se_tasks := take k (se_tasks e) @ drop (Suc k) (se_tasks e)\<rparr>) of None \<Rightarrow> e | Some e \<Rightarrow> e)
      else e)"

text \<open>
  A removal of a torrent that is already being removed is left out of the runs below, and an infohash has
  twenty bytes.
\<close>

fun op_ok :: "session_op \<Rightarrow> SessionEngine \<Rightarrow> bool" where
  "op_ok (SRemove ihHex) e = (case handleByHex ihHex (se_queue e) of Inl _ \<Rightarrow> True | Inr h \<Rightarrow> \<not> isRemoved (h_id h) e)"
| "op_ok (SAddInfoHash ih) e = (length ih = 20)"
| "op_ok _ e = True"

fun orderly :: "Library \<Rightarrow> session_op list \<Rightarrow> SessionEngine \<Rightarrow> bool" where
  "orderly lib [] e = True"
| "orderly lib (op # ops) e = (op_ok op e \<and> orderly lib ops (session_step lib op e))"

definition library_ok :: "Library \<Rightarrow> bool" where
  "library_ok lib \<longleftrightarrow> (\<forall>uri ih. lib_magnet lib uri = Some ih \<longrightarrow> length ih = 20) \<and> (\<forall>raw ih. lib_load lib raw = Some ih \<longrightarrow> length ih = 20)"

section \<open>The invariant\<close>

definition live :: "Queue \<Rightarrow> (nat \<times> bytes) list" where "live q = map (\<lambda>h. (h_id h, h_InfoHash h)) (q_handles q)"

definition gone :: "SessionEngine \<Rightarrow> (nat \<times> bytes) list" where "gone e = map (\<lambda>h. (h_id h, h_InfoHash h)) (se_gone e)"

text \<open>The handles: identifiers and infohashes are unique, those that are gone were removed.\<close>

definition handles_inv :: "(nat \<times> bytes) list \<Rightarrow> (nat \<times> bytes) list \<Rightarrow> nat \<Rightarrow> nat set \<Rightarrow> stask list \<Rightarrow> bool" where
  "handles_inv L G n R T \<longleftrightarrow> distinct (map fst (L @ G)) \<and> distinct (map snd L) \<and> (\<forall>(i, ih) \<in> set (L @ G). i < n \<and> length ih = 20) \<and>
     fst ` set G \<subseteq> R \<and> distinct (filter is_Drop T) \<and> (\<forall>i. DropHandle i \<in> set T \<longrightarrow> i \<in> R \<and> i \<in> fst ` set L) \<and>
     (\<forall>i \<in> fst ` set L. i \<in> R \<longrightarrow> DropHandle i \<in> set T) \<and> (\<forall>i \<in> R. i < n)"

text \<open>A magnet that is about to be written is the magnet of its torrent.\<close>

definition adds_inv :: "Library \<Rightarrow> (nat \<times> bytes) set \<Rightarrow> stask list \<Rightarrow> bool" where
  "adds_inv lib M T \<longleftrightarrow> (\<forall>i via uri tname. PersistAdd i via uri tname \<in> set T \<and> uri \<noteq> [] \<longrightarrow> (\<exists>ih. (i, ih) \<in> M \<and> lib_magnet lib uri = Some ih))"

lemma adds_inv_mono:
  assumes "adds_inv lib M T" and "M \<subseteq> M'" and "\<And>i via uri tname. PersistAdd i via uri tname \<in> set T' \<Longrightarrow> uri \<noteq> [] \<Longrightarrow> PersistAdd i via uri tname \<in> set T"
  shows "adds_inv lib M' T'"
  using assms unfolding adds_inv_def by blast

text \<open>The rows: each belongs to a torrent of the engine or is about to be deleted.\<close>

definition rows_inv :: "Library \<Rightarrow> (nat \<times> bytes) list \<Rightarrow> (nat \<times> bytes) list \<Rightarrow> stask list \<Rightarrow> session \<Rightarrow> bool" where
  "rows_inv lib L G T s \<longleftrightarrow> session_ok lib s \<and>
     (\<forall>k \<in> fst ` set (s_entries s). k \<in> hex_EncodeToString ` snd ` set L \<or> SessionRemove k \<in> set T) \<and>
     adds_inv lib (set (L @ G)) T"

definition sinv :: "Library \<Rightarrow> SessionEngine \<Rightarrow> bool" where
  "sinv lib e \<longleftrightarrow> handles_inv (live (se_queue e)) (gone e) (q_fresh (se_queue e)) (set (se_removed e)) (se_tasks e) \<and>
     rows_inv lib (live (se_queue e)) (gone e) (se_tasks e) (se_session e)"

lemma gone_fields [simp]:
  "gone (e\<lparr>se_queue := q\<rparr>) = gone e" "gone (e\<lparr>se_removed := r\<rparr>) = gone e" "gone (e\<lparr>se_session := s\<rparr>) = gone e" "gone (e\<lparr>se_fs := f\<rparr>) = gone e"
  "gone (e\<lparr>se_tasks := t\<rparr>) = gone e" "gone (e\<lparr>se_copies := c\<rparr>) = gone e" "gone (e\<lparr>se_gone := g\<rparr>) = map (\<lambda>h. (h_id h, h_InfoHash h)) g"
  by (simp_all add: gone_def)

lemma handle_ptr_Some:
  assumes "handle_ptr i e = Some h"
  shows "h_id h = i" and "(i, h_InfoHash h) \<in> set (live (se_queue e) @ gone e)"
proof -
  have h: "h_id h = i \<and> h \<in> set (q_handles (se_queue e) @ se_gone e)" using assms unfolding handle_ptr_def find_Some_iff by (metis nth_mem)
  then show "h_id h = i" ..
  from h show "(i, h_InfoHash h) \<in> set (live (se_queue e) @ gone e)" unfolding live_def gone_def map_append [symmetric] by (force simp del: map_append)
qed

lemma handles_inv_tasks: "handles_inv L G n R T \<Longrightarrow> filter is_Drop T' = filter is_Drop T \<Longrightarrow> handles_inv L G n R T'"
proof -
  assume inv: "handles_inv L G n R T" and eq: "filter is_Drop T' = filter is_Drop T"
  have "DropHandle i \<in> set T' \<longleftrightarrow> DropHandle i \<in> set T" for i using arg_cong [OF eq, of "\<lambda>xs. DropHandle i \<in> set xs"] by simp
  then show "handles_inv L G n R T'" using inv by (simp add: handles_inv_def eq)
qed

lemma rows_inv_tasks:
  assumes "rows_inv lib L G T s" and "\<And>k. SessionRemove k \<in> set T \<Longrightarrow> SessionRemove k \<in> set T'"
    and "\<And>i via uri tname. PersistAdd i via uri tname \<in> set T' \<Longrightarrow> uri \<noteq> [] \<Longrightarrow> PersistAdd i via uri tname \<in> set T"
  shows "rows_inv lib L G T' s"
  using assms(1,2) adds_inv_mono [OF _ subset_refl assms(3), of lib "set (L @ G)"] unfolding rows_inv_def by blast

text \<open>Steps that change neither the torrents nor the rows.\<close>

lemma sinv_queue: "sinv lib e \<Longrightarrow> live q = live (se_queue e) \<Longrightarrow> q_fresh q = q_fresh (se_queue e) \<Longrightarrow> sinv lib (e\<lparr>se_queue := q\<rparr>)"
  by (simp add: sinv_def gone_def)

lemma later_fields [simp]:
  "se_queue (later ts e) = se_queue e" "se_gone (later ts e) = se_gone e" "gone (later ts e) = gone e" "se_removed (later ts e) = se_removed e" "se_session (later ts e) = se_session e"
  "se_tasks (later ts e) = se_tasks e @ ts"
  by (simp_all add: later_def gone_def)

lemma sinv_later:
  assumes "sinv lib e" and "list_all (\<lambda>t. \<not> is_Drop t) ts" and "\<And>i via uri tname. PersistAdd i via uri tname \<in> set ts \<Longrightarrow> uri = []"
  shows "sinv lib (later ts e)"
proof -
  have "filter is_Drop (se_tasks (later ts e)) = filter is_Drop (se_tasks e)" using assms(2) by (simp add: list_all_iff)
  then show ?thesis using assms(1,3) by (auto simp: sinv_def intro: handles_inv_tasks elim!: rows_inv_tasks)
qed

lemma live_with [simp]: "(\<And>h. h_id (f h) = h_id h \<and> h_InfoHash (f h) = h_InfoHash h) \<Longrightarrow> live (with_handle i f q) = live q"
  by (simp add: live_def with_handle_def)

lemma live_spawn [simp]: "live (spawn ts q) = live q" "q_fresh (spawn ts q) = q_fresh q"
  by (simp_all add: live_def spawn_def)

lemma live_activate [simp]: "live (activateDownload i q) = live q" "q_fresh (activateDownload i q) = q_fresh q"
  by (simp_all add: activateDownload_def)

lemma live_queue_or [simp]: "live (queueOrActivate_locked i q) = live q" "q_fresh (queueOrActivate_locked i q) = q_fresh q"
  by (simp_all add: queueOrActivate_locked_def)

lemma live_loop [simp]: "live (promote_loop cap is active q) = live q" "q_fresh (promote_loop cap is active q) = q_fresh q"
  by (induction cap "is" active q rule: promote_loop.induct) (simp_all add: Let_def split: option.split)

lemma live_promote [simp]: "live (promoteQueued q) = live q" "q_fresh (promoteQueued q) = q_fresh q"
proof -
  have "live (fold (\<lambda>i e. case handle_of i e of None \<Rightarrow> e | Some h \<Rightarrow> if is_queued h then activateDownload i e else e) is q) = live q \<and>
    q_fresh (fold (\<lambda>i e. case handle_of i e of None \<Rightarrow> e | Some h \<Rightarrow> if is_queued h then activateDownload i e else e) is q) = q_fresh q" for "is"
    by (induction "is" arbitrary: q) (simp_all split: option.split)
  then show "live (promoteQueued q) = live q" "q_fresh (promoteQueued q) = q_fresh q" by (simp_all add: promoteQueued_def Let_def)
qed

lemma live_fields [simp]:
  "live (q\<lparr>q_tasks := t\<rparr>) = live q" "live (q\<lparr>q_closed := b\<rparr>) = live q" "live (q\<lparr>maxActiveDownloads := n\<rparr>) = live q"
  by (simp_all add: live_def)

lemma live_run_task: "run_task t q = Some q2 \<Longrightarrow> live q2 = live q \<and> q_fresh q2 = q_fresh q"
  by (auto simp: run_task_def split: task.splits option.splits if_splits)

lemma live_user_ops [simp]:
  "live (snd (SetTorrentIndexing b x q)) = live q" "q_fresh (snd (SetTorrentIndexing b x q)) = q_fresh q" "live (snd (PauseTorrent x q)) = live q" "live (snd (ResumeTorrent x q)) = live q" "live (snd (QueueMoveToFront x q)) = live q" "live (snd (QueueMoveToBack x q)) = live q"
  "q_fresh (snd (PauseTorrent x q)) = q_fresh q" "q_fresh (snd (ResumeTorrent x q)) = q_fresh q" "q_fresh (snd (QueueMoveToFront x q)) = q_fresh q"
  "q_fresh (snd (QueueMoveToBack x q)) = q_fresh q"
  by (simp_all add: SetTorrentIndexing_def PauseTorrent_def ResumeTorrent_def QueueMoveToFront_def QueueMoveToBack_def Let_def split: sum.split)

lemma live_queue_only: "queue_only op \<Longrightarrow> live (queue_step op q) = live q \<and> q_fresh (queue_step op q) = q_fresh q"
  by (cases op) (auto simp: SetMaxActiveDownloads_def SetFilePriority_def metadata_def set_priorities_def split: sum.split option.split dest: live_run_task)

lemma sinv_persisting:
  assumes "sinv lib e" and "live (snd (op x (se_queue e))) = live (se_queue e)" and "q_fresh (snd (op x (se_queue e))) = q_fresh (se_queue e)"
  shows "sinv lib (persisting op changes x e)"
  using assms by (auto simp: persisting_def Let_def intro!: sinv_queue sinv_later split: sum.split)

section \<open>Adding and removing\<close>

lemma sinv_new:
  assumes "sinv lib e" and "length ih = 20" and "ih \<notin> snd ` set (live (se_queue e))"
    and "live q = live (se_queue e) @ [(q_fresh (se_queue e), ih)]" and "q_fresh q = Suc (q_fresh (se_queue e))"
  shows "sinv lib (e\<lparr>se_queue := q\<rparr>)"
proof -
  have "handles_inv (L @ [(n, ih)]) G (Suc n) R T" if "handles_inv L G n R T" "ih \<notin> snd ` set L" for L G n R T
    using that assms(2) by (fastforce simp: handles_inv_def less_Suc_eq)
  moreover have "rows_inv lib (L @ [x]) G T s" if "rows_inv lib L G T s" for L G T s and x :: "nat \<times> bytes"
    using that adds_inv_mono [of lib "set (L @ G)" T "set ((L @ [x]) @ G)" T] by (auto simp: rows_inv_def)
  ultimately show ?thesis using assms by (simp add: sinv_def)
qed

lemma sinv_persist_task:
  assumes "sinv lib e" and "uri \<noteq> [] \<Longrightarrow> \<exists>ih. (i, ih) \<in> set (live (se_queue e) @ gone e) \<and> lib_magnet lib uri = Some ih"
  shows "sinv lib (later [PersistAdd i via uri tname] e)"
proof -
  have "handles_inv (live (se_queue e)) (gone e) (q_fresh (se_queue e)) (set (se_removed e)) (se_tasks e @ [PersistAdd i via uri tname])"
    by (rule handles_inv_tasks) (use assms(1) in \<open>simp_all add: sinv_def\<close>)
  moreover have "adds_inv lib M (T @ [PersistAdd i via uri tname])" if "adds_inv lib M T" "uri \<noteq> [] \<Longrightarrow> \<exists>ih. (i, ih) \<in> M \<and> lib_magnet lib uri = Some ih" for M T
    using that unfolding adds_inv_def by (simp only: set_append Un_iff list.set insert_iff empty_iff stask.inject) blast
  then have "rows_inv lib (live (se_queue e)) (gone e) (se_tasks e @ [PersistAdd i via uri tname]) (se_session e)"
    using assms by (auto simp: sinv_def rows_inv_def)
  ultimately show ?thesis by (simp add: sinv_def)
qed

lemma registerLocked_existed: "registerLocked ih e = ((h, True), e2) \<Longrightarrow> e2 = e"
  by (auto simp: registerLocked_def registerLockedRestore_def Let_def split: option.splits prod.splits)

lemma registerLocked_new:
  assumes "registerLocked ih e = ((h, False), e2)" and "sinv lib e" and "length ih = 20"
  shows "sinv lib e2" and "(h_id h, ih) \<in> set (live (se_queue e2))"
proof -
  have none: "by_hash ih (se_queue e) = None" using assms(1) by (auto simp: registerLocked_def registerLockedRestore_def split: option.splits prod.splits)
  then have fresh: "ih \<notin> snd ` set (live (se_queue e))" by (force simp: by_hash_def find_None_iff live_def)
  obtain q where q: "e2 = e\<lparr>se_queue := q\<rparr>" "live q = live (se_queue e) @ [(q_fresh (se_queue e), ih)]" "q_fresh q = Suc (q_fresh (se_queue e))" "h_id h = q_fresh (se_queue e)"
    using assms(1) none by (auto simp: registerLocked_def registerLockedRestore_def new_handle_def spawn_def live_def Let_def)
  show "sinv lib e2" unfolding q(1) using sinv_new [OF assms(2,3) fresh q(2,3)] .
  show "(h_id h, ih) \<in> set (live (se_queue e2))" by (simp add: q)
qed

lemma sinv_AddMagnet:
  assumes "library_ok lib" and "sinv lib e"
  shows "sinv lib (snd (AddMagnet lib uri e))"
proof (cases "lib_magnet lib uri")
  case (Some ih)
  then have "length ih = 20" using assms(1) by (simp add: library_ok_def)
  obtain h b e2 where r: "registerLocked ih e = ((h, b), e2)" by (metis surj_pair)
  have "sinv lib (if b then e2 else later [PersistAdd (h_id h) ''magnet'' uri []] e2)"
  proof (cases b)
    case True
    then show ?thesis using registerLocked_existed r assms(2) by auto
  next
    case False
    then have "registerLocked ih e = ((h, False), e2)" using r by simp
    note new = registerLocked_new [OF this assms(2) \<open>length ih = 20\<close>]
    then show ?thesis using False Some by (auto intro!: sinv_persist_task)
  qed
  then show ?thesis using assms(2) Some r by (simp add: AddMagnet_def)
qed (simp add: AddMagnet_def assms(2))

lemma sinv_AddInfoHash:
  assumes "sinv lib e" and "length ih = 20"
  shows "sinv lib (snd (AddInfoHash ih e))"
proof -
  obtain h b e2 where r: "registerLocked ih e = ((h, b), e2)" by (metis surj_pair)
  have "sinv lib (if b then e2 else later [PersistAdd (h_id h) ''infohash'' [] []] e2)"
    using registerLocked_existed registerLocked_new(1) r assms by (cases b) (auto intro!: sinv_persist_task)
  then show ?thesis using assms r by (simp add: AddInfoHash_def)
qed

lemma sinv_AddTorrentBytes:
  assumes "library_ok lib" and "sinv lib e"
  shows "sinv lib (snd (AddTorrentBytes lib signer raw e))"
proof (cases "parseTorrentBytes lib raw")
  case (Some ih)
  then have len: "length ih = 20" using assms(1) by (auto simp: library_ok_def parseTorrentBytes_def split: option.splits if_splits)
  obtain h b e2 where r: "registerLocked ih e = ((h, b), e2)" by (metis surj_pair)
  have "sinv lib e2" using registerLocked_existed registerLocked_new(1) [OF _ assms(2) len] r assms(2) by (cases b) auto
  then show ?thesis using assms Some r by (auto simp: AddTorrentBytes_def Let_def intro!: sinv_later sinv_queue)
qed (simp add: AddTorrentBytes_def assms(2))

lemma sinv_mark_removed:
  assumes "sinv lib e" and "op_ok (SRemove x) e"
  shows "sinv lib (snd (mark_removed x e))"
proof (cases "handleByHex x (se_queue e)")
  case (Inr h)
  then have "h_id h \<notin> set (se_removed e)" "(h_id h, h_InfoHash h) \<in> set (live (se_queue e))"
    using assms(2) handleByHex_member by (auto simp: isRemoved_def live_def)
  moreover have "handles_inv L G n (insert i R) (T @ [DropHandle i])" if "handles_inv L G n R T" "i \<notin> R" "(i, ih) \<in> set L" for L G n R T i ih
    using that by (fastforce simp: handles_inv_def image_iff)
  moreover have "rows_inv lib L G (T @ [DropHandle i]) s" if "rows_inv lib L G T s" for L G T s i
    using that by (rule rows_inv_tasks) auto
  ultimately show ?thesis using assms(1) Inr by (auto simp: mark_removed_def sinv_def)
qed (simp add: mark_removed_def assms(1))

section \<open>Writing the session\<close>

lemma session_ok_map_of:
  "session_ok lib s \<longleftrightarrow> distinct (map fst (s_entries s)) \<and> (\<forall>k ent. map_of (s_entries s) k = Some ent \<longrightarrow> InfoHash ent = k \<and> entry_ok lib ent)"
  unfolding session_ok_def by (auto simp: map_of_eq_Some_iff)

lemma saveLocked_session [simp]: "fst (snd (saveLocked flt (s, fs))) = s"
  by (simp add: saveLocked_def case_prod_beta Let_def)

lemma session_ok_set:
  assumes "session_ok lib s" and "InfoHash ent = k" and "entry_ok lib ent"
  shows "session_ok lib (s\<lparr>s_entries := AList.update k ent (s_entries s)\<rparr>)"
  using assms by (auto simp: session_ok_map_of distinct_update update_conv')

lemma rows_inv_set:
  assumes "rows_inv lib L G T s" and "InfoHash ent = k" and "entry_ok lib ent" and "k \<in> hex_EncodeToString ` snd ` set L \<or> SessionRemove k \<in> set T"
  shows "rows_inv lib L G T (s\<lparr>s_entries := AList.update k ent (s_entries s)\<rparr>)"
  using assms session_ok_set [of lib s ent k] by (auto simp: rows_inv_def dom_update)

lemma rows_inv_existing:
  assumes "rows_inv lib L G T s" and "\<And>ent. InfoHash (mut ent) = InfoHash ent \<and> MagnetURI (mut ent) = MagnetURI ent"
  shows "rows_inv lib L G T (fst (snd (snd (updateExisting flt k mut (s, fs)))))"
proof (cases "map_of (s_entries s) k")
  case (Some ent)
  have ok: "session_ok lib s" using assms(1) by (simp add: rows_inv_def)
  then have "InfoHash ent = k" "entry_ok lib ent" using Some by (auto simp: session_ok_map_of)
  then have "InfoHash (mut ent) = k" "entry_ok lib (mut ent)" using assms(2) by (simp_all add: entry_ok_def)
  moreover have "k \<in> fst ` set (s_entries s)" using Some by (metis map_of_eq_None_iff option.distinct(1))
  then have "k \<in> hex_EncodeToString ` snd ` set L \<or> SessionRemove k \<in> set T" using assms(1) by (auto simp: rows_inv_def)
  ultimately show ?thesis using Some rows_inv_set [OF assms(1), of "mut ent" k] by (simp add: updateExisting_def)
qed (simp add: updateExisting_def assms(1))

lemma sinv_write: "sinv lib e \<Longrightarrow> rows_inv lib (live (se_queue e)) (gone e) (se_tasks e) s \<Longrightarrow> sinv lib (e\<lparr>se_session := s, se_fs := f\<rparr>)"
  by (simp add: sinv_def)

lemma sinv_copies: "sinv lib e \<Longrightarrow> sinv lib (e\<lparr>se_copies := c\<rparr>)"
  by (simp add: sinv_def)

lemma handles_invD:
  assumes "handles_inv L G n R T"
  shows "(i, ih) \<in> set (L @ G) \<Longrightarrow> length ih = 20" and "(i, ih) \<in> set G \<Longrightarrow> i \<in> R" and "DropHandle i \<in> set T \<Longrightarrow> i \<in> R \<and> (\<exists>ih. (i, ih) \<in> set L)"
    and "(i, ih) \<in> set L \<Longrightarrow> i \<in> R \<Longrightarrow> DropHandle i \<in> set T" and "(i, a) \<in> set L \<Longrightarrow> (j, a) \<in> set L \<Longrightarrow> i = j"
    and "distinct (map fst (L @ G))" and "distinct (map snd L)" and "distinct (filter is_Drop T)"
proof -
  have "\<forall>(i, ih) \<in> set (L @ G). i < n \<and> length ih = 20" using assms unfolding handles_inv_def by (elim conjE)
  then show "length ih = 20" if "(i, ih) \<in> set (L @ G)" using that by fast
  show "i \<in> R" if "(i, ih) \<in> set G" using assms that unfolding handles_inv_def by (metis fst_conv image_eqI subsetD)
  show "i \<in> R \<and> (\<exists>ih. (i, ih) \<in> set L)" if "DropHandle i \<in> set T" using assms that unfolding handles_inv_def by fastforce
  show "DropHandle i \<in> set T" if "(i, ih) \<in> set L" "i \<in> R" using assms that unfolding handles_inv_def by (metis fst_conv image_eqI)
  show "distinct (map fst (L @ G))" "distinct (filter is_Drop T)" using assms unfolding handles_inv_def by blast+
  show d: "distinct (map snd L)" using assms unfolding handles_inv_def by blast
  show "i = j" if "(i, a) \<in> set L" "(j, a) \<in> set L" using inj_onD [OF d [unfolded distinct_map, THEN conjunct2], of "(i, a)" "(j, a)"] that by simp
qed

lemma handle_value: "handles_inv L G n R T \<Longrightarrow> (i, a) \<in> set (L @ G) \<Longrightarrow> (i, b) \<in> set (L @ G) \<Longrightarrow> a = b"
  unfolding handles_inv_def by (meson eq_key_imp_eq_value)

lemma sinv_persistAdd:
  assumes "sinv lib e" and "uri \<noteq> [] \<Longrightarrow> \<exists>ih. (i, ih) \<in> set (live (se_queue e) @ gone e) \<and> lib_magnet lib uri = Some ih"
  shows "sinv lib (persistAdd flt i via uri tname e)"
proof (cases "handle_ptr i e")
  case (Some h)
  let ?L = "live (se_queue e)" and ?s = "se_session e" and ?k = "InfoHashHex h" and ?mut = "persist_add_entry h via uri tname"
  have H: "handles_inv ?L (gone e) (q_fresh (se_queue e)) (set (se_removed e)) (se_tasks e)" and rows: "rows_inv lib ?L (gone e) (se_tasks e) ?s"
    using assms(1) by (simp_all add: sinv_def)
  have m: "(i, h_InfoHash h) \<in> set (?L @ gone e)" using handle_ptr_Some [OF Some] by simp
  show ?thesis
  proof (cases "isRemoved i e")
    case True
    then show ?thesis using Some assms(1) by (simp add: persistAdd_def updateGuarded_def)
  next
    case False
    then have "(i, h_InfoHash h) \<in> set ?L" using m handles_invD(2) [OF H, of i "h_InfoHash h"] by (auto simp: isRemoved_def)
    then have live: "?k \<in> hex_EncodeToString ` snd ` set ?L" by (force simp: InfoHashHex_def)
    have len: "length (h_InfoHash h) = 20" using handles_invD(1) [OF H m] .
    define ent where "ent = (case map_of (s_entries ?s) ?k of None \<Rightarrow> zero_entry | Some ent \<Rightarrow> ent)"
    have old: "MagnetURI ent \<noteq> [] \<longrightarrow> lib_magnet lib (MagnetURI ent) = Some (h_InfoHash h)"
    proof (cases "map_of (s_entries ?s) ?k")
      case (Some x)
      have "session_ok lib ?s" using rows by (simp add: rows_inv_def)
      then have "InfoHash x = ?k" "entry_ok lib x" using Some unfolding session_ok_map_of by blast+
      then show ?thesis using Some unfolding entry_ok_def by (auto simp: ent_def InfoHashHex_def)
    qed (simp add: ent_def zero_entry_def)
    have new: "lib_magnet lib uri = Some (h_InfoHash h)" if uri: "uri \<noteq> []"
    proof -
      obtain ih where ih: "(i, ih) \<in> set (?L @ gone e)" "lib_magnet lib uri = Some ih" using assms(2) [OF uri] by blast
      have "ih = h_InfoHash h" using handle_value [OF H ih(1) m] .
      then show ?thesis using ih(2) by simp
    qed
    define x where "x = ?mut (ent\<lparr>InfoHash := ?k\<rparr>)"
    have k: "InfoHash x = ?k" by (simp add: x_def persist_add_entry_def Let_def)
    have "MagnetURI x = (if uri \<noteq> [] then uri else MagnetURI ent)" by (simp add: x_def persist_add_entry_def Let_def)
    then have "MagnetURI x \<noteq> [] \<longrightarrow> lib_magnet lib (MagnetURI x) = Some (h_InfoHash h)" using old new by simp
    then have "entry_ok lib x" unfolding entry_ok_def using k len by (intro exI [of _ "h_InfoHash h"]) (simp add: InfoHashHex_def)
    note w = sinv_write [OF assms(1) rows_inv_set [OF rows k this disjI1 [OF live]]]
    have "persistAdd flt i via uri tname e = e\<lparr>se_session := ?s\<lparr>s_entries := AList.update ?k x (s_entries ?s)\<rparr>,
        se_fs := snd (snd (saveLocked flt (?s\<lparr>s_entries := AList.update ?k x (s_entries ?s)\<rparr>, se_fs e)))\<rparr>"
      using Some False by (simp add: persistAdd_def updateGuarded_def session_update_def ent_def [symmetric] x_def [symmetric] case_prod_beta)
    then show ?thesis using w by simp
  qed
qed (simp add: persistAdd_def assms(1))

lemma sinv_existing:
  assumes "sinv lib e" and "\<And>ent. InfoHash (mut ent) = InfoHash ent \<and> MagnetURI (mut ent) = MagnetURI ent"
  shows "sinv lib (e\<lparr>se_session := fst (snd (snd (updateExisting flt k mut (se_session e, f)))), se_fs := f2\<rparr>)"
  using assms by (intro sinv_write rows_inv_existing) (simp_all add: sinv_def)

lemma sinv_persistState: "sinv lib e \<Longrightarrow> sinv lib (persistState flt i e)"
  by (auto simp: persistState_def case_prod_beta intro!: sinv_existing split: option.split)

lemma sinv_upgradeSigned: "sinv lib e \<Longrightarrow> sinv lib (upgradeSignedBy_copy copy_flt flt i signer raw e)"
  by (auto simp: upgradeSignedBy_copy_def case_prod_beta Let_def intro!: sinv_existing sinv_copies split: option.split)

lemma sinv_upgradeMagnet: "sinv lib e \<Longrightarrow> sinv lib (upgradeMagnetSession copy_flt flt i raw e)"
  by (auto simp: upgradeMagnetSession_def case_prod_beta Let_def intro!: sinv_existing sinv_copies split: option.split sum.split)

section \<open>Tasks\<close>

lemma handles_drop:
  assumes H: "handles_inv L G n R (A @ DropHandle i # B)" and mem: "(i, ih) \<in> set L"
  shows "handles_inv (filter (\<lambda>(j, jh). jh \<noteq> ih) L) (filter (\<lambda>(j, jh). jh = ih) L @ G) n R (A @ B @ [SessionRemove k])"
proof -
  note D = handles_invD [OF H]
  let ?L = "filter (\<lambda>(j, jh). jh \<noteq> ih) L" and ?G = "filter (\<lambda>(j, jh). jh = ih) L @ G"
  have i: "i \<in> R" using D(3) [of i] by simp
  have one: "filter (\<lambda>(j, jh). jh = ih) L = [(i, ih)]" if "(i, ih) \<in> set L" "distinct (map snd L)" for L :: "(nat \<times> bytes) list"
    using that
  proof (induction L)
    case (Cons x L)
    have "filter (\<lambda>(j, jh). jh = ih) L = []" if "x = (i, ih)" using that Cons.prems(2) by (force simp: filter_empty_conv)
    then show ?case using Cons by (cases "x = (i, ih)") (auto simp: image_iff)
  qed simp
  have G: "?G = (i, ih) # G" using one [OF mem D(7)] by simp
  have keep: "j \<noteq> i \<and> jh \<noteq> ih \<longleftrightarrow> j \<noteq> i" if "(j, jh) \<in> set L" for j jh using D(5) mem that by blast
  have other: "jh \<noteq> ih \<longleftrightarrow> j \<noteq> i" if "(j, jh) \<in> set L" for j jh using D(5,6) mem that by (auto dest: eq_key_imp_eq_value)
  have fstL: "fst ` set ?L = fst ` set L - {i}" using other by (auto simp: image_iff)
  have "i \<notin> fst ` set G" "distinct (map fst L)" "distinct (map fst G)" "fst ` set L \<inter> fst ` set G = {}" using D(6) mem by force+
  then have "distinct (map fst (?L @ ?G))" unfolding G map_append distinct_append list.map distinct.simps set_map fstL set_append list.set
    by (auto simp: distinct_map_filter)
  moreover have "distinct (map snd ?L)" using D(7) by (simp add: distinct_map_filter)
  moreover have "\<forall>(j, jh) \<in> set (?L @ ?G). j < n \<and> length jh = 20" using H mem unfolding handles_inv_def by auto
  moreover have "fst ` set ?G \<subseteq> R" unfolding G using D(2) i by auto
  moreover have "distinct (filter is_Drop (A @ B @ [SessionRemove k]))" and "DropHandle i \<notin> set (A @ B)" using D(8) by auto
  moreover have "\<forall>j. DropHandle j \<in> set (A @ B @ [SessionRemove k]) \<longrightarrow> j \<in> R \<and> j \<in> fst ` set ?L"
    unfolding fstL using D(3) \<open>DropHandle i \<notin> set (A @ B)\<close> by (force simp: image_iff)
  moreover have "\<forall>j \<in> fst ` set ?L. j \<in> R \<longrightarrow> DropHandle j \<in> set (A @ B @ [SessionRemove k])" unfolding fstL using D(4) by force
  moreover have "\<forall>j \<in> R. j < n" using H unfolding handles_inv_def by blast
  ultimately show ?thesis unfolding handles_inv_def by blast
qed

lemma sinv_drop:
  assumes "sinv lib e" and T: "se_tasks e = A @ DropHandle i # B"
  shows "sinv lib (drop_handle i (e\<lparr>se_tasks := A @ B\<rparr>))"
proof -
  let ?L = "live (se_queue e)" and ?R = "set (se_removed e)" and ?n = "q_fresh (se_queue e)"
  have H: "handles_inv ?L (gone e) ?n ?R (A @ DropHandle i # B)" and rows: "rows_inv lib ?L (gone e) (A @ DropHandle i # B) (se_session e)"
    using assms by (simp_all add: sinv_def)
  obtain a where a: "(i, a) \<in> set ?L" using handles_invD(3) [OF H] by auto
  then have "handle_ptr i e = None \<Longrightarrow> False" by (force simp: handle_ptr_def live_def find_None_iff)
  then obtain h where h: "handle_ptr i e = Some h" by blast
  define ih where "ih = h_InfoHash h"
  have "a = ih" using handle_value [OF H _ handle_ptr_Some(2) [OF h], of a] a by (simp add: ih_def)
  with a have mem: "(i, ih) \<in> set ?L" by simp
  let ?k = "hex_EncodeToString ih"
  let ?L2 = "filter (\<lambda>(j, jh). jh \<noteq> ih) ?L" and ?G2 = "filter (\<lambda>(j, jh). jh = ih) ?L @ gone e"
  have "rows_inv lib ?L2 ?G2 (A @ B @ [SessionRemove ?k]) (se_session e)"
  proof -
    have "adds_inv lib (set (?L2 @ ?G2)) (A @ B @ [SessionRemove ?k])"
      using rows by (auto simp: rows_inv_def elim!: adds_inv_mono)
    moreover have "k \<in> hex_EncodeToString ` snd ` set ?L2 \<or> SessionRemove k \<in> set (A @ B @ [SessionRemove ?k])" if k: "k \<in> fst ` set (s_entries (se_session e))" for k
    proof -
      have "k \<in> hex_EncodeToString ` snd ` set ?L \<or> SessionRemove k \<in> set (A @ B)" using rows k unfolding rows_inv_def by auto
      then show ?thesis by (cases "k = ?k") (force simp: image_iff)+
    qed
    ultimately show ?thesis using rows by (simp add: rows_inv_def)
  qed
  moreover have ptr: "handle_ptr i (e\<lparr>se_tasks := A @ B\<rparr>) = Some h" using h by (simp add: handle_ptr_def)
  have "live (se_queue (drop_handle i (e\<lparr>se_tasks := A @ B\<rparr>))) = ?L2" "gone (drop_handle i (e\<lparr>se_tasks := A @ B\<rparr>)) = ?G2"
    by (simp_all add: drop_handle_def ptr Let_def live_def gone_def filter_map comp_def ih_def case_prod_beta)
  moreover have "q_fresh (se_queue (drop_handle i (e\<lparr>se_tasks := A @ B\<rparr>))) = ?n" "se_removed (drop_handle i (e\<lparr>se_tasks := A @ B\<rparr>)) = se_removed e"
    "se_tasks (drop_handle i (e\<lparr>se_tasks := A @ B\<rparr>)) = A @ B @ [SessionRemove ?k]" "se_session (drop_handle i (e\<lparr>se_tasks := A @ B\<rparr>)) = se_session e"
    by (simp_all add: drop_handle_def ptr Let_def later_def ih_def InfoHashHex_def)
  ultimately show ?thesis using handles_drop [OF H mem, of ?k] by (simp add: sinv_def)
qed

lemma rows_invD: "rows_inv lib L G T s \<Longrightarrow> k \<in> fst ` set (s_entries s) \<Longrightarrow> k \<in> hex_EncodeToString ` snd ` set L \<or> SessionRemove k \<in> set T"
  unfolding rows_inv_def by blast

text \<open>Once its row is deleted, a removal is over.\<close>

lemma sinv_finish:
  assumes "sinv lib e" and T: "se_tasks e = A @ SessionRemove k # B"
  shows "sinv lib (finish_remove flt k (e\<lparr>se_tasks := A @ B\<rparr>))"
proof -
  let ?s = "(se_session e)\<lparr>s_entries := AList.delete k (s_entries (se_session e))\<rparr>"
  have H: "handles_inv (live (se_queue e)) (gone e) (q_fresh (se_queue e)) (set (se_removed e)) (A @ B)"
    by (rule handles_inv_tasks [of _ _ _ _ "A @ SessionRemove k # B"]) (use assms in \<open>simp_all add: sinv_def\<close>)
  have rows: "rows_inv lib (live (se_queue e)) (gone e) (A @ SessionRemove k # B) (se_session e)" using assms by (simp add: sinv_def)
  have "session_ok lib ?s" using rows by (auto simp: rows_inv_def session_ok_map_of distinct_delete delete_conv' split: if_splits)
  moreover have "adds_inv lib (set (live (se_queue e) @ gone e)) (A @ B)" using rows by (auto simp: rows_inv_def elim!: adds_inv_mono)
  moreover have "j \<in> hex_EncodeToString ` snd ` set (live (se_queue e)) \<or> SessionRemove j \<in> set (A @ B)" if "j \<in> fst ` set (s_entries ?s)" for j
  proof -
    have "j \<noteq> k" "j \<in> fst ` set (s_entries (se_session e))" using that by (auto simp: AList.delete_eq)
    then have "j \<in> hex_EncodeToString ` snd ` set (live (se_queue e)) \<or> SessionRemove j \<in> set (A @ SessionRemove k # B)" using rows_invD [OF rows] by blast
    then show ?thesis using \<open>j \<noteq> k\<close> by auto
  qed
  ultimately have "rows_inv lib (live (se_queue e)) (gone e) (A @ B) ?s" unfolding rows_inv_def by blast
  then show ?thesis using H by (simp add: finish_remove_def session_remove_def case_prod_beta Let_def sinv_def)
qed

lemma sinv_done:
  assumes "sinv lib e" and "se_tasks e = A @ t # B" and "\<not> is_Drop t" and "\<And>k. t \<noteq> SessionRemove k"
  shows "sinv lib (e\<lparr>se_tasks := A @ B\<rparr>)"
proof -
  have "handles_inv (live (se_queue e)) (gone e) (q_fresh (se_queue e)) (set (se_removed e)) (A @ B)"
    by (rule handles_inv_tasks [of _ _ _ _ "A @ t # B"]) (use assms in \<open>simp_all add: sinv_def\<close>)
  moreover have "rows_inv lib (live (se_queue e)) (gone e) (A @ B) (se_session e)"
    by (rule rows_inv_tasks [of _ _ _ "A @ t # B"]) (use assms in \<open>auto simp: sinv_def\<close>)
  ultimately show ?thesis by (simp add: sinv_def)
qed

lemma sinv_task:
  assumes "sinv lib e" and T: "se_tasks e = A @ t # B" and run: "run_stask copy_flt flt raw t (e\<lparr>se_tasks := A @ B\<rparr>) = Some e2"
  shows "sinv lib e2"
proof (cases t)
  case (DropHandle i)
  then show ?thesis using sinv_drop [OF assms(1), of A i B] T run by simp
next
  case (SessionRemove k)
  then show ?thesis using sinv_finish [OF assms(1), of A k B flt] T run by simp
next
  case (PersistAdd i via uri tname)
  have "adds_inv lib (set (live (se_queue e) @ gone e)) (A @ PersistAdd i via uri tname # B)" using assms(1) T PersistAdd by (simp add: sinv_def rows_inv_def)
  then have "\<exists>ih. (i, ih) \<in> set (live (se_queue e) @ gone e) \<and> lib_magnet lib uri = Some ih" if "uri \<noteq> []"
    using that unfolding adds_inv_def by (metis in_set_conv_decomp)
  then have "sinv lib (persistAdd flt i via uri tname (e\<lparr>se_tasks := A @ B\<rparr>))"
    using sinv_done [OF assms(1) T] PersistAdd by (intro sinv_persistAdd) auto
  then show ?thesis using run PersistAdd by (auto simp: Let_def intro!: sinv_later split: if_splits)
next
  case (WriteCopy i body)
  have d: "sinv lib (e\<lparr>se_tasks := A @ B\<rparr>)" using sinv_done [OF assms(1) T] WriteCopy by auto
  then show ?thesis using run WriteCopy by (auto simp: Let_def case_prod_beta intro!: sinv_persist_task sinv_copies split: option.splits)
qed (use sinv_done [OF assms(1) T] run in \<open>auto intro!: sinv_persistState sinv_upgradeSigned sinv_upgradeMagnet split: option.splits if_splits\<close>)

lemma sinv_step:
  assumes "library_ok lib" and "sinv lib e" and "op_ok op e"
  shows "sinv lib (session_step lib op e)"
proof (cases op)
  case (SRun k copy_flt flt raw)
  show ?thesis
  proof (cases "k < length (se_tasks e)")
    case True
    then show ?thesis using sinv_task [OF assms(2) id_take_nth_drop [OF True]] assms(2) SRun by (auto split: option.split)
  qed (use assms(2) SRun in simp)
qed (use assms in \<open>auto intro!: sinv_AddMagnet sinv_AddInfoHash sinv_AddTorrentBytes sinv_persisting sinv_mark_removed sinv_queue dest: live_queue_only simp del: op_ok.simps(1)\<close>)

lemma sinv_run: "library_ok lib \<Longrightarrow> sinv lib e \<Longrightarrow> orderly lib ops e \<Longrightarrow> sinv lib (fold (session_step lib) ops e)"
  by (induction ops arbitrary: e) (simp_all add: sinv_step del: session_step.simps op_ok.simps)

section \<open>No resurrection\<close>


section \<open>Concrete runs\<close>

definition lab_library :: Library where
  "lab_library = \<lparr>lib_strict = (\<lambda>raw. if length raw = 20 then Some raw else None), lib_load = (\<lambda>raw. if length raw = 20 then Some raw else None), lib_spec = (\<lambda>_. True), lib_info = (\<lambda>_. True), lib_add = (\<lambda>_. True),
     lib_magnet = (\<lambda>uri. if uri = ''m'' then Some (replicate 20 1) else None)\<rparr>"

definition lab_engine :: SessionEngine where
  "lab_engine = fresh_engine 1 (session_of ''d'' []) (\<lambda>_. Absent) (\<lambda>_. Absent)"

text \<open>A magnet and a torrent file are added, and the first is removed while its row is still to be written.\<close>

definition lab_ops :: "session_op list" where
  "lab_ops = [SAddMagnet ''m'', SAddBytes ''k'' (replicate 20 2), SRemove lab_torrent] @ replicate 6 (SRun 0 None None [])"

text \<open>
  A torrent that is added again before the row of its removal is deleted has no row any more: it runs,
  nothing is pending, and a restart forgets it.
\<close>

definition lab_readd :: "session_op list" where
  "lab_readd = [SAddInfoHash (replicate 20 1), SRun 0 None None [], SRemove lab_torrent, SRun 0 None None [], SRun 0 None None [],
     SAddInfoHash (replicate 20 1), SRun 1 None None [], SRun 0 None None []]"

lemma readd_loses_row:
  "let e = fold (session_step lab_library) lab_readd lab_engine
   in map InfoHashHex (q_handles (se_queue e)) = [lab_torrent] \<and> session_list (se_session e) = [] \<and> se_tasks e = [UpgradeCopy 1]"
  by code_simp

text \<open>Without removals that overlap, the theorem applies; here the second torrent keeps its row, the first has none.\<close>

lemma lab_orderly: "library_ok lab_library" "orderly lab_library lab_ops lab_engine"
proof -
  show "library_ok lab_library" by (auto simp: library_ok_def lab_library_def split: if_splits)
  show "orderly lab_library lab_ops lab_engine" by code_simp
qed

text \<open>A move is written by the next pause.\<close>

definition lab_moved :: "session_op list" where
  "lab_moved = lab_ops @ [SQueue (OpToBack lab_second), SPause lab_second, SRun 0 None None []]"

lemma move_is_persisted:
  "map QueueOrder (session_list (se_session (fold (session_step lab_library) lab_ops lab_engine))) = [2] \<and>
   map QueueOrder (session_list (se_session (fold (session_step lab_library) lab_moved lab_engine))) = [3]"
  by code_simp

lemma lab_ops_end:
  "let e = fold (session_step lab_library) lab_ops lab_engine
   in map InfoHash (session_list (se_session e)) = [lab_second] \<and> map InfoHashHex (q_handles (se_queue e)) = [lab_second]"
  by code_simp


text \<open>That session is saved and restored: the torrent comes back from its copy.\<close>

definition lab_row :: sessionEntry where
  "lab_row = \<lparr>InfoHash = lab_second, AddedVia = ''file'', MagnetURI = [], TorrentFile_name = lab_second @ ''.torrent'', Paused = True, Indexing = True,
     QueueOrder = 2, SignedBy = ''k'', DataPath = [], ContentName = []\<rparr>"

definition lab_copies :: "bytes fs" where "lab_copies = (\<lambda>_. Absent)(''d/torrents/'' @ lab_second @ ''.torrent'' := Doc (replicate 20 2))"


end
