(* ===== verification/Local_Index.thy ===== *)
theory Local_Index
  imports Hex
begin

text \<open>
  The local search index: \<^verbatim>\<open>internal/indexer/indexer.go\<close>, \<^verbatim>\<open>content.go\<close>.  The full-text engine below it
  keeps stored fields under document identifiers; its writes, point reads and searches may fail.
  Times are Unix seconds, numbers are exact, and an identifier is kept as the parts it is printed from.
\<close>

section \<open>Documents\<close>

record TorrentDoc =
  td_InfoHash :: string
  td_Name :: string
  td_FilePaths :: "string list"
  td_Trackers :: "string list"
  td_SizeBytes :: int
  td_FileCount :: int
  td_AddedAt :: "int option"
  td_SignedBy :: string
  PreserveExistingSigner :: bool

record ContentDoc =
  cd_InfoHash :: string
  cd_FileIndex :: int
  cd_FilePath :: string
  cd_FileSize :: int
  cd_Mime :: string
  cd_Text :: string
  cd_Extractor :: string
  cd_IndexedAt :: "int option"
  cd_ChunkIndex :: int
  PreserveExisting :: bool

datatype doc_id = TorrentID string | ContentID string int int

definition torrent_docID :: "TorrentDoc \<Rightarrow> doc_id" where "torrent_docID d = TorrentID (ToLower (td_InfoHash d))"

definition content_docID :: "ContentDoc \<Rightarrow> doc_id" where
  "content_docID d = ContentID (ToLower (cd_InfoHash d)) (cd_FileIndex d) (cd_ChunkIndex d)"

text \<open>The stored fields of a torrent and of a chunk.\<close>

record torrent_fields =
  fieldInfoHash :: string
  fieldName :: string
  fieldFilePaths :: string
  fieldTrackers :: "string list"
  fieldSizeBytes :: int
  fieldAddedAt :: int
  fieldFileCount :: int
  fieldSignedBy :: string

record content_fields =
  fieldCInfoHash :: string
  fieldFileIndex :: int
  fieldFilePath :: string
  fieldFileSize :: int
  fieldMime :: string
  fieldText :: string
  fieldExtractor :: string
  fieldIndexedAt :: int

datatype stored = StoredTorrent torrent_fields | StoredContent content_fields

fun join_lines :: "string list \<Rightarrow> string" where
  "join_lines [] = []"
| "join_lines [p] = p"
| "join_lines (p # q # ps) = p @ CHR 0x0A # join_lines (q # ps)"

fun split_lines :: "string \<Rightarrow> string list" where
  "split_lines [] = [[]]"
| "split_lines (c # cs) =
     (if c = CHR 0x0A then [] # split_lines cs
      else case split_lines cs of [] \<Rightarrow> [[c]] | p # ps \<Rightarrow> (c # p) # ps)"

definition torrent_toBleve :: "int \<Rightarrow> TorrentDoc \<Rightarrow> torrent_fields" where
  "torrent_toBleve now d =
     \<lparr>fieldInfoHash = ToLower (td_InfoHash d), fieldName = td_Name d, fieldFilePaths = join_lines (td_FilePaths d), fieldTrackers = td_Trackers d,
      fieldSizeBytes = td_SizeBytes d, fieldAddedAt = (case td_AddedAt d of None \<Rightarrow> now | Some t \<Rightarrow> t),
      fieldFileCount = (if td_FileCount d = 0 then int (length (td_FilePaths d)) else td_FileCount d), fieldSignedBy = ToLower (td_SignedBy d)\<rparr>"

definition content_toBleve :: "int \<Rightarrow> ContentDoc \<Rightarrow> content_fields" where
  "content_toBleve now d =
     \<lparr>fieldCInfoHash = ToLower (cd_InfoHash d), fieldFileIndex = cd_FileIndex d, fieldFilePath = cd_FilePath d, fieldFileSize = cd_FileSize d,
      fieldMime = cd_Mime d, fieldText = cd_Text d, fieldExtractor = cd_Extractor d,
      fieldIndexedAt = (case cd_IndexedAt d of None \<Rightarrow> now | Some t \<Rightarrow> t)\<rparr>"

definition torrentDocFromFields :: "torrent_fields \<Rightarrow> TorrentDoc" where
  "torrentDocFromFields f =
     \<lparr>td_InfoHash = fieldInfoHash f, td_Name = fieldName f, td_FilePaths = (if fieldFilePaths f = [] then [] else split_lines (fieldFilePaths f)),
      td_Trackers = fieldTrackers f, td_SizeBytes = fieldSizeBytes f, td_FileCount = fieldFileCount f, td_AddedAt = Some (fieldAddedAt f),
      td_SignedBy = fieldSignedBy f, PreserveExistingSigner = False\<rparr>"

definition contentDocFromFields :: "content_fields \<Rightarrow> ContentDoc" where
  "contentDocFromFields f =
     \<lparr>cd_InfoHash = fieldCInfoHash f, cd_FileIndex = fieldFileIndex f, cd_FilePath = fieldFilePath f, cd_FileSize = fieldFileSize f, cd_Mime = fieldMime f,
      cd_Text = fieldText f, cd_Extractor = fieldExtractor f, cd_IndexedAt = Some (fieldIndexedAt f), cd_ChunkIndex = 0, PreserveExisting = False\<rparr>"

section \<open>The index\<close>

record SearchIndex =
  ix_open :: bool
  ix_docs :: "(doc_id \<times> stored) list"

text \<open>Which calls of the engine below succeed, by document.\<close>

record bleve_io =
  io_write :: "doc_id \<Rightarrow> bool"
  io_read :: "doc_id \<Rightarrow> bool"
  io_search :: "doc_id \<Rightarrow> bool"

datatype index_error = ErrEmptyInfoHash | ErrEmptyText | ErrIndexClosed | ErrForeignTorrent | ErrIndexWrite | ErrIndexSearch | ErrNoProgress

definition Document :: "SearchIndex \<Rightarrow> doc_id \<Rightarrow> stored option" where "Document ix i = map_of (ix_docs ix) i"

definition bleve_put :: "bleve_io \<Rightarrow> doc_id \<Rightarrow> stored \<Rightarrow> SearchIndex \<Rightarrow> index_error option \<times> SearchIndex" where
  "bleve_put io i d ix = (if io_write io i then (None, ix\<lparr>ix_docs := AList.update i d (ix_docs ix)\<rparr>) else (Some ErrIndexWrite, ix))"

definition storedSignedByLocked :: "bleve_io \<Rightarrow> doc_id \<Rightarrow> SearchIndex \<Rightarrow> string" where
  "storedSignedByLocked io i ix =
     (if \<not> io_search io i then []
      else case Document ix i of Some (StoredTorrent f) \<Rightarrow> fieldSignedBy f | _ \<Rightarrow> [])"

definition IndexTorrent :: "bleve_io \<Rightarrow> int \<Rightarrow> TorrentDoc \<Rightarrow> SearchIndex \<Rightarrow> index_error option \<times> SearchIndex" where
  "IndexTorrent io now doc ix =
     (if td_InfoHash doc = [] then (Some ErrEmptyInfoHash, ix)
      else if \<not> ix_open ix then (Some ErrIndexClosed, ix)
      else
        let i = torrent_docID doc; stored = storedSignedByLocked io i ix in
        if td_SignedBy doc = [] then
          bleve_put io i (StoredTorrent (torrent_toBleve now (if stored \<noteq> [] then doc\<lparr>td_SignedBy := stored\<rparr> else doc))) ix
        else if PreserveExistingSigner doc \<and> io_read io i \<and> Document ix i \<noteq> None \<and> stored \<noteq> ToLower (td_SignedBy doc) then (Some ErrForeignTorrent, ix)
        else bleve_put io i (StoredTorrent (torrent_toBleve now doc)) ix)"

definition IndexContent :: "bleve_io \<Rightarrow> int \<Rightarrow> ContentDoc \<Rightarrow> SearchIndex \<Rightarrow> index_error option \<times> SearchIndex" where
  "IndexContent io now doc ix =
     (if cd_InfoHash doc = [] then (Some ErrEmptyInfoHash, ix)
      else if cd_Text doc = [] then (Some ErrEmptyText, ix)
      else if \<not> ix_open ix then (Some ErrIndexClosed, ix)
      else if PreserveExisting doc \<and> io_read io (content_docID doc) \<and> Document ix (content_docID doc) \<noteq> None then (None, ix)
      else bleve_put io (content_docID doc) (StoredContent (content_toBleve now doc)) ix)"

definition DeleteTorrent :: "bleve_io \<Rightarrow> string \<Rightarrow> SearchIndex \<Rightarrow> index_error option \<times> SearchIndex" where
  "DeleteTorrent io infoHash ix =
     (if \<not> ix_open ix then (Some ErrIndexClosed, ix)
      else let i = TorrentID (ToLower infoHash) in
           if io_write io i then (None, ix\<lparr>ix_docs := AList.delete i (ix_docs ix)\<rparr>) else (Some ErrIndexWrite, ix))"

definition Close :: "SearchIndex \<Rightarrow> SearchIndex" where "Close ix = ix\<lparr>ix_open := False\<rparr>"

section \<open>Walks\<close>

text \<open>Pages of a thousand hits, up to a number of pages computed from the count.\<close>

fun collect_pages :: "nat \<Rightarrow> nat \<Rightarrow> 'a list \<Rightarrow> 'a list" where
  "collect_pages 0 offs hits = []"
| "collect_pages (Suc pages) offs hits =
     (let page = take 1000 (drop offs hits) in
      if page = [] then []
      else page @ (if length page < 1000 then [] else collect_pages pages (offs + 1000) hits))"

definition walk :: "'a list \<Rightarrow> 'a list" where "walk hits = collect_pages (length hits div 1000 + 2) 0 hits"

fun torrent_hit :: "doc_id \<times> stored \<Rightarrow> torrent_fields option" where
  "torrent_hit (i, StoredTorrent f) = Some f"
| "torrent_hit (i, StoredContent f) = None"

fun content_hit :: "string \<Rightarrow> doc_id \<times> stored \<Rightarrow> content_fields option" where
  "content_hit infoHash (i, StoredTorrent f) = None"
| "content_hit infoHash (i, StoredContent f) = (if fieldCInfoHash f = ToLower infoHash then Some f else None)"

definition AllTorrentDocs :: "SearchIndex \<Rightarrow> index_error + TorrentDoc list" where
  "AllTorrentDocs ix =
     (if \<not> ix_open ix then Inl ErrIndexClosed
      else Inr (map torrentDocFromFields (walk (List.map_filter torrent_hit (ix_docs ix)))))"

definition ContentDocsForInfoHash :: "string \<Rightarrow> SearchIndex \<Rightarrow> index_error + ContentDoc list" where
  "ContentDocsForInfoHash infoHash ix =
     (if \<not> ix_open ix then Inl ErrIndexClosed
      else Inr (map contentDocFromFields (walk (List.map_filter (content_hit infoHash) (ix_docs ix)))))"

text \<open>Deletion in batches; a batch that does not take effect would come back, so the rounds are bounded.\<close>

fun delete_rounds :: "nat \<Rightarrow> (doc_id \<Rightarrow> bool) \<Rightarrow> (doc_id \<times> stored \<Rightarrow> bool) \<Rightarrow> nat \<Rightarrow> (doc_id \<times> stored) list \<Rightarrow>
    (index_error option \<times> nat) \<times> (doc_id \<times> stored) list" where
  "delete_rounds 0 effective q deleted docs = ((Some ErrNoProgress, deleted), docs)"
| "delete_rounds (Suc rounds) effective q deleted docs =
     (let page = take 1000 (filter q docs); docs2 = filter (\<lambda>d. \<not> (d \<in> set page \<and> effective (fst d))) docs in
      if page = [] then ((None, deleted), docs)
      else if length page < 1000 then ((None, deleted + length page), docs2)
      else delete_rounds rounds effective q (deleted + length page) docs2)"

definition DeleteContentForTorrent :: "(doc_id \<Rightarrow> bool) \<Rightarrow> string \<Rightarrow> SearchIndex \<Rightarrow> (index_error option \<times> nat) \<times> SearchIndex" where
  "DeleteContentForTorrent effective infoHash ix =
     (if \<not> ix_open ix then ((Some ErrIndexClosed, 0), ix)
      else
        let q = (\<lambda>d. content_hit infoHash d \<noteq> None);
            (res, docs) = delete_rounds (length (filter q (ix_docs ix)) div 1000 * 2 + 4) effective q 0 (ix_docs ix)
        in (res, ix\<lparr>ix_docs := docs\<rparr>))"

section \<open>What the index keeps\<close>

lemma collect_all: "length hits < offs + 1000 * pages \<Longrightarrow> collect_pages pages offs hits = drop offs hits"
proof (induction pages arbitrary: offs)
  case (Suc pages)
  show ?case
  proof (cases "length (drop offs hits) < 1000")
    case False
    then have "take 1000 (drop offs hits) \<noteq> []" "length (take 1000 (drop offs hits)) = 1000" by (auto simp: Let_def)
    then have "collect_pages (Suc pages) offs hits = take 1000 (drop offs hits) @ drop (offs + 1000) hits"
      using Suc.IH [of "offs + 1000"] Suc.prems by (simp add: Let_def)
    then show ?thesis by (metis append_take_drop_id drop_drop add.commute)
  qed (auto simp: Let_def)
qed simp

text \<open>The page limit never cuts a walk short.\<close>

lemma walk_all [simp]: "walk hits = hits"
proof -
  have "length hits < 0 + 1000 * (length hits div 1000 + 2)" using dividend_less_div_times [of 1000 "length hits"] by simp
  then show ?thesis unfolding walk_def by (subst collect_all) simp_all
qed

lemma split_join: "ps \<noteq> [] \<Longrightarrow> \<forall>p \<in> set ps. CHR 0x0A \<notin> set p \<Longrightarrow> split_lines (join_lines ps) = ps"
proof (induction ps rule: join_lines.induct)
  case (2 p)
  have "CHR 0x0A \<notin> set p \<Longrightarrow> split_lines p = [p]" for p by (induction p) auto
  then show ?case using 2 by simp
next
  case (3 p q ps)
  have "CHR 0x0A \<notin> set p \<Longrightarrow> split_lines (p @ CHR 0x0A # s) = p # split_lines s" for p s by (induction p) auto
  then show ?case using 3 by simp
qed simp

definition index_ok :: "SearchIndex \<Rightarrow> bool" where
  "index_ok ix \<longleftrightarrow> distinct (map fst (ix_docs ix)) \<and>
     (\<forall>ih d. Document ix (TorrentID ih) = Some d \<longrightarrow> (\<exists>f. d = StoredTorrent f \<and> fieldInfoHash f = ih \<and> fieldInfoHash f \<noteq> [])) \<and>
     (\<forall>ih i c d. Document ix (ContentID ih i c) = Some d \<longrightarrow> (\<exists>f. d = StoredContent f \<and> fieldCInfoHash f = ih \<and> fieldFileIndex f = i \<and> fieldText f \<noteq> []))"

lemma put_Document [simp]: "Document (ix\<lparr>ix_docs := AList.update i d (ix_docs ix)\<rparr>) j = (if j = i then Some d else Document ix j)"
  by (simp add: Document_def update_conv')

lemma index_ok_put:
  assumes "index_ok ix" and "\<And>ih. i = TorrentID ih \<Longrightarrow> \<exists>f. d = StoredTorrent f \<and> fieldInfoHash f = ih \<and> fieldInfoHash f \<noteq> []"
    and "\<And>ih n c. i = ContentID ih n c \<Longrightarrow> \<exists>f. d = StoredContent f \<and> fieldCInfoHash f = ih \<and> fieldFileIndex f = n \<and> fieldText f \<noteq> []"
  shows "index_ok (ix\<lparr>ix_docs := AList.update i d (ix_docs ix)\<rparr>)"
  using assms unfolding index_ok_def by (auto simp: distinct_update)

lemma torrent_toBleve_fields [simp]:
  "fieldInfoHash (torrent_toBleve now d) = ToLower (td_InfoHash d)" "fieldSignedBy (torrent_toBleve now d) = ToLower (td_SignedBy d)"
  "fieldName (torrent_toBleve now d) = td_Name d"
  by (simp_all add: torrent_toBleve_def)

text \<open>What a write does: an error changes nothing, success sets the one document.\<close>

lemma IndexTorrent_cases:
  assumes "IndexTorrent io now doc ix = (err, ix2)"
  obtains "err \<noteq> None" "ix2 = ix"
  | f where "err = None" "ix_open ix" "td_InfoHash doc \<noteq> []" "ix2 = ix\<lparr>ix_docs := AList.update (torrent_docID doc) (StoredTorrent f) (ix_docs ix)\<rparr>"
      "fieldInfoHash f = ToLower (td_InfoHash doc)" "fieldName f = td_Name doc" "td_SignedBy doc \<noteq> [] \<Longrightarrow> f = torrent_toBleve now doc"
      "td_SignedBy doc \<noteq> [] \<and> PreserveExistingSigner doc \<and> io_read io (torrent_docID doc) \<Longrightarrow>
        Document ix (torrent_docID doc) = None \<or> storedSignedByLocked io (torrent_docID doc) ix = ToLower (td_SignedBy doc)"
  using assms by (auto simp: IndexTorrent_def Let_def bleve_put_def split: if_splits)

lemma IndexContent_cases:
  assumes "IndexContent io now doc ix = (err, ix2)"
  obtains "ix2 = ix" | "err = None" "ix_open ix" "cd_InfoHash doc \<noteq> []" "cd_Text doc \<noteq> []"
      "ix2 = ix\<lparr>ix_docs := AList.update (content_docID doc) (StoredContent (content_toBleve now doc)) (ix_docs ix)\<rparr>"
      "PreserveExisting doc \<and> io_read io (content_docID doc) \<Longrightarrow> Document ix (content_docID doc) = None"
  using assms by (auto simp: IndexContent_def bleve_put_def split: if_splits)

lemma index_ok_torrent: "index_ok ix \<Longrightarrow> index_ok (snd (IndexTorrent io now doc ix))"
proof -
  assume ok: "index_ok ix"
  obtain err ix2 where r: "IndexTorrent io now doc ix = (err, ix2)" by fastforce
  then have "index_ok ix2" by (cases rule: IndexTorrent_cases) (use ok in \<open>auto simp: torrent_docID_def intro!: index_ok_put\<close>)
  then show ?thesis using r by simp
qed

lemma index_ok_content: "index_ok ix \<Longrightarrow> index_ok (snd (IndexContent io now doc ix))"
proof -
  assume ok: "index_ok ix"
  obtain err ix2 where r: "IndexContent io now doc ix = (err, ix2)" by fastforce
  then have "index_ok ix2" by (cases rule: IndexContent_cases) (use ok in \<open>auto simp: content_docID_def content_toBleve_def intro!: index_ok_put\<close>)
  then show ?thesis using r by simp
qed

lemma drop_first_page: "distinct ys \<Longrightarrow> filter (\<lambda>d. d \<notin> set (take n ys)) ys = drop n ys"
proof (induction ys arbitrary: n)
  case (Cons y ys)
  show ?case
  proof (cases n)
    case (Suc m)
    have "filter (\<lambda>d. d \<noteq> y \<and> d \<notin> set (take m ys)) ys = filter (\<lambda>d. d \<notin> set (take m ys)) ys" using Cons.prems by (intro filter_cong) auto
    then show ?thesis using Cons Suc by simp
  qed simp
qed simp

text \<open>When deletions take effect the rounds suffice, and exactly the matching documents go.\<close>

lemma delete_rounds_all:
  assumes "distinct docs" and "length (filter q docs) < 1000 * rounds" and "\<And>i. effective i"
  shows "delete_rounds rounds effective q n docs = ((None, n + length (filter q docs)), filter (\<lambda>d. \<not> q d) docs)"
  using assms(1,2)
proof (induction rounds arbitrary: n docs)
  case (Suc rounds)
  let ?ys = "filter q docs"
  let ?docs = "filter (\<lambda>d. \<not> (d \<in> set (take 1000 ?ys) \<and> effective (fst d))) docs"
  have "filter (\<lambda>d. q d \<and> d \<notin> set (take 1000 ?ys)) docs = filter (\<lambda>d. d \<notin> set (take 1000 ?ys)) ?ys" by (simp add: conj_commute)
  then have ys: "filter q ?docs = drop 1000 ?ys" using drop_first_page [of ?ys 1000] Suc.prems(1) assms(3) by (simp add: conj_commute)
  have gone: "filter (\<lambda>d. \<not> q d) ?docs = filter (\<lambda>d. \<not> q d) docs" by (simp, intro filter_cong) (auto dest: in_set_takeD)
  define page where "page = take 1000 ?ys"
  have run: "delete_rounds (Suc rounds) effective q n docs = (if page = [] then ((None, n), docs) else if length page < 1000 then ((None, n + length page), ?docs)
      else delete_rounds rounds effective q (n + length page) ?docs)" unfolding delete_rounds.simps(2) Let_def page_def by (rule refl)
  show ?case
  proof (cases "length ?ys < 1000")
    case True
    then have page: "page = ?ys" by (simp add: page_def)
    have short: "?docs = filter (\<lambda>d. \<not> q d) docs" using True assms(3) by (intro filter_cong) auto
    have "filter (\<lambda>d. \<not> q d) docs = docs" if "?ys = []" using that by (intro filter_True) (auto simp: filter_empty_conv)
    then show ?thesis unfolding run short page using True by (cases "?ys = []") simp_all
  next
    case False
    then have "length (filter q ?docs) < 1000 * rounds" unfolding ys using Suc.prems(2) by simp
    moreover have "page \<noteq> []" "length page = 1000" using False by (auto simp: page_def)
    ultimately show ?thesis using Suc.IH [of ?docs "n + 1000"] Suc.prems(1) False unfolding run ys gone by simp
  qed
qed simp

lemma DeleteContent_all:
  assumes "index_ok ix" and "ix_open ix" and "\<And>i. effective i"
  shows "DeleteContentForTorrent effective infoHash ix =
    ((None, length (filter (\<lambda>d. content_hit infoHash d \<noteq> None) (ix_docs ix))), ix\<lparr>ix_docs := filter (\<lambda>d. content_hit infoHash d = None) (ix_docs ix)\<rparr>)"
proof -
  let ?n = "length (filter (\<lambda>d. content_hit infoHash d \<noteq> None) (ix_docs ix))"
  have "?n < 1000 * (?n div 1000 * 2 + 4)" using dividend_less_div_times [of 1000 ?n] by simp
  moreover have "distinct (ix_docs ix)" using assms(1) by (simp add: index_ok_def distinct_map)
  ultimately show ?thesis using delete_rounds_all [OF _ _ assms(3), of "ix_docs ix"] assms(2) by (simp add: DeleteContentForTorrent_def Let_def)
qed

end
