(* ===== verification/Companion_Feed.thy ===== *)
theory Companion_Feed
  imports Local_Index Atomic_File
begin

text \<open>
  The companion feed: \<^verbatim>\<open>internal/companion\<close>, and the engine's half of it (\<^verbatim>\<open>internal/engine/companion.go\<close>).  A
  publisher turns its index into a snapshot, seeds it as a torrent of one file and points to it from the
  DHT; a follower resolves the pointer, fetches the file, checks who wrote it and imports it.
\<close>

section \<open>Snapshots\<close>

text \<open>The schema.  A nil list of torrents is an empty one; byte offsets of chunks are never set.\<close>

record ContentChunk = ch_Text :: string

record FileRecord =
  fr_Index :: int
  fr_Path :: string
  fr_Size :: int
  fr_Mime :: string
  fr_Extractor :: string
  fr_Chunks :: "ContentChunk list"

record TorrentRecord =
  tr_InfoHash :: string
  tr_Name :: string
  tr_Size :: int
  tr_AddedAt :: int
  tr_Files :: "FileRecord list"

record CompanionIndex =
  ci_Version :: int
  ci_Format :: string
  ci_Publisher :: string
  ci_GeneratedAt :: int
  ci_Torrents :: "TorrentRecord list"

definition FormatVersion :: int where "FormatVersion = 1"
definition FormatName :: string where "FormatName = ''swartznet-content-index''"
definition FormatFileName :: string where "FormatFileName = ''swartznet-content-index-v1.json.gz''"

definition CompanionFileName :: "string \<Rightarrow> string" where
  "CompanionFileName pubkeyHex =
     (if pubkeyHex = [] then FormatFileName
      else ''swartznet-content-index-'' @ (if length pubkeyHex > 12 then take 12 pubkeyHex else pubkeyHex) @ ''-v1.json.gz'')"

text \<open>A payload is the document it decompresses to, or one of the ways it does not.\<close>

datatype payload = NotGzip | BadGzip | Oversize | NotJson | Json CompanionIndex

datatype decode_error = ErrGzip | ErrReadGzip | ErrSafetyCap | ErrJson | ErrFormat | ErrVersion

definition Encode :: "CompanionIndex \<Rightarrow> payload" where
  "Encode idx = Json (idx\<lparr>ci_Format := FormatName, ci_Version := FormatVersion\<rparr>)"

definition Decode :: "payload \<Rightarrow> decode_error + CompanionIndex" where
  "Decode p =
     (case p of
        NotGzip \<Rightarrow> Inl ErrGzip
      | BadGzip \<Rightarrow> Inl ErrReadGzip
      | Oversize \<Rightarrow> Inl ErrSafetyCap
      | NotJson \<Rightarrow> Inl ErrJson
      | Json idx \<Rightarrow>
          if ci_Format idx \<noteq> FormatName then Inl ErrFormat
          else if ci_Version idx \<noteq> FormatVersion then Inl ErrVersion
          else Inr idx)"

section \<open>Building a snapshot\<close>

record BuildOptions =
  IncludeContent :: bool
  IncludeTorrentNames :: bool
  MaxChunksPerFile :: int
  MaxFilesPerTorrent :: int

definition DefaultBuildOptions :: BuildOptions where
  "DefaultBuildOptions = \<lparr>IncludeContent = True, IncludeTorrentNames = True, MaxChunksPerFile = 0, MaxFilesPerTorrent = 0\<rparr>"

record fileBucket =
  b_path :: string
  b_size :: int
  b_mime :: string
  b_extractor :: string
  b_chunks :: "ContentChunk list"

definition add_to_bucket :: "ContentDoc \<Rightarrow> (int \<Rightarrow> fileBucket option) \<Rightarrow> int \<Rightarrow> fileBucket option" where
  "add_to_bucket c byIndex =
     (let b = (case byIndex (cd_FileIndex c) of
                 None \<Rightarrow> \<lparr>b_path = cd_FilePath c, b_size = cd_FileSize c, b_mime = [], b_extractor = [], b_chunks = []\<rparr>
               | Some b \<Rightarrow> b);
          b = (if b_path b = [] \<and> cd_FilePath c \<noteq> [] then b\<lparr>b_path := cd_FilePath c\<rparr> else b);
          b = (if b_mime b = [] then b\<lparr>b_mime := cd_Mime c\<rparr> else b);
          b = (if b_extractor b = [] then b\<lparr>b_extractor := cd_Extractor c\<rparr> else b);
          b = b\<lparr>b_chunks := b_chunks b @ [\<lparr>ch_Text = cd_Text c\<rparr>]\<rparr>
      in byIndex(cd_FileIndex c \<mapsto> b))"

definition file_record :: "BuildOptions \<Rightarrow> (int \<Rightarrow> fileBucket option) \<Rightarrow> nat \<Rightarrow> string \<Rightarrow> FileRecord" where
  "file_record opts byIndex i p =
     (case byIndex (int i) of
        None \<Rightarrow> \<lparr>fr_Index = int i, fr_Path = p, fr_Size = 0, fr_Mime = [], fr_Extractor = [], fr_Chunks = []\<rparr>
      | Some b \<Rightarrow>
          \<lparr>fr_Index = int i, fr_Path = p, fr_Size = b_size b, fr_Mime = b_mime b, fr_Extractor = b_extractor b,
           fr_Chunks = (if MaxChunksPerFile opts > 0 \<and> int (length (b_chunks b)) > MaxChunksPerFile opts
                        then take (nat (MaxChunksPerFile opts)) (b_chunks b) else b_chunks b)\<rparr>)"

fun emit_files :: "BuildOptions \<Rightarrow> (int \<Rightarrow> fileBucket option) \<Rightarrow> nat \<Rightarrow> string list \<Rightarrow> FileRecord list" where
  "emit_files opts byIndex i [] = []"
| "emit_files opts byIndex i (p # ps) =
     file_record opts byIndex i p #
     (if MaxFilesPerTorrent opts > 0 \<and> int (i + 1) \<ge> MaxFilesPerTorrent opts then [] else emit_files opts byIndex (i + 1) ps)"

definition collectFileRecords :: "string list \<Rightarrow> ContentDoc list \<Rightarrow> BuildOptions \<Rightarrow> FileRecord list" where
  "collectFileRecords filePaths contentDocs opts = emit_files opts (fold add_to_bucket contentDocs Map.empty) 0 filePaths"

definition torrent_record :: "BuildOptions \<Rightarrow> SearchIndex \<Rightarrow> TorrentDoc \<Rightarrow> index_error + TorrentRecord" where
  "torrent_record opts src t =
     (let rec = \<lparr>tr_InfoHash = ToLower (td_InfoHash t), tr_Name = (if IncludeTorrentNames opts then td_Name t else []), tr_Size = td_SizeBytes t,
                 tr_AddedAt = (case td_AddedAt t of None \<Rightarrow> 0 | Some s \<Rightarrow> s), tr_Files = []\<rparr> in
      if \<not> IncludeContent opts then Inr rec
      else bind_res (ContentDocsForInfoHash (td_InfoHash t) src) (\<lambda>docs. Inr (rec\<lparr>tr_Files := collectFileRecords (td_FilePaths t) docs opts\<rparr>)))"

definition BuildFromIndex :: "int \<Rightarrow> SearchIndex \<Rightarrow> string \<Rightarrow> BuildOptions \<Rightarrow> index_error + CompanionIndex" where
  "BuildFromIndex now src publisherHex opts =
     bind_res (AllTorrentDocs src) (\<lambda>torrents.
       bind_res (map_res (torrent_record opts src) torrents) (\<lambda>recs.
         Inr \<lparr>ci_Version = 0, ci_Format = [], ci_Publisher = publisherHex, ci_GeneratedAt = now, ci_Torrents = recs\<rparr>))"

section \<open>The files\<close>

text \<open>
  The metainfo of one payload: its piece hashes stand for the payload itself.  What the torrent library
  computes from it, the infohash, is a parameter.
\<close>

record MetaInfo =
  mi_Name :: string
  mi_Pieces :: payload

datatype companion_doc = PayloadDoc payload | MetaDoc MetaInfo

datatype publish_fault = FailMkdir | FailEncode | FailPayload write_fault | FailPieces | FailMarshal | FailMetaFile write_fault

datatype publish_error = ErrBuild index_error | ErrNothing | ErrWrite publish_fault | ErrPutPointer

definition path_Join :: "string \<Rightarrow> string \<Rightarrow> string" where "path_Join dir name = dir @ ''/'' @ name"

definition buildMetaInfoForFile :: "string \<Rightarrow> payload \<Rightarrow> MetaInfo" where
  "buildMetaInfoForFile name body = \<lparr>mi_Name = name, mi_Pieces = body\<rparr>"

definition WriteCompanionFiles :: "publish_fault option \<Rightarrow> string \<Rightarrow> CompanionIndex \<Rightarrow> companion_doc fs \<Rightarrow>
    (publish_error + string \<times> MetaInfo) \<times> companion_doc fs" where
  "WriteCompanionFiles flt dir idx fs =
     (if flt = Some FailMkdir \<or> flt = Some FailEncode then (Inl (ErrWrite (the flt)), fs)
      else
        let name = CompanionFileName (ci_Publisher idx); jsonPath = path_Join dir name; body = Encode idx;
            (ok, fs) = save_fixed (case flt of Some (FailPayload w) \<Rightarrow> Some w | _ \<Rightarrow> None) jsonPath (PayloadDoc body) fs in
        if \<not> ok then (Inl (ErrWrite (the flt)), fs)
        else if flt = Some FailPieces \<or> flt = Some FailMarshal then (Inl (ErrWrite (the flt)), fs)
        else
          let mi = buildMetaInfoForFile name body;
              (ok, fs) = save_fixed (case flt of Some (FailMetaFile w) \<Rightarrow> Some w | _ \<Rightarrow> None) (path_Join dir ''companion.torrent'') (MetaDoc mi) fs
          in if \<not> ok then (Inl (ErrWrite (the flt)), fs) else (Inr (jsonPath, mi), fs))"

section \<open>The publisher\<close>

record PublisherOptions =
  Dir :: string
  MinInterval :: int
  Build :: BuildOptions

text \<open>The zero time is \<open>None\<close>.\<close>

record Publisher =
  pubkeyHex :: string
  p_opts :: PublisherOptions
  lastRefresh :: "int option"
  lastAttempt :: "int option"
  lastInfoHash :: string
  lastError :: "publish_error option"
  publishedCount :: nat
  lastSeededIH :: bytes
  lastContentFP :: bytes
  lastGeneratedAt :: int
  p_trigger :: bool

text \<open>What the publisher acts on: its files, the torrents that the engine seeds for it, its pointer in the DHT.\<close>

record Outside =
  o_fs :: "companion_doc fs"
  o_seeds :: "(bytes \<times> MetaInfo \<times> string) list"
  o_pointer :: "bytes option"

definition zeroIH :: bytes where "zeroIH = replicate 20 0"
definition zeroFP :: bytes where "zeroFP = replicate 32 0"

definition NewPublisher :: "bytes \<Rightarrow> PublisherOptions \<Rightarrow> Publisher option" where
  "NewPublisher key opts =
     (if Dir opts = [] then None
      else Some \<lparr>pubkeyHex = hex_EncodeToString key, p_opts = opts\<lparr>MinInterval := (if MinInterval opts \<le> 0 then 60 else MinInterval opts)\<rparr>, lastRefresh = None,
        lastAttempt = None, lastInfoHash = [], lastError = None, publishedCount = 0, lastSeededIH = zeroIH, lastContentFP = zeroFP, lastGeneratedAt = 0,
        p_trigger = False\<rparr>)"

definition RefreshNow :: "int \<Rightarrow> Publisher \<Rightarrow> bool \<times> Publisher" where
  "RefreshNow now p =
     (case lastAttempt p of
        Some t \<Rightarrow> if now - t < MinInterval (p_opts p) then (False, p) else (True, p\<lparr>p_trigger := True\<rparr>)
      | None \<Rightarrow> (True, p\<lparr>p_trigger := True\<rparr>))"

text \<open>\<open>rec_hash\<close> is the hash of a record's encoding.\<close>

definition contentFingerprint :: "(TorrentRecord \<Rightarrow> bytes) \<Rightarrow> CompanionIndex \<Rightarrow> bytes" where
  "contentFingerprint rec_hash idx = fold (\<lambda>tr fp. xor_bytes fp (rec_hash tr)) (ci_Torrents idx) zeroFP"

definition recordSuccess :: "int \<Rightarrow> string \<Rightarrow> Publisher \<Rightarrow> Publisher" where
  "recordSuccess now ihHex p =
     p\<lparr>lastRefresh := Some now, lastAttempt := Some now, lastInfoHash := ihHex, lastError := None, publishedCount := publishedCount p + 1\<rparr>"

definition recordFailure :: "int \<Rightarrow> publish_error \<Rightarrow> Publisher \<Rightarrow> Publisher" where
  "recordFailure now err p = p\<lparr>lastAttempt := Some now, lastError := Some err\<rparr>"

definition stamp_snapshot :: "bytes \<Rightarrow> CompanionIndex \<Rightarrow> Publisher \<Rightarrow> CompanionIndex \<times> Publisher" where
  "stamp_snapshot fp idx p =
     (if fp = lastContentFP p \<and> lastGeneratedAt p \<noteq> 0 then (idx\<lparr>ci_GeneratedAt := lastGeneratedAt p\<rparr>, p)
      else
        let idx = (if lastGeneratedAt p \<noteq> 0 \<and> ci_GeneratedAt idx \<le> lastGeneratedAt p then idx\<lparr>ci_GeneratedAt := lastGeneratedAt p + 1\<rparr> else idx)
        in (idx, p\<lparr>lastContentFP := fp, lastGeneratedAt := ci_GeneratedAt idx\<rparr>))"

text \<open>
  The engine's part: seeding twice is one torrent, dropping removes it.  A call may fail; the publisher
  goes on.
\<close>

definition SeedMetaInfo :: "bool \<Rightarrow> bytes \<Rightarrow> MetaInfo \<Rightarrow> string \<Rightarrow> Outside \<Rightarrow> Outside" where
  "SeedMetaInfo ok ih mi contentPath w =
     (if \<not> ok \<or> ih \<in> fst ` set (o_seeds w) then w else w\<lparr>o_seeds := (ih, mi, contentPath) # o_seeds w\<rparr>)"

definition DropTorrent :: "bool \<Rightarrow> bytes \<Rightarrow> Outside \<Rightarrow> Outside" where
  "DropTorrent ok ih w = (if ok then w\<lparr>o_seeds := filter (\<lambda>s. fst s \<noteq> ih) (o_seeds w)\<rparr> else w)"

record refresh_env =
  e_now :: int
  e_corpus :: SearchIndex
  e_fault :: "publish_fault option"
  e_seed_ok :: bool
  e_put_ok :: bool
  e_drop_ok :: bool

definition refreshOnce :: "(TorrentRecord \<Rightarrow> bytes) \<Rightarrow> (MetaInfo \<Rightarrow> bytes) \<Rightarrow> refresh_env \<Rightarrow> Publisher \<times> Outside \<Rightarrow> Publisher \<times> Outside" where
  "refreshOnce rec_hash info_hash env = (\<lambda>(p, w).
     case BuildFromIndex (e_now env) (e_corpus env) (pubkeyHex p) (Build (p_opts p)) of
       Inl err \<Rightarrow> (recordFailure (e_now env) (ErrBuild err) p, w)
     | Inr idx \<Rightarrow>
         if ci_Torrents idx = [] then (recordFailure (e_now env) ErrNothing p, w)
         else
           let (idx, p) = stamp_snapshot (contentFingerprint rec_hash idx) idx p;
               (res, fs) = WriteCompanionFiles (e_fault env) (Dir (p_opts p)) idx (o_fs w);
               w = w\<lparr>o_fs := fs\<rparr>
           in case res of
                Inl err \<Rightarrow> (recordFailure (e_now env) err p, w)
              | Inr (jsonPath, mi) \<Rightarrow>
                  let ih = info_hash mi;
                      w = SeedMetaInfo (e_seed_ok env) ih mi jsonPath w
                  in if \<not> e_put_ok env then
                       (recordFailure (e_now env) ErrPutPointer p, if ih \<noteq> lastSeededIH p then DropTorrent (e_drop_ok env) ih w else w)
                     else
                       let w = w\<lparr>o_pointer := Some ih\<rparr>; prev = lastSeededIH p;
                           w = (if prev \<noteq> zeroIH \<and> prev \<noteq> ih then DropTorrent (e_drop_ok env) prev w else w)
                       in (recordSuccess (e_now env) (hex_EncodeToString ih) (p\<lparr>lastSeededIH := ih\<rparr>), w))"

end
