(* ===== verification/Companion_Follow.thy ===== *)
theory Companion_Follow
  imports Companion_Feed
begin

text \<open>
  Following a companion feed: \<^verbatim>\<open>subscriber.go\<close> and \<^verbatim>\<open>worker.go\<close> of \<^verbatim>\<open>internal/companion\<close>, and the bounded
  fetch of \<^verbatim>\<open>internal/engine/companion.go\<close> with the handles it may drop.
\<close>

section \<open>The fetch\<close>

text \<open>What the torrent library tells of an untrusted torrent once its metadata is there.\<close>

record torrent_info =
  ti_files :: nat
  ti_length :: int
  ti_name :: string

datatype fetch_error = ErrNoInfo | ErrFileCount | ErrTooLarge | ErrUnsafeFile | ErrZeroInfoHash | ErrEngineClosed | ErrFetchTimeout

definition maxCompanionBytes :: int where "maxCompanionBytes = 32 * 2 ^ 20"

definition unsafeCompanionName :: "string \<Rightarrow> bool" where
  "unsafeCompanionName name \<longleftrightarrow> name = [] \<or> name = ''.'' \<or> name = ''..'' \<or> list_ex (\<lambda>c. c = CHR ''/'' \<or> c = CHR 0x5C) name"

definition validateCompanionInfo :: "torrent_info option \<Rightarrow> fetch_error option" where
  "validateCompanionInfo info =
     (case info of
        None \<Rightarrow> Some ErrNoInfo
      | Some i \<Rightarrow>
          if ti_files i \<noteq> 1 then Some ErrFileCount
          else if ti_length i > maxCompanionBytes then Some ErrTooLarge
          else if unsafeCompanionName (ti_name i) then Some ErrUnsafeFile
          else None)"

text \<open>The engine's handles with their companion flag, and how many fetches hold one.\<close>

record CompanionEngine =
  ce_handles :: "(bytes \<times> bool) list"
  companionFetchRefs :: "(bytes \<times> nat) list"
  ce_closed :: bool

definition registerLockedCompanion :: "bytes \<Rightarrow> CompanionEngine \<Rightarrow> bool \<times> CompanionEngine" where
  "registerLockedCompanion ih e =
     (case map_of (ce_handles e) ih of
        Some companion \<Rightarrow> (companion, e)
      | None \<Rightarrow> (True, e\<lparr>ce_handles := AList.update ih True (ce_handles e)\<rparr>))"

definition DropCompanionTorrent :: "bytes \<Rightarrow> CompanionEngine \<Rightarrow> CompanionEngine" where
  "DropCompanionTorrent ih e =
     (case map_of (ce_handles e) ih of
        Some True \<Rightarrow> e\<lparr>ce_handles := AList.delete ih (ce_handles e)\<rparr>
      | _ \<Rightarrow> e)"

definition addCompanionInfoHash :: "bytes \<Rightarrow> CompanionEngine \<Rightarrow> (fetch_error + bool) \<times> CompanionEngine" where
  "addCompanionInfoHash ih e =
     (if ih = zeroIH then (Inl ErrZeroInfoHash, e)
      else if ce_closed e then (Inl ErrEngineClosed, e)
      else let (companion, e) = registerLockedCompanion ih e in (Inr companion, e))"

definition fetch_refs :: "bytes \<Rightarrow> CompanionEngine \<Rightarrow> nat" where
  "fetch_refs ih e = (case map_of (companionFetchRefs e) ih of None \<Rightarrow> 0 | Some n \<Rightarrow> n)"

definition retainAndAttachCompanion :: "bytes \<Rightarrow> CompanionEngine \<Rightarrow> (fetch_error + bool) \<times> CompanionEngine" where
  "retainAndAttachCompanion ih e =
     (let n = fetch_refs ih e + 1; e = e\<lparr>companionFetchRefs := AList.update ih n (companionFetchRefs e)\<rparr> in
      case addCompanionInfoHash ih e of
        (Inl err, e) \<Rightarrow>
          (Inl err, if n - 1 = 0 then e\<lparr>companionFetchRefs := AList.delete ih (companionFetchRefs e)\<rparr>
                    else e\<lparr>companionFetchRefs := AList.update ih (n - 1) (companionFetchRefs e)\<rparr>)
      | (Inr companion, e) \<Rightarrow> (Inr companion, e))"

definition releaseCompanionFetch :: "bytes \<Rightarrow> CompanionEngine \<Rightarrow> CompanionEngine" where
  "releaseCompanionFetch ih e =
     (let n = fetch_refs ih e - 1 in
      if n > 0 then e\<lparr>companionFetchRefs := AList.update ih n (companionFetchRefs e)\<rparr>
      else DropCompanionTorrent ih (e\<lparr>companionFetchRefs := AList.delete ih (companionFetchRefs e)\<rparr>))"

text \<open>Adding a torrent of the user's own keeps a handle that is there.\<close>

definition register_real :: "bytes \<Rightarrow> CompanionEngine \<Rightarrow> CompanionEngine" where
  "register_real ih e = (case map_of (ce_handles e) ih of Some _ \<Rightarrow> e | None \<Rightarrow> e\<lparr>ce_handles := AList.update ih False (ce_handles e)\<rparr>)"

datatype companion_op = CSeed bytes | CDrop bytes | CAttach bytes | CRelease bytes | CReal bytes

fun companion_step :: "companion_op \<Rightarrow> CompanionEngine \<Rightarrow> CompanionEngine" where
  "companion_step (CSeed ih) e = (if ce_closed e then e else snd (registerLockedCompanion ih e))"
| "companion_step (CDrop ih) e = DropCompanionTorrent ih e"
| "companion_step (CAttach ih) e = snd (retainAndAttachCompanion ih e)"
| "companion_step (CRelease ih) e = releaseCompanionFetch ih e"
| "companion_step (CReal ih) e = register_real ih e"

text \<open>No companion operation, whatever infohash a pointer names, takes a torrent of the user away.\<close>

lemma real_torrent_kept:
  assumes "map_of (ce_handles e) ih = Some False"
  shows "map_of (ce_handles (fold companion_step ops e)) ih = Some False"
  using assms
proof (induction ops arbitrary: e)
  case (Cons op ops)
  have "map_of (ce_handles (companion_step op e)) ih = Some False"
    using Cons.prems by (cases op) (auto simp: registerLockedCompanion_def DropCompanionTorrent_def retainAndAttachCompanion_def addCompanionInfoHash_def
      releaseCompanionFetch_def register_real_def Let_def update_conv' delete_conv' split: option.split bool.split)
  then show ?case using Cons.IH by simp
qed simp

text \<open>
  But the node's own seed is a companion torrent as well: when a followed pointer names it, the end of
  the fetch drops it.
\<close>

lemma fetch_drops_own_seed:
  "let e = fold companion_step [CSeed [1], CAttach [1], CRelease [1]] \<lparr>ce_handles = [], companionFetchRefs = [], ce_closed = False\<rparr>
   in map_of (ce_handles (fold companion_step [CSeed [1]] \<lparr>ce_handles = [], companionFetchRefs = [], ce_closed = False\<rparr>)) [1] = Some True \<and> ce_handles e = []"
  by code_simp

section \<open>Importing\<close>

definition import_doc :: "string \<Rightarrow> TorrentRecord \<Rightarrow> TorrentDoc" where
  "import_doc pubHex tr =
     (let paths = filter (\<lambda>p. p \<noteq> []) (map fr_Path (tr_Files tr)) in
      \<lparr>td_InfoHash = ToLower (tr_InfoHash tr), td_Name = tr_Name tr, td_FilePaths = paths, td_Trackers = [], td_SizeBytes = tr_Size tr,
       td_FileCount = int (length paths), td_AddedAt = (if tr_AddedAt tr > 0 then Some (tr_AddedAt tr) else None), td_SignedBy = pubHex,
       PreserveExistingSigner = True\<rparr>)"

definition import_chunk :: "string \<Rightarrow> FileRecord \<Rightarrow> nat \<Rightarrow> ContentChunk \<Rightarrow> ContentDoc" where
  "import_chunk ih fr ci ch =
     \<lparr>cd_InfoHash = ih, cd_FileIndex = fr_Index fr, cd_FilePath = fr_Path fr, cd_FileSize = fr_Size fr, cd_Mime = fr_Mime fr, cd_Text = ch_Text ch,
      cd_Extractor = fr_Extractor fr, cd_IndexedAt = None, cd_ChunkIndex = int ci, PreserveExisting = True\<rparr>"

fun ingest_chunks :: "bleve_io \<Rightarrow> int \<Rightarrow> string \<Rightarrow> FileRecord \<Rightarrow> nat \<Rightarrow> ContentChunk list \<Rightarrow> nat \<times> SearchIndex \<Rightarrow> index_error option \<times> nat \<times> SearchIndex" where
  "ingest_chunks io now ih fr ci [] (c, ix) = (None, c, ix)"
| "ingest_chunks io now ih fr ci (ch # chs) (c, ix) =
     (if ch_Text ch = [] then ingest_chunks io now ih fr (ci + 1) chs (c, ix)
      else case IndexContent io now (import_chunk ih fr ci ch) ix of
             (Some err, ix) \<Rightarrow> (Some err, c, ix)
           | (None, ix) \<Rightarrow> ingest_chunks io now ih fr (ci + 1) chs (c + 1, ix))"

fun ingest_files :: "bleve_io \<Rightarrow> int \<Rightarrow> string \<Rightarrow> FileRecord list \<Rightarrow> nat \<times> SearchIndex \<Rightarrow> index_error option \<times> nat \<times> SearchIndex" where
  "ingest_files io now ih [] (c, ix) = (None, c, ix)"
| "ingest_files io now ih (fr # frs) (c, ix) =
     (case ingest_chunks io now ih fr 0 (fr_Chunks fr) (c, ix) of
        (Some err, c, ix) \<Rightarrow> (Some err, c, ix)
      | (None, c, ix) \<Rightarrow> ingest_files io now ih frs (c, ix))"

fun ingest_torrents :: "bleve_io \<Rightarrow> int \<Rightarrow> string \<Rightarrow> TorrentRecord list \<Rightarrow> nat \<times> nat \<times> SearchIndex \<Rightarrow> index_error option \<times> nat \<times> nat \<times> SearchIndex" where
  "ingest_torrents io now pubHex [] (t, c, ix) = (None, t, c, ix)"
| "ingest_torrents io now pubHex (tr # trs) (t, c, ix) =
     (let ih = ToLower (tr_InfoHash tr) in
      if length ih \<noteq> 40 then ingest_torrents io now pubHex trs (t, c, ix)
      else case IndexTorrent io now (import_doc pubHex tr) ix of
             (Some ErrForeignTorrent, ix) \<Rightarrow> ingest_torrents io now pubHex trs (t, c, ix)
           | (Some err, ix) \<Rightarrow> (Some err, t, c, ix)
           | (None, ix) \<Rightarrow>
               (case ingest_files io now ih (tr_Files tr) (c, ix) of
                  (Some err, c, ix) \<Rightarrow> (Some err, t + 1, c, ix)
                | (None, c, ix) \<Rightarrow> ingest_torrents io now pubHex trs (t + 1, c, ix)))"

definition ingest :: "bleve_io \<Rightarrow> int \<Rightarrow> string \<Rightarrow> CompanionIndex \<Rightarrow> SearchIndex \<Rightarrow> index_error option \<times> nat \<times> nat \<times> SearchIndex" where
  "ingest io now pubHex idx ix = ingest_torrents io now pubHex (ci_Torrents idx) (0, 0, ix)"

definition IngestReader :: "bleve_io \<Rightarrow> int \<Rightarrow> string \<Rightarrow> payload \<Rightarrow> SearchIndex \<Rightarrow> (decode_error option \<times> index_error option) \<times> nat \<times> nat \<times> SearchIndex" where
  "IngestReader io now pubHex p ix =
     (case Decode p of
        Inl err \<Rightarrow> ((Some err, None), 0, 0, ix)
      | Inr idx \<Rightarrow> let (err, r) = ingest io now pubHex idx ix in ((None, err), r))"

section \<open>The subscriber\<close>

record Subscriber =
  imported :: "bytes \<Rightarrow> int option"
  lastIH :: "bytes \<Rightarrow> bytes option"
  epoch :: "bytes \<Rightarrow> nat"

datatype sync_error = ErrGetPointer | ErrFetch fetch_error | ErrOpenFile | ErrDecode decode_error | ErrPublisherMismatch | ErrIngest index_error

record SyncResult =
  r_Publisher :: string
  PointerInfoHash :: bytes
  TorrentsImported :: nat
  ContentImported :: nat
  GeneratedAt :: int
  Deduped :: bool
  Err :: "sync_error option"

definition NewSubscriber :: Subscriber where
  "NewSubscriber = \<lparr>imported = (\<lambda>_. None), lastIH = (\<lambda>_. None), epoch = (\<lambda>_. 0)\<rparr>"

definition Forget_dedup :: "bytes \<Rightarrow> Subscriber \<Rightarrow> Subscriber" where
  "Forget_dedup pk s = s\<lparr>imported := (imported s)(pk := None), lastIH := (lastIH s)(pk := None), epoch := (epoch s)(pk := epoch s pk + 1)\<rparr>"

definition commitDedup :: "bytes \<Rightarrow> nat \<Rightarrow> int \<Rightarrow> bytes \<Rightarrow> bool \<Rightarrow> Subscriber \<Rightarrow> bool \<times> Subscriber" where
  "commitDedup pk startEpoch generatedAt ih setImported s =
     (if epoch s pk \<noteq> startEpoch then (False, s)
      else
        let s = (if setImported then s\<lparr>imported := (imported s)(pk \<mapsto> generatedAt)\<rparr> else s)
        in (True, s\<lparr>lastIH := (lastIH s)(pk \<mapsto> ih)\<rparr>))"

text \<open>
  A sync up to its commit: what it returns, what it is about to commit, and the index.  The network gives
  a pointer, and for an infohash the file that was fetched.
\<close>

definition sync_body :: "bleve_io \<Rightarrow> int \<Rightarrow> bytes option \<Rightarrow> (bytes \<Rightarrow> sync_error + payload) \<Rightarrow> bytes \<Rightarrow> Subscriber \<Rightarrow> SearchIndex \<Rightarrow>
    SyncResult \<times> (int \<times> bytes \<times> bool) option \<times> SearchIndex" where
  "sync_body io now getter fetcher pk s ix =
     (let pubHex = hex_EncodeToString pk;
          res = \<lparr>r_Publisher = pubHex, PointerInfoHash = zeroIH, TorrentsImported = 0, ContentImported = 0, GeneratedAt = 0, Deduped = False, Err = None\<rparr> in
      case getter of
        None \<Rightarrow> (res\<lparr>Err := Some ErrGetPointer\<rparr>, None, ix)
      | Some ih \<Rightarrow>
          let res = res\<lparr>PointerInfoHash := ih\<rparr> in
          if lastIH s pk = Some ih then (res\<lparr>Deduped := True\<rparr>, None, ix)
          else (case fetcher ih of
                  Inl err \<Rightarrow> (res\<lparr>Err := Some err\<rparr>, None, ix)
                | Inr p \<Rightarrow>
                    (case Decode p of
                       Inl err \<Rightarrow> (res\<lparr>Err := Some (ErrDecode err)\<rparr>, None, ix)
                     | Inr idx \<Rightarrow>
                         let res = res\<lparr>GeneratedAt := ci_GeneratedAt idx\<rparr> in
                         if ToLower (ci_Publisher idx) \<noteq> pubHex then (res\<lparr>Err := Some ErrPublisherMismatch\<rparr>, None, ix)
                         else if (case imported s pk of Some prev \<Rightarrow> ci_GeneratedAt idx \<noteq> 0 \<and> ci_GeneratedAt idx < prev | None \<Rightarrow> False)
                         then (res\<lparr>Deduped := True\<rparr>, Some (0, ih, False), ix)
                         else (case ingest io now pubHex idx ix of
                                 (Some err, t, c, ix) \<Rightarrow> (res\<lparr>TorrentsImported := t, ContentImported := c, Err := Some (ErrIngest err)\<rparr>, None, ix)
                               | (None, t, c, ix) \<Rightarrow> (res\<lparr>TorrentsImported := t, ContentImported := c\<rparr>, Some (ci_GeneratedAt idx, ih, True), ix)))))"

definition sync_commit :: "bytes \<Rightarrow> nat \<Rightarrow> (int \<times> bytes \<times> bool) option \<Rightarrow> Subscriber \<Rightarrow> Subscriber" where
  "sync_commit pk startEpoch commit s =
     (case commit of None \<Rightarrow> s | Some (generatedAt, ih, setImported) \<Rightarrow> snd (commitDedup pk startEpoch generatedAt ih setImported s))"

text \<open>A sync that nothing comes between.\<close>

definition Sync :: "bleve_io \<Rightarrow> int \<Rightarrow> bytes option \<Rightarrow> (bytes \<Rightarrow> sync_error + payload) \<Rightarrow> bytes \<Rightarrow> Subscriber \<Rightarrow> SearchIndex \<Rightarrow>
    SyncResult \<times> Subscriber \<times> SearchIndex" where
  "Sync io now getter fetcher pk s ix =
     (let startEpoch = epoch s pk; (res, commit, ix) = sync_body io now getter fetcher pk s ix
      in (res, sync_commit pk startEpoch commit s, ix))"

section \<open>The worker\<close>

text \<open>\<open>w_sweep\<close> are the publishers that the running sweep has still to sync.\<close>

record SubscriberWorker =
  w_sub :: Subscriber
  w_index :: SearchIndex
  follows :: "(bytes \<times> string) list"
  lastSync :: "bytes \<Rightarrow> SyncResult option"
  totalRuns :: nat
  trigger :: bool
  w_sweep :: "bytes list option"
  w_stopped :: bool

definition NewSubscriberWorker :: "SearchIndex \<Rightarrow> SubscriberWorker" where
  "NewSubscriberWorker ix = \<lparr>w_sub = NewSubscriber, w_index = ix, follows = [], lastSync = (\<lambda>_. None), totalRuns = 0, trigger = False, w_sweep = None, w_stopped = False\<rparr>"

definition Follow :: "bytes \<Rightarrow> string \<Rightarrow> SubscriberWorker \<Rightarrow> SubscriberWorker" where
  "Follow pk label w = w\<lparr>follows := AList.update pk label (follows w), trigger := True\<rparr>"

definition Unfollow :: "bytes \<Rightarrow> SubscriberWorker \<Rightarrow> SubscriberWorker" where
  "Unfollow pk w = w\<lparr>follows := AList.delete pk (follows w), lastSync := (lastSync w)(pk := None), w_sub := Forget_dedup pk (w_sub w)\<rparr>"

definition sweep_begin :: "SubscriberWorker \<Rightarrow> SubscriberWorker" where
  "sweep_begin w = (if w_sweep w = None then w\<lparr>w_sweep := Some (map fst (follows w)), trigger := False\<rparr> else w)"

definition sweep_next :: "bleve_io \<Rightarrow> int \<Rightarrow> (bytes \<Rightarrow> bytes option) \<Rightarrow> (bytes \<Rightarrow> sync_error + payload) \<Rightarrow> SubscriberWorker \<Rightarrow> SubscriberWorker" where
  "sweep_next io now getter fetcher w =
     (case w_sweep w of
        None \<Rightarrow> w
      | Some [] \<Rightarrow> w\<lparr>totalRuns := totalRuns w + 1, w_sweep := None\<rparr>
      | Some (pk # pks) \<Rightarrow>
          if w_stopped w then w\<lparr>w_sweep := None\<rparr>
          else
            let (res, s, ix) = Sync io now (getter pk) fetcher pk (w_sub w) (w_index w);
                w = w\<lparr>w_sub := s, w_index := ix, w_sweep := Some pks\<rparr>
            in if pk \<in> fst ` set (follows w) then w\<lparr>lastSync := (lastSync w)(pk \<mapsto> res)\<rparr> else w)"

end
