(* ===== verification/Companion_Network.thy ===== *)
theory Companion_Network
  imports Companion_Follow
begin

text \<open>
  What a companion import may change in the local index, and a publisher and a follower together.
\<close>

section \<open>What an import leaves alone\<close>

text \<open>A torrent that the index already holds under another signer, or unsigned.\<close>

definition foreign :: "string \<Rightarrow> SearchIndex \<Rightarrow> string \<Rightarrow> bool" where
  "foreign pubHex ix k \<longleftrightarrow> (\<exists>f. Document ix (TorrentID k) = Some (StoredTorrent f) \<and> fieldSignedBy f \<noteq> pubHex)"

definition respectful :: "string \<Rightarrow> SearchIndex \<Rightarrow> SearchIndex \<Rightarrow> bool" where
  "respectful pubHex ix ix2 \<longleftrightarrow>
     (\<forall>k i c d. Document ix (ContentID k i c) = Some d \<longrightarrow> Document ix2 (ContentID k i c) = Some d) \<and>
     (\<forall>k. foreign pubHex ix k \<longrightarrow> Document ix2 (TorrentID k) = Document ix (TorrentID k) \<and> (\<forall>i c. Document ix2 (ContentID k i c) = Document ix (ContentID k i c))) \<and>
     (\<forall>k. Document ix2 (TorrentID k) = Document ix (TorrentID k) \<or> (\<exists>f. Document ix2 (TorrentID k) = Some (StoredTorrent f) \<and> fieldSignedBy f = pubHex))"

lemma respectful_refl: "respectful pubHex ix ix"
  by (simp add: respectful_def)

lemma respectfulD:
  assumes "respectful pubHex ix ix2"
  shows "Document ix (ContentID k i c) = Some d \<Longrightarrow> Document ix2 (ContentID k i c) = Some d"
    and "foreign pubHex ix k \<Longrightarrow> Document ix2 (TorrentID k) = Document ix (TorrentID k)"
    and "foreign pubHex ix k \<Longrightarrow> Document ix2 (ContentID k i c) = Document ix (ContentID k i c)"
    and "Document ix2 (TorrentID k) = Document ix (TorrentID k) \<or> (\<exists>f. Document ix2 (TorrentID k) = Some (StoredTorrent f) \<and> fieldSignedBy f = pubHex)"
    and "foreign pubHex ix k \<Longrightarrow> foreign pubHex ix2 k"
  using assms unfolding respectful_def foreign_def by (blast | simp)+

lemma respectful_trans:
  assumes "respectful pubHex a b" and "respectful pubHex b c"
  shows "respectful pubHex a c"
  unfolding respectful_def
proof (intro conjI allI impI)
  note D = respectfulD [OF assms(1)] and E = respectfulD [OF assms(2)]
  show "Document c (ContentID k i j) = Some d" if "Document a (ContentID k i j) = Some d" for k i j d using D(1) E(1) that by blast
  show "Document c (TorrentID k) = Document a (TorrentID k)" if "foreign pubHex a k" for k using D(2,5) E(2) that by simp
  show "Document c (ContentID k i j) = Document a (ContentID k i j)" if "foreign pubHex a k" for k i j using D(3,5) E(3) that by simp
  show "Document c (TorrentID k) = Document a (TorrentID k) \<or> (\<exists>f. Document c (TorrentID k) = Some (StoredTorrent f) \<and> fieldSignedBy f = pubHex)" for k
    using D(4) [of k] E(4) [of k] by metis
qed

text \<open>Only new chunks of one torrent.\<close>

definition chunks_added :: "string \<Rightarrow> SearchIndex \<Rightarrow> SearchIndex \<Rightarrow> bool" where
  "chunks_added ih ix ix2 \<longleftrightarrow> index_ok ix2 \<and> ix_open ix2 = ix_open ix \<and> (\<forall>k. Document ix2 (TorrentID k) = Document ix (TorrentID k)) \<and>
     (\<forall>k i c. k \<noteq> ih \<or> Document ix (ContentID k i c) \<noteq> None \<longrightarrow> Document ix2 (ContentID k i c) = Document ix (ContentID k i c))"

lemma chunks_added_ok: "chunks_added ih a b \<Longrightarrow> index_ok b"
  by (simp add: chunks_added_def)

lemma chunks_added_trans: "chunks_added ih a b \<Longrightarrow> chunks_added ih b c \<Longrightarrow> chunks_added ih a c"
  unfolding chunks_added_def by metis

definition reads_ok :: "bleve_io \<Rightarrow> bool" where "reads_ok io \<longleftrightarrow> (\<forall>i. io_read io i \<and> io_search io i)"

lemma chunk_added:
  assumes "reads_ok io" and "index_ok ix" and "IndexContent io now (import_chunk ih fr ci ch) ix = (err, ix2)" and "ToLower ih = ih"
  shows "chunks_added ih ix ix2"
  using assms(3)
proof (cases rule: IndexContent_cases)
  case 2
  then show ?thesis using assms index_ok_content [OF assms(2), of io now "import_chunk ih fr ci ch"]
    by (auto simp: chunks_added_def import_chunk_def content_docID_def reads_ok_def)
qed (use assms(2) in \<open>simp add: chunks_added_def\<close>)

lemma chunks_loop:
  assumes "reads_ok io" and "index_ok ix" and "ToLower ih = ih" and "ingest_chunks io now ih fr ci chs (c, ix) = (err, c2, ix2)"
  shows "chunks_added ih ix ix2"
  using assms(2,4)
proof (induction chs arbitrary: ci c ix)
  case (Cons ch chs)
  show ?case
  proof (cases "ch_Text ch = []")
    case True
    then show ?thesis using Cons by simp
  next
    case False
    obtain e ix1 where r: "IndexContent io now (import_chunk ih fr ci ch) ix = (e, ix1)" by fastforce
    have step: "chunks_added ih ix ix1" using chunk_added [OF assms(1) Cons.prems(1) r assms(3)] .
    show ?thesis
    proof (cases e)
      case None
      then have "ingest_chunks io now ih fr (ci + 1) chs (c + 1, ix1) = (err, c2, ix2)" using Cons.prems(2) False r by simp
      then show ?thesis using chunks_added_trans [OF step Cons.IH [OF chunks_added_ok [OF step]]] by blast
    next
      case (Some x)
      then show ?thesis using Cons.prems(2) False r step by simp
    qed
  qed
qed (simp add: chunks_added_def)

lemma files_loop:
  assumes "reads_ok io" and "index_ok ix" and "ToLower ih = ih" and "ingest_files io now ih frs (c, ix) = (err, c2, ix2)"
  shows "chunks_added ih ix ix2"
  using assms(2,4)
proof (induction frs arbitrary: c ix)
  case (Cons fr frs)
  obtain e c1 ix1 where r: "ingest_chunks io now ih fr 0 (fr_Chunks fr) (c, ix) = (e, c1, ix1)" by (metis surj_pair)
  note step = chunks_loop [OF assms(1) Cons.prems(1) assms(3) r]
  show ?case
  proof (cases e)
    case None
    then have "ingest_files io now ih frs (c1, ix1) = (err, c2, ix2)" using Cons.prems(2) r by simp
    then show ?thesis using chunks_added_trans [OF step Cons.IH [OF chunks_added_ok [OF step]]] by blast
  next
    case (Some x)
    then show ?thesis using Cons.prems(2) r step by simp
  qed
qed (simp add: chunks_added_def)

lemma import_doc_fields [simp]:
  "td_InfoHash (import_doc pubHex tr) = ToLower (tr_InfoHash tr)" "td_SignedBy (import_doc pubHex tr) = pubHex" "PreserveExistingSigner (import_doc pubHex tr)"
  "td_Name (import_doc pubHex tr) = tr_Name tr" "torrent_docID (import_doc pubHex tr) = TorrentID (ToLower (tr_InfoHash tr))"
  by (simp_all add: import_doc_def Let_def torrent_docID_def)

text \<open>One torrent of a snapshot: refused, or stamped where nothing foreign was.\<close>

lemma torrent_step:
  assumes "reads_ok io" and "index_ok ix" and "pubHex \<noteq> []" and "ToLower pubHex = pubHex" and "IndexTorrent io now (import_doc pubHex tr) ix = (err, ix1)"
  shows "index_ok ix1 \<and> ix_open ix1 = ix_open ix \<and> (err \<noteq> None \<longrightarrow> ix1 = ix) \<and> respectful pubHex ix ix1 \<and>
    (\<forall>k. k \<noteq> ToLower (tr_InfoHash tr) \<longrightarrow> Document ix1 (TorrentID k) = Document ix (TorrentID k)) \<and>
    (err = None \<longrightarrow> \<not> foreign pubHex ix (ToLower (tr_InfoHash tr)) \<and>
      (\<exists>f. Document ix1 (TorrentID (ToLower (tr_InfoHash tr))) = Some (StoredTorrent f) \<and> fieldSignedBy f = pubHex \<and> fieldName f = tr_Name tr))"
  using assms(5)
proof (cases rule: IndexTorrent_cases)
  case (2 f)
  let ?k = "ToLower (tr_InfoHash tr)"
  have f: "fieldSignedBy f = pubHex" "fieldName f = tr_Name tr" using 2(7) assms(3,4) by simp_all
  have "Document ix (TorrentID ?k) = None \<or> storedSignedByLocked io (TorrentID ?k) ix = pubHex" using 2(8) assms(1,3,4) by (simp add: reads_ok_def)
  then have nf: "\<not> foreign pubHex ix ?k" using assms(1) by (auto simp: foreign_def storedSignedByLocked_def reads_ok_def)
  have ix1: "ix1 = ix\<lparr>ix_docs := AList.update (TorrentID ?k) (StoredTorrent f) (ix_docs ix)\<rparr>" using 2(4) by simp
  have "index_ok ix1" using index_ok_torrent [OF assms(2), of io now "import_doc pubHex tr"] assms(5) by simp
  moreover have "respectful pubHex ix ix1" using nf f unfolding ix1 respectful_def by auto
  ultimately show ?thesis using 2(1) nf f ix1 by simp
qed (use assms(2) in \<open>auto simp: respectful_refl\<close>)

lemma chunks_respectful:
  assumes "\<not> foreign pubHex ix ih" and "chunks_added ih ix ix2"
  shows "respectful pubHex ix ix2"
proof -
  have T: "Document ix2 (TorrentID k) = Document ix (TorrentID k)" for k using assms(2) by (simp add: chunks_added_def)
  have C: "k \<noteq> ih \<or> Document ix (ContentID k i c) \<noteq> None \<Longrightarrow> Document ix2 (ContentID k i c) = Document ix (ContentID k i c)" for k i c
    using assms(2) unfolding chunks_added_def by blast
  show ?thesis unfolding respectful_def
  proof (intro conjI allI impI)
    show "Document ix2 (ContentID k i c) = Some d" if "Document ix (ContentID k i c) = Some d" for k i c d using C [of k i c] that by simp
    show "Document ix2 (ContentID k i c) = Document ix (ContentID k i c)" if "foreign pubHex ix k" for k i c using C [of k i c] that assms(1) by blast
  qed (simp_all add: T)
qed

lemma ingest_step_none:
  assumes "reads_ok io" and "index_ok ix" and "pubHex \<noteq> []" and "ToLower pubHex = pubHex" and "IndexTorrent io now (import_doc pubHex tr) ix = (None, ix1)"
    and "ingest_files io now (ToLower (tr_InfoHash tr)) frs (c, ix1) = (err, c2, ix2)"
  shows "index_ok ix2 \<and> ix_open ix2 = ix_open ix \<and> respectful pubHex ix ix2 \<and>
    (\<forall>k. k \<noteq> ToLower (tr_InfoHash tr) \<longrightarrow> Document ix2 (TorrentID k) = Document ix (TorrentID k)) \<and>
    (\<exists>f. Document ix2 (TorrentID (ToLower (tr_InfoHash tr))) = Some (StoredTorrent f) \<and> fieldSignedBy f = pubHex \<and> fieldName f = tr_Name tr)"
proof -
  let ?k = "ToLower (tr_InfoHash tr)"
  have a: "index_ok ix1" "ix_open ix1 = ix_open ix" "respectful pubHex ix ix1" "\<exists>f. Document ix1 (TorrentID ?k) = Some (StoredTorrent f) \<and> fieldSignedBy f = pubHex \<and> fieldName f = tr_Name tr"
    "\<forall>k. k \<noteq> ?k \<longrightarrow> Document ix1 (TorrentID k) = Document ix (TorrentID k)"
    using torrent_step [OF assms(1-5)] by blast+
  have b: "chunks_added ?k ix1 ix2" using files_loop [OF assms(1) a(1) _ assms(6)] by simp
  have "\<not> foreign pubHex ix1 ?k" using a(4) by (auto simp: foreign_def)
  then have "respectful pubHex ix ix2" using respectful_trans [OF a(3) chunks_respectful [OF _ b]] by blast
  then show ?thesis using a b unfolding chunks_added_def by simp
qed

lemma ingest_respectful:
  assumes "reads_ok io" and "pubHex \<noteq> []" and "ToLower pubHex = pubHex" and "index_ok ix" and "ingest_torrents io now pubHex trs (t, c, ix) = (err, t2, c2, ix2)"
  shows "index_ok ix2 \<and> ix_open ix2 = ix_open ix \<and> respectful pubHex ix ix2"
  using assms(4,5)
proof (induction trs arbitrary: t c ix)
  case (Cons tr trs)
  let ?k = "ToLower (tr_InfoHash tr)"
  obtain e ix1 where r: "IndexTorrent io now (import_doc pubHex tr) ix = (e, ix1)" by fastforce
  note s1 = torrent_step [OF assms(1) Cons.prems(1) assms(2,3) r]
  obtain e2 c1 ix3 where f: "ingest_files io now ?k (tr_Files tr) (c, ix1) = (e2, c1, ix3)" by (metis surj_pair)
  show ?case
  proof (cases "length ?k \<noteq> 40 \<or> e = Some ErrForeignTorrent")
    case True
    then have "ingest_torrents io now pubHex trs (t, c, ix) = (err, t2, c2, ix2)" using Cons.prems(2) r s1 by (auto simp: Let_def split: if_splits)
    then show ?thesis using Cons.IH Cons.prems(1) by blast
  next
    case False
    show ?thesis
    proof (cases e)
      case None
      note s2 = ingest_step_none [OF assms(1) Cons.prems(1) assms(2,3) r [unfolded None] f]
      show ?thesis
      proof (cases e2)
        case None
        then have "ingest_torrents io now pubHex trs (t + 1, c1, ix3) = (err, t2, c2, ix2)" using Cons.prems(2) r f False \<open>e = None\<close> by (simp add: Let_def)
        then show ?thesis using Cons.IH [of ix3 "t + 1" c1] s2 respectful_trans by blast
      next
        case (Some x)
        then show ?thesis using Cons.prems(2) r f False \<open>e = None\<close> s2 by (simp add: Let_def)
      qed
    next
      case (Some x)
      then have "ix2 = ix1" using Cons.prems(2) r False by (cases x) (simp_all add: Let_def)
      then show ?thesis using s1 by simp
    qed
  qed
qed (simp add: respectful_refl)

text \<open>When the index takes every write, everything that is not foreign is imported.\<close>

definition listed :: "TorrentRecord list \<Rightarrow> string \<Rightarrow> TorrentRecord set" where
  "listed trs k = {tr \<in> set trs. ToLower (tr_InfoHash tr) = k \<and> length k = 40}"

definition ingested :: "string \<Rightarrow> TorrentRecord list \<Rightarrow> SearchIndex \<Rightarrow> SearchIndex \<Rightarrow> bool" where
  "ingested pubHex trs ix ix2 \<longleftrightarrow> (\<forall>k.
     if listed trs k = {} \<or> foreign pubHex ix k then Document ix2 (TorrentID k) = Document ix (TorrentID k)
     else \<exists>tr \<in> listed trs k. \<exists>f. Document ix2 (TorrentID k) = Some (StoredTorrent f) \<and> fieldSignedBy f = pubHex \<and> fieldName f = tr_Name tr)"

lemma torrent_outcome:
  assumes "reads_ok io" and "\<And>i. io_write io i" and "ix_open ix" and "pubHex \<noteq> []" and "ToLower pubHex = pubHex" and "index_ok ix" and "tr_InfoHash tr \<noteq> []"
  shows "fst (IndexTorrent io now (import_doc pubHex tr) ix) = (if foreign pubHex ix (ToLower (tr_InfoHash tr)) then Some ErrForeignTorrent else None)"
proof -
  let ?k = "ToLower (tr_InfoHash tr)"
  have "Document ix (TorrentID ?k) = None \<or> (\<exists>f. Document ix (TorrentID ?k) = Some (StoredTorrent f))" using assms(6) unfolding index_ok_def by (metis option.exhaust)
  then show ?thesis using assms(1-5,7)
    by (auto simp: IndexTorrent_def Let_def bleve_put_def reads_ok_def storedSignedByLocked_def foreign_def)
qed

lemma content_outcome:
  assumes "\<And>i. io_write io i" and "ix_open ix" and "ih \<noteq> []" and "ch_Text ch \<noteq> []"
  shows "fst (IndexContent io now (import_chunk ih fr ci ch) ix) = None" and "ix_open (snd (IndexContent io now (import_chunk ih fr ci ch) ix))"
  using assms by (simp_all add: IndexContent_def import_chunk_def bleve_put_def)

lemma chunks_outcome:
  assumes "\<And>i. io_write io i" and "ix_open ix" and "ih \<noteq> []"
  shows "fst (ingest_chunks io now ih fr ci chs (c, ix)) = None"
  using assms(2)
proof (induction chs arbitrary: ci c ix)
  case (Cons ch chs)
  show ?case
  proof (cases "ch_Text ch = []")
    case False
    obtain e ix1 where r: "IndexContent io now (import_chunk ih fr ci ch) ix = (e, ix1)" by fastforce
    then have "e = None" "ix_open ix1" using content_outcome [of io ix ih ch now fr ci, OF assms(1) Cons.prems assms(3) False] by simp_all
    then show ?thesis using Cons.IH r False by simp
  qed (use Cons in simp)
qed simp

lemma files_outcome:
  assumes "reads_ok io" and "\<And>i. io_write io i" and "ix_open ix" and "ih \<noteq> []" and "index_ok ix" and "ToLower ih = ih"
  shows "fst (ingest_files io now ih frs (c, ix)) = None"
  using assms(3,5)
proof (induction frs arbitrary: c ix)
  case (Cons fr frs)
  obtain e c1 ix1 where r: "ingest_chunks io now ih fr 0 (fr_Chunks fr) (c, ix) = (e, c1, ix1)" by (metis surj_pair)
  have "e = None" using chunks_outcome [of io ix ih now fr 0 "fr_Chunks fr" c, OF assms(2) Cons.prems(1) assms(4)] r by simp
  moreover have "chunks_added ih ix ix1" using chunks_loop [OF assms(1) Cons.prems(2) assms(6) r] .
  ultimately show ?case using Cons.IH [of ix1 c1] Cons.prems(1) r by (simp add: chunks_added_def)
qed simp

lemma ingest_complete:
  assumes "reads_ok io" and "\<And>i. io_write io i" and "pubHex \<noteq> []" and "ToLower pubHex = pubHex"
    and "ix_open ix" and "index_ok ix" and "ingest_torrents io now pubHex trs (t, c, ix) = (err, t2, c2, ix2)"
  shows "err = None \<and> ingested pubHex trs ix ix2"
  using assms(5-7)
proof (induction trs arbitrary: t c ix)
  case Nil
  then show ?case by (simp add: ingested_def listed_def)
next
  case (Cons tr trs)
  let ?k = "ToLower (tr_InfoHash tr)"
  have L: "listed (tr # trs) k = (if k = ?k \<and> length ?k = 40 then insert tr (listed trs k) else listed trs k)" for k by (auto simp: listed_def)
  obtain e ix1 where r: "IndexTorrent io now (import_doc pubHex tr) ix = (e, ix1)" by fastforce
  note s1 = torrent_step [OF assms(1) Cons.prems(2) assms(3,4) r]
  show ?case
  proof (cases "length ?k = 40")
    case False
    then have "ingest_torrents io now pubHex trs (t, c, ix) = (err, t2, c2, ix2)" using Cons.prems(3) by (simp add: Let_def)
    from Cons.IH [OF Cons.prems(1,2) this] show ?thesis using False by (simp add: ingested_def L)
  next
    case len: True
    then have "tr_InfoHash tr \<noteq> []" by (auto simp: ToLower_def)
    note out = torrent_outcome [of io ix pubHex tr now, OF assms(1,2) Cons.prems(1) assms(3,4) Cons.prems(2) this, unfolded r fst_conv]
    show ?thesis
    proof (cases "foreign pubHex ix ?k")
      case True
      then have e: "e = Some ErrForeignTorrent" using out by simp
      then have "ix1 = ix" using s1 by blast
      then have "ingest_torrents io now pubHex trs (t, c, ix) = (err, t2, c2, ix2)" using Cons.prems(3) r e len by (simp add: Let_def)
      from Cons.IH [OF Cons.prems(1,2) this] show ?thesis using True by (auto simp: ingested_def L)
    next
      case False
      then have e: "e = None" using out by simp
      obtain e2 c1 ix3 where f: "ingest_files io now ?k (tr_Files tr) (c, ix1) = (e2, c1, ix3)" by (metis surj_pair)
      have "ix_open ix1" "index_ok ix1" "?k \<noteq> []" using s1 Cons.prems(1) \<open>tr_InfoHash tr \<noteq> []\<close> by (blast, blast, simp add: ToLower_def)
      then have "e2 = None" using files_outcome [of io ix1 ?k now "tr_Files tr" c, OF assms(1,2)] f by simp
      note s2 = ingest_step_none [OF assms(1) Cons.prems(2) assms(3,4) r [unfolded e] f]
      have "ingest_torrents io now pubHex trs (t + 1, c1, ix3) = (err, t2, c2, ix2)" using Cons.prems(3) r f len e \<open>e2 = None\<close> by (simp add: Let_def)
      moreover have "ix_open ix3" "index_ok ix3" using s2 Cons.prems(1) by blast+
      ultimately have IH: "err = None" "ingested pubHex trs ix3 ix2" using Cons.IH [of ix3 "t + 1" c1] by blast+
      have "ingested pubHex (tr # trs) ix ix2" unfolding ingested_def
      proof
        fix k
        have other: "k \<noteq> ?k \<Longrightarrow> Document ix3 (TorrentID k) = Document ix (TorrentID k)" using s2 by blast
        then have same: "k \<noteq> ?k \<Longrightarrow> foreign pubHex ix3 k = foreign pubHex ix k" by (simp add: foreign_def)
        obtain f where new: "Document ix3 (TorrentID ?k) = Some (StoredTorrent f)" "fieldSignedBy f = pubHex" "fieldName f = tr_Name tr" using s2 by blast
        then have own: "\<not> foreign pubHex ix3 ?k" by (simp add: foreign_def)
        have IHk: "if listed trs k = {} \<or> foreign pubHex ix3 k then Document ix2 (TorrentID k) = Document ix3 (TorrentID k)
          else \<exists>tr \<in> listed trs k. \<exists>f. Document ix2 (TorrentID k) = Some (StoredTorrent f) \<and> fieldSignedBy f = pubHex \<and> fieldName f = tr_Name tr"
          using IH(2) unfolding ingested_def by blast
        show "if listed (tr # trs) k = {} \<or> foreign pubHex ix k then Document ix2 (TorrentID k) = Document ix (TorrentID k)
          else \<exists>tr \<in> listed (tr # trs) k. \<exists>f. Document ix2 (TorrentID k) = Some (StoredTorrent f) \<and> fieldSignedBy f = pubHex \<and> fieldName f = tr_Name tr"
        proof (cases "k = ?k")
          case True
          then show ?thesis using IHk own False len new by (cases "listed trs k = {}") (auto simp: L)
        next
          case False
          then show ?thesis using IHk same other by (simp add: L)
        qed
      qed
      then show ?thesis using IH(1) by simp
    qed
  qed
qed

section \<open>The publisher's seeds\<close>

definition refresh_run :: "(TorrentRecord \<Rightarrow> bytes) \<Rightarrow> (MetaInfo \<Rightarrow> bytes) \<Rightarrow> refresh_env list \<Rightarrow> Publisher \<times> Outside \<Rightarrow> Publisher \<times> Outside" where
  "refresh_run rec_hash info_hash envs x = fold (refreshOnce rec_hash info_hash) envs x"

definition outside0 :: Outside where "outside0 = \<lparr>o_fs = (\<lambda>_. Absent), o_seeds = [], o_pointer = None\<rparr>"

definition one_seed :: "Publisher \<times> Outside \<Rightarrow> bool" where
  "one_seed = (\<lambda>(p, w). o_pointer w = (if lastSeededIH p = zeroIH then None else Some (lastSeededIH p)) \<and>
     map fst (o_seeds w) = (case o_pointer w of None \<Rightarrow> [] | Some ih \<Rightarrow> [ih]))"

lemma record_fields [simp]:
  "lastSeededIH (recordFailure now e p) = lastSeededIH p" "lastGeneratedAt (recordFailure now e p) = lastGeneratedAt p" "pubkeyHex (recordFailure now e p) = pubkeyHex p"
  "p_opts (recordFailure now e p) = p_opts p" "publishedCount (recordFailure now e p) = publishedCount p"
  "lastSeededIH (recordSuccess now h p) = lastSeededIH p" "lastGeneratedAt (recordSuccess now h p) = lastGeneratedAt p" "pubkeyHex (recordSuccess now h p) = pubkeyHex p"
  "p_opts (recordSuccess now h p) = p_opts p" "publishedCount (recordSuccess now h p) = Suc (publishedCount p)"
  by (simp_all add: recordFailure_def recordSuccess_def)

lemma stamp_fields:
  assumes "stamp_snapshot fp idx p = (idx2, p2)"
  shows "lastSeededIH p2 = lastSeededIH p" and "pubkeyHex p2 = pubkeyHex p" and "p_opts p2 = p_opts p" and "publishedCount p2 = publishedCount p"
    and "ci_Torrents idx2 = ci_Torrents idx" and "ci_Publisher idx2 = ci_Publisher idx" and "ci_GeneratedAt idx2 = lastGeneratedAt p2"
    and "0 \<le> lastGeneratedAt p \<Longrightarrow> 0 < ci_GeneratedAt idx \<Longrightarrow> lastGeneratedAt p \<le> lastGeneratedAt p2 \<and> 0 < lastGeneratedAt p2"
  using assms by (auto simp: stamp_snapshot_def Let_def split: if_splits)

text \<open>A refresh ends before the pointer, or after it; this is all that the properties need of it.\<close>

lemma refresh_cases:
  assumes "refreshOnce rec_hash info_hash env (p, w) = (p2, w2)"
  obtains (early) "lastSeededIH p2 = lastSeededIH p" "pubkeyHex p2 = pubkeyHex p" "p_opts p2 = p_opts p" "publishedCount p2 = publishedCount p"
      "lastGeneratedAt p2 = lastGeneratedAt p \<or> (\<exists>idx. BuildFromIndex (e_now env) (e_corpus env) (pubkeyHex p) (Build (p_opts p)) = Inr idx \<and>
        lastGeneratedAt p2 = lastGeneratedAt (snd (stamp_snapshot (contentFingerprint rec_hash idx) idx p)))"
      "o_seeds w2 = o_seeds w" "o_pointer w2 = o_pointer w"
  | (put) idx0 idx p1 jsonPath mi fs w1 where "BuildFromIndex (e_now env) (e_corpus env) (pubkeyHex p) (Build (p_opts p)) = Inr idx0"
      "stamp_snapshot (contentFingerprint rec_hash idx0) idx0 p = (idx, p1)"
      "WriteCompanionFiles (e_fault env) (Dir (p_opts p)) idx (o_fs w) = (Inr (jsonPath, mi), fs)"
      "w1 = SeedMetaInfo (e_seed_ok env) (info_hash mi) mi jsonPath (w\<lparr>o_fs := fs\<rparr>)"
      "\<not> e_put_ok env \<Longrightarrow> p2 = recordFailure (e_now env) ErrPutPointer p1 \<and>
        w2 = (if info_hash mi \<noteq> lastSeededIH p then DropTorrent (e_drop_ok env) (info_hash mi) w1 else w1)"
      "e_put_ok env \<Longrightarrow> p2 = recordSuccess (e_now env) (hex_EncodeToString (info_hash mi)) (p1\<lparr>lastSeededIH := info_hash mi\<rparr>) \<and>
        w2 = (if lastSeededIH p \<noteq> zeroIH \<and> lastSeededIH p \<noteq> info_hash mi then DropTorrent (e_drop_ok env) (lastSeededIH p) (w1\<lparr>o_pointer := Some (info_hash mi)\<rparr>)
              else w1\<lparr>o_pointer := Some (info_hash mi)\<rparr>)"
proof (cases "BuildFromIndex (e_now env) (e_corpus env) (pubkeyHex p) (Build (p_opts p))")
  case (Inl err)
  then show thesis using assms early by (auto simp: refreshOnce_def)
next
  case build: (Inr idx0)
  show thesis
  proof (cases "ci_Torrents idx0 = []")
    case True
    then show thesis using assms early build by (auto simp: refreshOnce_def)
  next
    case False
    obtain idx p1 where st: "stamp_snapshot (contentFingerprint rec_hash idx0) idx0 p = (idx, p1)" by fastforce
    obtain res fs where wr: "WriteCompanionFiles (e_fault env) (Dir (p_opts p)) idx (o_fs w) = (res, fs)" by fastforce
    note F = stamp_fields [OF st]
    show thesis
    proof (cases res)
      case (Inl err)
      then have "p2 = recordFailure (e_now env) err p1" "w2 = w\<lparr>o_fs := fs\<rparr>" using assms build False st wr F(3) by (simp_all add: refreshOnce_def Let_def)
      then show thesis using F build st by (intro early) auto
    next
      case (Inr y)
      obtain jsonPath mi where y: "y = (jsonPath, mi)" by fastforce
      show thesis using assms build False st wr F(1,3) Inr y by (intro put [OF build st]) (auto simp: refreshOnce_def Let_def split: if_splits)
    qed
  qed
qed

lemma seeds_fields [simp]:
  "o_pointer (SeedMetaInfo ok ih mi path w) = o_pointer w" "o_pointer (DropTorrent ok ih w) = o_pointer w" "o_fs (SeedMetaInfo ok ih mi path w) = o_fs w"
  "o_fs (DropTorrent ok ih w) = o_fs w"
  by (simp_all add: SeedMetaInfo_def DropTorrent_def)

lemma drop_keys: "map fst (o_seeds (DropTorrent True ih w)) = filter (\<lambda>k. k \<noteq> ih) (map fst (o_seeds w))"
  by (simp add: DropTorrent_def filter_map comp_def)

lemma seed_keys: "map fst (o_seeds (SeedMetaInfo True ih mi path w)) = (if ih \<in> set (map fst (o_seeds w)) then map fst (o_seeds w) else ih # map fst (o_seeds w))"
  by (simp add: SeedMetaInfo_def)

lemma one_seed_step:
  assumes "one_seed (p, w)" and "e_seed_ok env" and "e_drop_ok env" and "\<And>mi. info_hash mi \<noteq> zeroIH"
  shows "one_seed (refreshOnce rec_hash info_hash env (p, w))"
proof -
  obtain p2 w2 where r: "refreshOnce rec_hash info_hash env (p, w) = (p2, w2)" by fastforce
  from r have "one_seed (p2, w2)"
  proof (cases rule: refresh_cases)
    case early
    then show ?thesis using assms(1) by (simp add: one_seed_def)
  next
    case (put idx0 idx p1 jsonPath mi fs w1)
    let ?ih = "info_hash mi" and ?prev = "lastSeededIH p"
    have k1: "map fst (o_seeds w1) = (if ?ih \<in> set (map fst (o_seeds w)) then map fst (o_seeds w) else ?ih # map fst (o_seeds w))"
      using put(4) assms(2) seed_keys [of ?ih mi jsonPath "w\<lparr>o_fs := fs\<rparr>"] by simp
    have o1: "o_pointer w1 = o_pointer w" using put(4) by simp
    have st: "lastSeededIH p1 = ?prev" using stamp_fields(1) [OF put(2)] .
    have inv: "o_pointer w = (if ?prev = zeroIH then None else Some ?prev)" "map fst (o_seeds w) = (if ?prev = zeroIH then [] else [?prev])"
      using assms(1) by (auto simp: one_seed_def)
    show ?thesis
    proof (cases "e_put_ok env")
      case True
      then have "p2 = recordSuccess (e_now env) (hex_EncodeToString ?ih) (p1\<lparr>lastSeededIH := ?ih\<rparr>)"
        and "map fst (o_seeds w2) = [?ih] \<and> o_pointer w2 = Some ?ih"
        using put(6) assms(3) k1 inv by (auto simp: drop_keys)
      then show ?thesis using assms(4) by (simp add: one_seed_def)
    next
      case False
      then have "p2 = recordFailure (e_now env) ErrPutPointer p1" and "map fst (o_seeds w2) = map fst (o_seeds w) \<and> o_pointer w2 = o_pointer w"
        using put(5) assms(3) assms(4) [of mi] k1 inv o1 by (auto simp: DropTorrent_def)
      then show ?thesis using st assms(1) by (simp add: one_seed_def)
    qed
  qed
  then show ?thesis using r by simp
qed

section \<open>A publisher and a follower\<close>

record Feed =
  fd_pub :: Publisher
  fd_out :: Outside
  fd_sub :: Subscriber
  fd_local :: SearchIndex

text \<open>What the torrent network gives for an infohash: the file of its seed, when the pieces fit.\<close>

definition fetch_payload :: "(payload \<Rightarrow> int) \<Rightarrow> Outside \<Rightarrow> bytes \<Rightarrow> sync_error + payload" where
  "fetch_payload payload_size w ih =
     (case map_of (o_seeds w) ih of
        None \<Rightarrow> Inl (ErrFetch ErrFetchTimeout)
      | Some (mi, path) \<Rightarrow>
          (case validateCompanionInfo (Some \<lparr>ti_files = 1, ti_length = payload_size (mi_Pieces mi), ti_name = mi_Name mi\<rparr>) of
             Some err \<Rightarrow> Inl (ErrFetch err)
           | None \<Rightarrow>
               (case o_fs w path of
                  Doc (PayloadDoc p) \<Rightarrow> if p = mi_Pieces mi then Inr p else Inl (ErrFetch ErrFetchTimeout)
                | _ \<Rightarrow> Inl (ErrFetch ErrFetchTimeout))))"

text \<open>\<open>FLocal\<close> is any other change of the follower's index.\<close>

datatype feed_op = FRefresh refresh_env | FSync bleve_io int bool | FLocal SearchIndex | FForget

definition feed_step :: "(TorrentRecord \<Rightarrow> bytes) \<Rightarrow> (MetaInfo \<Rightarrow> bytes) \<Rightarrow> (payload \<Rightarrow> int) \<Rightarrow> bytes \<Rightarrow> feed_op \<Rightarrow> Feed \<Rightarrow> Feed" where
  "feed_step rec_hash info_hash payload_size pk op fd =
     (case op of
        FRefresh env \<Rightarrow> let (p, w) = refreshOnce rec_hash info_hash env (fd_pub fd, fd_out fd) in fd\<lparr>fd_pub := p, fd_out := w\<rparr>
      | FSync io now reached \<Rightarrow>
          let (res, s, ix) = Sync io now (if reached then o_pointer (fd_out fd) else None) (fetch_payload payload_size (fd_out fd)) pk (fd_sub fd) (fd_local fd)
          in fd\<lparr>fd_sub := s, fd_local := ix\<rparr>
      | FLocal ix \<Rightarrow> fd\<lparr>fd_local := ix\<rparr>
      | FForget \<Rightarrow> fd\<lparr>fd_sub := Forget_dedup pk (fd_sub fd)\<rparr>)"

definition feed_start :: "bytes \<Rightarrow> Publisher \<Rightarrow> SearchIndex \<Rightarrow> Feed" where
  "feed_start pk p ix = \<lparr>fd_pub = p, fd_out = outside0, fd_sub = NewSubscriber, fd_local = ix\<rparr>"

fun clock_ok :: "feed_op \<Rightarrow> bool" where
  "clock_ok (FRefresh env) = (0 < e_now env)"
| "clock_ok _ = True"

definition snapshot_path :: "Publisher \<Rightarrow> string" where "snapshot_path p = path_Join (Dir (p_opts p)) (CompanionFileName (pubkeyHex p))"

text \<open>Every seed is a snapshot of this publisher, no newer than its clock, and what was imported is none newer either.\<close>

definition seed_ok :: "(MetaInfo \<Rightarrow> bytes) \<Rightarrow> Publisher \<Rightarrow> bytes \<times> MetaInfo \<times> string \<Rightarrow> bool" where
  "seed_ok info_hash p = (\<lambda>(ih, mi, path). info_hash mi = ih \<and> path = snapshot_path p \<and>
     (\<exists>idx. mi = buildMetaInfoForFile (CompanionFileName (pubkeyHex p)) (Encode idx) \<and> ci_Publisher idx = pubkeyHex p \<and> ci_GeneratedAt idx \<le> lastGeneratedAt p))"

definition feed_inv :: "(MetaInfo \<Rightarrow> bytes) \<Rightarrow> bytes \<Rightarrow> Feed \<Rightarrow> bool" where
  "feed_inv info_hash pk fd \<longleftrightarrow> pubkeyHex (fd_pub fd) = hex_EncodeToString pk \<and> 0 \<le> lastGeneratedAt (fd_pub fd) \<and>
     list_all (seed_ok info_hash (fd_pub fd)) (o_seeds (fd_out fd)) \<and>
     (\<forall>g. imported (fd_sub fd) pk = Some g \<longrightarrow> g \<le> lastGeneratedAt (fd_pub fd))"

lemma WriteCompanion_result:
  assumes "WriteCompanionFiles flt dir idx fs = (Inr (jsonPath, mi), fs2)"
  shows "jsonPath = path_Join dir (CompanionFileName (ci_Publisher idx))" and "mi = buildMetaInfoForFile (CompanionFileName (ci_Publisher idx)) (Encode idx)"
    and "fs2 jsonPath = Doc (PayloadDoc (Encode idx))" and "fs2 (path_Join dir ''companion.torrent'') = Doc (MetaDoc mi)"
proof -
  have n: "path_Join dir (CompanionFileName s) \<noteq> path_Join dir ''companion.torrent''" "path_Join dir (CompanionFileName s) \<noteq> path_Join dir ''companion.torrent'' @ ''.tmp''" for s
    by (simp_all add: path_Join_def CompanionFileName_def FormatFileName_def)
  show "jsonPath = path_Join dir (CompanionFileName (ci_Publisher idx))" "mi = buildMetaInfoForFile (CompanionFileName (ci_Publisher idx)) (Encode idx)"
    "fs2 jsonPath = Doc (PayloadDoc (Encode idx))" "fs2 (path_Join dir ''companion.torrent'') = Doc (MetaDoc mi)"
    using assms n by (auto simp: WriteCompanionFiles_def Let_def save_fixed_def split: if_splits option.splits publish_fault.splits write_fault.splits prod.splits)
qed

lemma seed_ok_mono:
  assumes "seed_ok info_hash p x" and "pubkeyHex p2 = pubkeyHex p" and "p_opts p2 = p_opts p" and "lastGeneratedAt p \<le> lastGeneratedAt p2"
  shows "seed_ok info_hash p2 x"
  using assms by (cases x) (fastforce simp: seed_ok_def snapshot_path_def)

lemma build_fields: "BuildFromIndex now src h opts = Inr idx \<Longrightarrow> ci_GeneratedAt idx = now \<and> ci_Publisher idx = h"
  by (auto simp: BuildFromIndex_def bind_res_Inr_iff)

lemma Decode_Encode [simp]: "Decode (Encode idx) = Inr (idx\<lparr>ci_Format := FormatName, ci_Version := FormatVersion\<rparr>)"
  by (simp add: Decode_def Encode_def)

text \<open>A refresh keeps the invariant, and the clock of the snapshots goes forward.\<close>

lemma refresh_inv:
  assumes "refreshOnce rec_hash info_hash env (p, w) = (p2, w2)" and "0 < e_now env" and "0 \<le> lastGeneratedAt p" and "list_all (seed_ok info_hash p) (o_seeds w)"
  shows "pubkeyHex p2 = pubkeyHex p \<and> p_opts p2 = p_opts p \<and> lastGeneratedAt p \<le> lastGeneratedAt p2 \<and> list_all (seed_ok info_hash p2) (o_seeds w2)"
  using assms(1)
proof (cases rule: refresh_cases)
  case early
  have "lastGeneratedAt p \<le> lastGeneratedAt p2"
  proof (cases "lastGeneratedAt p2 = lastGeneratedAt p")
    case False
    then obtain idx where b: "BuildFromIndex (e_now env) (e_corpus env) (pubkeyHex p) (Build (p_opts p)) = Inr idx"
      and l: "lastGeneratedAt p2 = lastGeneratedAt (snd (stamp_snapshot (contentFingerprint rec_hash idx) idx p))" using early(5) by blast
    have "0 < ci_GeneratedAt idx" using build_fields [OF b] assms(2) by simp
    then show ?thesis unfolding l using stamp_fields(8) [of "contentFingerprint rec_hash idx" idx p "fst (stamp_snapshot (contentFingerprint rec_hash idx) idx p)"] assms(3)
      by (metis prod.collapse)
  qed simp
  then show ?thesis using early seed_ok_mono [of info_hash p _ p2] assms(4) by (auto simp: list_all_iff)
next
  case (put idx0 idx p1 jsonPath mi fs w1)
  note F = stamp_fields [OF put(2)] and W = WriteCompanion_result [OF put(3)] and B = build_fields [OF put(1)]
  have g: "lastGeneratedAt p \<le> lastGeneratedAt p1" using F(8) assms(2,3) B by simp
  have p2: "pubkeyHex p2 = pubkeyHex p \<and> p_opts p2 = p_opts p \<and> lastGeneratedAt p2 = lastGeneratedAt p1"
    using put(5,6) F(2,3) by (cases "e_put_ok env") simp_all
  have "set (o_seeds w2) \<subseteq> set (o_seeds w1)" using put(5,6) by (cases "e_put_ok env") (auto simp: DropTorrent_def)
  moreover have "set (o_seeds w1) \<subseteq> insert (info_hash mi, mi, jsonPath) (set (o_seeds w))" unfolding put(4) by (auto simp: SeedMetaInfo_def)
  moreover have "seed_ok info_hash p2 (info_hash mi, mi, jsonPath)"
    using W(1,2) F(6,7) B p2 by (auto simp: seed_ok_def snapshot_path_def)
  ultimately show ?thesis using p2 g seed_ok_mono [of info_hash p _ p2] assms(4) by (auto simp: list_all_iff)
qed

lemma fetched_snapshot:
  assumes "list_all (seed_ok info_hash p) (o_seeds w)" and "fetch_payload payload_size w ih = Inr body"
  shows "\<exists>idx. body = Encode idx \<and> ci_Publisher idx = pubkeyHex p \<and> ci_GeneratedAt idx \<le> lastGeneratedAt p"
proof -
  obtain mi path where m: "map_of (o_seeds w) ih = Some (mi, path)" and b: "body = mi_Pieces mi"
    using assms(2) by (auto simp: fetch_payload_def split: option.splits disk_file.splits companion_doc.splits if_splits)
  have "seed_ok info_hash p (ih, mi, path)" using assms(1) map_of_SomeD [OF m] by (auto simp: list_all_iff)
  then show ?thesis using b by (auto simp: seed_ok_def buildMetaInfoForFile_def)
qed

lemma sync_imported:
  assumes "Sync io now getter fetcher pk s ix = (res, s2, ix2)"
  shows "imported s2 pk = imported s pk \<or> (\<exists>ih body idx. fetcher ih = Inr body \<and> Decode body = Inr idx \<and> imported s2 pk = Some (ci_GeneratedAt idx))"
  using assms
  by (auto simp: Sync_def sync_body_def sync_commit_def commitDedup_def Let_def split: option.splits sum.splits prod.splits if_splits; blast)

lemma feed_inv_step:
  assumes "feed_inv info_hash pk fd" and "clock_ok op"
  shows "feed_inv info_hash pk (feed_step rec_hash info_hash payload_size pk op fd)"
proof (cases op)
  case (FRefresh env)
  obtain p2 w2 where r: "refreshOnce rec_hash info_hash env (fd_pub fd, fd_out fd) = (p2, w2)" by fastforce
  have "pubkeyHex p2 = pubkeyHex (fd_pub fd) \<and> p_opts p2 = p_opts (fd_pub fd) \<and> lastGeneratedAt (fd_pub fd) \<le> lastGeneratedAt p2 \<and> list_all (seed_ok info_hash p2) (o_seeds w2)"
    using refresh_inv [OF r] assms FRefresh by (simp add: feed_inv_def)
  then show ?thesis using assms(1) FRefresh r by (fastforce simp: feed_step_def feed_inv_def)
next
  case (FSync io now reached)
  obtain res s2 ix2 where r: "Sync io now (if reached then o_pointer (fd_out fd) else None) (fetch_payload payload_size (fd_out fd)) pk (fd_sub fd) (fd_local fd) = (res, s2, ix2)"
    by (metis surj_pair)
  have "g \<le> lastGeneratedAt (fd_pub fd)" if g: "imported s2 pk = Some g" for g
    using sync_imported [OF r]
  proof
    assume "imported s2 pk = imported (fd_sub fd) pk"
    then show ?thesis using g assms(1) by (simp add: feed_inv_def)
  next
    assume "\<exists>ih body idx. fetch_payload payload_size (fd_out fd) ih = Inr body \<and> Decode body = Inr idx \<and> imported s2 pk = Some (ci_GeneratedAt idx)"
    then obtain ih body idx where b: "fetch_payload payload_size (fd_out fd) ih = Inr body" "Decode body = Inr idx" "g = ci_GeneratedAt idx" using g by auto
    have "\<exists>idx. body = Encode idx \<and> ci_Publisher idx = pubkeyHex (fd_pub fd) \<and> ci_GeneratedAt idx \<le> lastGeneratedAt (fd_pub fd)"
      using assms(1) by (intro fetched_snapshot [OF _ b(1), of info_hash]) (simp add: feed_inv_def)
    then show ?thesis using b(2,3) by auto
  qed
  then show ?thesis using assms(1) FSync r by (simp add: feed_step_def feed_inv_def)
qed (use assms(1) in \<open>auto simp: feed_step_def feed_inv_def Forget_dedup_def\<close>)

lemma feed_run_inv:
  assumes "NewPublisher pk opts = Some p" and "list_all clock_ok ops"
  shows "feed_inv info_hash pk (fold (feed_step rec_hash info_hash payload_size pk) ops (feed_start pk p ix))"
proof -
  have "feed_inv info_hash pk (feed_start pk p ix)"
    using assms(1) by (auto simp: feed_inv_def feed_start_def NewPublisher_def outside0_def NewSubscriber_def split: if_splits)
  moreover have "feed_inv info_hash pk (fold (feed_step rec_hash info_hash payload_size pk) ops fd)" if "feed_inv info_hash pk fd" for fd
    using assms(2) that by (induction ops arbitrary: fd) (simp_all add: feed_inv_step)
  ultimately show ?thesis by blast
qed

lemma hex_chars: "c \<in> set (hex_EncodeToString bs) \<Longrightarrow> c \<in> set ''0123456789abcdef''"
proof -
  have "hex_digit n \<in> set ''0123456789abcdef''" if "n < 16" for n unfolding hex_digit_def using that by (intro nth_mem) simp
  moreover have "unat b div 16 < 16" "unat b mod 16 < 16" for b :: byte using unat_byte_less [of b] by simp_all
  moreover assume "c \<in> set (hex_EncodeToString bs)"
  then obtain b :: byte where "c = hex_digit (unat b div 16) \<or> c = hex_digit (unat b mod 16)" by (auto simp: hex_EncodeToString_def)
  ultimately show "c \<in> set ''0123456789abcdef''" by metis
qed

lemma safe_name: "\<not> unsafeCompanionName (CompanionFileName (hex_EncodeToString pk))"
proof -
  have "c \<noteq> CHR ''/'' \<and> c \<noteq> CHR 0x5C" if "c \<in> set (hex_EncodeToString pk)" for c using hex_chars [OF that] by auto
  then have "\<not> list_ex (\<lambda>c. c = CHR ''/'' \<or> c = CHR 0x5C) (take 12 (hex_EncodeToString pk))" "\<not> list_ex (\<lambda>c. c = CHR ''/'' \<or> c = CHR 0x5C) (hex_EncodeToString pk)"
    by (auto simp: list_ex_iff dest: in_set_takeD)
  then show ?thesis by (simp add: unsafeCompanionName_def CompanionFileName_def FormatFileName_def)
qed

text \<open>The torrent that a refresh has just written shares its infohash with none that was seeded before, unless it is the same.\<close>

definition no_collision :: "(MetaInfo \<Rightarrow> bytes) \<Rightarrow> Publisher \<Rightarrow> Outside \<Rightarrow> Outside \<Rightarrow> bool" where
  "no_collision info_hash p w w2 =
     (case o_fs w2 (path_Join (Dir (p_opts p)) ''companion.torrent'') of
        Doc (MetaDoc mi) \<Rightarrow> list_all (\<lambda>(ih, mi2, path). info_hash mi2 = info_hash mi \<longrightarrow> mi2 = mi) (o_seeds w)
      | _ \<Rightarrow> True)"

text \<open>After a successful refresh the pointer leads to the snapshot that was just published.\<close>

lemma refreshed_fetch:
  assumes r: "refreshOnce rec_hash info_hash env (p, w) = (p2, w2)" and "0 < e_now env" and "0 \<le> lastGeneratedAt p" and "list_all (seed_ok info_hash p) (o_seeds w)"
    and "publishedCount p2 \<noteq> publishedCount p" and "e_seed_ok env" and "no_collision info_hash p w w2" and "pubkeyHex p = hex_EncodeToString pk"
    and size: "\<forall>(ih, mi, path) \<in> set (o_seeds w2). payload_size (mi_Pieces mi) \<le> maxCompanionBytes"
  obtains ih idx where "o_pointer w2 = Some ih" "fetch_payload payload_size w2 ih = Inr (Encode idx)" "ci_Publisher idx = hex_EncodeToString pk"
    "ci_GeneratedAt idx = lastGeneratedAt p2"
    "\<exists>idx0. BuildFromIndex (e_now env) (e_corpus env) (pubkeyHex p) (Build (p_opts p)) = Inr idx0 \<and> ci_Torrents idx = ci_Torrents idx0"
  using r
proof (cases rule: refresh_cases)
  case early
  then show thesis using assms(5) by simp
next
  case (put idx0 idx p1 jsonPath mi fs w1)
  note F = stamp_fields [OF put(2)] and W = WriteCompanion_result [OF put(3)] and B = build_fields [OF put(1)]
  have ok: "e_put_ok env" using put(5) F(4) assms(5) by (cases "e_put_ok env") simp_all
  let ?ih = "info_hash mi"
  have p2: "p2 = recordSuccess (e_now env) (hex_EncodeToString ?ih) (p1\<lparr>lastSeededIH := ?ih\<rparr>)" and ptr: "o_pointer w2 = Some ?ih" and fs2: "o_fs w2 = fs"
    using put(4,6) ok by simp_all
  have I: "list_all (seed_ok info_hash p2) (o_seeds w2)" using refresh_inv [OF r assms(2-4)] by blast
  have "?ih \<in> fst ` set (o_seeds w1)" unfolding put(4) using assms(6) by (auto simp: SeedMetaInfo_def)
  then have "?ih \<in> fst ` set (o_seeds w2)" using put(6) ok by (auto simp: DropTorrent_def image_iff Bex_def; blast)
  then obtain mi2 path2 where m: "map_of (o_seeds w2) ?ih = Some (mi2, path2)" by (metis map_of_eq_None_iff option.exhaust surj_pair)
  have s2: "seed_ok info_hash p2 (?ih, mi2, path2)" "payload_size (mi_Pieces mi2) \<le> maxCompanionBytes" using I size map_of_SomeD [OF m] by (auto simp: list_all_iff)
  have sub: "set (o_seeds w2) \<subseteq> insert (?ih, mi, jsonPath) (set (o_seeds w))"
    using put(4,6) ok by (auto simp: DropTorrent_def SeedMetaInfo_def)
  have "mi2 = mi" if "(?ih, mi2, path2) \<in> set (o_seeds w)"
    using that assms(4,7) W(4) fs2 by (auto simp: no_collision_def list_all_iff seed_ok_def)
  then have "mi2 = mi" using map_of_SomeD [OF m] sub by blast
  moreover have "path2 = jsonPath" using s2(1) W(1) F(2,3,6) B p2 by (auto simp: seed_ok_def snapshot_path_def)
  ultimately have "fetch_payload payload_size w2 ?ih = Inr (Encode idx)"
    using m s2(2) W(2,3) fs2 F(6) B assms(8) safe_name [of pk] by (simp add: fetch_payload_def validateCompanionInfo_def buildMetaInfoForFile_def)
  then show thesis using that [of ?ih idx] ptr put(1) F(5,6,7) B p2 assms(8) by simp
qed




section \<open>Concrete runs\<close>

definition lab_opts :: PublisherOptions where "lab_opts = \<lparr>Dir = ''d'', MinInterval = 60, Build = DefaultBuildOptions\<rparr>"
definition lab_pk :: bytes where "lab_pk = replicate 32 7"

definition lab_doc :: "string \<Rightarrow> string \<Rightarrow> torrent_fields" where
  "lab_doc ih signer = \<lparr>fieldInfoHash = ih, fieldName = ''n'', fieldFilePaths = ''f'', fieldTrackers = [], fieldSizeBytes = 1, fieldAddedAt = 1, fieldFileCount = 1,
     fieldSignedBy = signer\<rparr>"

definition lab_corpus :: "byte \<Rightarrow> SearchIndex" where
  "lab_corpus b = (let ih = hex_EncodeToString (replicate 20 b) in \<lparr>ix_open = True, ix_docs = [(TorrentID ih, StoredTorrent (lab_doc ih []))]\<rparr>)"

definition lab_env :: "byte \<Rightarrow> int \<Rightarrow> bool \<Rightarrow> refresh_env" where
  "lab_env b now put_ok = \<lparr>e_now = now, e_corpus = lab_corpus b, e_fault = None, e_seed_ok = True, e_put_ok = put_ok, e_drop_ok = True\<rparr>"

definition lab_rec_hash :: "TorrentRecord \<Rightarrow> bytes" where
  "lab_rec_hash tr = take 32 (map (\<lambda>c. of_char c) (tr_InfoHash tr))"

definition lab_info_hash :: "MetaInfo \<Rightarrow> bytes" where
  "lab_info_hash mi = (case mi_Pieces mi of Json idx \<Rightarrow> [of_int (ci_GeneratedAt idx)] | _ \<Rightarrow> [0])"

definition lab_publisher :: Publisher where "lab_publisher = the (NewPublisher lab_pk lab_opts)"

text \<open>
  The pointer of the first refresh is kept when the second cannot be put, and so is its seed; but the
  second has overwritten the file the seed is served from, so the advertised snapshot cannot be fetched.
\<close>

lemma failed_put_breaks_seed:
  "let (p1, w1) = refresh_run lab_rec_hash lab_info_hash [lab_env 1 10 True] (lab_publisher, outside0);
       (p2, w2) = refresh_run lab_rec_hash lab_info_hash [lab_env 1 10 True, lab_env 2 20 False] (lab_publisher, outside0)
   in o_pointer w1 = Some [10] \<and> o_pointer w2 = Some [10] \<and> map fst (o_seeds w2) = [[10]] \<and>
      \<not> isl (fetch_payload (\<lambda>_. 1) w1 [10]) \<and> isl (fetch_payload (\<lambda>_. 1) w2 [10])"
  by code_simp

text \<open>
  A publisher that is unfollowed while the sweep is at another is synced all the same, and the state that
  the unfollow dropped is back.
\<close>

definition lab_worker :: SubscriberWorker where
  "lab_worker =
     (let next = sweep_next \<lparr>io_write = (\<lambda>_. True), io_read = (\<lambda>_. True), io_search = (\<lambda>_. True)\<rparr> 0 (\<lambda>pk. Some pk)
            (\<lambda>ih. Inr (Encode \<lparr>ci_Version = 0, ci_Format = [], ci_Publisher = hex_EncodeToString ih, ci_GeneratedAt = 5, ci_Torrents = []\<rparr>))
      in next (Unfollow [2] (next (sweep_begin (Follow [2] [] (Follow [1] [] (NewSubscriberWorker \<lparr>ix_open = True, ix_docs = []\<rparr>)))))))"

lemma unfollowed_still_synced: "follows lab_worker = [([1], [])] \<and> imported (w_sub lab_worker) [2] = Some 5"
  by code_simp

text \<open>A follower that has the first snapshot and whose index has changed since, when the second is published.\<close>

definition lab_io :: bleve_io where "lab_io = \<lparr>io_write = (\<lambda>_. True), io_read = (\<lambda>_. True), io_search = (\<lambda>_. True)\<rparr>"

definition lab_ops :: "feed_op list" where
  "lab_ops = [FRefresh (lab_env 1 10 True), FSync lab_io 11 True, FLocal (lab_corpus 9)]"

definition lab_feed :: Feed where
  "lab_feed = fold (feed_step lab_rec_hash lab_info_hash (\<lambda>_. 1) lab_pk) lab_ops (feed_start lab_pk lab_publisher (lab_corpus 9))"

definition lab_refreshed :: "Publisher \<times> Outside" where
  "lab_refreshed = refreshOnce lab_rec_hash lab_info_hash (lab_env 2 20 True) (fd_pub lab_feed, fd_out lab_feed)"

definition lab_sync :: "SyncResult \<times> Subscriber \<times> SearchIndex" where
  "lab_sync = Sync lab_io 21 (o_pointer (snd lab_refreshed)) (fetch_payload (\<lambda>_. 1) (snd lab_refreshed)) lab_pk (fd_sub lab_feed) (fd_local lab_feed)"

lemma lab_start: "NewPublisher lab_pk lab_opts = Some lab_publisher"
  by (simp add: lab_publisher_def NewPublisher_def lab_opts_def)

lemma lab_corpus_ok: "index_ok (lab_corpus b)"
  by (auto simp: index_ok_def lab_corpus_def lab_doc_def Document_def Let_def hex_EncodeToString_def)

lemma lab_reads: "reads_ok lab_io"
  by (simp add: reads_ok_def lab_io_def)

lemma lab_local: "fd_local lab_feed = lab_corpus 9"
  by (simp add: lab_feed_def lab_ops_def feed_step_def)

text \<open>The run, evaluated once.\<close>

lemma lab_feed_run:
  "let f = lab_feed; r = refreshOnce lab_rec_hash lab_info_hash (lab_env 2 20 True) (fd_pub f, fd_out f) in
     o_pointer (snd r) = Some [20] \<and> lastIH (fd_sub f) lab_pk = Some [10] \<and> publishedCount (fst r) \<noteq> publishedCount (fd_pub f) \<and>
     no_collision lab_info_hash (fd_pub f) (fd_out f) (snd r) \<and> Build (p_opts (fd_pub f)) = DefaultBuildOptions \<and>
     snd (snd (Sync lab_io 21 (o_pointer (snd r)) (fetch_payload (\<lambda>_. 1) (snd r)) lab_pk (fd_sub f) (fd_local f))) \<noteq> lab_corpus 9"
  by code_simp

lemmas lab_facts = lab_feed_run [unfolded Let_def, folded lab_refreshed_def, folded lab_sync_def]




end
