(* ===== verification/Spec2Isabelle.thy ===== *)
theory Spec2Isabelle
  imports Snagg_Index Sync_Transfer Admission Dht_Aggregate Dht_Lookup Dht_Crawl Session_Runs Companion_Network
begin

text \<open>
  SwartzNet is a BitTorrent client with distributed keyword search.  Publishers sign keyword records;
  a publisher's records travel in two ways: as an index file that is itself distributed as a torrent
  (\<^verbatim>\<open>contracts/snagg\<close>), and record by record between peers, over an extension of the peer wire
  (\<^verbatim>\<open>contracts/ltepwire\<close>, \<^verbatim>\<open>internal/swarmsearch\<close>), where two peers find out what the other lacks by
  rateless set reconciliation (\<^verbatim>\<open>contracts/riblt\<close>).  The same extension carries live queries, which a
  node answers from its local index.  A third way is the DHT: a publisher stores, under each keyword
  of a torrent's name, an item that lists the torrents (\<^verbatim>\<open>internal/dhtindex\<close>); a searcher asks all the
  publishers it knows and remembers who returned what, so that the user's verdict on a hit raises or
  lowers their reputation (\<^verbatim>\<open>internal/reputation\<close>, \<^verbatim>\<open>internal/trust\<close>, \<^verbatim>\<open>internal/admission\<close>).  This
  development models all of these: the record and its signature, the index file from builder to
  reader, the reconciliation codec, the wire frames, the whole peer-wire engine, the DHT index, its
  crawler, the reputation of publishers, of the torrent engine (\<^verbatim>\<open>internal/engine\<close>) its download
  queue and the session that survives a restart, and the companion feed (\<^verbatim>\<open>internal/companion\<close>), by
  which a node publishes a snapshot of its own index for others to follow.

  \<^bold>\<open>Theories and code.\<close>
  \<^item> \<^verbatim>\<open>Prelude\<close>: bytes, big-endian integers, fixed-size arrays, list and ordering lemmas.  \<^verbatim>\<open>Hex\<close>, \<^verbatim>\<open>Utf8\<close>:
    what the code uses of the standard library on hex strings and on runes.
  \<^item> \<^verbatim>\<open>Signed_Record\<close>: \<^verbatim>\<open>contracts/record/record.go\<close> and \<^verbatim>\<open>contracts/sign/sign.go\<close>; identity, signed
    message, verification, proof of work; torrent signatures.
  \<^item> \<^verbatim>\<open>Riblt\<close>: \<^verbatim>\<open>contracts/riblt/riblt.go\<close>; encoder, decoder, peeling.
  \<^item> \<^verbatim>\<open>Snagg_Format\<close>, \<^verbatim>\<open>Snagg_Build\<close>, \<^verbatim>\<open>Snagg_Read\<close>, \<^verbatim>\<open>Snagg_Index\<close>: \<^verbatim>\<open>contracts/snagg\<close>; pages and trailer,
    the builder, the reader, and the theorems that connect them.
  \<^item> \<^verbatim>\<open>Ltepwire\<close>: \<^verbatim>\<open>contracts/ltepwire\<close>; service bits, the nine message types, their limits.
  \<^item> \<^verbatim>\<open>Swarm_Limits\<close>: \<^verbatim>\<open>misbehavior.go\<close>, \<^verbatim>\<open>ratelimit.go\<close>; bans and token buckets.
  \<^item> \<^verbatim>\<open>Record_Cache\<close>: \<^verbatim>\<open>records.go\<close>; the bounded record store and the contract of a record sink.
  \<^item> \<^verbatim>\<open>Sync_Session\<close>: \<^verbatim>\<open>sync_session.go\<close>; one reconciliation session.
  \<^item> \<^verbatim>\<open>Swarm_Protocol\<close>, \<^verbatim>\<open>Sync_Dispatch\<close>, \<^verbatim>\<open>Swarm_Query\<close>: \<^verbatim>\<open>protocol.go\<close>, \<^verbatim>\<open>ports.go\<close>, \<^verbatim>\<open>sync_dispatch.go\<close>,
    \<^verbatim>\<open>sync_start.go\<close>, \<^verbatim>\<open>handler.go\<close>, \<^verbatim>\<open>query.go\<close>; the engine's state as one record, every callback,
    handler and entry point as a function on it.
  \<^item> \<^verbatim>\<open>Swarm_Runs\<close>: any sequence of these steps, with any frames, and its invariant.
  \<^item> \<^verbatim>\<open>Swarm_Answers\<close>: who may answer a query, the merge of answers, what an answer discloses.
  \<^item> \<^verbatim>\<open>Sync_Transfer\<close>: the transfer of records from one node's cache to another's.
  \<^item> \<^verbatim>\<open>Atomic_File\<close>: a file that is saved by writing a temporary one and renaming it, step by step, with
    the faults that may stop it.
  \<^item> \<^verbatim>\<open>Reputation\<close>, \<^verbatim>\<open>Bloom\<close>, \<^verbatim>\<open>Hit_Sources\<close>: \<^verbatim>\<open>internal/reputation\<close>; the scores of publishers, the filter
    of infohashes known to be good, the table of who returned which hit.
  \<^item> \<^verbatim>\<open>Trust\<close>, \<^verbatim>\<open>Admission\<close>: \<^verbatim>\<open>internal/trust\<close>, \<^verbatim>\<open>internal/admission\<close>; the user's trust list, and which
    publishers a node takes up from anchors, crawls and endorsements.
  \<^item> \<^verbatim>\<open>Feedback\<close>: \<^verbatim>\<open>internal/engine/reputation.go\<close>, \<^verbatim>\<open>internal/daemon/confirm_flag.go\<close>; confirming and
    flagging a hit, over all of the above.
  \<^item> \<^verbatim>\<open>Token\<close>, \<^verbatim>\<open>Dht_Schema\<close>: \<^verbatim>\<open>contracts/token\<close>, \<^verbatim>\<open>contracts/dhtschema\<close>; keywords, DHT items, salts.
  \<^item> \<^verbatim>\<open>Dht_Publish\<close>: \<^verbatim>\<open>manifest.go\<close>, \<^verbatim>\<open>legacy_keyword.go\<close>, \<^verbatim>\<open>publisher.go\<close>, \<^verbatim>\<open>memory.go\<close>; the manifest of
    published keywords, the keyword backend and its worker, over any store, and the in-memory store.
  \<^item> \<^verbatim>\<open>Dht_Aggregate\<close>: \<^verbatim>\<open>aggregate.go\<close>; the backend that publishes one signed index file instead.
  \<^item> \<^verbatim>\<open>Dht_Lookup\<close>: \<^verbatim>\<open>lookup.go\<close>; the known indexers, a query to all of them, its merge and ranking, and
    sessions of queries and verdicts.
  \<^item> \<^verbatim>\<open>Dht_Crawl\<close>: \<^verbatim>\<open>crawler.go\<close>, \<^verbatim>\<open>sample.go\<close>; the bounded walk of the DHT, a step relation on its
    goroutines.
  \<^item> \<^verbatim>\<open>Download_Queue\<close>: \<^verbatim>\<open>queue.go\<close>, \<^verbatim>\<open>handle.go\<close>, \<^verbatim>\<open>files.go\<close> and parts of \<^verbatim>\<open>engine.go\<close> of \<^verbatim>\<open>internal/engine\<close>;
    handles, slots, promotion, file priorities, and the runs of all operations and goroutines.
  \<^item> \<^verbatim>\<open>Session_Store\<close>: \<^verbatim>\<open>session.go\<close>, \<^verbatim>\<open>restore.go\<close>; the session, its file, its writers, restoring it.
    \<^verbatim>\<open>Session_Runs\<close>: \<^verbatim>\<open>add.go\<close> and the ends of the operations of \<^verbatim>\<open>engine.go\<close>; their runs.
  \<^item> \<^verbatim>\<open>Local_Index\<close>: \<^verbatim>\<open>indexer.go\<close>, \<^verbatim>\<open>content.go\<close> of \<^verbatim>\<open>internal/indexer\<close>; documents, guarded writes, walks, deletion.
  \<^item> \<^verbatim>\<open>Companion_Feed\<close>: \<^verbatim>\<open>build.go\<close>, \<^verbatim>\<open>types.go\<close>, \<^verbatim>\<open>serialize.go\<close>, \<^verbatim>\<open>torrent.go\<close>, \<^verbatim>\<open>publisher.go\<close> of
    \<^verbatim>\<open>internal/companion\<close>; snapshots and their publisher.  \<^verbatim>\<open>Companion_Follow\<close>: \<^verbatim>\<open>subscriber.go\<close>,
    \<^verbatim>\<open>worker.go\<close>, and the engine's \<^verbatim>\<open>companion.go\<close>; fetch, sync, import, sweeps.  \<^verbatim>\<open>Companion_Network\<close>: both
    ends together.

  \<^bold>\<open>How the code is represented.\<close>  Structs are records, errors are values of a sum type, machine
  integers are words where they wrap.  Pointers that are shared (a session in the registry and in its
  pump) are positions in a store.  Go maps are association lists or functions; where the code ranges
  over a map, the list order stands for one of the orders Go may choose.  A mutex-protected method is
  one atomic step; a goroutine is a sequence of rounds that any other step may come between.  The clock
  is an argument, in nanoseconds (in the index and the companion feed, seconds).  Frames handed to the transport, replies and calls of the sinks are
  logs in the state.  Floating point is exact rational or real arithmetic.  A JSON file is the document
  it holds, or one that does not parse.

  \<^bold>\<open>Parameters.\<close>  Hashes, ed25519 and the bencode library are not part of the program: they are the
  records \<open>crypto\<close>, \<open>codec\<close>, \<open>wire\<close> and \<open>dht_codec\<close>, arguments of the definitions that call them, as are
  the Unicode tables (\<open>unicode\<close>) and a store of DHT items (\<open>dht_store\<close>), the hashes of a snapshot's records and torrent, and which calls of the full-text engine
  succeed (\<open>bleve_io\<close>).  What a theorem
  needs of them (a signature verifies under its key, what the library marshals it unmarshals) is a
  named hypothesis of that theorem, and its witness instantiates them with concrete functions.

  \<^bold>\<open>What is shown.\<close>  For the index: encoders and decoders invert each other, no input makes a decoder
  panic, a built file opens, verifies and answers prefix queries exactly, a query on a hostile file
  returns only verified records, and the builder terminates.  For reconciliation: a converged decoder
  reports exactly the difference, also when batches are reordered or repeated; sessions stay within
  their budgets.  For the engine, over all runs: the cache holds only verified records, frames go only
  to peers that advertised the extension, at most four pumps run per peer and none outlives the
  connection, answers to a query come only from the peers asked, once each; the merge equals a
  declarative reference; an answer respects the sharing policy; a request for records is answered in
  full.  For reputation: scores stay in the unit interval and fade, the filter forgets nothing, publishers
  that nobody vouched for cannot get each other admitted, a flag reaches exactly the untrusted
  publishers the hit is attributed to, and in a session of searches and verdicts nobody is flagged for
  a hit it did not return.  For the DHT: manifests stay within the item size, what is published is found,
  the aggregate backend follows a set of pairs, and a query counts each publisher once; a crawl ends
  within its bounds and, below its limits, reaches everything reachable.  For the torrent engine: a queued
  torrent does not download, promotion keeps the order and the cap, a saved session is restored row by
  row, and no background writer brings a removed torrent back (when removals of one torrent do not
  overlap).  For the companion feed: an import never touches what the index holds from elsewhere, a
  follower that reaches a fresh snapshot takes over all it may, and the publisher seeds exactly the torrent
  it advertises.  Several lemmas record where the code falls short of its comments.

  \<^bold>\<open>Termination and bounds.\<close>  Loops are total functions with a measure; the search for a nonce and
  the builder's levels are \<open>partial_function (option)\<close> or fuelled, with theorems that they return; the
  crawl's steps decrease a measure.

  \<^bold>\<open>Not modelled.\<close>  Logging, deadlines and sleeps; the DHT network itself, the
  full-text engine under the local index, its search and the extractors, the rest of the engine around the BitTorrent library (its
  construction and shutdown, seeding in place, file events), the HTTP interface, the daemon, the desktop
  interface and the command line: third-party libraries, the network and the operating system do their
  work, and the code hands values on.
\<close>

end
